(* ===== verification/Prelude.thy ===== *)
theory Prelude
  imports Main "HOL-Library.Word"
begin

text \<open>
  Vocabulary shared by every component of the Laureline firmware model.

  \<^item> Machine integers: C's fixed-width unsigned types are words of the same width; C's
    \<open>int\<close> is the mathematical \<open>int\<close> where the component's bounds lemma shows that
    no 32-bit overflow can happen, and a word otherwise.
  \<^item> Failure: \<open>ASSERT\<close> and \<open>HALT\<close> of \<open>lib/misc_macros.h\<close> stop the processor, which is
    the value \<open>Inl Halt\<close>; an access outside an array \<open>a\<close> is undefined behaviour
    in C, which is the value \<open>Inl (Oob ''a'')\<close>; a conversion of a floating-point
    value outside the range of its integer type is undefined too, \<open>Inl (Undef _)\<close>; a
    loop that polls hardware and has used up the readings given to it is \<open>Inl Fuel\<close>.
    A theorem that a result is an
    \<open>Inr\<close> therefore also says that no assertion fails and that no access leaves
    its array.
  \<^item> \<open>cdiv\<close> and \<open>cmod\<close> are C's division and remainder on \<open>int\<close>, which truncate
    towards zero.
\<close>

unbundle bit_operations_syntax

section \<open>Types\<close>

type_synonym u8 = "8 word"
type_synonym u16 = "16 word"
type_synonym u32 = "32 word"
type_synonym u64 = "64 word"

datatype fault = Halt | Oob string | Undef string | Fuel

type_synonym 'a res = "fault + 'a"

section \<open>Sequencing of computations that may fail\<close>

definition rbind :: "'a res \<Rightarrow> ('a \<Rightarrow> 'b res) \<Rightarrow> 'b res" where
  "rbind m k = (case m of Inl e \<Rightarrow> Inl e | Inr x \<Rightarrow> k x)"

definition ASSERT :: "bool \<Rightarrow> unit res" where
  "ASSERT b = (if b then Inr () else Inl Halt)"

definition rd :: "string \<Rightarrow> 'a list \<Rightarrow> nat \<Rightarrow> 'a res" where
  "rd name xs i = (if i < length xs then Inr (xs ! i) else Inl (Oob name))"

definition wr :: "string \<Rightarrow> 'a list \<Rightarrow> nat \<Rightarrow> 'a \<Rightarrow> 'a list res" where
  "wr name xs i v = (if i < length xs then Inr (xs[i := v]) else Inl (Oob name))"

named_theorems res_simps \<open>evaluation of computations that may fail\<close>

lemma rbind_simps [simp]:
  "rbind (Inl e) k = Inl e"
  "rbind (Inr x) k = k x"
  by (simp_all add: rbind_def)

lemma rbind_eq_Inr [simp]:
  "rbind m k = Inr y \<longleftrightarrow> (\<exists>x. m = Inr x \<and> k x = Inr y)"
  by (cases m) auto

lemma rbind_eq_Inl:
  "rbind m k = Inl e \<longleftrightarrow> m = Inl e \<or> (\<exists>x. m = Inr x \<and> k x = Inl e)"
  by (cases m) auto

lemma rbind_assoc: "rbind (rbind m k) h = rbind m (\<lambda>x. rbind (k x) h)"
  by (cases m) auto

lemma ASSERT_True [simp]: "ASSERT True = Inr ()"
  and ASSERT_eq_Inr [simp]: "ASSERT b = Inr u \<longleftrightarrow> b"
  and ASSERT_eq_Inl [simp]: "ASSERT b = Inl e \<longleftrightarrow> \<not> b \<and> e = Halt"
  by (auto simp: ASSERT_def)

lemma rbind_ASSERT: "b \<Longrightarrow> rbind (ASSERT b) k = k ()"
  by simp

lemma rd_in [res_simps]: "i < length xs \<Longrightarrow> rd n xs i = Inr (xs ! i)"
  and rd_out [res_simps]: "\<not> i < length xs \<Longrightarrow> rd n xs i = Inl (Oob n)"
  and rd_eq_Inr: "rd n xs i = Inr v \<longleftrightarrow> i < length xs \<and> v = xs ! i"
  and rd_eq_Inl: "rd n xs i = Inl e \<longleftrightarrow> \<not> i < length xs \<and> e = Oob n"
  by (auto simp: rd_def)

lemma wr_in [res_simps]: "i < length xs \<Longrightarrow> wr n xs i v = Inr (xs[i := v])"
  and wr_out [res_simps]: "\<not> i < length xs \<Longrightarrow> wr n xs i v = Inl (Oob n)"
  and wr_eq_Inr: "wr n xs i v = Inr ys \<longleftrightarrow> i < length xs \<and> ys = xs[i := v]"
  and wr_eq_Inl: "wr n xs i v = Inl e \<longleftrightarrow> \<not> i < length xs \<and> e = Oob n"
  by (auto simp: wr_def)

section \<open>C division\<close>

definition cdiv :: "int \<Rightarrow> int \<Rightarrow> int" where
  "cdiv a b = sgn a * sgn b * (\<bar>a\<bar> div \<bar>b\<bar>)"

definition cmod :: "int \<Rightarrow> int \<Rightarrow> int" where
  "cmod a b = a - b * cdiv a b"

lemma cdiv_nonneg [simp]: "0 \<le> a \<Longrightarrow> 0 < b \<Longrightarrow> cdiv a b = a div b"
  by (cases "a = 0") (simp_all add: cdiv_def)

lemma cmod_nonneg [simp]: "0 \<le> a \<Longrightarrow> 0 < b \<Longrightarrow> cmod a b = a mod b"
  by (simp add: cmod_def minus_mult_div_eq_mod)

lemma div_pred:
  assumes "0 < (k::int)"
  shows "y div k = (y - 1) div k + (if y mod k = 0 then 1 else 0)"
proof -
  let ?q = "(y - 1) div k" and ?r = "(y - 1) mod k"
  have y: "y - 1 = k * ?q + ?r" by simp
  have r: "0 \<le> ?r" "?r < k" using assms by simp_all
  show ?thesis
  proof (cases "?r + 1 = k")
    case True
    have "y = k * (?q + 1) + 0" using y unfolding distrib_left using True by linarith
    then have "y div k = ?q + 1" "y mod k = 0"
      using assms int_div_pos_eq int_mod_pos_eq by blast+
    then show ?thesis by simp
  next
    case False
    have "y = k * ?q + (?r + 1)" using y by linarith
    moreover have "0 \<le> ?r + 1" "?r + 1 < k" using r False by simp_all
    ultimately have "y div k = ?q" "y mod k = ?r + 1"
      using int_div_pos_eq int_mod_pos_eq by blast+
    with r show ?thesis by simp
  qed
qed

section \<open>Words\<close>

lemma sint_eq_uint_small:
  "uint (w::'a::len word) < 2 ^ (LENGTH('a) - 1) \<Longrightarrow> sint w = uint w"
proof -
  assume "uint w < 2 ^ (LENGTH('a) - 1)"
  moreover have "- (2 ^ (LENGTH('a) - 1)) \<le> uint w"
    by (rule order_trans [of _ 0]) simp_all
  ultimately show ?thesis by (simp only: sint_uint signed_take_bit_int_eq_self One_nat_def)
qed

lemma uint_word_of_int_id:
  "0 \<le> x \<Longrightarrow> x < 2 ^ LENGTH('a) \<Longrightarrow> uint (word_of_int x :: 'a::len word) = x"
  by (simp add: uint_word_of_int)

lemma unat_le_iff_uint: "unat (w::'a::len word) \<le> n \<longleftrightarrow> uint w \<le> int n"
  by (metis of_nat_le_iff of_nat_unat)

lemma of_nat_le_iff_word:
  assumes "x < 2 ^ LENGTH('a)" "y < 2 ^ LENGTH('a)"
  shows "(of_nat x :: 'a::len word) \<le> of_nat y \<longleftrightarrow> x \<le> y"
  using assms by (simp add: word_le_nat_alt unsigned_of_nat take_bit_nat_eq_self)

lemma ucast_of_nat_small:
  "n < 2 ^ LENGTH('a) \<Longrightarrow> ucast (of_nat n :: 'a::len word) = (of_nat n :: 'b::len word)"
  by (simp add: unsigned_of_nat take_bit_nat_eq_self)

end
