(* ===== verification/Epoch.thy ===== *)
theory Epoch
  imports Prelude
begin

text \<open>
  The calendar of \<open>src/src/epoch.c\<close>: proleptic Gregorian dates, their ordinals
  (1 January of year 1 is day 1), and the conversion to and from NTP seconds.
  The functions keep the names of the C functions. All intermediate C \<open>int\<close> values
  fit in 32 bits for every argument the callers can pass (a 16-bit year, a 32-bit
  ordinal), so C's \<open>int\<close> is \<open>int\<close> here; the 64-bit results are words.
\<close>

section \<open>Tables and day counts\<close>

definition NTP_EPOCH_ORDINAL :: int where "NTP_EPOCH_ORDINAL = 693596"
definition NTP_GPS_EPOCH :: u64 where "NTP_GPS_EPOCH = 2524953600"
definition DI4Y :: int where "DI4Y = 1461"
definition DI100Y :: int where "DI100Y = 36524"
definition DI400Y :: int where "DI400Y = 146097"

definition days_in_month_tbl :: "int list" where
  "days_in_month_tbl = [0, 31, 28, 31, 30, 31, 30, 31, 31, 30, 31, 30, 31]"

definition days_before_month_tbl :: "int list" where
  "days_before_month_tbl = [0, 0, 31, 59, 90, 120, 151, 181, 212, 243, 273, 304, 334]"

definition is_leap :: "int \<Rightarrow> bool" where
  "is_leap year \<longleftrightarrow> cmod year 4 = 0 \<and> (cmod year 100 \<noteq> 0 \<or> cmod year 400 = 0)"

definition days_in_month :: "int \<Rightarrow> int \<Rightarrow> int res" where
  "days_in_month year month =
     rbind (ASSERT (month \<ge> 1)) (\<lambda>_.
     rbind (ASSERT (month \<le> 12)) (\<lambda>_.
     if month = 2 \<and> is_leap year then Inr 29
     else rd ''_days_in_month'' days_in_month_tbl (nat month)))"

definition days_before_month :: "int \<Rightarrow> nat \<Rightarrow> int res" where
  "days_before_month year month =
     rbind (rd ''_days_before_month'' days_before_month_tbl month) (\<lambda>days.
     Inr (if month > 2 \<and> is_leap year then days + 1 else days))"

definition days_before_year :: "int \<Rightarrow> int" where
  "days_before_year year =
     (let y = year - 1 in y * 365 + cdiv y 4 - cdiv y 100 + cdiv y 400)"

section \<open>Ordinal to date\<close>

definition month_and_day :: "int \<Rightarrow> bool \<Rightarrow> int \<Rightarrow> (int \<times> int) res" where
  "month_and_day year leapyear n =
     (let month = drop_bit 5 (n + 50) in
      rbind (rd ''_days_before_month'' days_before_month_tbl (nat month)) (\<lambda>pre.
      let preceding = pre + (if month > 2 \<and> leapyear then 1 else 0) in
      rbind (if preceding > n
             then rbind (days_in_month year (month - 1)) (\<lambda>dim.
                  Inr (month - 1, preceding - dim))
             else Inr (month, preceding)) (\<lambda>(month, preceding).
      let n = n - preceding in
      rbind (ASSERT (0 \<le> n)) (\<lambda>_.
      rbind (days_in_month year month) (\<lambda>dim.
      rbind (ASSERT (n < dim)) (\<lambda>_.
      Inr (month, n + 1)))))))"

definition ord_to_ymd :: "int \<Rightarrow> (int \<times> int \<times> int) res" where
  "ord_to_ymd ordinal =
     rbind (ASSERT (ordinal \<ge> 1)) (\<lambda>_.
     let ordinal = ordinal - 1;
         n400 = cdiv ordinal DI400Y;
         n = cmod ordinal DI400Y;
         year = n400 * 400 + 1;
         n100 = cdiv n DI100Y;
         n = cmod n DI100Y;
         n4 = cdiv n DI4Y;
         n = cmod n DI4Y;
         n1 = cdiv n 365;
         n = cmod n 365;
         year = year + (n100 * 100 + n4 * 4 + n1)
     in if n1 = 4 \<or> n100 = 4
        then rbind (ASSERT (n = 0)) (\<lambda>_. Inr (year - 1, 12, 31))
        else let leapyear = (n1 = 3 \<and> (n4 \<noteq> 24 \<or> n100 = 3)) in
          rbind (ASSERT (leapyear = is_leap year)) (\<lambda>_.
          rbind (month_and_day year leapyear n) (\<lambda>(month, day).
          Inr (year, month, day))))"

section \<open>NTP seconds\<close>

record tm =
  tm_sec :: int
  tm_min :: int
  tm_hour :: int
  tm_mday :: int
  tm_mon :: int
  tm_year :: int

definition datetime_to_epoch :: "u16 \<Rightarrow> u8 \<Rightarrow> u8 \<Rightarrow> u8 \<Rightarrow> u8 \<Rightarrow> u8 \<Rightarrow> u64 res" where
  "datetime_to_epoch year month day hour minute second =
     rbind (days_before_month (uint year) (unat month)) (\<lambda>dbm.
     let ordinal = days_before_year (uint year) + dbm + uint day - NTP_EPOCH_ORDINAL in
     Inr (word_of_int ordinal * 86400
          + word_of_int (uint hour * 3600 + uint minute * 60 + uint second)))"

definition gps_to_epoch :: "u16 \<Rightarrow> u32 \<Rightarrow> u64" where
  "gps_to_epoch wkn tow = NTP_GPS_EPOCH + ucast wkn * 604800 + ucast tow"

definition epoch_to_datetime :: "u64 \<Rightarrow> tm res" where
  "epoch_to_datetime time =
     (let tod = ucast (time mod 86400) :: u32;
          ordinal = ucast (time div 86400 + word_of_int NTP_EPOCH_ORDINAL) :: u32;
          sec = tod mod 60;
          tod = tod div 60;
          mn = tod mod 60;
          tod = tod div 60;
          hour = tod mod 24
      in rbind (ord_to_ymd (sint ordinal)) (\<lambda>(year, mon, mday).
         Inr \<lparr>tm_sec = uint sec, tm_min = uint mn, tm_hour = uint hour,
              tm_mday = mday, tm_mon = mon, tm_year = year\<rparr>))"


section \<open>Reference calendar\<close>

text \<open>
  What the code is compared with: the length of a month, the set of valid dates, the
  ordinal of a date, and the successor of a date (the day after).
\<close>

definition month_len :: "int \<Rightarrow> int \<Rightarrow> int" where
  "month_len y m = (if m = 2 \<and> is_leap y then 29 else days_in_month_tbl ! nat m)"

definition month_start :: "int \<Rightarrow> int \<Rightarrow> int" where
  "month_start y m = days_before_month_tbl ! nat m + (if m > 2 \<and> is_leap y then 1 else 0)"

definition valid_date :: "int \<times> int \<times> int \<Rightarrow> bool" where
  "valid_date = (\<lambda>(y, m, d). 1 \<le> y \<and> 1 \<le> m \<and> m \<le> 12 \<and> 1 \<le> d \<and> d \<le> month_len y m)"

definition ymd_to_ord :: "int \<times> int \<times> int \<Rightarrow> int" where
  "ymd_to_ord = (\<lambda>(y, m, d). days_before_year y + month_start y m + d)"

definition next_day :: "int \<times> int \<times> int \<Rightarrow> int \<times> int \<times> int" where
  "next_day = (\<lambda>(y, m, d). if d < month_len y m then (y, m, d + 1)
                           else if m < 12 then (y, m + 1, 1) else (y + 1, 1, 1))"

lemmas tbl_defs = days_in_month_tbl_def days_before_month_tbl_def
lemmas cycle_defs = DI4Y_def DI100Y_def DI400Y_def

lemma is_leap_iff:
  "1 \<le> y \<Longrightarrow> is_leap y \<longleftrightarrow> y mod 4 = 0 \<and> (y mod 100 \<noteq> 0 \<or> y mod 400 = 0)"
  by (simp add: is_leap_def)

lemma days_before_year_eq:
  "1 \<le> y \<Longrightarrow>
   days_before_year y = (y - 1) * 365 + (y - 1) div 4 - (y - 1) div 100 + (y - 1) div 400"
  by (simp add: days_before_year_def Let_def)

lemma month_cases:
  assumes "1 \<le> m" "m \<le> (12::int)"
  obtains "m = 1" | "m = 2" | "m = 3" | "m = 4" | "m = 5" | "m = 6"
    | "m = 7" | "m = 8" | "m = 9" | "m = 10" | "m = 11" | "m = 12"
proof -
  have "m = 1 \<or> m = 2 \<or> m = 3 \<or> m = 4 \<or> m = 5 \<or> m = 6 \<or> m = 7 \<or> m = 8
    \<or> m = 9 \<or> m = 10 \<or> m = 11 \<or> m = 12"
    using assms by arith
  then show ?thesis using that by blast
qed

lemma days_in_month_eq:
  assumes "1 \<le> m" "m \<le> 12"
  shows "days_in_month y m = Inr (month_len y m)"
proof -
  have "nat m < 13" using assms by linarith
  then show ?thesis
    using assms by (simp add: days_in_month_def month_len_def rd_def days_in_month_tbl_def ASSERT_def)
qed

lemma days_before_month_eq:
  assumes "m \<le> 12"
  shows "days_before_month y m = Inr (month_start y (int m))"
  using assms by (simp add: days_before_month_def month_start_def rd_def days_before_month_tbl_def)

lemma month_start_step:
  assumes "1 \<le> m" "m < 12"
  shows "month_start y (m + 1) = month_start y m + month_len y m"
proof -
  have "m \<le> 12" using assms by simp
  from assms(1) this show ?thesis
    by (cases rule: month_cases)
       (use assms in \<open>simp_all add: month_start_def month_len_def tbl_defs\<close>)
qed

lemma month_start_bounds:
  assumes "1 \<le> m" "m \<le> 12"
  shows "0 \<le> month_start y m"
    and "month_start y m + month_len y m \<le> (if is_leap y then 366 else 365)"
    and "28 \<le> month_len y m" and "month_len y m \<le> 31"
  using assms(1,2)
  by (cases rule: month_cases; simp add: month_start_def month_len_def tbl_defs)+

lemma month_start_12:
  "month_start y 12 = (if is_leap y then 335 else 334)"
  "month_len y 12 = 31" "month_start y 1 = 0"
  by (simp_all add: month_start_def month_len_def tbl_defs)

subsection \<open>Decomposition of a year into cycles\<close>

lemma year_cycles:
  fixes a b c d :: int
  assumes "0 \<le> a" "0 \<le> b" "b \<le> 3" "0 \<le> c" "c \<le> 24" "0 \<le> d" "d \<le> 3"
  defines "y \<equiv> 400 * a + 100 * b + 4 * c + d + 1"
  shows days_before_year_cycles: "days_before_year y = 146097 * a + 36524 * b + 1461 * c + 365 * d"
    and is_leap_cycles: "is_leap y \<longleftrightarrow> d = 3 \<and> (c \<noteq> 24 \<or> b = 3)"
proof -
  have "(y - 1) div 4 = 100 * a + 25 * b + c" "(y - 1) div 100 = 4 * a + b" "(y - 1) div 400 = a"
    using assms by (auto simp: y_def)
  moreover have y: "1 \<le> y" using assms by (simp add: y_def)
  ultimately show "days_before_year y = 146097 * a + 36524 * b + 1461 * c + 365 * d"
    by (simp add: days_before_year_eq) (simp add: y_def)
  have "y mod 4 = (d + 1) mod 4"
    using mod_mult_self2 [of "d + 1" 4 "100 * a + 25 * b + c"] by (simp add: y_def algebra_simps)
  then have "y mod 4 = 0 \<longleftrightarrow> d = 3" using assms by (cases "d = 3") auto
  moreover have "y mod 100 = (4 * c + d + 1) mod 100"
    using mod_mult_self2 [of "4 * c + d + 1" 100 "4 * a + b"] by (simp add: y_def algebra_simps)
  then have "d = 3 \<Longrightarrow> y mod 100 = 0 \<longleftrightarrow> c = 24"
    using assms by (cases "c = 24") auto
  moreover have "y mod 400 = (100 * b + 4 * c + d + 1) mod 400"
    using mod_mult_self2 [of "100 * b + 4 * c + d + 1" 400 a] by (simp add: y_def algebra_simps)
  then have "d = 3 \<Longrightarrow> c = 24 \<Longrightarrow> y mod 400 = 0 \<longleftrightarrow> b = 3"
    using assms by (cases "b = 3") auto
  ultimately show "is_leap y \<longleftrightarrow> d = 3 \<and> (c \<noteq> 24 \<or> b = 3)"
    using y by (auto simp: is_leap_iff)
qed

lemma days_before_year_Suc:
  assumes "1 \<le> y"
  shows "days_before_year (y + 1) = days_before_year y + (if is_leap y then 366 else 365)"
proof -
  define a b c where abc: "a = (y - 1) div 4" "b = (y - 1) div 100" "c = (y - 1) div 400"
  define p q r where pqr: "p \<longleftrightarrow> y mod 4 = 0" "q \<longleftrightarrow> y mod 100 = 0" "r \<longleftrightarrow> y mod 400 = 0"
  have "days_before_year (y + 1) = y * 365 + y div 4 - y div 100 + y div 400"
    using assms by (simp add: days_before_year_eq)
  also have "\<dots> = y * 365 + (a + of_bool p) - (b + of_bool q) + (c + of_bool r)"
    unfolding div_pred [of 4 y, simplified] div_pred [of 100 y, simplified]
      div_pred [of 400 y, simplified] abc pqr of_bool_def ..
  finally have new: "days_before_year (y + 1) = y * 365 + (a + of_bool p) - (b + of_bool q) + (c + of_bool r)" .
  have old: "days_before_year y = (y - 1) * 365 + a - b + c"
    using assms unfolding abc by (simp only: days_before_year_eq)
  have leap: "is_leap y \<longleftrightarrow> p \<and> (\<not> q \<or> r)" using assms by (simp add: is_leap_iff pqr)
  have "r \<Longrightarrow> q" "q \<Longrightarrow> p"
    unfolding pqr by (simp_all add: mod_eq_0_iff_dvd) (auto intro: dvd_trans)
  then show ?thesis
    unfolding new old leap by (cases p; cases q; cases r) simp_all
qed

lemma days_before_year_mono: "1 \<le> y \<Longrightarrow> y \<le> z \<Longrightarrow> days_before_year y \<le> days_before_year z"
proof -
  assume "y \<le> z" and "1 \<le> y"
  then show "days_before_year y \<le> days_before_year z"
  proof (induction z rule: int_ge_induct)
    case base
    then show ?case by simp
  next
    case (step z)
    then show ?case by (simp add: days_before_year_Suc)
  qed
qed


subsection \<open>Months within a year\<close>

lemma estimate_exact:
  assumes "1 \<le> m" "m \<le> 12" "month_start y m \<le> n" "n < month_start y m + month_len y m"
  shows "drop_bit 5 (n + 50) = m \<or> drop_bit 5 (n + 50) = m + 1 \<and> m < 12"
proof -
  have e: "drop_bit 5 (n + 50) = (n + 50) div 32" by (simp add: drop_bit_eq_div)
  show ?thesis unfolding e using assms(1,2)
    by (cases rule: month_cases)
       (use assms(3,4) in \<open>auto simp: month_start_def month_len_def tbl_defs split: if_splits\<close>)
qed

lemma estimate_in_table:
  assumes "0 \<le> n" "n < 366"
  shows "nat (drop_bit 5 (n + 50)) < 13" and "1 \<le> drop_bit 5 (n + 50)" "drop_bit 5 (n + 50) \<le> 12"
  using assms by (auto simp: drop_bit_eq_div)

lemma month_exists:
  assumes "0 \<le> n" "n < (if is_leap y then 366 else 365)"
  obtains m where "1 \<le> m" "m \<le> 12" "month_start y m \<le> n" "n < month_start y m + month_len y m"
proof -
  have "\<exists>m. 1 \<le> m \<and> m \<le> int k \<and> month_start y m \<le> n \<and> n < month_start y m + month_len y m"
    if "n < month_start y (int k) + month_len y (int k)" "1 \<le> k" "k \<le> 12" for k :: nat
    using that
  proof (induction k)
    case (Suc k)
    show ?case
    proof (cases "k = 0 \<or> month_start y (int (Suc k)) \<le> n")
      case True
      then have "month_start y (int (Suc k)) \<le> n"
        using assms(1) by (auto simp: month_start_12)
      with Suc.prems show ?thesis by (intro exI [of _ "int (Suc k)"]) simp
    next
      case False
      with Suc.prems month_start_step [of "int k" y]
      have "n < month_start y (int k) + month_len y (int k)" by (simp add: add.commute)
      with Suc.IH Suc.prems False obtain m where
        "1 \<le> m" "m \<le> int k" "month_start y m \<le> n" "n < month_start y m + month_len y m" by auto
      then show ?thesis by (intro exI [of _ m]) simp
    qed
  qed simp
  from this [of 12] assms(2) that show ?thesis by (cases "is_leap y") (auto simp: month_start_12)
qed

lemma month_and_day_correct:
  assumes "1 \<le> m" "m \<le> 12" "month_start y m \<le> n" "n < month_start y m + month_len y m"
  shows "month_and_day y (is_leap y) n = Inr (m, n - month_start y m + 1)"
proof -
  let ?e = "drop_bit 5 (n + 50)"
  have n: "0 \<le> n" "n < 366"
    using assms month_start_bounds [OF assms(1,2), of y] by (auto split: if_splits)
  note in_tbl = estimate_in_table [OF n]
  have pre: "rd ''_days_before_month'' days_before_month_tbl (nat ?e)
      = Inr (days_before_month_tbl ! nat ?e)"
    using in_tbl by (simp add: rd_def days_before_month_tbl_def)
  have unf: "month_and_day y (is_leap y) n =
      rbind (if month_start y ?e > n
             then rbind (days_in_month y (?e - 1)) (\<lambda>dim. Inr (?e - 1, month_start y ?e - dim))
             else Inr (?e, month_start y ?e)) (\<lambda>(m, p).
      rbind (ASSERT (0 \<le> n - p)) (\<lambda>_.
      rbind (days_in_month y m) (\<lambda>dim.
      rbind (ASSERT (n - p < dim)) (\<lambda>_. Inr (m, n - p + 1)))))"
    unfolding month_and_day_def Let_def pre rbind_simps month_start_def ..
  consider "?e = m" | "?e = m + 1" "m < 12" using estimate_exact [OF assms] by blast
  then show ?thesis
  proof cases
    case 1
    show ?thesis unfolding unf 1 using assms by (simp add: days_in_month_eq)
  next
    case 2
    show ?thesis
      unfolding unf 2(1) using assms 2(2) month_start_step [of m y] by (simp add: days_in_month_eq)
  qed
qed

subsection \<open>Correctness of the ordinal conversion\<close>

lemma ord_cycles:
  assumes "1 \<le> ordinal"
  obtains (last_day) y where "1 \<le> y" "is_leap y" "ordinal = days_before_year y + 366"
      "ord_to_ymd ordinal = Inr (y, 12, 31)"
  | (within) y n where "1 \<le> y" "0 \<le> n" "n < 365" "ordinal = days_before_year y + n + 1"
      "ord_to_ymd ordinal = rbind (month_and_day y (is_leap y) n) (\<lambda>(m, d). Inr (y, m, d))"
proof -
  define o' where "o' = ordinal - 1"
  define a r where ar: "a = o' div 146097" "r = o' mod 146097"
  define b r1 where br: "b = r div 36524" "r1 = r mod 36524"
  define c r2 where cr: "c = r1 div 1461" "r2 = r1 mod 1461"
  define d r3 where dr: "d = r2 div 365" "r3 = r2 mod 365"
  have o': "0 \<le> o'" using assms by (simp add: o'_def)
  have r: "0 \<le> a" "0 \<le> r" "r < 146097" "o' = 146097 * a + r" using o' by (simp_all add: ar)
  then have r1: "0 \<le> b" "b \<le> 4" "0 \<le> r1" "r1 < 36524" "r = 36524 * b + r1" by (simp_all add: br)
  then have r2: "0 \<le> c" "c \<le> 24" "0 \<le> r2" "r2 < 1461" "r1 = 1461 * c + r2" by (simp_all add: cr)
  then have r3: "0 \<le> d" "d \<le> 4" "0 \<le> r3" "r3 < 365" "r2 = 365 * d + r3" by (simp_all add: dr)
  let ?y = "400 * a + 100 * b + 4 * c + d + 1"
  have unf: "ord_to_ymd ordinal =
     (if d = 4 \<or> b = 4 then rbind (ASSERT (r3 = 0)) (\<lambda>_. Inr (?y - 1, 12, 31))
      else rbind (ASSERT ((d = 3 \<and> (c \<noteq> 24 \<or> b = 3)) = is_leap ?y)) (\<lambda>_.
           rbind (month_and_day ?y (d = 3 \<and> (c \<noteq> 24 \<or> b = 3)) r3) (\<lambda>(m, dd). Inr (?y, m, dd))))"
    using assms o' r r1 r2 r3
    by (simp add: ord_to_ymd_def cycle_defs Let_def flip: o'_def ar br cr dr)
       (simp add: algebra_simps)
  show ?thesis
  proof (cases "d = 4 \<or> b = 4")
    case True
    then have "r3 = 0" and "c = 24 \<Longrightarrow> b = 4 \<or> d \<noteq> 4" and b4: "b = 4 \<Longrightarrow> c = 0 \<and> d = 0"
      using r r1 r2 r3 by auto
    let ?z = "?y - 1"
    have "is_leap ?z \<and> days_before_year ?z + 366 = ordinal"
    proof (cases "b = 4")
      case True
      have "?z = 400 * a + 100 * 3 + 4 * 24 + 3 + 1" using True b4 by simp
      with year_cycles [of a 3 24 3] r r1 r2 r3 True b4 \<open>r3 = 0\<close> show ?thesis
        by (simp add: o'_def)
    next
      case False
      with \<open>d = 4 \<or> b = 4\<close> have d: "d = 4" and b: "b \<le> 3" using r1 by auto
      then have c: "c \<le> 23" using r1 r2 r3 \<open>r3 = 0\<close> by auto
      have "?z = 400 * a + 100 * b + 4 * c + 3 + 1" using d by simp
      with year_cycles [of a b c 3] r r1 r2 r3 b c d \<open>r3 = 0\<close> show ?thesis
        by (simp add: o'_def)
    qed
    moreover have "1 \<le> ?z" using True r r1 r2 r3 by auto
    ultimately show ?thesis
      using True \<open>r3 = 0\<close> unf by (intro last_day [of ?z]) auto
  next
    case False
    then have "b \<le> 3" "d \<le> 3" using r1 r3 by auto
    note yc = year_cycles [OF \<open>0 \<le> a\<close> \<open>0 \<le> b\<close> \<open>b \<le> 3\<close> \<open>0 \<le> c\<close> \<open>c \<le> 24\<close> \<open>0 \<le> d\<close> \<open>d \<le> 3\<close>]
    show ?thesis
    proof (rule within [of ?y r3])
      show "1 \<le> ?y" using r r1 r2 r3 by simp
      show "ordinal = days_before_year ?y + r3 + 1"
        using yc r r1 r2 r3 by (simp add: o'_def)
      show "ord_to_ymd ordinal = rbind (month_and_day ?y (is_leap ?y) r3) (\<lambda>(m, d). Inr (?y, m, d))"
        using False by (simp add: unf yc)
    qed (use r3 in simp_all)
  qed
qed

lemma ord_to_ymd_sound:
  assumes "1 \<le> n"
  shows "\<exists>dt. ord_to_ymd n = Inr dt \<and> valid_date dt \<and> ymd_to_ord dt = n"
  using assms
proof (cases rule: ord_cycles)
  case (last_day y)
  with month_start_12 [of y] show ?thesis
    by (intro exI [of _ "(y, 12, 31)"]) (simp add: valid_date_def ymd_to_ord_def)
next
  case (within y k)
  obtain m where m: "1 \<le> m" "m \<le> 12" "month_start y m \<le> k" "k < month_start y m + month_len y m"
    using within by (auto intro: month_exists [of k y])
  with within month_and_day_correct [OF m] show ?thesis
    by (intro exI [of _ "(y, m, k - month_start y m + 1)"]) (simp add: valid_date_def ymd_to_ord_def)
qed


lemma valid_ord_bounds:
  assumes "valid_date (y, m, d)"
  shows "days_before_year y < ymd_to_ord (y, m, d)"
    and "ymd_to_ord (y, m, d) \<le> days_before_year (y + 1)"
  using assms month_start_bounds [of m y] days_before_year_Suc [of y]
  by (auto simp: valid_date_def ymd_to_ord_def split: if_splits)

lemma next_day_valid: "valid_date dt \<Longrightarrow> valid_date (next_day dt)"
  using month_start_bounds(3)
  by (auto simp: valid_date_def next_day_def split: prod.splits) (smt (verit) month_start_bounds(3))+

lemma next_day_ord:
  assumes "valid_date dt"
  shows "ymd_to_ord (next_day dt) = ymd_to_ord dt + 1"
proof -
  obtain y m d where dt: "dt = (y, m, d)" by (cases dt)
  with assms have v: "1 \<le> y" "1 \<le> m" "m \<le> 12" "1 \<le> d" "d \<le> month_len y m"
    by (auto simp: valid_date_def)
  then consider "d < month_len y m" | "d = month_len y m" "m < 12" | "d = month_len y m" "m = 12"
    by linarith
  then show ?thesis
    using v month_start_step [of m y] days_before_year_Suc [of y] month_start_12 [of y]
    by cases (auto simp: dt next_day_def ymd_to_ord_def month_start_12 split: if_splits)
qed

lemma ymd_to_ord_mono_year:
  assumes "valid_date (y, m, d)" "valid_date (y', m', d')" "y < y'"
  shows "ymd_to_ord (y, m, d) < ymd_to_ord (y', m', d')"
  using valid_ord_bounds [OF assms(1)] valid_ord_bounds [OF assms(2)]
    days_before_year_mono [of "y + 1" y'] assms
  by (auto simp: valid_date_def)

lemma month_start_mono:
  assumes "1 \<le> m" "m < m'" "m' \<le> 12"
  shows "month_start y m + month_len y m \<le> month_start y m'"
proof -
  have "m + 1 \<le> m'" using assms by simp
  then show ?thesis using assms(1,3)
  proof (induction m' rule: int_ge_induct)
    case base
    then show ?case by (simp add: month_start_step)
  next
    case (step i)
    then show ?case
      using month_start_step [of i y] month_start_bounds(3) [of i y] by simp
  qed
qed

lemma ymd_to_ord_inj:
  assumes "valid_date dt" "valid_date dt'" "ymd_to_ord dt = ymd_to_ord dt'"
  shows "dt = dt'"
proof -
  obtain y m d y' m' d' where dt: "dt = (y, m, d)" "dt' = (y', m', d')" by (cases dt, cases dt')
  have "y = y'"
    using ymd_to_ord_mono_year assms unfolding dt by (metis less_irrefl not_less_iff_gr_or_eq)
  moreover from this have "m = m'"
    using assms month_start_mono [of m m' y] month_start_mono [of m' m y]
    by (auto simp: dt valid_date_def ymd_to_ord_def not_less_iff_gr_or_eq)
       (smt (verit))
  ultimately show ?thesis using assms by (auto simp: dt ymd_to_ord_def)
qed

lemma ord_to_ymd_complete:
  assumes "valid_date dt"
  shows "1 \<le> ymd_to_ord dt" and "ord_to_ymd (ymd_to_ord dt) = Inr dt"
proof -
  obtain y m d where dt: "dt = (y, m, d)" by (cases dt)
  have "days_before_year 1 \<le> days_before_year y"
    using assms by (intro days_before_year_mono) (auto simp: dt valid_date_def)
  then show o: "1 \<le> ymd_to_ord dt"
    using valid_ord_bounds [of y m d] assms by (simp add: dt days_before_year_eq)
  show "ord_to_ymd (ymd_to_ord dt) = Inr dt"
    using ord_to_ymd_sound [OF o] ymd_to_ord_inj [OF assms] by metis
qed


section \<open>The interface of a day numbering\<close>

text \<open>
  What the rest of the firmware needs of the calendar: a numbering of valid dates by
  integers from 1 on, with a successor. Everything about seconds follows from it.
\<close>

locale day_numbering =
  fixes to_ord :: "'d \<Rightarrow> int"
    and of_ord :: "int \<Rightarrow> 'd res"
    and valid :: "'d \<Rightarrow> bool"
    and succ :: "'d \<Rightarrow> 'd"
  assumes of_to: "valid d \<Longrightarrow> of_ord (to_ord d) = Inr d"
    and to_of: "1 \<le> n \<Longrightarrow> \<exists>d. of_ord n = Inr d \<and> valid d \<and> to_ord d = n"
    and valid_succ: "valid d \<Longrightarrow> valid (succ d)"
    and ord_succ: "valid d \<Longrightarrow> to_ord (succ d) = to_ord d + 1"
begin

lemma succ_iterate:
  "valid d \<Longrightarrow> valid ((succ ^^ n) d) \<and> to_ord ((succ ^^ n) d) = to_ord d + int n"
  by (induction n) (simp_all add: valid_succ ord_succ)

lemma of_ord_iterate: "valid d \<Longrightarrow> of_ord (to_ord d + int n) = Inr ((succ ^^ n) d)"
  using succ_iterate [of d n] of_to [of "(succ ^^ n) d"] by simp

lemma of_ord_inj:
  assumes "1 \<le> m" "1 \<le> n" "of_ord m = of_ord n"
  shows "m = n"
  using to_of [OF assms(1)] to_of [OF assms(2)] assms(3) by auto

lemma of_ord_seconds:
  assumes "valid d" "0 \<le> tod" "tod < 86400"
  shows "of_ord (((to_ord d - e) * 86400 + tod) div 86400 + e) = Inr d"
    and "((to_ord d - e) * 86400 + tod) mod 86400 = tod"
proof -
  have "((to_ord d - e) * 86400 + tod) div 86400 = to_ord d - e"
    using assms(2,3) by (simp add: div_add1_eq)
  then show "of_ord (((to_ord d - e) * 86400 + tod) div 86400 + e) = Inr d"
    using of_to [OF assms(1)] by simp
  show "((to_ord d - e) * 86400 + tod) mod 86400 = tod"
    using assms(2,3) by (metis add.commute mod_mult_self1 mod_pos_pos_trivial)
qed

lemma seconds_of_ord:
  assumes "1 \<le> t div 86400 + e"
  shows "\<exists>d. of_ord (t div 86400 + e) = Inr d \<and> valid d
           \<and> (to_ord d - e) * 86400 + t mod 86400 = t"
  using to_of [OF assms] by auto

end

interpretation cal: day_numbering ymd_to_ord ord_to_ymd valid_date next_day
  by unfold_locales
     (erule ord_to_ymd_complete ord_to_ymd_sound next_day_valid next_day_ord)+

section \<open>Seconds since 1900\<close>

definition tod_secs :: "int \<Rightarrow> int \<Rightarrow> int \<Rightarrow> int" where
  "tod_secs h mi s = h * 3600 + mi * 60 + s"

lemma ordinal_1900: "days_before_year 1900 = NTP_EPOCH_ORDINAL - 1"
  by (simp add: days_before_year_eq NTP_EPOCH_ORDINAL_def)

lemma days_before_month_unat:
  assumes "unat (month::u8) \<le> 12"
  shows "days_before_month y (unat month) = Inr (month_start y (uint month))"
  using days_before_month_eq [OF assms, of y] by simp

lemma datetime_to_epoch_eq:
  assumes "unat month \<le> 12"
  shows "datetime_to_epoch year month day hour minute second =
     Inr (word_of_int ((ymd_to_ord (uint year, uint month, uint day) - NTP_EPOCH_ORDINAL) * 86400
          + tod_secs (uint hour) (uint minute) (uint second)))"
  using assms
  by (simp add: datetime_to_epoch_def days_before_month_unat Let_def ymd_to_ord_def tod_secs_def
      flip: wi_hom_mult wi_hom_add)

lemma epoch_to_datetime_eq:
  assumes "uint t div 86400 + NTP_EPOCH_ORDINAL < 2 ^ 31"
  shows "epoch_to_datetime t =
     rbind (ord_to_ymd (uint t div 86400 + NTP_EPOCH_ORDINAL)) (\<lambda>(year, mon, mday).
       let tod = uint t mod 86400 in
       Inr \<lparr>tm_sec = tod mod 60, tm_min = tod div 60 mod 60, tm_hour = tod div 60 div 60 mod 24,
            tm_mday = mday, tm_mon = mon, tm_year = year\<rparr>)"
proof -
  let ?tod = "ucast (t mod 86400) :: u32"
  let ?ord = "ucast (t div 86400 + word_of_int NTP_EPOCH_ORDINAL) :: u32"
  have tod: "uint ?tod = uint t mod 86400"
    by (simp add: uint_up_ucast unsigned_ucast_eq uint_mod take_bit_int_eq_self_iff)
  have "uint ?ord = uint t div 86400 + NTP_EPOCH_ORDINAL"
    using assms pos_imp_zdiv_nonneg_iff [of 86400 "uint t"]
    by (simp add: unsigned_ucast_eq uint_div uint_word_ariths NTP_EPOCH_ORDINAL_def
        take_bit_int_eq_self_iff mod_pos_pos_trivial)
  then have "sint ?ord = uint t div 86400 + NTP_EPOCH_ORDINAL"
    using assms by (simp add: sint_eq_uint_small)
  with tod show ?thesis
    by (simp add: epoch_to_datetime_def Let_def uint_mod uint_div)
qed


lemma valid_date_ge_1900:
  assumes "valid_date (y, m, d)" "1900 \<le> y"
  shows "NTP_EPOCH_ORDINAL \<le> ymd_to_ord (y, m, d)"
  using valid_ord_bounds(1) [OF assms(1)] days_before_year_mono [of 1900 y] assms(2)
  by (simp add: ordinal_1900)

lemma valid_date_u16_bound:
  assumes "valid_date (y, m, d)" "y < 65536"
  shows "ymd_to_ord (y, m, d) < 2 ^ 25"
  using valid_ord_bounds(2) [OF assms(1)] days_before_year_mono [of "y + 1" 65536] assms
  by (simp add: days_before_year_eq valid_date_def)

lemma tod_secs_bounds:
  assumes "0 \<le> h" "h < 24" "0 \<le> mi" "mi < 60" "0 \<le> s" "s < 60"
  shows "0 \<le> tod_secs h mi s" "tod_secs h mi s < 86400"
    and "tod_secs h mi s mod 60 = s" "tod_secs h mi s div 60 mod 60 = mi"
    "tod_secs h mi s div 60 div 60 mod 24 = h"
proof -
  show "0 \<le> tod_secs h mi s" "tod_secs h mi s < 86400" using assms by (simp_all add: tod_secs_def)
  have e: "tod_secs h mi s = 60 * (60 * h + mi) + s" by (simp add: tod_secs_def)
  have d: "tod_secs h mi s div 60 = 60 * h + mi" using assms by (intro int_div_pos_eq [OF e]) simp_all
  show "tod_secs h mi s mod 60 = s" using assms by (intro int_mod_pos_eq [OF e]) simp_all
  show "tod_secs h mi s div 60 mod 60 = mi" "tod_secs h mi s div 60 div 60 mod 24 = h"
    unfolding d using assms by (simp_all add: div_add1_eq)
qed

lemma tod_secs_split:
  assumes "0 \<le> x" "x < 86400"
  shows "tod_secs (x div 60 div 60 mod 24) (x div 60 mod 60) (x mod 60) = x"
proof -
  have "x div 60 div 60 * 60 + x div 60 mod 60 = x div 60" "x div 60 * 60 + x mod 60 = x"
    by (rule div_mult_mod_eq)+
  moreover have "x div 60 div 60 mod 24 = x div 60 div 60" using assms by simp
  ultimately show ?thesis unfolding tod_secs_def by linarith
qed

lemma uint_datetime:
  assumes "valid_date (uint (year::u16), uint (month::u8), uint (day::u8))" "1900 \<le> uint year"
    and "hour < 24" "minute < 60" "second < (60::u8)"
  shows "\<exists>t. datetime_to_epoch year month day hour minute second = Inr t
     \<and> uint t = (ymd_to_ord (uint year, uint month, uint day) - NTP_EPOCH_ORDINAL) * 86400
                + tod_secs (uint hour) (uint minute) (uint second)"
proof -
  let ?o = "ymd_to_ord (uint year, uint month, uint day)"
  have m: "unat month \<le> 12" using assms(1) by (simp add: valid_date_def unat_le_iff_uint)
  have y: "uint year < 65536" using uint_lt2p [of year] by simp
  have tod: "0 \<le> tod_secs (uint hour) (uint minute) (uint second)"
    "tod_secs (uint hour) (uint minute) (uint second) < 86400"
    using assms(3-5) by (auto intro!: tod_secs_bounds simp: word_less_def)
  have o: "NTP_EPOCH_ORDINAL \<le> ?o" "?o < 2 ^ 25"
    using valid_date_ge_1900 [OF assms(1,2)] valid_date_u16_bound [OF assms(1) y] by simp_all
  show ?thesis
    unfolding datetime_to_epoch_eq [OF m]
    by (intro exI conjI, rule refl, rule uint_word_of_int_id)
       (use o tod in \<open>simp_all add: NTP_EPOCH_ORDINAL_def\<close>)
qed

section \<open>Properties\<close>

text \<open>
  C1. The ordinal conversion is the calendar: for every \<open>n\<close>, \<open>ord_to_ymd (n + 1)\<close>
  fails none of its assertions, leaves none of its tables and returns the date reached
  from 1 January of year 1 by \<open>n\<close> days.
\<close>

theorem ord_to_ymd_counts_days:
  "ord_to_ymd (int n + 1) = Inr ((next_day ^^ n) (1, 1, 1))"
proof -
  have "valid_date (1, 1, 1)" "ymd_to_ord (1, 1, 1) = 1"
    by (simp_all add: valid_date_def ymd_to_ord_def month_len_def month_start_def tbl_defs
        days_before_year_eq)
  then show ?thesis using cal.of_ord_iterate [of "(1, 1, 1)" n] by (simp add: add.commute)
qed

text \<open>
  C12. Round trip: a valid civil date and time from 1900 on, encoded as NTP seconds by
  \<open>datetime_to_epoch\<close> and decoded by \<open>epoch_to_datetime\<close>, comes back field by field.
\<close>

theorem datetime_epoch_roundtrip:
  assumes "valid_date (uint year, uint month, uint day)" "1900 \<le> uint year"
    and "hour < 24" "minute < 60" "second < 60"
  shows "rbind (datetime_to_epoch year month day hour minute second) epoch_to_datetime =
     Inr \<lparr>tm_sec = uint second, tm_min = uint minute, tm_hour = uint hour,
          tm_mday = uint day, tm_mon = uint month, tm_year = uint year\<rparr>"
proof -
  let ?d = "(uint year, uint month, uint day)"
  let ?tod = "tod_secs (uint hour) (uint minute) (uint second)"
  obtain t where t: "datetime_to_epoch year month day hour minute second = Inr t"
    "uint t = (ymd_to_ord ?d - NTP_EPOCH_ORDINAL) * 86400 + ?tod"
    using uint_datetime [OF assms] by blast
  have tod: "0 \<le> ?tod" "?tod < 86400" "?tod mod 60 = uint second" "?tod div 60 mod 60 = uint minute"
    "?tod div 60 div 60 mod 24 = uint hour"
    using assms(3-5) by (auto intro!: tod_secs_bounds simp: word_less_def)
  have "ymd_to_ord ?d < 2 ^ 25"
    using valid_date_u16_bound [OF assms(1)] uint_lt2p [of year] by simp
  then have "uint t div 86400 + NTP_EPOCH_ORDINAL < 2 ^ 31"
    using tod unfolding t(2) by (simp add: div_add1_eq)
  note secs = epoch_to_datetime_eq [OF this]
  note days = cal.of_ord_seconds [OF assms(1) tod(1,2), of NTP_EPOCH_ORDINAL]
  show ?thesis
    unfolding t(1) rbind_simps secs t(2) days prod.case Let_def tod ..
qed

theorem datetime_epoch_roundtrip_witness:
  "rbind (datetime_to_epoch 2016 2 29 23 59 58) epoch_to_datetime =
     Inr \<lparr>tm_sec = 58, tm_min = 59, tm_hour = 23, tm_mday = 29, tm_mon = 2, tm_year = 2016\<rparr>"
proof -
  have "valid_date (2016, 2, 29)"
    by (simp add: valid_date_def month_len_def is_leap_def)
  then have v: "valid_date (uint (2016::u16), uint (2::u8), uint (29::u8))" by simp
  show ?thesis
    using datetime_epoch_roundtrip [OF v, of 23 59 58] by (simp del: rbind_eq_Inr)
qed


text \<open>
Every 32-bit NTP seconds value (what \<open>log_write\<close> and the clock pass) decodes
  without a failed assertion to a valid date and time of day, and the date and time
  denote exactly that many seconds since 1900.
\<close>

theorem epoch_to_datetime_correct:
  assumes "t < 2 ^ 32"
  shows "\<exists>tm. epoch_to_datetime t = Inr tm
     \<and> valid_date (tm_year tm, tm_mon tm, tm_mday tm)
     \<and> 0 \<le> tm_hour tm \<and> tm_hour tm < 24 \<and> 0 \<le> tm_min tm \<and> tm_min tm < 60
     \<and> 0 \<le> tm_sec tm \<and> tm_sec tm < 60
     \<and> (ymd_to_ord (tm_year tm, tm_mon tm, tm_mday tm) - NTP_EPOCH_ORDINAL) * 86400
        + tod_secs (tm_hour tm) (tm_min tm) (tm_sec tm) = uint t"
proof -
  have b: "0 \<le> uint t div 86400" "uint t div 86400 < 50000"
    using assms by (simp_all add: word_less_def pos_imp_zdiv_nonneg_iff)
  have small: "uint t div 86400 + NTP_EPOCH_ORDINAL < 2 ^ 31"
    using b by (simp add: NTP_EPOCH_ORDINAL_def)
  obtain dt where dt: "ord_to_ymd (uint t div 86400 + NTP_EPOCH_ORDINAL) = Inr dt" "valid_date dt"
    "(ymd_to_ord dt - NTP_EPOCH_ORDINAL) * 86400 + uint t mod 86400 = uint t"
    using cal.seconds_of_ord [of "uint t" NTP_EPOCH_ORDINAL] b by (auto simp: NTP_EPOCH_ORDINAL_def)
  obtain y m d where ymd: "dt = (y, m, d)" by (cases dt)
  define x where "x = uint t mod 86400"
  define h mi sec where hms: "h = x div 60 div 60 mod 24" "mi = x div 60 mod 60" "sec = x mod 60"
  have x: "0 \<le> x" "x < 86400" by (simp_all add: x_def)
  have tod: "tod_secs h mi sec = x" unfolding hms by (rule tod_secs_split [OF x])
  have bounds: "0 \<le> h" "h < 24" "0 \<le> mi" "mi < 60" "0 \<le> sec" "sec < 60"
    unfolding hms by (rule pos_mod_sign pos_mod_bound, simp)+
  let ?tm = "\<lparr>tm_sec = sec, tm_min = mi, tm_hour = h, tm_mday = d, tm_mon = m, tm_year = y\<rparr>"
  have "epoch_to_datetime t = Inr ?tm"
    unfolding epoch_to_datetime_eq [OF small] dt(1) ymd rbind_simps prod.case Let_def hms x_def ..
  with dt(2,3) tod bounds show ?thesis
    unfolding ymd x_def by (intro exI [of _ ?tm]) simp
qed

theorem epoch_to_datetime_correct_witness:
  "(3686947200::u64) < 2 ^ 32 \<and> (\<exists>tm. epoch_to_datetime 3686947200 = Inr tm
     \<and> valid_date (tm_year tm, tm_mon tm, tm_mday tm))"
  using epoch_to_datetime_correct [of 3686947200] by (auto simp: word_less_def)

text \<open>
  The GPS epoch constant is right: GPS week \<open>w\<close> and second-of-week \<open>s\<close> are encoded
  as the NTP seconds of 6 January 1980, plus \<open>w\<close> weeks, plus \<open>s\<close> seconds, without wrap-around.
\<close>

theorem gps_to_epoch_is_1980_01_06:
  "\<exists>t0. datetime_to_epoch 1980 1 6 0 0 0 = Inr t0
     \<and> uint (gps_to_epoch wkn tow) = uint t0 + uint wkn * 7 * 86400 + uint tow"
proof -
  have "ymd_to_ord (1980, 1, 6) = 722820"
    by (simp add: ymd_to_ord_def days_before_year_eq month_start_def tbl_defs)
  then have "datetime_to_epoch 1980 1 6 0 0 0 = Inr 2524953600"
    by (simp add: datetime_to_epoch_eq tod_secs_def NTP_EPOCH_ORDINAL_def)
  moreover have "uint wkn * 604800 \<le> 65535 * 604800" "uint tow \<le> 4294967295"
    using uint_lt2p [of wkn] uint_lt2p [of tow] by simp_all
  then have "uint (gps_to_epoch wkn tow) = 2524953600 + uint wkn * 604800 + uint tow"
    by (simp add: gps_to_epoch_def NTP_GPS_EPOCH_def uint_word_ariths uint_up_ucast is_up
        mod_pos_pos_trivial)
  ultimately show ?thesis by simp
qed

text \<open>
  The month is used as a table index without a check: for every month above 12 (the
  GPS parsers pass on whatever byte the receiver sent), \<open>datetime_to_epoch\<close> reads
  outside \<open>_days_before_month\<close>; for every month up to 12 it does not.
\<close>

theorem datetime_to_epoch_oob:
  "datetime_to_epoch year month day hour minute second = Inl (Oob ''_days_before_month'')
   \<longleftrightarrow> month > 12"
proof (cases "unat month \<le> 12")
  case True
  then show ?thesis by (simp add: datetime_to_epoch_eq word_less_nat_alt)
next
  case False
  then show ?thesis
    by (simp add: datetime_to_epoch_def days_before_month_def rd_def days_before_month_tbl_def
        word_less_nat_alt)
qed

end
