(* ===== verification/Common.thy ===== *)
theory Common
  imports Prelude
begin

text \<open>
  The error codes of \<open>src/src/common.h\<close>, C \<open>int\<close>s that the drivers return, the flags of the
  configuration of \<open>src/src/eeprom.h\<close>, and \<open>memcpy\<close>.
\<close>

definition EERR_OK :: int where "EERR_OK = 0"
definition EERR_TIMEOUT :: int where "EERR_TIMEOUT = -1"
definition EERR_FAULT :: int where "EERR_FAULT = -2"
definition EERR_INVALID :: int where "EERR_INVALID = -3"
definition EERR_NACK :: int where "EERR_NACK = -4"
definition EERR_CRCFAIL :: int where "EERR_CRCFAIL = -5"
definition EERR_AGAIN :: int where "EERR_AGAIN = -6"

definition FLAG_PPSEN :: u32 where "FLAG_PPSEN = 1"
definition FLAG_GPSEXT :: u32 where "FLAG_GPSEXT = 2"
definition FLAG_GPSOUT :: u32 where "FLAG_GPSOUT = 4"
definition FLAG_NTPKEY_MD5 :: u32 where "FLAG_NTPKEY_MD5 = 8"
definition FLAG_NTPKEY_SHA1 :: u32 where "FLAG_NTPKEY_SHA1 = 16"
definition FLAG_HOLDOVER_TEST :: u32 where "FLAG_HOLDOVER_TEST = 32"
definition FLAG_TIMESCALE_GPS :: u32 where "FLAG_TIMESCALE_GPS = 64"

lemmas eerr_defs = EERR_OK_def EERR_TIMEOUT_def EERR_FAULT_def EERR_INVALID_def EERR_NACK_def EERR_CRCFAIL_def EERR_AGAIN_def

text \<open>\<open>memcpy\<close> of \<open>src\<close> into \<open>dst\<close> at \<open>i\<close>.\<close>

definition copy_into :: "u8 list \<Rightarrow> nat \<Rightarrow> u8 list \<Rightarrow> u8 list" where
  "copy_into dst i src = take i dst @ src @ drop (i + length src) dst"

lemma copy_into_nth:
  "i + length d \<le> length b \<Longrightarrow> j < length b \<Longrightarrow>
   copy_into b i d ! j = (if i \<le> j \<and> j < i + length d then d ! (j - i) else b ! j)"
  by (auto simp: copy_into_def nth_append)

lemma copy_into_length: "i + length d \<le> length b \<Longrightarrow> length (copy_into b i d) = length b"
  by (simp add: copy_into_def)

end
