(* ===== verification/Ppscapture.thy ===== *)
theory Ppscapture
  imports Common
begin

text \<open>
  The monotonic clock and PPS capture of \<open>src/src/ppscapture.c\<close>, and the status flags of
  \<open>src/src/status.c\<close>. The 16-bit timer TIM3 counts system clock ticks; its update
  interrupt extends it to 64 bits in \<open>mono_epoch\<close>, and its capture registers latch the
  counter at the GPS pulse. The values the handler reads from TIM3 are its arguments; the
  values it writes to TIM3 are fields of the state.
\<close>

section \<open>Status flags\<close>

definition STATUS_PPS_OK :: u16 where "STATUS_PPS_OK = 1"
definition STATUS_TOD_OK :: u16 where "STATUS_TOD_OK = 2"
definition STATUS_PLL_OK :: u16 where "STATUS_PLL_OK = 4"
definition STATUS_USED_QUANT :: u16 where "STATUS_USED_QUANT = 8"
definition STATUS_SETTLED :: u16 where "STATUS_SETTLED = STATUS_PPS_OK OR STATUS_PLL_OK"
definition STATUS_VALID :: u16 where "STATUS_VALID = STATUS_PPS_OK OR STATUS_TOD_OK"
definition STATUS_READY :: u16 where "STATUS_READY = STATUS_PLL_OK OR STATUS_TOD_OK"

definition set_status :: "u16 \<Rightarrow> u16 \<Rightarrow> u16" where
  "set_status m status_flags = status_flags OR m"

definition clear_status :: "u16 \<Rightarrow> u16 \<Rightarrow> u16" where
  "clear_status m status_flags = status_flags AND NOT m"

lemmas status_defs = STATUS_PPS_OK_def STATUS_TOD_OK_def STATUS_PLL_OK_def STATUS_USED_QUANT_def
  STATUS_SETTLED_def STATUS_VALID_def STATUS_READY_def

section \<open>State\<close>

definition MONO_PERIOD :: u64 where "MONO_PERIOD = 65536"

definition TIM_SR_UIF :: u16 where "TIM_SR_UIF = 1"
definition TIM_SR_CC1IF :: u16 where "TIM_SR_CC1IF = 2"
definition TIM_SR_CC3IF :: u16 where "TIM_SR_CC3IF = 8"

lemmas tim_defs = TIM_SR_UIF_def TIM_SR_CC1IF_def TIM_SR_CC3IF_def

record tim3 =
  tim_CR1 :: u16
  tim_PSC :: u16
  tim_ARR :: u16
  tim_CCMR1 :: u16
  tim_CCMR2 :: u16
  tim_CCER :: u16
  tim_DIER :: u16
  tim_SR :: u16

record mono =
  mono_epoch :: u64
  mono_capture :: u64
  sleep_epoch :: u64
  sleep_flag :: bool
  tim3_regs :: tim3

text \<open>The state before \<open>ppscapture_start\<close>: the C startup code clears it.\<close>

definition mono0 :: mono where
  "mono0 = \<lparr>mono_epoch = 0, mono_capture = 0, sleep_epoch = 0, sleep_flag = False,
     tim3_regs = \<lparr>tim_CR1 = 0, tim_PSC = 0, tim_ARR = 0, tim_CCMR1 = 0, tim_CCMR2 = 0,
       tim_CCER = 0, tim_DIER = 0, tim_SR = 0\<rparr>\<rparr>"

section \<open>Operations\<close>

definition ppscapture_start :: "bool \<Rightarrow> u32 \<Rightarrow> mono \<Rightarrow> mono res" where
  "ppscapture_start sem_created cfg_flags s =
     rbind (ASSERT sem_created) (\<lambda>_.
     Inr (s\<lparr>sleep_flag := False,
            mono_epoch := MONO_PERIOD,
            tim3_regs := \<lparr>tim_CR1 = 0 OR 1, tim_PSC = 0, tim_ARR = ucast (MONO_PERIOD - 1),
              tim_CCMR1 = 1, tim_CCMR2 = 1,
              tim_CCER = (if cfg_flags AND FLAG_GPSEXT \<noteq> 0 then 256 else 1),
              tim_DIER = TIM_SR_UIF OR TIM_SR_CC1IF OR TIM_SR_CC3IF,
              tim_SR = 0\<rparr>\<rparr>))"

definition tim3_update :: "mono \<Rightarrow> mono" where
  "tim3_update s =
     (let s = s\<lparr>mono_epoch := mono_epoch s + MONO_PERIOD\<rparr> in
      if sleep_epoch s \<noteq> 0 \<and> mono_epoch s \<ge> sleep_epoch s
      then s\<lparr>sleep_epoch := 0, sleep_flag := True\<rparr> else s)"

definition TIM3_IRQHandler :: "u16 \<Rightarrow> u16 \<Rightarrow> u16 \<Rightarrow> mono \<Rightarrow> mono" where
  "TIM3_IRQHandler sr ccr1 ccr3 s =
     (let s = s\<lparr>tim3_regs := (tim3_regs s)\<lparr>tim_SR := NOT sr\<rparr>\<rparr>;
          s = (if sr AND TIM_SR_UIF \<noteq> 0 then tim3_update s else s);
          capture = (\<lambda>ccr. s\<lparr>mono_capture :=
            (let c = mono_epoch s + ucast ccr in
             if sr AND TIM_SR_UIF \<noteq> 0 \<and> uint ccr > uint MONO_PERIOD div 2
             then c - MONO_PERIOD else c)\<rparr>)
      in if sr AND TIM_SR_CC1IF \<noteq> 0 then capture ccr1
         else if sr AND TIM_SR_CC3IF \<noteq> 0 then capture ccr3
         else s)"

text \<open>
  One round of the sampling loop of \<open>monotonic_now\<close> reads the counter twice and, when it
  goes round again, runs the interrupt handler; a \<open>sample\<close> holds these readings.
\<close>

record sample =
  smp_tmr1 :: u16
  smp_tmr2 :: u16
  smp_sr :: u16
  smp_ccr1 :: u16
  smp_ccr3 :: u16

fun monotonic_now :: "sample list \<Rightarrow> mono \<Rightarrow> (u64 \<times> mono) res" where
  "monotonic_now [] s = Inl Fuel"
| "monotonic_now (r # rs) s =
     (let ret = mono_epoch s in
      if smp_tmr2 r > smp_tmr1 r then Inr (ret + ucast (smp_tmr2 r), s)
      else monotonic_now rs (TIM3_IRQHandler (smp_sr r) (smp_ccr1 r) (smp_ccr3 r) s))"

definition monotonic_get_capture :: "mono \<Rightarrow> u64 \<times> mono" where
  "monotonic_get_capture s = (mono_capture s, s\<lparr>mono_capture := 0\<rparr>)"

text \<open>
  \<open>monotonic_sleep_until\<close> blocks on a binary semaphore: the first definition is its code
  up to \<open>xSemaphoreTake\<close>, the second the moment the semaphore lets the caller through.
\<close>

definition monotonic_sleep_until :: "u64 \<Rightarrow> mono \<Rightarrow> mono" where
  "monotonic_sleep_until mono_when s =
     s\<lparr>sleep_epoch := mono_when - mono_when mod MONO_PERIOD\<rparr>"

definition sleep_wakeup :: "mono \<Rightarrow> mono option" where
  "sleep_wakeup s = (if sleep_flag s then Some (s\<lparr>sleep_flag := False\<rparr>) else None)"

section \<open>Lemmas\<close>

lemma tim3_update_simps [simp]:
  "mono_epoch (tim3_update s) = mono_epoch s + MONO_PERIOD"
  "mono_capture (tim3_update s) = mono_capture s"
  by (simp_all add: tim3_update_def Let_def)

lemma tim3_update_iterate_epoch:
  "mono_epoch ((tim3_update ^^ n) s) = mono_epoch s + of_nat n * MONO_PERIOD"
  by (induction n) (simp_all add: algebra_simps)

lemma handler_epoch:
  "mono_epoch (TIM3_IRQHandler sr c1 c3 s)
     = (if sr AND TIM_SR_UIF \<noteq> 0 then mono_epoch s + MONO_PERIOD else mono_epoch s)"
  by (simp add: TIM3_IRQHandler_def Let_def)

lemma handler_capture1:
  assumes "sr AND TIM_SR_CC1IF \<noteq> 0"
  shows "mono_capture (TIM3_IRQHandler sr c1 c3 s) =
     (if sr AND TIM_SR_UIF \<noteq> 0
      then if uint c1 > 32768 then mono_epoch s + ucast c1
           else mono_epoch s + MONO_PERIOD + ucast c1
      else mono_epoch s + ucast c1)"
  using assms by (simp add: TIM3_IRQHandler_def Let_def MONO_PERIOD_def)

lemma sleep_iterate:
  assumes "\<not> sleep_flag s" "mono_epoch s = of_nat (65536 * a)"
    and "sleep_epoch s = of_nat (65536 * b)" "a + m < 2 ^ 48" "b < 2 ^ 48"
  shows "sleep_flag ((tim3_update ^^ m) s) \<longleftrightarrow> b \<noteq> 0 \<and> m \<noteq> 0 \<and> b \<le> a + m"
    and "sleep_epoch ((tim3_update ^^ m) s) =
           (if b \<noteq> 0 \<and> m \<noteq> 0 \<and> b \<le> a + m then 0 else sleep_epoch s)"
proof -
  have b0: "of_nat (65536 * b) = (0::u64) \<longleftrightarrow> b = 0"
  proof -
    have "of_nat (65536 * b) = (0::u64) \<longleftrightarrow> 2 ^ 64 dvd 65536 * b"
      by (simp only: word_of_nat_eq_0_iff) simp
    also have "\<dots> \<longleftrightarrow> b = 0" using assms(5) by (auto dest: dvd_imp_le)
    finally show ?thesis .
  qed
  have "(sleep_flag ((tim3_update ^^ m) s) \<longleftrightarrow> b \<noteq> 0 \<and> m \<noteq> 0 \<and> b \<le> a + m)
      \<and> sleep_epoch ((tim3_update ^^ m) s) =
           (if b \<noteq> 0 \<and> m \<noteq> 0 \<and> b \<le> a + m then 0 else of_nat (65536 * b))"
    using assms(4)
  proof (induction m)
    case 0
    then show ?case using assms by simp
  next
    case (Suc m)
    let ?t = "(tim3_update ^^ m) s"
    have ep: "mono_epoch ?t + MONO_PERIOD = of_nat (65536 * (a + Suc m))"
      by (simp add: tim3_update_iterate_epoch assms(2) MONO_PERIOD_def algebra_simps)
    have cmp: "of_nat (65536 * b) \<le> (of_nat (65536 * (a + Suc m)) :: u64) \<longleftrightarrow> b \<le> a + Suc m"
      using Suc.prems assms(5) by (subst of_nat_le_iff_word) (simp, simp, rule nat_mult_le_cancel1, simp)
    from Suc have IH: "sleep_flag ?t \<longleftrightarrow> b \<noteq> 0 \<and> m \<noteq> 0 \<and> b \<le> a + m"
      "sleep_epoch ?t = (if b \<noteq> 0 \<and> m \<noteq> 0 \<and> b \<le> a + m then 0 else of_nat (65536 * b))"
      by simp_all
    have upd: "sleep_flag (tim3_update ?t) \<longleftrightarrow>
        sleep_flag ?t \<or> (sleep_epoch ?t \<noteq> 0 \<and> sleep_epoch ?t \<le> mono_epoch ?t + MONO_PERIOD)"
      "sleep_epoch (tim3_update ?t) =
        (if sleep_epoch ?t \<noteq> 0 \<and> sleep_epoch ?t \<le> mono_epoch ?t + MONO_PERIOD
         then 0 else sleep_epoch ?t)"
      by (simp_all add: tim3_update_def Let_def)
    show ?case
      unfolding funpow.simps o_apply upd ep IH using cmp b0 by (simp split: if_splits)
  qed
  then show "sleep_flag ((tim3_update ^^ m) s) \<longleftrightarrow> b \<noteq> 0 \<and> m \<noteq> 0 \<and> b \<le> a + m"
    and "sleep_epoch ((tim3_update ^^ m) s) =
           (if b \<noteq> 0 \<and> m \<noteq> 0 \<and> b \<le> a + m then 0 else sleep_epoch s)"
    using assms(3) by simp_all
qed

section \<open>Properties\<close>

text \<open>
  C2. PPS timestamps are exact in spite of the race between the capture and the update
  interrupt. Let the handler run at true tick \<open>T\<close> with \<open>k\<close> counter periods already
  accounted for in \<open>mono_epoch\<close> and the update flag set exactly when one more period has
  elapsed, serviced within half a period; let the pulse have been latched at true tick
  \<open>tc\<close>, less than half a period ago. Then the recorded capture is \<open>tc\<close> on the monotonic
  time scale (which starts at one period), and the epoch has caught up with \<open>T\<close>.
\<close>

theorem pps_capture_exact:
  assumes "mono_epoch s = of_nat (65536 * (1 + k))"
    and "T div 65536 = (if sr AND TIM_SR_UIF \<noteq> 0 then k + 1 else k)"
    and "sr AND TIM_SR_UIF \<noteq> 0 \<longrightarrow> T mod 65536 < 32768"
    and "65536 * k \<le> tc" "tc \<le> T" "T < tc + 32768"
    and "sr AND TIM_SR_CC1IF \<noteq> 0" "ccr1 = of_nat (tc mod 65536)"
  shows "mono_capture (TIM3_IRQHandler sr ccr1 ccr3 s) = of_nat (65536 + tc)
     \<and> mono_epoch (TIM3_IRQHandler sr ccr1 ccr3 s) = of_nat (65536 * (1 + T div 65536))"
proof (rule conjI)
  define r where "r = tc mod 65536"
  have c: "uint ccr1 = int r" "ucast ccr1 = (of_nat r :: u64)"
    unfolding assms(8) r_def [symmetric] using mod_less_divisor [of 65536 tc]
    by (simp_all add: r_def ucast_of_nat_small unsigned_of_nat take_bit_nat_eq_self)
  show "mono_epoch (TIM3_IRQHandler sr ccr1 ccr3 s) = of_nat (65536 * (1 + T div 65536))"
    using assms(1,2) by (simp add: handler_epoch MONO_PERIOD_def)
  consider (same) "tc = 65536 * (T div 65536) + r" "sr AND TIM_SR_UIF \<noteq> 0 \<Longrightarrow> \<not> 32768 < r"
    | (before) "tc = 65536 * k + r" "sr AND TIM_SR_UIF \<noteq> 0" "32768 < r"
  proof -
    define q where "q = tc div 65536"
    have q: "tc = 65536 * q + r" "r < 65536" by (simp_all add: q_def r_def)
    have T: "T = 65536 * (T div 65536) + T mod 65536" "T mod 65536 < 65536" by simp_all
    have "k \<le> q" using div_le_mono [OF assms(4), of 65536] by (simp add: q_def)
    moreover have "q \<le> T div 65536" using div_le_mono [OF assms(5)] by (simp add: q_def)
    ultimately consider "q = T div 65536" | "q = k" "sr AND TIM_SR_UIF \<noteq> 0"
      using assms(2) by (cases "sr AND TIM_SR_UIF = 0") (simp_all, linarith)
    then show ?thesis
    proof cases
      case 1
      with q T assms(3,5) show ?thesis by (intro same) linarith+
    next
      case 2
      then have "T div 65536 = k + 1" using assms(2) by simp
      with 2 q T assms(6) have "tc = 65536 * k + r" "32768 < r" by linarith+
      with 2 show ?thesis by (intro before) simp_all
    qed
  qed
  then show "mono_capture (TIM3_IRQHandler sr ccr1 ccr3 s) = of_nat (65536 + tc)"
    using assms(1,2)
    by cases (auto simp: handler_capture1 [OF assms(7)] c MONO_PERIOD_def split: if_splits)
qed

theorem pps_capture_exact_witness:
  "mono_capture (TIM3_IRQHandler 3 65530 0 (mono0\<lparr>mono_epoch := 65536\<rparr>)) = 131066"
  using pps_capture_exact [of "mono0\<lparr>mono_epoch := 65536\<rparr>" 0 65540 3 65530 65530 0]
  by (simp add: tim_defs)

lemma sleep_until_wakes_count:
  assumes "\<not> sleep_flag s" "mono_epoch s = of_nat (65536 * a)"
    and "unat mono_when div 65536 = b" "a + m < 2 ^ 48"
  shows "sleep_flag ((tim3_update ^^ m) (monotonic_sleep_until mono_when s))
     \<longleftrightarrow> b \<noteq> 0 \<and> m \<noteq> 0 \<and> b \<le> a + m"
proof -
  have "mono_when - mono_when mod MONO_PERIOD = of_nat (65536 * b)"
  proof -
    have "mono_when - mono_when mod MONO_PERIOD = (mono_when div MONO_PERIOD) * MONO_PERIOD"
      by (rule minus_mod_eq_div_mult)
    also have "mono_when div MONO_PERIOD = of_nat b"
      by (simp add: word_arith_nat_div MONO_PERIOD_def assms(3))
    finally show ?thesis by (simp add: MONO_PERIOD_def)
  qed
  moreover have "b < 2 ^ 48" using assms(3) unsigned_less [of mono_when, where ?'a = nat] by simp
  ultimately show ?thesis
    using sleep_iterate(1) [of "monotonic_sleep_until mono_when s" a b m] assms(1,2,4)
    by (simp add: monotonic_sleep_until_def)
qed

lemma period_of:
  fixes w q r a m :: nat
  assumes "w = 65536 * q + r" "r < 65536"
  shows "q \<noteq> 0 \<and> m \<noteq> 0 \<and> q \<le> a + m \<longleftrightarrow> 65536 \<le> w \<and> 0 < m \<and> w < 65536 * (a + m) + 65536"
proof -
  have "w div 65536 = q" using assms by simp
  then have "q \<noteq> 0 \<longleftrightarrow> 65536 \<le> w" "q \<le> a + m \<longleftrightarrow> w < 65536 * (a + m) + 65536"
    using less_eq_div_iff_mult_less_eq [of 65536 1 w] less_mult_imp_div_less [of w "Suc (a + m)" 65536] div_less_iff_less_mult [of 65536 w "Suc (a + m)"]
    by (auto simp: mult.commute)
  then show ?thesis by simp
qed



text \<open>
  What \<open>monotonic_now\<close> returns when its first two counter readings increase: with the
  counter at true tick \<open>T\<close> at the second reading and \<open>k\<close> periods accounted for, the
  true monotonic time less one period for every period that has elapsed but whose update
  has not been serviced. The reading is exact when no update is pending, and one period
  too small when the counter rolled over before the first reading and the interrupt is
  still masked: the check for a rollover between the two readings does not see that case.
\<close>

theorem monotonic_now_value:
  assumes "smp_tmr1 r < smp_tmr2 r" "mono_epoch s = of_nat (65536 * (1 + k))"
    and "smp_tmr2 r = of_nat (T mod 65536)" "k \<le> T div 65536"
  shows "monotonic_now (r # rs) s =
     Inr (of_nat (65536 + T - 65536 * (T div 65536 - k)), s)"
proof -
  have T: "65536 + T - 65536 * (T div 65536 - k) = 65536 * (1 + k) + T mod 65536"
    using assms(4) minus_mod_eq_mult_div [of T 65536] by (simp add: diff_mult_distrib2)
  have "ucast (smp_tmr2 r) = (of_nat (T mod 65536) :: u64)"
    unfolding assms(3) by (rule ucast_of_nat_small) simp
  then show ?thesis
    unfolding T using assms(1,2) by simp
qed

theorem monotonic_now_value_witness:
  "monotonic_now [\<lparr>smp_tmr1 = 5, smp_tmr2 = 7, smp_sr = 1, smp_ccr1 = 0, smp_ccr3 = 0\<rparr>]
     (mono0\<lparr>mono_epoch := 65536\<rparr>) = Inr (65543, mono0\<lparr>mono_epoch := 65536\<rparr>)"
  using monotonic_now_value [of
      "\<lparr>smp_tmr1 = 5, smp_tmr2 = 7, smp_sr = 1, smp_ccr1 = 0, smp_ccr3 = 0\<rparr>"
      "mono0\<lparr>mono_epoch := 65536\<rparr>" 0 65543 "[]"]
  by simp

end
