(* ===== verification/Cfloat.thy ===== *)
theory Cfloat
  imports Prelude Complex_Main
begin

text \<open>
  C's \<open>float\<close> and \<open>double\<close>, as the firmware's software floating point computes them:
  IEEE 754 binary32 and binary64 with round-to-nearest, ties to even, gradual underflow
  and overflow to infinity. The two zeros are not distinguished (the firmware never
  divides by one). The C library's \<open>pow\<close> and \<open>sqrtf\<close> are parameters of the functions
  that call them.
\<close>

section \<open>Rounding\<close>

definition rne :: "real \<Rightarrow> int" where
  "rne y = (let f = \<lfloor>y\<rfloor>; d = y - of_int f in
            if d < 1 / 2 then f else if d > 1 / 2 then f + 1
            else if even f then f else f + 1)"

definition quantum :: "nat \<Rightarrow> int \<Rightarrow> real \<Rightarrow> int" where
  "quantum p emin x = max (\<lfloor>log 2 \<bar>x\<bar>\<rfloor> - int p + 1) emin"

definition rnd :: "nat \<Rightarrow> int \<Rightarrow> real \<Rightarrow> real" where
  "rnd p emin x =
     (if x = 0 then 0
      else of_int (rne (x / 2 powi quantum p emin x)) * 2 powi quantum p emin x)"

datatype fp = Fin real | FInf bool | FNaN

definition fl :: "nat \<Rightarrow> int \<Rightarrow> int \<Rightarrow> real \<Rightarrow> fp" where
  "fl p emin emax x =
     (let r = rnd p emin x in if \<bar>r\<bar> \<ge> 2 powi emax then FInf (r < 0) else Fin r)"

definition f64 :: "real \<Rightarrow> fp" where "f64 = fl 53 (-1074) 1024"
definition f32 :: "real \<Rightarrow> fp" where "f32 = fl 24 (-149) 128"

section \<open>Operations\<close>

text \<open>The first argument of an operation is its rounding: \<open>f64\<close> or \<open>f32\<close>.\<close>

fun fneg :: "fp \<Rightarrow> fp" where
  "fneg (Fin a) = Fin (- a)"
| "fneg (FInf s) = FInf (\<not> s)"
| "fneg FNaN = FNaN"

fun fadd :: "(real \<Rightarrow> fp) \<Rightarrow> fp \<Rightarrow> fp \<Rightarrow> fp" where
  "fadd rn (Fin a) (Fin b) = rn (a + b)"
| "fadd rn (FInf s) (Fin b) = FInf s"
| "fadd rn (Fin a) (FInf t) = FInf t"
| "fadd rn (FInf s) (FInf t) = (if s = t then FInf s else FNaN)"
| "fadd rn _ _ = FNaN"

definition fsub :: "(real \<Rightarrow> fp) \<Rightarrow> fp \<Rightarrow> fp \<Rightarrow> fp" where
  "fsub rn x y = fadd rn x (fneg y)"

fun fmul :: "(real \<Rightarrow> fp) \<Rightarrow> fp \<Rightarrow> fp \<Rightarrow> fp" where
  "fmul rn (Fin a) (Fin b) = rn (a * b)"
| "fmul rn (FInf s) (Fin b) = (if b = 0 then FNaN else FInf (s \<noteq> (b < 0)))"
| "fmul rn (Fin a) (FInf t) = (if a = 0 then FNaN else FInf (t \<noteq> (a < 0)))"
| "fmul rn (FInf s) (FInf t) = FInf (s \<noteq> t)"
| "fmul rn _ _ = FNaN"

fun fdiv :: "(real \<Rightarrow> fp) \<Rightarrow> fp \<Rightarrow> fp \<Rightarrow> fp" where
  "fdiv rn (Fin a) (Fin b) =
     (if b = 0 then (if a = 0 then FNaN else FInf (a < 0)) else rn (a / b))"
| "fdiv rn (FInf s) (Fin b) = FInf (s \<noteq> (b < 0))"
| "fdiv rn (Fin a) (FInf t) = Fin 0"
| "fdiv rn _ _ = FNaN"

fun fabs :: "fp \<Rightarrow> fp" where
  "fabs (Fin a) = Fin \<bar>a\<bar>"
| "fabs (FInf s) = FInf False"
| "fabs FNaN = FNaN"

fun flt :: "fp \<Rightarrow> fp \<Rightarrow> bool" where
  "flt (Fin a) (Fin b) = (a < b)"
| "flt (FInf s) (Fin b) = s"
| "flt (Fin a) (FInf t) = (\<not> t)"
| "flt (FInf s) (FInf t) = (s \<and> \<not> t)"
| "flt _ _ = False"

abbreviation fgt :: "fp \<Rightarrow> fp \<Rightarrow> bool" where "fgt x y \<equiv> flt y x"

fun feq :: "fp \<Rightarrow> fp \<Rightarrow> bool" where
  "feq (Fin a) (Fin b) = (a = b)"
| "feq (FInf s) (FInf t) = (s = t)"
| "feq _ _ = False"

fun fcast :: "(real \<Rightarrow> fp) \<Rightarrow> fp \<Rightarrow> fp" where
  "fcast rn (Fin a) = rn a"
| "fcast rn x = x"

definition trunc :: "real \<Rightarrow> int" where
  "trunc a = (if a < 0 then \<lceil>a\<rceil> else \<lfloor>a\<rfloor>)"

lemma trunc_of_int [simp]: "trunc (of_int n) = n"
  by (simp add: trunc_def)

lemma trunc_num [simp]: "trunc (numeral k) = numeral k" "trunc 0 = 0" "trunc 1 = 1"
  using trunc_of_int [of "numeral k"] trunc_of_int [of 0] trunc_of_int [of 1] by simp_all

fun f2i :: "int \<Rightarrow> int \<Rightarrow> fp \<Rightarrow> int res" where
  "f2i lo hi (Fin a) =
     (if lo \<le> trunc a \<and> trunc a \<le> hi then Inr (trunc a) else Inl (Undef ''float to integer''))"
| "f2i lo hi _ = Inl (Undef ''float to integer'')"

abbreviation f2int :: "fp \<Rightarrow> int res" where "f2int \<equiv> f2i (- (2 ^ 31)) (2 ^ 31 - 1)"

definition f32_of_bits :: "u32 \<Rightarrow> fp" where
  "f32_of_bits w =
     (let s = bit w 31; e = uint (drop_bit 23 w AND 255); m = uint (w AND 8388607);
          sg = (if s then -1 else 1 :: real) in
      if e = 255 then (if m = 0 then FInf s else FNaN)
      else if e = 0 then Fin (sg * of_int m * 2 powi (-149))
      else Fin (sg * of_int (8388608 + m) * 2 powi (e - 150)))"


section \<open>Rounding to an integer\<close>

lemma rne_of_int [simp]: "rne (of_int n) = n"
  by (simp add: rne_def)

lemma rne_error: "\<bar>of_int (rne y) - y\<bar> \<le> 1 / 2"
proof -
  have "rne y = \<lfloor>y\<rfloor> \<and> y - of_int \<lfloor>y\<rfloor> \<le> 1 / 2 \<or> rne y = \<lfloor>y\<rfloor> + 1 \<and> y - of_int \<lfloor>y\<rfloor> \<ge> 1 / 2"
    by (auto simp: rne_def Let_def)
  moreover have "of_int \<lfloor>y\<rfloor> \<le> y" "y < of_int \<lfloor>y\<rfloor> + 1" by linarith+
  ultimately show ?thesis by (auto simp: abs_le_iff)
qed

lemma rne_cases: "rne y = \<lfloor>y\<rfloor> \<or> rne y = \<lfloor>y\<rfloor> + 1"
  by (simp add: rne_def Let_def)

lemma rne_mono: "y \<le> z \<Longrightarrow> rne y \<le> rne z"
proof -
  assume yz: "y \<le> z"
  show ?thesis
  proof (cases "\<lfloor>y\<rfloor> = \<lfloor>z\<rfloor>")
    case True
    with yz show ?thesis by (simp add: rne_def Let_def)
  next
    case False
    with floor_mono [OF yz] have "\<lfloor>y\<rfloor> + 1 \<le> \<lfloor>z\<rfloor>" by simp
    with rne_cases [of y] rne_cases [of z] show ?thesis by linarith
  qed
qed

lemma rne_minus: "rne (- y) = - rne y"
proof (cases "y = of_int \<lfloor>y\<rfloor>")
  case True
  then have "rne y = \<lfloor>y\<rfloor>" by (metis rne_of_int)
  moreover have "rne (- y) = - \<lfloor>y\<rfloor>" using True by (metis of_int_minus rne_of_int)
  ultimately show ?thesis by simp
next
  case False
  then have f: "\<lfloor>- y\<rfloor> = - \<lfloor>y\<rfloor> - 1" by linarith
  have "of_int \<lfloor>y\<rfloor> \<le> y" "y < of_int \<lfloor>y\<rfloor> + 1" by linarith+
  then show ?thesis by (auto simp: rne_def Let_def f split: if_splits)
qed

lemma rne_le_int: "y \<le> of_int n \<Longrightarrow> rne y \<le> n"
  and rne_ge_int: "of_int n \<le> y \<Longrightarrow> n \<le> rne y"
  using rne_mono [of y "of_int n"] rne_mono [of "of_int n" y] by simp_all

section \<open>Rounding to a format\<close>

lemma log2_bounds:
  assumes "x \<noteq> 0"
  shows "2 powi \<lfloor>log 2 \<bar>x\<bar>\<rfloor> \<le> \<bar>x\<bar>" "\<bar>x\<bar> < 2 powi (\<lfloor>log 2 \<bar>x\<bar>\<rfloor> + 1)"
  using assms floor_log_eq_powr_iff [of "\<bar>x\<bar>" 2 "\<lfloor>log 2 \<bar>x\<bar>\<rfloor>"]
    powr_real_of_int' [of 2 "\<lfloor>log 2 \<bar>x\<bar>\<rfloor> + 1"]
  by (simp_all add: powr_real_of_int')

lemma quantum_mono:
  "0 < \<bar>x\<bar> \<Longrightarrow> \<bar>x\<bar> \<le> \<bar>y\<bar> \<Longrightarrow> quantum p emin x \<le> quantum p emin y"
proof -
  assume "0 < \<bar>x\<bar>" "\<bar>x\<bar> \<le> \<bar>y\<bar>"
  then have "\<lfloor>log 2 \<bar>x\<bar>\<rfloor> \<le> \<lfloor>log 2 \<bar>y\<bar>\<rfloor>" by (intro floor_mono) simp
  then show ?thesis unfolding quantum_def by linarith
qed

lemma rnd_0 [simp]: "rnd p emin 0 = 0"
  by (simp add: rnd_def)

lemma rnd_minus: "rnd p emin (- x) = - rnd p emin x"
  by (simp add: rnd_def quantum_def rne_minus)

lemma rnd_nonneg: "0 \<le> x \<Longrightarrow> 0 \<le> rnd p emin x"
  using rne_ge_int [of 0] by (simp add: rnd_def)

lemma rnd_binade_upper:
  assumes "x \<noteq> 0" "0 < p"
  shows "rnd p emin x \<le> 2 powi (quantum p emin x + int p)"
proof -
  let ?q = "quantum p emin x"
  have "\<lfloor>log 2 \<bar>x\<bar>\<rfloor> + 1 \<le> ?q + int p" by (simp add: quantum_def)
  then have "(2::real) powi (\<lfloor>log 2 \<bar>x\<bar>\<rfloor> + 1) \<le> 2 powi (?q + int p)"
    by (intro power_int_increasing) simp_all
  with log2_bounds(2) [OF assms(1)] have "x \<le> 2 powi (?q + int p)" by linarith
  then have "x / 2 powi ?q \<le> of_int (2 ^ p)"
    by (simp add: field_simps power_int_add)
  then have "rne (x / 2 powi ?q) \<le> 2 ^ p" by (rule rne_le_int)
  then have "of_int (rne (x / 2 powi ?q)) \<le> (2 ^ p :: real)"
    by (metis of_int_le_iff of_int_numeral of_int_power)
  then show ?thesis
    using assms by (simp add: rnd_def power_int_add mult_right_mono)
qed

lemma rnd_binade_lower:
  assumes "0 < x" "0 < p" "emin < quantum p emin x"
  shows "2 powi (quantum p emin x + int p - 1) \<le> rnd p emin x"
proof -
  let ?q = "quantum p emin x"
  have "?q + int p - 1 = \<lfloor>log 2 \<bar>x\<bar>\<rfloor>" using assms(3) by (simp add: quantum_def split: if_splits)
  with log2_bounds(1) [of x] assms(1) have "2 powi (?q + int p - 1) \<le> x" by simp
  moreover have "(2::real) powi (?q + int p - 1) = 2 ^ (p - 1) * 2 powi ?q"
    using assms(2) by (simp add: power_int_add [symmetric] power_int_def [of 2 "int (p - 1)"]
        of_nat_diff flip: power_int_of_nat) (simp add: algebra_simps)
  ultimately have "of_int (2 ^ (p - 1)) \<le> x / 2 powi ?q" by (simp add: field_simps)
  then have "2 ^ (p - 1) \<le> rne (x / 2 powi ?q)" by (rule rne_ge_int)
  then have "(2 ^ (p - 1) :: real) \<le> of_int (rne (x / 2 powi ?q))"
    by (metis of_int_le_iff of_int_numeral of_int_power)
  then show ?thesis
    using assms(1) \<open>2 powi (?q + int p - 1) = _\<close> by (simp add: rnd_def mult_right_mono)
qed

lemma rnd_mono_pos:
  assumes "0 < x" "x \<le> y" "0 < p"
  shows "rnd p emin x \<le> rnd p emin y"
proof -
  let ?q = "quantum p emin x" and ?r = "quantum p emin y"
  have le: "?q \<le> ?r" using assms by (intro quantum_mono) simp_all
  show ?thesis
  proof (cases "?q = ?r")
    case True
    have "rne (x / 2 powi ?q) \<le> rne (y / 2 powi ?q)"
      using assms by (intro rne_mono divide_right_mono) simp_all
    then show ?thesis using assms True by (simp add: rnd_def mult_right_mono)
  next
    case False
    have "emin \<le> ?q" by (simp add: quantum_def)
    with False le have "emin < ?r" by simp
    have "rnd p emin x \<le> 2 powi (?q + int p)" using assms by (intro rnd_binade_upper) simp_all
    also have "\<dots> \<le> 2 powi (?r + int p - 1)"
      using False le by (intro power_int_increasing) simp_all
    also have "\<dots> \<le> rnd p emin y"
      using assms \<open>emin < ?r\<close> by (intro rnd_binade_lower) simp_all
    finally show ?thesis .
  qed
qed

lemma rnd_mono: "x \<le> y \<Longrightarrow> 0 < p \<Longrightarrow> rnd p emin x \<le> rnd p emin y"
proof -
  assume xy: "x \<le> y" "0 < p"
  consider "0 < x" | "x \<le> 0" "0 \<le> y" | "y < 0" by linarith
  then show ?thesis
  proof cases
    case 1
    then show ?thesis using xy by (intro rnd_mono_pos) simp_all
  next
    case 2
    then show ?thesis using rnd_nonneg [of y p emin] rnd_nonneg [of "- x" p emin]
      by (simp add: rnd_minus)
  next
    case 3
    then show ?thesis using rnd_mono_pos [of "- y" "- x" p emin] xy by (simp add: rnd_minus)
  qed
qed

lemma rnd_dyadic_exact:
  assumes "\<bar>k\<bar> < 2 ^ p" "emin \<le> - int n"
  shows "rnd p emin (of_int k / 2 ^ n) = of_int k / 2 ^ n"
proof (cases "k = 0")
  case False
  let ?x = "of_int k / 2 ^ n :: real"
  let ?q = "quantum p emin ?x"
  have "\<bar>of_int k\<bar> < (2::real) ^ p" using assms(1) by (metis of_int_abs of_int_less_iff of_int_numeral of_int_power)
  then have "\<bar>of_int k\<bar> < (2::real) powr real p" by (simp add: powr_realpow)
  then have "log 2 \<bar>of_int k\<bar> < real p" using False by (subst log_less_iff) simp_all
  moreover have "log 2 \<bar>?x\<bar> = log 2 \<bar>of_int k\<bar> - real n" using False by (simp add: log_divide log_nat_power)
  ultimately have "\<lfloor>log 2 \<bar>?x\<bar>\<rfloor> - int p + 1 \<le> - int n" by linarith
  then have q: "?q \<le> - int n" using assms(2) by (simp add: quantum_def)
  define j where "j = nat (- ?q)"
  have j: "n \<le> j" using q by (simp add: j_def)
  have "2 powi ?q = inverse ((2::real) ^ j)"
    using q by (simp add: power_int_def j_def power_one_over field_simps)
  moreover have "(2::real) ^ j = 2 ^ (j - n) * 2 ^ n" using j by (simp flip: power_add)
  ultimately have "?x / 2 powi ?q = of_int (k * 2 ^ (j - n))" and c: "2 powi ?q * (2::real) ^ (j - n) = 1 / 2 ^ n"
    by (simp_all add: field_simps)
  then show ?thesis using False
    by (simp only: rnd_def rne_of_int) (simp add: mult.assoc mult.commute)
qed simp

section \<open>What the firmware relies on of a floating-point format\<close>

text \<open>
  A format promises that the integers that fit its significand are represented exactly,
  that rounding keeps order and sign symmetry, and that values of that size do not overflow. The
  bounds that the loop filter and the clock need follow from these laws alone; binary64
  and binary32 both satisfy them.
\<close>

locale fp_format =
  fixes rn :: "real \<Rightarrow> fp" and prec :: nat
  assumes rn_dyadic: "\<bar>k\<bar> < 2 ^ prec \<Longrightarrow> n \<le> prec \<Longrightarrow> rn (of_int k / 2 ^ n) = Fin (of_int k / 2 ^ n)"
    and rn_mono: "a \<le> b \<Longrightarrow> rn a = Fin r \<Longrightarrow> rn b = Fin s \<Longrightarrow> r \<le> s"
    and rn_minus: "rn (- a) = fneg (rn a)"
    and rn_finite: "\<bar>a\<bar> < 2 ^ prec \<Longrightarrow> \<exists>r. rn a = Fin r"
    and rn_not_nan: "rn a \<noteq> FNaN"
begin

lemma rn_int: "\<bar>k\<bar> < 2 ^ prec \<Longrightarrow> rn (of_int k) = Fin (of_int k)"
  using rn_dyadic [of k 0] by simp

lemma rn_bounds:
  assumes "of_int m \<le> a" "a \<le> of_int n" "\<bar>m\<bar> < 2 ^ prec" "\<bar>n\<bar> < 2 ^ prec"
  obtains r where "rn a = Fin r" "of_int m \<le> r" "r \<le> of_int n"
proof -
  have "\<bar>a\<bar> \<le> of_int (max \<bar>m\<bar> \<bar>n\<bar>)" using assms(1,2) by auto
  also have "\<dots> < 2 ^ prec"
    using assms(3,4) by (metis max_less_iff_conj of_int_less_iff of_int_numeral of_int_power)
  finally obtain r where "rn a = Fin r" using rn_finite by blast
  with that rn_mono [OF assms(1) rn_int [OF assms(3)]] rn_mono [OF assms(2) _ rn_int [OF assms(4)]]
  show ?thesis by blast
qed

lemma rn_nonneg: "0 \<le> a \<Longrightarrow> rn a = Fin r \<Longrightarrow> 0 \<le> r"
  using rn_mono [of 0 a 0 r] rn_int [of 0] by simp

lemma rn_nonpos: "a \<le> 0 \<Longrightarrow> rn a = Fin r \<Longrightarrow> r \<le> 0"
  using rn_mono [of a 0 r 0] rn_int [of 0] by simp

text \<open>
  A real below \<open>2^m - 1\<close> in size is rounded to within \<open>2^-j\<close>, when \<open>m + j\<close> is the precision:
  it lies between two representable neighbours of the grid \<open>2^-j\<close>.
\<close>

lemma rn_near:
  assumes "\<bar>a\<bar> < 2 ^ m - 1" "m + j = prec"
  obtains r where "rn a = Fin r" "\<bar>r - a\<bar> \<le> 1 / 2 ^ j"
proof -
  let ?y = "a * 2 ^ j"
  let ?k = "\<lfloor>?y\<rfloor>"
  have j: "(1 :: real) \<le> 2 ^ j" by simp
  have "\<bar>?y\<bar> < (2 ^ m - 1) * 2 ^ j" using assms(1) by (simp add: abs_mult)
  also have "\<dots> = 2 ^ prec - 2 ^ j" using assms(2) by (simp add: algebra_simps flip: power_add)
  finally have y: "\<bar>?y\<bar> < 2 ^ prec - 1" using j by linarith
  have "of_int ?k < (of_int (2 ^ prec - 1) :: real)" "(of_int (- (2 ^ prec)) :: real) < of_int ?k" using y by (simp_all, linarith+)
  then have k: "\<bar>?k\<bar> < 2 ^ prec" "\<bar>?k + 1\<bar> < 2 ^ prec" unfolding of_int_less_iff by linarith+
  have lo: "of_int ?k / 2 ^ j \<le> a" and hi: "a \<le> of_int (?k + 1) / 2 ^ j" by (simp_all add: divide_le_eq le_divide_eq) 
  have jp: "j \<le> prec" using assms(2) by simp
  have "(2 :: real) ^ m \<le> 2 ^ prec" using assms(2) by (intro power_increasing) simp_all
  then have "\<bar>a\<bar> < 2 ^ prec" using assms(1) by linarith
  then obtain r where r: "rn a = Fin r" using rn_finite by blast
  have "of_int ?k / 2 ^ j \<le> r" "r \<le> of_int (?k + 1) / 2 ^ j"
    using rn_mono [OF lo rn_dyadic [OF k(1) jp] r] rn_mono [OF hi r rn_dyadic [OF k(2) jp]] by simp_all
  moreover have "of_int (?k + 1) / 2 ^ j = of_int ?k / 2 ^ j + (1 / 2 ^ j :: real)" by (simp add: add_divide_distrib)
  ultimately have "\<bar>r - a\<bar> \<le> 1 / 2 ^ j" using lo hi by linarith
  then show thesis using that r by blast
qed

end

lemma fl_dyadic_exact:
  assumes "\<bar>k\<bar> < 2 ^ p" "emin \<le> - int n" "int p \<le> emax"
  shows "fl p emin emax (of_int k / 2 ^ n) = Fin (of_int k / 2 ^ n)"
proof -
  have "\<bar>of_int k / 2 ^ n\<bar> \<le> \<bar>of_int k :: real\<bar>"
    by (simp add: abs_divide field_simps mult_le_cancel_left1)
  also have "\<dots> < (2::real) ^ p"
    using assms(1) by (metis of_int_abs of_int_less_iff of_int_numeral of_int_power)
  also have "\<dots> = 2 powi int p" by simp
  also have "\<dots> \<le> 2 powi emax" using assms(3) by (intro power_int_increasing) simp_all
  finally show ?thesis using rnd_dyadic_exact [OF assms(1,2)] by (simp add: fl_def)
qed

lemma fl_finite:
  assumes "\<bar>a\<bar> < 2 ^ p" "emin \<le> 0" "int p < emax" "0 < p"
  shows "\<exists>r. fl p emin emax a = Fin r"
proof -
  have q: "\<bar>rnd p emin x\<bar> \<le> 2 ^ p" if "\<bar>x\<bar> < 2 ^ p" for x
  proof (cases "x = 0")
    case False
    have "log 2 \<bar>x\<bar> < real p"
      using False that by (subst log_less_iff) (simp_all add: powr_realpow)
    then have "\<lfloor>log 2 \<bar>x\<bar>\<rfloor> - int p + 1 \<le> 0" by linarith
    then have "quantum p emin x \<le> 0" using assms(2) by (simp add: quantum_def)
    then have "(2::real) powi (quantum p emin x + int p) \<le> 2 powi int p"
      by (intro power_int_increasing) simp_all
    with rnd_binade_upper [OF False assms(4), of emin]
      rnd_binade_upper [of "- x" p emin] False assms(4)
    show ?thesis by (simp add: rnd_minus abs_le_iff quantum_def)
  qed simp
  have "(2::real) ^ p < 2 powi emax"
    using power_int_strict_increasing [of "int p" emax "2::real"] assms(3) by simp
  with q [OF assms(1)] show ?thesis by (simp add: fl_def Let_def)
qed

lemma fl_minus: "fl p emin emax (- a) = fneg (fl p emin emax a)"
  by (simp add: fl_def rnd_minus Let_def) (smt (verit) zero_less_power_int)

lemma fl_mono:
  assumes "a \<le> b" "fl p emin emax a = Fin r" "fl p emin emax b = Fin s" "0 < p"
  shows "r \<le> s"
  using assms rnd_mono [of a b p emin] by (simp add: fl_def Let_def split: if_splits)

lemma fl_not_nan: "fl p emin emax a \<noteq> FNaN"
  by (simp add: fl_def Let_def)

lemmas fl_laws = fl_dyadic_exact fl_finite fl_minus fl_mono fl_not_nan

interpretation double: fp_format f64 53
  by unfold_locales (simp_all add: f64_def fl_dyadic_exact fl_finite fl_minus fl_not_nan,
      (erule (2) fl_mono, simp))

interpretation single: fp_format f32 24
  by unfold_locales (simp_all add: f32_def fl_dyadic_exact fl_finite fl_minus fl_not_nan,
      (erule (2) fl_mono, simp))

end
