(* ===== verification/Pllmath.thy ===== *)
theory Pllmath
  imports Cfloat
begin

text \<open>
  The phase-locked loop of \<open>src/src/pllmath.c\<close>. The record has the fields of
  \<open>struct pll_state\<close> and the global \<open>sys_able\<close>. \<open>pll_math\<close> is the composition of the
  blocks of the C function, one definition per block; the C library's \<open>pow\<close> is a
  parameter. The counters \<open>dl\<close>, \<open>zc\<close>, \<open>j\<close> and \<open>st\<close> are C \<open>int\<close>s; they move by at
  most one per second or are set from a checked conversion.
\<close>

section \<open>State\<close>

record pll_state =
  py :: fp      ly :: fp      my :: fp      lmy :: fp
  dy :: fp      ddy :: fp     sdy :: fp
  ay :: fp      say :: fp
  pa :: fp      pb :: fp      pc :: fp      pz :: fp
  wa :: fp      wamin :: fp   wamax :: fp
  pj :: int     mj :: fp      dl :: int     zc :: int
  st :: int
  go3 :: fp     t3 :: fp      mj0 :: fp     dl0 :: fp     wa0 :: fp
  b0 :: fp      be :: fp      ce :: fp
  sys_able :: u32

definition ABLE_PLL_UNLOCKED :: u32 where "ABLE_PLL_UNLOCKED = 2"

abbreviation add64 :: "fp \<Rightarrow> fp \<Rightarrow> fp" where "add64 \<equiv> fadd f64"
abbreviation sub64 :: "fp \<Rightarrow> fp \<Rightarrow> fp" where "sub64 \<equiv> fsub f64"
abbreviation mul64 :: "fp \<Rightarrow> fp \<Rightarrow> fp" where "mul64 \<equiv> fmul f64"
abbreviation div64 :: "fp \<Rightarrow> fp \<Rightarrow> fp" where "div64 \<equiv> fdiv f64"
abbreviation dbl :: "int \<Rightarrow> fp" where "dbl n \<equiv> f64 (of_int n)"

definition set_unlocked :: "pll_state \<Rightarrow> pll_state" where
  "set_unlocked ps = ps\<lparr>sys_able := sys_able ps OR ABLE_PLL_UNLOCKED\<rparr>"

section \<open>Operations\<close>

definition pll_reset :: "pll_state \<Rightarrow> pll_state" where
  "pll_reset ps = set_unlocked (ps\<lparr>st := 0\<rparr>)"

definition pll_poll :: "pll_state \<Rightarrow> fp \<times> pll_state" where
  "pll_poll ps =
     (let ps = (if st ps \<ge> 5 then ps\<lparr>pb := add64 (pb ps) (pc ps)\<rparr> else ps) in (pb ps, ps))"

definition pll_sanity :: "pll_state \<Rightarrow> pll_state" where
  "pll_sanity ps = (if fgt (fabs (pb ps)) (f64 (128 / 10 ^ 6)) then ps\<lparr>st := 0\<rparr> else ps)"

definition pll_initialize :: "pll_state \<Rightarrow> pll_state res" where
  "pll_initialize ps =
     (if st ps = 0
      then rbind (f2int (dl0 ps)) (\<lambda>d.
        Inr (set_unlocked (ps\<lparr>mj := mj0 ps, dl := d, wa := wa0 ps, pj := 0,
               pb := Fin 0, pc := Fin 0, my := Fin 0, ly := Fin 0, lmy := Fin 0,
               dy := Fin 0, say := Fin 0, sdy := Fin 0, zc := 0, st := 1\<rparr>)))
      else Inr ps)"

definition pll_estimate :: "pll_state \<Rightarrow> pll_state" where
  "pll_estimate ps =
     (let ps = ps\<lparr>dl := dl ps - 1\<rparr>;
          ps = (if flt (dbl (pj ps)) (mj ps) then ps\<lparr>pj := pj ps + 1\<rparr> else ps);
          ps = ps\<lparr>my := add64 (my ps) (div64 (sub64 (py ps) (my ps)) (dbl (pj ps)))\<rparr>;
          ps = (if flt (mul64 (lmy ps) (my ps)) (Fin 0) then ps\<lparr>zc := 0\<rparr> else ps\<lparr>zc := zc ps + 1\<rparr>);
          ps = ps\<lparr>lmy := my ps\<rparr>;
          ps = ps\<lparr>ddy := dy ps\<rparr>;
          ps = ps\<lparr>dy := sub64 (py ps) (ly ps)\<rparr>;
          ps = ps\<lparr>sdy := add64 (sdy ps) (div64 (sub64 (fabs (dy ps)) (sdy ps)) (dbl (pj ps)))\<rparr>;
          ps = ps\<lparr>ay := fabs (sub64 (dy ps) (ddy ps))\<rparr>;
          ps = ps\<lparr>say := add64 (say ps) (div64 (sub64 (ay ps) (say ps)) (dbl (pj ps)))\<rparr>
      in ps\<lparr>ly := py ps\<rparr>)"

definition pll_correct :: "(fp \<Rightarrow> fp \<Rightarrow> fp) \<Rightarrow> pll_state \<Rightarrow> pll_state" where
  "pll_correct pow ps =
     (let ps = ps\<lparr>pa := mul64 (py ps) (wa ps)\<rparr>;
          ps = (if st ps \<ge> 3 then ps\<lparr>pb := add64 (pb ps) (mul64 (py ps) (pow (wa ps) (be ps)))\<rparr> else ps);
          ps = (if st ps \<ge> 5
                then let ps = ps\<lparr>pb := add64 (pb ps) (pc ps)\<rparr> in
                     ps\<lparr>pc := add64 (pc ps) (mul64 (py ps) (pow (wa ps) (ce ps)))\<rparr>
                else ps)
      in ps\<lparr>pz := add64 (add64 (pa ps) (b0 ps)) (pb ps)\<rparr>)"

definition pll_overtight :: "pll_state \<Rightarrow> bool" where
  "pll_overtight ps \<longleftrightarrow> st ps \<ge> 4
     \<and> (fgt (dbl (zc ps)) (div64 (f64 200) (wa ps)) \<or> fgt (fabs (my ps)) (mul64 (f64 20) (sdy ps)))"

definition pll_loosen :: "pll_state \<Rightarrow> pll_state" where
  "pll_loosen ps =
     (let ps = (if flt (div64 (wamin ps) (f64 (8 / 10))) (wamax ps)
                then ps\<lparr>wamin := div64 (wa ps) (f64 (8 / 10))\<rparr> else ps)
      in set_unlocked (ps\<lparr>st := 0\<rparr>))"

definition set_timer :: "pll_state \<Rightarrow> pll_state res" where
  "set_timer ps = rbind (f2int (mj ps)) (\<lambda>d. Inr (ps\<lparr>dl := d\<rparr>))"

definition pll_rearm :: "pll_state \<Rightarrow> pll_state res" where
  "pll_rearm ps =
     (if st ps \<ge> 4 \<and> fgt (fabs (my ps)) (mul64 (sdy ps) (f64 (2 / 10)))
      then set_timer ps else Inr ps)"

definition pll_tighten :: "pll_state \<Rightarrow> pll_state res" where
  "pll_tighten ps =
     (let ps = (if st ps = 4 \<and> flt (wa ps) (go3 ps) then ps\<lparr>st := 5\<rparr> else ps) in
      if st ps \<ge> 4 \<and> flt (fabs (my ps)) (mul64 (say ps) (f64 (1 / 10))) \<and> zc ps < 10
      then let ps = (if fgt (wa ps) (wamin ps)
                     then ps\<lparr>wa := mul64 (wa ps) (f64 (9 / 10)), mj := div64 (mj ps) (f64 (8 / 10))\<rparr>
                     else ps) in
           rbind (set_timer ps) (\<lambda>ps.
           if st ps \<ge> 5 then rbind (f2int (mul64 (dbl (dl ps)) (t3 ps))) (\<lambda>d. Inr (ps\<lparr>dl := d\<rparr>))
           else Inr ps)
      else Inr ps)"

definition pll_advance :: "pll_state \<Rightarrow> pll_state res" where
  "pll_advance ps =
     (if st ps = 1 \<and> flt (fabs (py ps)) (add64 (sdy ps) (div64 (f64 (128 / 10 ^ 6)) (wa ps)))
      then set_timer (ps\<lparr>st := 2\<rparr>)
      else if st ps = 2
      then rbind (set_timer (ps\<lparr>st := 3\<rparr>)) (\<lambda>ps.
           Inr (ps\<lparr>sys_able := sys_able ps AND NOT ABLE_PLL_UNLOCKED\<rparr>))
      else if st ps = 3 \<and> flt (fabs (my ps)) (mul64 (say ps) (f64 (5 / 10))) \<and> zc ps < 10
      then set_timer (ps\<lparr>st := 4\<rparr>)
      else pll_tighten ps)"

definition pll_math :: "(fp \<Rightarrow> fp \<Rightarrow> fp) \<Rightarrow> fp \<Rightarrow> pll_state \<Rightarrow> (fp \<times> pll_state) res" where
  "pll_math pow y ps =
     rbind (pll_initialize (pll_sanity (ps\<lparr>py := fneg y\<rparr>))) (\<lambda>ps.
     let ps = pll_correct pow (pll_estimate ps) in
     if pll_overtight ps then Inr (pz ps, pll_loosen ps)
     else rbind (pll_rearm ps) (\<lambda>ps.
          if dl ps \<ge> 0 then Inr (pz ps, ps)
          else rbind (pll_advance ps) (\<lambda>ps. Inr (pz ps, ps))))"

definition init_pllmath :: "pll_state \<Rightarrow> pll_state" where
  "init_pllmath ps =
     ps\<lparr>b0 := Fin 0, be := f64 2, ce := f64 4, mj0 := f64 8, dl0 := f64 10, go3 := f64 (1 / 1000),
        t3 := f64 10, wa0 := f64 (1 / 10), wamin := f64 0, wamax := f64 (1 / 10)\<rparr>"

section \<open>What each block changes\<close>

lemma set_unlocked_simps [simp]:
  "st (set_unlocked ps) = st ps" "dl (set_unlocked ps) = dl ps" "mj (set_unlocked ps) = mj ps"
  "mj0 (set_unlocked ps) = mj0 ps" "dl0 (set_unlocked ps) = dl0 ps" "t3 (set_unlocked ps) = t3 ps"
  "pz (set_unlocked ps) = pz ps" "wa0 (set_unlocked ps) = wa0 ps"
  by (simp_all add: set_unlocked_def)

lemma pll_sanity_frame [simp]:
  "st (pll_sanity ps) = (if fgt (fabs (pb ps)) (f64 (128 / 10 ^ 6)) then 0 else st ps)"
  "dl (pll_sanity ps) = dl ps" "mj (pll_sanity ps) = mj ps" "mj0 (pll_sanity ps) = mj0 ps"
  "dl0 (pll_sanity ps) = dl0 ps" "t3 (pll_sanity ps) = t3 ps" "sys_able (pll_sanity ps) = sys_able ps"
  by (simp_all add: pll_sanity_def)

lemma pll_estimate_frame [simp]:
  "st (pll_estimate ps) = st ps" "dl (pll_estimate ps) = dl ps - 1" "mj (pll_estimate ps) = mj ps"
  "mj0 (pll_estimate ps) = mj0 ps" "dl0 (pll_estimate ps) = dl0 ps" "t3 (pll_estimate ps) = t3 ps"
  "sys_able (pll_estimate ps) = sys_able ps" "wa (pll_estimate ps) = wa ps"
  by (simp_all add: pll_estimate_def Let_def)

lemma pll_correct_frame [simp]:
  "st (pll_correct pow ps) = st ps" "dl (pll_correct pow ps) = dl ps"
  "mj (pll_correct pow ps) = mj ps" "mj0 (pll_correct pow ps) = mj0 ps"
  "dl0 (pll_correct pow ps) = dl0 ps" "t3 (pll_correct pow ps) = t3 ps"
  "sys_able (pll_correct pow ps) = sys_able ps" "wa (pll_correct pow ps) = wa ps"
  by (simp_all add: pll_correct_def Let_def)

lemma pll_loosen_frame [simp]:
  "st (pll_loosen ps) = 0" "dl (pll_loosen ps) = dl ps" "mj (pll_loosen ps) = mj ps"
  "mj0 (pll_loosen ps) = mj0 ps" "dl0 (pll_loosen ps) = dl0 ps" "t3 (pll_loosen ps) = t3 ps"
  "sys_able (pll_loosen ps) = sys_able ps OR ABLE_PLL_UNLOCKED"
  by (simp_all add: pll_loosen_def Let_def set_unlocked_def)

lemma set_timer_Inr: "set_timer ps = Inr qs \<longleftrightarrow> (\<exists>d. f2int (mj ps) = Inr d \<and> qs = ps\<lparr>dl := d\<rparr>)"
  by (auto simp: set_timer_def)

section \<open>Lock indication\<close>

definition pll_unlocked :: "pll_state \<Rightarrow> bool" where
  "pll_unlocked ps \<longleftrightarrow> sys_able ps AND ABLE_PLL_UNLOCKED \<noteq> 0"

definition pll_inv :: "pll_state \<Rightarrow> bool" where
  "pll_inv ps \<longleftrightarrow> 0 \<le> st ps \<and> st ps \<le> 5 \<and> (pll_unlocked ps \<longleftrightarrow> st ps < 3)"

lemma unlocked_flag [simp]:
  "(w OR ABLE_PLL_UNLOCKED) AND ABLE_PLL_UNLOCKED = ABLE_PLL_UNLOCKED"
  "(w AND NOT ABLE_PLL_UNLOCKED) AND ABLE_PLL_UNLOCKED = 0"
  by (auto simp: bit_eq_iff bit_simps)

lemma ABLE_PLL_UNLOCKED_nonzero [simp]: "ABLE_PLL_UNLOCKED \<noteq> 0"
  by (simp add: ABLE_PLL_UNLOCKED_def)

lemma pll_unlocked_simps [simp]:
  "pll_unlocked (set_unlocked ps)"
  "pll_unlocked (pll_loosen ps)"
  "pll_unlocked (pll_estimate ps) = pll_unlocked ps"
  "pll_unlocked (pll_correct pow ps) = pll_unlocked ps"
  "pll_unlocked (pll_sanity ps) = pll_unlocked ps"
  by (simp_all add: pll_unlocked_def set_unlocked_def)

lemma pll_initialize_Inr:
  assumes "pll_initialize ps = Inr qs"
  shows "st qs = (if st ps = 0 then 1 else st ps)"
    and "pll_unlocked qs \<longleftrightarrow> st ps = 0 \<or> pll_unlocked ps"
    and "mj0 qs = mj0 ps" "dl0 qs = dl0 ps" "t3 qs = t3 ps"
    and "mj qs = (if st ps = 0 then mj0 ps else mj ps)"
    and "st ps \<noteq> 0 \<Longrightarrow> dl qs = dl ps"
    and "st ps = 0 \<Longrightarrow> f2int (dl0 ps) = Inr (dl qs)"
  using assms by (auto simp: pll_initialize_def pll_unlocked_def set_unlocked_def split: if_splits)

lemma pll_rearm_Inr:
  assumes "pll_rearm ps = Inr qs"
  shows "qs = ps \<or> (\<exists>d. st ps \<ge> 4 \<and> qs = ps\<lparr>dl := d\<rparr>)"
  using assms by (auto simp: pll_rearm_def set_timer_Inr split: if_splits)

lemma pll_tighten_Inr:
  assumes "pll_tighten ps = Inr qs"
  shows "st qs = st ps \<or> st ps = 4 \<and> st qs = 5"
    and "sys_able qs = sys_able ps" "mj0 qs = mj0 ps" "dl0 qs = dl0 ps" "t3 qs = t3 ps"
    and "st ps < 4 \<Longrightarrow> qs = ps"
  using assms by (auto simp: pll_tighten_def Let_def set_timer_Inr split: if_splits)

lemma pll_advance_Inr:
  assumes "pll_advance ps = Inr qs"
  shows "st qs = st ps \<or> 1 \<le> st ps \<and> st ps \<le> 4 \<and> st qs = st ps + 1"
    and "sys_able qs = (if st ps = 2 then sys_able ps AND NOT ABLE_PLL_UNLOCKED else sys_able ps)"
    and "mj0 qs = mj0 ps" "dl0 qs = dl0 ps" "t3 qs = t3 ps"
    and "st ps < 4 \<Longrightarrow> mj qs = mj ps"
    and "st ps = 2 \<Longrightarrow> st qs = 3"
    and "st ps = 1 \<Longrightarrow> st qs = 1 \<and> dl qs = dl ps \<or> st qs = 2 \<and> f2int (mj ps) = Inr (dl qs)"
  using assms
  by (auto simp: pll_advance_def set_timer_Inr split: if_splits
      dest: pll_tighten_Inr)

lemma pll_math_cases:
  assumes "pll_math pow y ps = Inr (z, qs)"
  obtains (loosen) r e where
      "pll_initialize (pll_sanity (ps\<lparr>py := fneg y\<rparr>)) = Inr r"
      "e = pll_correct pow (pll_estimate r)" "4 \<le> st r" "qs = pll_loosen e"
    | (wait) r e f where
      "pll_initialize (pll_sanity (ps\<lparr>py := fneg y\<rparr>)) = Inr r"
      "e = pll_correct pow (pll_estimate r)" "pll_rearm e = Inr f" "0 \<le> dl f" "qs = f"
    | (advance) r e f where
      "pll_initialize (pll_sanity (ps\<lparr>py := fneg y\<rparr>)) = Inr r"
      "e = pll_correct pow (pll_estimate r)" "pll_rearm e = Inr f" "dl f < 0"
      "pll_advance f = Inr qs"
proof -
  from assms obtain r where r: "pll_initialize (pll_sanity (ps\<lparr>py := fneg y\<rparr>)) = Inr r"
    by (auto simp: pll_math_def)
  define e where "e = pll_correct pow (pll_estimate r)"
  have m: "pll_math pow y ps =
      (if pll_overtight e then Inr (pz e, pll_loosen e)
       else rbind (pll_rearm e) (\<lambda>f. if dl f \<ge> 0 then Inr (pz f, f)
         else rbind (pll_advance f) (\<lambda>g. Inr (pz g, g))))"
    by (simp add: pll_math_def r Let_def e_def)
  show thesis
  proof (cases "pll_overtight e")
    case True
    then have "4 \<le> st r" by (simp add: pll_overtight_def e_def)
    with True assms m loosen [OF r e_def] show thesis by simp
  next
    case False
    with assms m obtain f where f: "pll_rearm e = Inr f" by auto
    have n: "(if dl f \<ge> 0 then Inr (pz f, f) else rbind (pll_advance f) (\<lambda>g. Inr (pz g, g))) = Inr (z, qs)"
      using assms unfolding m by (simp add: f False)
    show thesis
    proof (cases "0 \<le> dl f")
      case True
      with n show thesis by (intro wait [OF r e_def f]) simp_all
    next
      case dl: False
      with n show thesis by (intro advance [OF r e_def f]) auto
    qed
  qed
qed

lemma pll_begin:
  assumes "pll_initialize (pll_sanity (ps\<lparr>py := v\<rparr>)) = Inr r"
  shows "mj0 r = mj0 ps" "dl0 r = dl0 ps" "t3 r = t3 ps"
    and "st ps \<noteq> 0 \<and> st r = st ps \<and> dl r = dl ps \<and> mj r = mj ps \<and> pll_unlocked r = pll_unlocked ps
      \<or> st r = 1 \<and> pll_unlocked r \<and> mj r = mj0 ps \<and> f2int (dl0 ps) = Inr (dl r)"
proof -
  have u: "pll_unlocked (ps\<lparr>py := v\<rparr>) = pll_unlocked ps" by (simp add: pll_unlocked_def)
  note i = pll_initialize_Inr [OF assms]
  show "mj0 r = mj0 ps" "dl0 r = dl0 ps" "t3 r = t3 ps" using i(3-5) by simp_all
  show "st ps \<noteq> 0 \<and> st r = st ps \<and> dl r = dl ps \<and> mj r = mj ps \<and> pll_unlocked r = pll_unlocked ps
      \<or> st r = 1 \<and> pll_unlocked r \<and> mj r = mj0 ps \<and> f2int (dl0 ps) = Inr (dl r)"
  proof (cases "st (pll_sanity (ps\<lparr>py := v\<rparr>)) = 0")
    case True
    with i(1,2,6,8) show ?thesis by simp
  next
    case False
    then have "st ps \<noteq> 0" "st (pll_sanity (ps\<lparr>py := v\<rparr>)) = st ps" by (simp_all split: if_splits)
    with False i(1,2,6,7) u show ?thesis by simp
  qed
qed

lemma pll_inv_reset: "pll_inv (pll_reset ps)"
  by (simp add: pll_inv_def pll_reset_def)

lemma pll_inv_poll: "pll_inv ps \<Longrightarrow> pll_inv (snd (pll_poll ps))"
  by (auto simp: pll_inv_def pll_poll_def Let_def pll_unlocked_def)

lemma pll_inv_init: "pll_inv (init_pllmath ps) \<longleftrightarrow> pll_inv ps"
  by (simp add: pll_inv_def init_pllmath_def pll_unlocked_def)

lemma pll_inv_step:
  assumes "pll_inv ps" "pll_math pow y ps = Inr (z, qs)"
  shows "pll_inv qs"
  using assms(2)
proof (cases rule: pll_math_cases)
  case (loosen r e)
  then show ?thesis by (simp add: pll_inv_def)
next
  case (wait r e f)
  have r: "pll_inv r" "1 \<le> st r"
    using pll_begin(4) [OF wait(1)] assms(1) by (auto simp: pll_inv_def)
  then show ?thesis using pll_rearm_Inr [OF wait(3)] wait
    by (auto simp: pll_inv_def pll_unlocked_def)
next
  case (advance r e f)
  have r: "pll_inv r" "1 \<le> st r"
    using pll_begin(4) [OF advance(1)] assms(1) by (auto simp: pll_inv_def)
  then have "pll_inv f" "1 \<le> st f" using pll_rearm_Inr [OF advance(3)] advance
    by (auto simp: pll_inv_def pll_unlocked_def)
  then show ?thesis using pll_advance_Inr(1,2,7) [OF advance(5)]
    by (auto simp: pll_inv_def pll_unlocked_def split: if_splits)
qed

section \<open>Sequences of calls\<close>

text \<open>
  The clock thread calls the loop once per second: \<open>pll_math\<close> with the measured offset
  when a pulse arrived, \<open>pll_poll\<close> when none did.
\<close>

datatype pll_event = Pulse fp | NoPulse

fun pll_event_step :: "(fp \<Rightarrow> fp \<Rightarrow> fp) \<Rightarrow> pll_event \<Rightarrow> pll_state \<Rightarrow> pll_state res" where
  "pll_event_step pow (Pulse y) ps = rbind (pll_math pow y ps) (\<lambda>(z, ps). Inr ps)"
| "pll_event_step pow NoPulse ps = Inr (snd (pll_poll ps))"

fun pll_run :: "(fp \<Rightarrow> fp \<Rightarrow> fp) \<Rightarrow> pll_event list \<Rightarrow> pll_state \<Rightarrow> pll_state res" where
  "pll_run pow [] ps = Inr ps"
| "pll_run pow (e # es) ps = rbind (pll_event_step pow e ps) (pll_run pow es)"

lemma pll_run_append:
  "pll_run pow (es @ fs) ps = rbind (pll_run pow es ps) (pll_run pow fs)"
proof (induction es arbitrary: ps)
  case (Cons e es)
  then show ?case by (cases "pll_event_step pow e ps") simp_all
qed simp

lemma pll_run_invariant:
  assumes "\<And>e ps qs. P ps \<Longrightarrow> pll_event_step pow e ps = Inr qs \<Longrightarrow> P qs"
  shows "P ps \<Longrightarrow> pll_run pow es ps = Inr qs \<Longrightarrow> P qs"
  by (induction es arbitrary: ps) (auto dest: assms)

definition pll_boot :: "pll_state \<Rightarrow> pll_state" where
  "pll_boot ps = pll_reset (init_pllmath ps)"

lemma pll_inv_event:
  "pll_inv ps \<Longrightarrow> pll_event_step pow e ps = Inr qs \<Longrightarrow> pll_inv qs"
  by (cases e) (auto intro: pll_inv_step pll_inv_poll)

text \<open>
  From its start, after any sequence of pulses and missing pulses, the loop is in one
  of its six states and its \<open>ABLE_PLL_UNLOCKED\<close> flag is set exactly while the state is
  below 3, whatever the measurements and whatever \<open>pow\<close> computes.
\<close>

theorem pll_lock_flag:
  assumes "pll_run pow es (pll_boot ps) = Inr qs"
  shows "0 \<le> st qs \<and> st qs \<le> 5 \<and> (sys_able qs AND ABLE_PLL_UNLOCKED \<noteq> 0 \<longleftrightarrow> st qs < 3)"
proof -
  have "pll_inv (pll_boot ps)" by (simp add: pll_boot_def pll_inv_reset)
  from pll_run_invariant [where P = pll_inv, OF pll_inv_event this assms]
  show ?thesis by (simp add: pll_inv_def pll_unlocked_def)
qed

section \<open>Time to lock\<close>

lemma f64_10 [simp]: "f64 10 = Fin 10" and f64_8 [simp]: "f64 8 = Fin 8"
  and f64_0 [simp]: "f64 0 = Fin 0" and f64_1 [simp]: "f64 1 = Fin 1" and f64_2 [simp]: "f64 2 = Fin 2"
  using double.rn_int [of 10] double.rn_int [of 8] double.rn_int [of 0] double.rn_int [of 1]
    double.rn_int [of 2] by simp_all

definition pll_params :: "pll_state \<Rightarrow> bool" where
  "pll_params ps \<longleftrightarrow> mj0 ps = Fin 8 \<and> dl0 ps = Fin 10 \<and> t3 ps = Fin 10"

definition pll_waiting :: "pll_state \<Rightarrow> bool" where
  "pll_waiting ps \<longleftrightarrow> pll_params ps \<and> (st ps \<in> {1, 2} \<longrightarrow> mj ps = Fin 8)
     \<and> (st ps = 1 \<longrightarrow> dl ps \<le> 9) \<and> (st ps = 2 \<longrightarrow> dl ps \<le> 8)"

definition pll_to_lock :: "pll_state \<Rightarrow> int" where
  "pll_to_lock ps =
     (if st ps = 0 then 20 else if st ps = 1 then max (dl ps + 1) 1 + 9
      else if st ps = 2 then max (dl ps + 1) 1 else 0)"

lemma pll_initialize_waiting:
  assumes "pll_inv ps" "pll_waiting ps" "pll_initialize (pll_sanity (ps\<lparr>py := v\<rparr>)) = Inr r"
  shows "pll_params r" "1 \<le> st r" "st r \<in> {1, 2} \<Longrightarrow> mj r = Fin 8"
    "st r = 1 \<Longrightarrow> dl r \<le> 10" "st r = 2 \<Longrightarrow> dl r \<le> 8" "pll_to_lock ps \<le> pll_to_lock r"
proof -
  note b = pll_begin [OF assms(3)]
  from b(4) show "1 \<le> st r" using assms(1) by (auto simp: pll_inv_def)
  from b(1-3) assms(2) show "pll_params r" by (simp add: pll_waiting_def pll_params_def)
  from b(4) assms(2)
  have *: "st r = st ps \<and> dl r = dl ps \<and> mj r = mj ps \<and> st ps \<noteq> 0 \<or> st r = 1 \<and> mj r = Fin 8 \<and> dl r = 10"
    by (auto simp: pll_waiting_def pll_params_def)
  with assms(2) show "st r \<in> {1, 2} \<Longrightarrow> mj r = Fin 8" "st r = 1 \<Longrightarrow> dl r \<le> 10" "st r = 2 \<Longrightarrow> dl r \<le> 8"
    by (auto simp: pll_waiting_def)
  from * assms(2) show "pll_to_lock ps \<le> pll_to_lock r"
    by (auto simp: pll_waiting_def pll_to_lock_def)
qed

lemma pll_math_waiting:
  assumes "pll_inv ps" "pll_waiting ps" "pll_math pow y ps = Inr (z, qs)"
  shows "pll_waiting qs \<and> pll_to_lock ps \<le> pll_to_lock qs + 1"
  using assms(3)
proof (cases rule: pll_math_cases)
  case (loosen r e)
  note r = pll_initialize_waiting [OF assms(1,2) loosen(1)]
  from loosen r show ?thesis by (auto simp: pll_waiting_def pll_params_def pll_to_lock_def)
next
  case (wait r e f)
  note r = pll_initialize_waiting [OF assms(1,2) wait(1)]
  from wait r pll_rearm_Inr [OF wait(3)] show ?thesis
    by (auto simp: pll_waiting_def pll_params_def pll_to_lock_def split: if_splits)
next
  case (advance r e f)
  note r = pll_initialize_waiting [OF assms(1,2) advance(1)]
  from pll_rearm_Inr [OF advance(3)] advance(2)
  have f: "st f = st r" "mj f = mj r" "pll_params f = pll_params r" "st r < 4 \<Longrightarrow> dl f = dl r - 1"
    by (auto simp: pll_params_def)
  note a = pll_advance_Inr [OF advance(5)]
  have "pll_params qs" using a(3-5) r(1) f(3) by (simp add: pll_params_def)
  moreover consider "st r = 1" "st qs = 1" "dl qs = dl r - 1" "mj qs = Fin 8"
    | "st r = 1" "st qs = 2" "dl qs = 8" "mj qs = Fin 8"
    | "st r = 2" "st qs = 3" | "3 \<le> st r" "3 \<le> st qs"
  proof -
    from r(2) consider "st r = 1" | "st r = 2" | "3 \<le> st r" by linarith
    then show thesis
    proof cases
      case 1
      with a(6,8) f r(3) that(1,2) show thesis by auto
    next
      case 2
      with a(7) f that(3) show thesis by simp
    next
      case 3
      with a(1) f that(4) show thesis by auto
    qed
  qed
  then have "(st qs \<in> {1, 2} \<longrightarrow> mj qs = Fin 8) \<and> (st qs = 1 \<longrightarrow> dl qs \<le> 9) \<and> (st qs = 2 \<longrightarrow> dl qs \<le> 8)
      \<and> pll_to_lock r \<le> pll_to_lock qs + 1"
    using r(4,5) advance(4) f by cases (auto simp: pll_to_lock_def)
  ultimately show ?thesis using r(6) by (simp add: pll_waiting_def)
qed

lemma pll_poll_frame [simp]:
  "st (snd (pll_poll ps)) = st ps" "dl (snd (pll_poll ps)) = dl ps" "mj (snd (pll_poll ps)) = mj ps"
  "mj0 (snd (pll_poll ps)) = mj0 ps" "dl0 (snd (pll_poll ps)) = dl0 ps" "t3 (snd (pll_poll ps)) = t3 ps"
  by (simp_all add: pll_poll_def Let_def)

lemma pll_run_to_lock:
  "pll_inv ps \<Longrightarrow> pll_waiting ps \<Longrightarrow> pll_run pow es ps = Inr qs \<Longrightarrow>
   pll_to_lock ps \<le> pll_to_lock qs + int (length (filter (\<lambda>e. e \<noteq> NoPulse) es))"
proof (induction es arbitrary: ps)
  case (Cons e es)
  then obtain rs where rs: "pll_event_step pow e ps = Inr rs" "pll_run pow es rs = Inr qs" by auto
  have inv: "pll_inv rs" using Cons.prems(1) rs(1) by (rule pll_inv_event)
  show ?case
  proof (cases e)
    case (Pulse y)
    with rs(1) obtain z where "pll_math pow y ps = Inr (z, rs)" by auto
    from pll_math_waiting [OF Cons.prems(1,2) this] Cons.IH [OF inv _ rs(2)] Pulse show ?thesis by simp
  next
    case NoPulse
    with rs(1) have "rs = snd (pll_poll ps)" by simp
    then have "pll_waiting rs" "pll_to_lock rs = pll_to_lock ps"
      using Cons.prems(2) by (simp_all add: pll_waiting_def pll_params_def pll_to_lock_def)
    with Cons.IH [OF inv _ rs(2)] NoPulse show ?thesis by simp
  qed
qed simp

lemma pll_waiting_boot: "pll_waiting (pll_boot ps)" "pll_to_lock (pll_boot ps) = 20"
  by (simp_all add: pll_waiting_def pll_params_def pll_to_lock_def pll_boot_def pll_reset_def
      init_pllmath_def)

text \<open>
  C3. The loop never declares lock early: after any run from the start with fewer than
  twenty pulses the unlocked flag is still set, however good the measurements were.
\<close>

theorem pll_lock_takes_20_pulses:
  assumes "pll_run pow es (pll_boot ps) = Inr qs"
    and "length (filter (\<lambda>e. e \<noteq> NoPulse) es) < 20"
  shows "sys_able qs AND ABLE_PLL_UNLOCKED \<noteq> 0"
proof
  assume u: "sys_able qs AND ABLE_PLL_UNLOCKED = 0"
  have inv: "pll_inv (pll_boot ps)" by (simp add: pll_boot_def pll_inv_reset)
  from pll_run_invariant [where P = pll_inv, OF pll_inv_event inv assms(1)] u
  have "\<not> st qs < 3" by (simp add: pll_inv_def pll_unlocked_def)
  then have "pll_to_lock qs = 0" by (simp add: pll_to_lock_def)
  with pll_run_to_lock [OF inv pll_waiting_boot(1) assms(1)] pll_waiting_boot(2) [of ps] assms(2)
  show False by linarith
qed

section \<open>No undefined conversion\<close>

definition pll_mj_le :: "real \<Rightarrow> pll_state \<Rightarrow> bool" where
  "pll_mj_le M ps \<longleftrightarrow> (\<exists>m. mj ps = Fin m \<and> 0 \<le> m \<and> m \<le> M)"

lemma f2int_ok: "0 \<le> m \<Longrightarrow> m \<le> 2 ^ 30 \<Longrightarrow> f2int (Fin m) = Inr \<lfloor>m\<rfloor>"
proof -
  assume m: "0 \<le> m" "m \<le> 2 ^ 30"
  then have "\<lfloor>m\<rfloor> \<le> 2 ^ 30" "0 \<le> \<lfloor>m\<rfloor>" by (simp_all add: floor_le_iff)
  with m show ?thesis by (simp add: trunc_def)
qed

lemma set_timer_ok:
  assumes "pll_mj_le (2 ^ 27) ps"
  obtains d where "set_timer ps = Inr (ps\<lparr>dl := d\<rparr>)" "0 \<le> d" "d \<le> 2 ^ 27"
proof -
  from assms obtain m where m: "mj ps = Fin m" "0 \<le> m" "m \<le> 2 ^ 27" by (auto simp: pll_mj_le_def)
  then have "f2int (mj ps) = Inr \<lfloor>m\<rfloor>" using f2int_ok [of m] by simp
  moreover have "0 \<le> \<lfloor>m\<rfloor>" "\<lfloor>m\<rfloor> \<le> 2 ^ 27" using m by (simp_all add: floor_le_iff)
  ultimately show thesis using that [of "\<lfloor>m\<rfloor>"] by (simp add: set_timer_def)
qed

lemma f64_8_tenths: obtains r where "f64 (8 / 10) = Fin r" "1 / 2 \<le> r" "r \<le> 1"
proof -
  have h: "f64 (1 / 2) = Fin (1 / 2)" using double.rn_dyadic [of 1 1] by simp
  obtain r where "f64 (8 / 10) = Fin r" using double.rn_finite [of "8 / 10"] by auto
  with that double.rn_mono [OF _ h, of "8 / 10" r] double.rn_mono [OF _ _ f64_1, of "8 / 10" r]
  show thesis by simp
qed

lemma mj_div_ok:
  assumes "pll_mj_le (2 ^ 26) ps"
  obtains m where "div64 (mj ps) (f64 (8 / 10)) = Fin m" "0 \<le> m" "m \<le> 2 ^ 27"
proof -
  obtain r where r: "f64 (8 / 10) = Fin r" "1 / 2 \<le> r" "r \<le> 1" by (rule f64_8_tenths)
  from assms obtain m where m: "mj ps = Fin m" "0 \<le> m" "m \<le> 2 ^ 26" by (auto simp: pll_mj_le_def)
  have "m / r \<le> m / (1 / 2)" using m r by (intro divide_left_mono) simp_all
  then have "m / r \<le> of_int (2 ^ 27)" "of_int 0 \<le> m / r" using m r by simp_all
  then obtain q where "f64 (m / r) = Fin q" "0 \<le> q" "q \<le> 2 ^ 27"
    using double.rn_bounds [of 0 "m / r" "2 ^ 27"] by auto
  with that m r show thesis by auto
qed

lemma pll_tighten_ok:
  assumes "pll_mj_le (2 ^ 26) ps" "t3 ps = Fin 10"
  shows "\<exists>qs. pll_tighten ps = Inr qs \<and> pll_mj_le (2 ^ 27) qs"
proof -
  define a where "a = (if st ps = 4 \<and> flt (wa ps) (go3 ps) then ps\<lparr>st := 5\<rparr> else ps)"
  define b where "b = (if fgt (wa a) (wamin a)
      then a\<lparr>wa := mul64 (wa a) (f64 (9 / 10)), mj := div64 (mj a) (f64 (8 / 10))\<rparr> else a)"
  have a: "pll_mj_le (2 ^ 26) a" "t3 a = Fin 10" using assms by (simp_all add: a_def pll_mj_le_def)
  obtain m where "div64 (mj a) (f64 (8 / 10)) = Fin m" "0 \<le> m" "m \<le> 2 ^ 27"
    using a(1) by (rule mj_div_ok)
  then have b: "pll_mj_le (2 ^ 27) b" "t3 b = Fin 10" using a by (auto simp: b_def pll_mj_le_def)
  obtain d where d: "set_timer b = Inr (b\<lparr>dl := d\<rparr>)" "0 \<le> d" "d \<le> 2 ^ 27"
    using b(1) by (rule set_timer_ok)
  have "dbl d = Fin (of_int d)" using d by (intro double.rn_int) simp
  moreover have "f64 (of_int (d * 10)) = Fin (of_int (d * 10))" using d by (intro double.rn_int) simp
  ultimately have f: "f2int (mul64 (dbl d) (Fin 10)) = Inr (d * 10)"
    using d trunc_of_int [of "d * 10"] by simp
  show ?thesis
    using a b d f unfolding pll_tighten_def a_def [symmetric] Let_def b_def [symmetric]
    by (auto simp: pll_mj_le_def)
qed

lemma pll_advance_ok:
  assumes "pll_mj_le (2 ^ 26) ps" "t3 ps = Fin 10"
  shows "\<exists>qs. pll_advance ps = Inr qs \<and> pll_mj_le (2 ^ 27) qs"
proof -
  have m: "pll_mj_le (2 ^ 27) (ps\<lparr>st := s\<rparr>)" for s using assms(1) by (auto simp: pll_mj_le_def)
  have t: "\<exists>d. set_timer (ps\<lparr>st := s\<rparr>) = Inr (ps\<lparr>st := s, dl := d\<rparr>)" for s
    using set_timer_ok [OF m] by metis
  show ?thesis
    using t [of 2] t [of 3] t [of 4] m pll_tighten_ok [OF assms]
    by (auto simp: pll_advance_def pll_mj_le_def)
qed

lemma pll_rearm_ok:
  assumes "pll_mj_le (2 ^ 27) ps"
  shows "\<exists>d. pll_rearm ps = Inr (ps\<lparr>dl := d\<rparr>)"
proof -
  have "\<exists>d. set_timer ps = Inr (ps\<lparr>dl := d\<rparr>)" using set_timer_ok [OF assms] by metis
  moreover have "ps = ps\<lparr>dl := dl ps\<rparr>" by simp
  ultimately show ?thesis unfolding pll_rearm_def by metis
qed

text \<open>
  C11. A call of \<open>pll_math\<close> with the firmware's parameters always returns, whatever the
  measurement and whatever \<open>pow\<close> computes: while the averaging constant \<open>mj\<close> is at most
  \<open>2 ^ 26\<close> seconds no conversion of a \<open>double\<close> to the \<open>int\<close> timer is out of range, and
  \<open>mj\<close> at most doubles.
\<close>

theorem pll_math_returns:
  assumes "mj0 ps = Fin 8" "dl0 ps = Fin 10" "t3 ps = Fin 10"
    and "mj ps = Fin m" "0 \<le> m" "m \<le> 2 ^ 26"
  shows "\<exists>z qs m'. pll_math pow y ps = Inr (z, qs) \<and> mj qs = Fin m' \<and> 0 \<le> m' \<and> m' \<le> 2 ^ 27"
proof -
  define u where "u = pll_sanity (ps\<lparr>py := fneg y\<rparr>)"
  have "\<exists>r. pll_initialize u = Inr r" using assms(2) by (simp add: pll_initialize_def u_def)
  then obtain r where r: "pll_initialize u = Inr r" by blast
  define e where "e = pll_correct pow (pll_estimate r)"
  have "mj r = Fin 8 \<or> mj r = Fin m" "t3 r = Fin 10"
    using pll_initialize_Inr(5,6) [OF r] assms by (simp_all add: u_def)
  then have e: "pll_mj_le (2 ^ 26) e" "t3 e = Fin 10"
    using assms(5,6) by (auto simp: e_def pll_mj_le_def)
  then have e': "pll_mj_le (2 ^ 27) e" by (auto simp: pll_mj_le_def)
  then obtain d where d: "pll_rearm e = Inr (e\<lparr>dl := d\<rparr>)" using pll_rearm_ok by blast
  have "pll_mj_le (2 ^ 26) (e\<lparr>dl := d\<rparr>)" "t3 (e\<lparr>dl := d\<rparr>) = Fin 10"
    using e by (simp_all add: pll_mj_le_def)
  from pll_advance_ok [OF this]
  obtain qs where q: "pll_advance (e\<lparr>dl := d\<rparr>) = Inr qs" "pll_mj_le (2 ^ 27) qs" by blast
  have "pll_mj_le (2 ^ 27) (pll_loosen e)" "pll_mj_le (2 ^ 27) (e\<lparr>dl := d\<rparr>)"
    using e' by (simp_all add: pll_mj_le_def)
  then have "\<exists>z qs. pll_math pow y ps = Inr (z, qs) \<and> pll_mj_le (2 ^ 27) qs"
    using r d q unfolding pll_math_def u_def [symmetric] by (simp add: e_def [symmetric] Let_def)
  then show ?thesis by (auto simp: pll_mj_le_def)
qed

definition pll_state0 :: pll_state where
  "pll_state0 = \<lparr>py = Fin 0, ly = Fin 0, my = Fin 0, lmy = Fin 0, dy = Fin 0, ddy = Fin 0, sdy = Fin 0,
     ay = Fin 0, say = Fin 0, pa = Fin 0, pb = Fin 0, pc = Fin 0, pz = Fin 0,
     wa = Fin 0, wamin = Fin 0, wamax = Fin 0, pj = 0, mj = Fin 0, dl = 0, zc = 0, st = 0,
     go3 = Fin 0, t3 = Fin 0, mj0 = Fin 0, dl0 = Fin 0, wa0 = Fin 0, b0 = Fin 0, be = Fin 0, ce = Fin 0,
     sys_able = 0\<rparr>"

theorem pll_math_returns_witness:
  "\<exists>z qs m'. pll_math (\<lambda>x y. Fin 0) (Fin (1 / 2)) (pll_boot pll_state0) = Inr (z, qs)
     \<and> mj qs = Fin m' \<and> 0 \<le> m' \<and> m' \<le> 2 ^ 27"
  by (rule pll_math_returns [where m = 0])
    (simp_all add: pll_boot_def pll_reset_def init_pllmath_def pll_state0_def)

lemma pll_boot_polls:
  "pll_run pow [NoPulse, NoPulse] (pll_boot pll_state0) = Inr (pll_boot pll_state0)"
  by (simp add: pll_poll_def pll_boot_def pll_reset_def set_unlocked_def init_pllmath_def pll_state0_def)

theorem pll_lock_flag_witness:
  "0 \<le> st (pll_boot pll_state0) \<and> st (pll_boot pll_state0) \<le> 5
     \<and> (sys_able (pll_boot pll_state0) AND ABLE_PLL_UNLOCKED \<noteq> 0 \<longleftrightarrow> st (pll_boot pll_state0) < 3)"
  by (rule pll_lock_flag [OF pll_boot_polls])

theorem pll_lock_takes_20_pulses_witness:
  "sys_able (pll_boot pll_state0) AND ABLE_PLL_UNLOCKED \<noteq> 0"
  by (rule pll_lock_takes_20_pulses [OF pll_boot_polls]) simp

end
