(* ===== verification/Vtimer.thy ===== *)
theory Vtimer
  imports Epoch Ppscapture Pllmath
begin

text \<open>
  The disciplined clock of \<open>src/src/vtimer.c\<close>: the 32.32 fixed-point NTP time scale
  derived from the monotonic clock by \<open>vt_rate\<close>, its steering from the loop filter, and
  one round of the clock thread \<open>pll_thread\<close>, block by block. The record has the
  static variables of the file and, beneath it, the state of the capture unit and of the
  loop. Readings of the counter and of the scheduler's tick are arguments; \<open>log_write\<close>
  appends its arguments to \<open>vt_log\<close>; interrupts that arrive while the thread sleeps are
  a list of TIM3 readings.
\<close>

section \<open>State\<close>

datatype log_arg = LInt int | LStr string

record vtimer =
  vt_rate :: u64
  vt_rate_nominal :: fp
  vt_last :: u64
  mono_last :: u64
  utc_next :: u32
  quant_corr :: fp
  quant_corr_deferred :: fp
  loopstats_values :: "int list"
  status_flags :: u16
  vmono :: mono
  vpll :: pll_state
  watchdog_main :: u8
  watchdog_net :: u8
  iwdg_clears :: nat
  LED1 :: bool
  LED2 :: bool
  LED3 :: bool
  LED4 :: bool
  vt_log :: "(nat \<times> string \<times> string \<times> log_arg list) list"

definition NTP_SECOND :: u64 where "NTP_SECOND = 4294967296"
definition NTP_MASK_FRAC :: u64 where "NTP_MASK_FRAC = 4294967295"
definition NTP_MASK_SECONDS :: u64 where "NTP_MASK_SECONDS = push_bit 32 NTP_MASK_FRAC"
definition NTP_TO_FLOAT :: fp where "NTP_TO_FLOAT = f64 4294967296"
definition STEP_THRESH :: fp where "STEP_THRESH = f64 (20 / 10 ^ 3)"
definition SETTLED_THRESH :: fp where "SETTLED_THRESH = f64 (5 / 10 ^ 6)"
definition PPS_BLINK_TIME :: fp where "PPS_BLINK_TIME = f64 (50 / 1000)"
definition PLL_SUB_TIME :: fp where "PLL_SUB_TIME = f64 (900 / 1000)"
definition VT_RATE_PREC :: nat where "VT_RATE_PREC = 28"

lemmas ntp_defs = NTP_SECOND_def NTP_MASK_FRAC_def NTP_MASK_SECONDS_def VT_RATE_PREC_def

definition LOG_ERR :: nat where "LOG_ERR = 3"
definition LOG_WARNING :: nat where "LOG_WARNING = 4"
definition LOG_NOTICE :: nat where "LOG_NOTICE = 5"
definition LOG_INFO :: nat where "LOG_INFO = 6"

definition vt_log_write :: "nat \<Rightarrow> string \<Rightarrow> string \<Rightarrow> log_arg list \<Rightarrow> vtimer \<Rightarrow> vtimer" where
  "vt_log_write prio app fmt args v = v\<lparr>vt_log := vt_log v @ [(prio, app, fmt, args)]\<rparr>"

definition vt_set_status :: "u16 \<Rightarrow> vtimer \<Rightarrow> vtimer" where
  "vt_set_status m v = v\<lparr>status_flags := set_status m (status_flags v)\<rparr>"

definition vt_clear_status :: "u16 \<Rightarrow> vtimer \<Rightarrow> vtimer" where
  "vt_clear_status m v = v\<lparr>status_flags := clear_status m (status_flags v)\<rparr>"

abbreviation has_status :: "vtimer \<Rightarrow> u16 \<Rightarrow> bool" where
  "has_status v m \<equiv> status_flags v AND m \<noteq> 0"

section \<open>Reading and steering the clock\<close>

definition vtimer_start :: "bool \<Rightarrow> u32 \<Rightarrow> vtimer \<Rightarrow> vtimer res" where
  "vtimer_start task_created system_frequency v =
     rbind (ASSERT task_created) (\<lambda>_.
     Inr (v\<lparr>vpll := pll_reset (init_pllmath (vpll v)),
            quant_corr := Fin 0, quant_corr_deferred := Fin 0,
            vt_rate_nominal := div64 NTP_TO_FLOAT (dbl (uint system_frequency))\<rparr>))"

definition vtimer_getI :: "u64 \<Rightarrow> vtimer \<Rightarrow> u64" where
  "vtimer_getI mono_next v =
     (let delta_ticks = ucast (mono_next - mono_last v) :: u32;
          frac_part = vt_rate v * scast delta_ticks
      in vt_last v + signed_drop_bit VT_RATE_PREC frac_part)"

definition vtimer_updateI :: "sample list \<Rightarrow> vtimer \<Rightarrow> vtimer res" where
  "vtimer_updateI rs v =
     rbind (monotonic_now rs (vmono v)) (\<lambda>(mono_next, m).
     let v = v\<lparr>vmono := m\<rparr>; v = v\<lparr>vt_last := vtimer_getI mono_next v\<rparr> in
     Inr (v\<lparr>mono_last := mono_next\<rparr>))"

definition vtimer_get_frac_delta :: "u64 \<Rightarrow> vtimer \<Rightarrow> fp \<times> vtimer" where
  "vtimer_get_frac_delta capture v =
     (let vt_capture = vtimer_getI capture v;
          corr = quant_corr v;
          v = v\<lparr>quant_corr := quant_corr_deferred v\<rparr>;
          v = v\<lparr>quant_corr_deferred := Fin 0\<rparr>;
          v = (if \<not> feq corr (Fin 0) then vt_set_status STATUS_USED_QUANT v
               else vt_clear_status STATUS_USED_QUANT v);
          vt_capture = vt_capture AND NTP_MASK_FRAC;
          frac = div64 (dbl (uint (ucast vt_capture :: u32))) NTP_TO_FLOAT;
          frac = add64 frac corr;
          frac = (if fgt frac (f64 (1 / 2)) then sub64 frac (f64 1) else frac)
      in (frac, v))"

definition ppm500 :: fp where "ppm500 = f64 (500 / 10 ^ 6)"

definition freq_clamp :: "fp \<Rightarrow> fp" where
  "freq_clamp f =
     (if fgt f ppm500 then ppm500 else if flt f (fneg ppm500) then fneg ppm500 else f)"

definition kern_freq :: "fp \<Rightarrow> vtimer \<Rightarrow> vtimer res" where
  "kern_freq f v =
     (let f = freq_clamp f in
      rbind (f2i 0 (2 ^ 64 - 1)
               (mul64 (mul64 (vt_rate_nominal v) (add64 (f64 1) f)) (f64 (2 ^ VT_RATE_PREC)))) (\<lambda>r.
      Inr (v\<lparr>vt_rate := word_of_int r\<rparr>)))"

definition vtimer_step :: "sample list \<Rightarrow> fp \<Rightarrow> vtimer \<Rightarrow> vtimer res" where
  "vtimer_step rs dd v =
     rbind (f2i (- (2 ^ 63)) (2 ^ 63 - 1) (mul64 dd NTP_TO_FLOAT)) (\<lambda>d.
     vtimer_updateI rs (v\<lparr>vt_last := vt_last v + word_of_int d\<rparr>))"

definition vtimer_now :: "sample list \<Rightarrow> vtimer \<Rightarrow> (u64 \<times> vtimer) res" where
  "vtimer_now rs v =
     rbind (monotonic_now rs (vmono v)) (\<lambda>(t, m).
     let v = v\<lparr>vmono := m\<rparr> in Inr (vtimer_getI t v, v))"

definition vtimer_set_utc :: "u16 \<Rightarrow> u8 \<Rightarrow> u8 \<Rightarrow> u8 \<Rightarrow> u8 \<Rightarrow> u8 \<Rightarrow> vtimer \<Rightarrow> vtimer res" where
  "vtimer_set_utc year month day hour minute second v =
     rbind (datetime_to_epoch year month day hour minute second) (\<lambda>t.
     Inr (v\<lparr>utc_next := ucast t\<rparr>))"

definition vtimer_set_gps :: "u16 \<Rightarrow> u32 \<Rightarrow> vtimer \<Rightarrow> vtimer" where
  "vtimer_set_gps wkn tow v = v\<lparr>utc_next := ucast (gps_to_epoch wkn tow)\<rparr>"

datatype quant_leadlag = LEADING | LAGGING

definition vtimer_set_correction :: "fp \<Rightarrow> quant_leadlag \<Rightarrow> vtimer \<Rightarrow> vtimer" where
  "vtimer_set_correction corr leadlag v =
     (if leadlag = LEADING then v\<lparr>quant_corr_deferred := corr\<rparr>
      else v\<lparr>quant_corr := corr, quant_corr_deferred := Fin 0\<rparr>)"

text \<open>
  The divisor \<open>vt_rate\<close> is unsigned, so C converts the signed \<open>delta_vt\<close> to unsigned
  and divides unsigned. A thread that sleeps sees the interrupts \<open>irqs\<close> and goes on when
  the semaphore has been given.
\<close>

definition sleep_target :: "u64 \<Rightarrow> vtimer \<Rightarrow> u64" where
  "sleep_target vt_when v =
     (let delta_vt = push_bit VT_RATE_PREC (vt_when - vt_last v) in
      mono_last v + delta_vt div vt_rate v)"

type_synonym irq = "u16 \<times> u16 \<times> u16"

definition take_irqs :: "irq list \<Rightarrow> mono \<Rightarrow> mono" where
  "take_irqs irqs m = fold (\<lambda>(sr, c1, c3). TIM3_IRQHandler sr c1 c3) irqs m"

definition vtimer_sleep_until :: "irq list \<Rightarrow> u64 \<Rightarrow> vtimer \<Rightarrow> vtimer res" where
  "vtimer_sleep_until irqs vt_when v =
     (if vt_rate v = 0 then Inl (Undef ''division by zero'')
      else case sleep_wakeup (take_irqs irqs (monotonic_sleep_until (sleep_target vt_when v) (vmono v))) of
        None \<Rightarrow> Inl Fuel
      | Some m \<Rightarrow> Inr (v\<lparr>vmono := m\<rparr>))"

section \<open>The clock thread\<close>

record pll_local =
  last_pps :: u32
  desync :: u8
  next_report :: u16
  ojit :: fp
  fjit :: fp
  ppb_last :: fp
  ppb_delta :: fp

record clock_cfg =
  cfg_flags :: u32
  cfg_holdover :: u32
  cfg_loopstats_interval :: u16

text \<open>The tick count of the scheduler is read at up to three places of a round.\<close>

definition pdMS_TO_TICKS :: "u32 \<Rightarrow> u32" where
  "pdMS_TO_TICKS ms = ms * 100 div 1000"

definition pll_thread_lock_status :: "fp \<Rightarrow> vtimer \<Rightarrow> vtimer" where
  "pll_thread_lock_status delta v =
     (if has_status v STATUS_PLL_OK
      then if st (vpll v) < 3
           then vt_clear_status STATUS_PLL_OK
                  (vt_log_write LOG_WARNING ''vtimer'' ''PLL is not locked!'' [] v)
           else v
      else if st (vpll v) \<ge> 3 \<and> fgt delta (fneg SETTLED_THRESH) \<and> flt delta SETTLED_THRESH
           then vt_set_status STATUS_PLL_OK
                  (vt_log_write LOG_NOTICE ''vtimer'' ''PLL has become locked'' [] v)
           else v)"

definition pll_thread_desync ::
  "sample list \<Rightarrow> fp \<Rightarrow> pll_local \<Rightarrow> vtimer \<Rightarrow> (pll_local \<times> vtimer) res" where
  "pll_thread_desync rs delta l v =
     (if flt delta (fneg STEP_THRESH) \<or> fgt delta STEP_THRESH
      then let l = l\<lparr>desync := desync l + 1\<rparr> in
           if desync l \<ge> 5
           then rbind (vtimer_step rs (fneg delta) v) (\<lambda>v.
                let v = v\<lparr>vpll := pll_reset (init_pllmath (vpll v))\<rparr>; l = l\<lparr>desync := 0\<rparr> in
                rbind (f2int (mul64 (fneg delta) (f64 (10 ^ 6)))) (\<lambda>us.
                Inr (l, vt_log_write LOG_NOTICE ''vtimer'' ''step(PPS) %d us'' [LInt us] v)))
           else Inr (l, v)
      else Inr (l\<lparr>desync := 0\<rparr>, v))"

definition pll_thread_pps ::
  "(fp \<Rightarrow> fp \<Rightarrow> fp) \<Rightarrow> sample list \<Rightarrow> u32 \<Rightarrow> u32 \<Rightarrow> u64 \<Rightarrow> pll_local \<Rightarrow> vtimer
   \<Rightarrow> (fp \<times> pll_local \<times> vtimer) res" where
  "pll_thread_pps pow rs tick1 tick2 tmp l v =
     (let (delta, v) = vtimer_get_frac_delta tmp v;
          v = pll_thread_lock_status delta v in
      rbind (pll_thread_desync rs delta l v) (\<lambda>(l, v).
      let v = (if tick1 - last_pps l < pdMS_TO_TICKS 1100 \<and> \<not> has_status v STATUS_PPS_OK
               then vt_set_status STATUS_PPS_OK
                      (vt_log_write LOG_NOTICE ''vtimer'' ''PPS detected'' [] v)
               else v);
          l = l\<lparr>last_pps := tick2\<rparr> in
      rbind (pll_math pow delta (vpll v)) (\<lambda>(ppb, ps).
      Inr (ppb, l, v\<lparr>vpll := ps\<rparr>))))"

definition pll_thread_no_pps ::
  "clock_cfg \<Rightarrow> u32 \<Rightarrow> u32 \<Rightarrow> u64 \<Rightarrow> pll_local \<Rightarrow> vtimer \<Rightarrow> (fp \<times> pll_local \<times> vtimer) res" where
  "pll_thread_no_pps cfg tick1 tick2 tmp l v =
     (let v = (if tick1 - last_pps l \<ge> pdMS_TO_TICKS 5000 \<and> has_status v STATUS_PPS_OK
               then vt_clear_status STATUS_PPS_OK
                      (vt_log_write LOG_WARNING ''vtimer'' ''PPS is not valid!'' [] v)
               else v);
          v = (if tick2 - last_pps l \<ge> pdMS_TO_TICKS 1000 * cfg_holdover cfg \<and> has_status v STATUS_PLL_OK
               then vt_clear_status STATUS_PLL_OK
                      (vt_log_write LOG_ERR ''vtimer'' ''PLL lock timed out due to lack of PPS'' [] v)
               else v) in
      rbind (if tmp \<noteq> 0 \<and> next_report l = 0
             then let (delta, v) = vtimer_get_frac_delta tmp v in
                  rbind (f2int (mul64 delta (f64 (10 ^ 9)))) (\<lambda>ns.
                  Inr (vt_log_write LOG_WARNING ''vtimer''
                         ''HOLDOVER TEST!  current offset: %d ns'' [LInt ns] v))
             else Inr v) (\<lambda>v.
      let (ppb, ps) = pll_poll (vpll v) in Inr (ppb, l, v\<lparr>vpll := ps\<rparr>)))"

definition pll_thread_discipline ::
  "sample list \<Rightarrow> fp \<Rightarrow> vtimer \<Rightarrow> (int \<times> u64 \<times> vtimer) res" where
  "pll_thread_discipline rs ppb v =
     rbind (kern_freq ppb v) (\<lambda>v.
     rbind (vtimer_updateI rs v) (\<lambda>v.
     let last_vt = vt_last v;
         (tmps, v) =
           (if utc_next v \<noteq> 0
            then (uint (utc_next v) - uint (drop_bit 32 last_vt),
                  v\<lparr>utc_next := 0, status_flags := status_flags v OR STATUS_TOD_OK\<rparr>)
            else (0, v));
         v = (if watchdog_main v \<noteq> 0 \<and> watchdog_net v \<noteq> 0
              then v\<lparr>iwdg_clears := iwdg_clears v + 1,
                     watchdog_main := watchdog_main v - 1, watchdog_net := watchdog_net v - 1\<rparr>
              else v)
     in Inr (tmps, last_vt, v)))"

definition pll_thread_step_utc ::
  "sample list \<Rightarrow> sample list \<Rightarrow> u16 \<Rightarrow> int \<Rightarrow> u64 \<Rightarrow> vtimer \<Rightarrow> (u64 \<times> vtimer) res" where
  "pll_thread_step_utc rs1 rs2 old_status tmps last_vt v =
     rbind (if tmps \<noteq> 0
            then rbind (vtimer_step rs1 (dbl tmps) v) (\<lambda>v.
                 let arg = (if tmps div 2 ^ 31 \<noteq> 0 then uint (word_of_int tmps :: u32)
                            else sint (word_of_int tmps :: u32));
                     v = vt_log_write LOG_NOTICE ''vtimer'' ''step(UTC) %d sec'' [LInt arg] v in
                 rbind (vtimer_updateI rs2 v) (\<lambda>v. Inr (vt_last v, v)))
            else Inr (last_vt, v)) (\<lambda>(last_vt, v).
     Inr (last_vt,
       if old_status AND STATUS_TOD_OK = 0 \<and> has_status v STATUS_TOD_OK
       then vt_log_write LOG_NOTICE ''vtimer'' ''Time of day is correct'' [] v else v))"

definition pll_thread_jitter :: "fp \<Rightarrow> pll_local \<Rightarrow> vtimer \<Rightarrow> pll_local" where
  "pll_thread_jitter ppb l v =
     (let l = l\<lparr>ppb_delta := fcast f32 (sub64 ppb (ppb_last l))\<rparr>;
          l = l\<lparr>ppb_last := fcast f32 ppb\<rparr>;
          j = pj (vpll v); d = dy (vpll v) in
      if j \<noteq> 0
      then let l = l\<lparr>ojit := fcast f32 (add64 (ojit l) (div64 (sub64 (mul64 d d) (ojit l)) (dbl j)))\<rparr> in
           l\<lparr>fjit := fadd f32 (fjit l)
               (fdiv f32 (fsub f32 (fmul f32 (ppb_delta l) (ppb_delta l)) (fjit l)) (f32 (of_int j)))\<rparr>
      else l)"

definition pll_thread_loopstats ::
  "(fp \<Rightarrow> fp) \<Rightarrow> clock_cfg \<Rightarrow> fp \<Rightarrow> pll_local \<Rightarrow> vtimer \<Rightarrow> (pll_local \<times> vtimer) res" where
  "pll_thread_loopstats sqrtf cfg ppb l v =
     (let l = pll_thread_jitter ppb l v;
          fjitter = fcast f32 (mul64 (f64 (10 ^ 12)) (sqrtf (fjit l)));
          fjitter = (if flt fjitter (f32 (- (2 ^ 31))) \<or> fgt fjitter (f32 (2 ^ 31 - 1))
                     then Fin 0 else fjitter) in
      rbind (f2int (mul64 (f64 (10 ^ 9)) (my (vpll v)))) (\<lambda>timeOffset.
      rbind (f2int (mul64 (f64 (10 ^ 9)) ppb)) (\<lambda>frequencyOffset.
      rbind (f2int (mul64 (f64 (10 ^ 9)) (sqrtf (ojit l)))) (\<lambda>timeJitter.
      rbind (f2int fjitter) (\<lambda>frequencyJitter.
      let v = v\<lparr>loopstats_values := [timeOffset, frequencyOffset, timeJitter, frequencyJitter,
                                      pj (vpll v), st (vpll v)]\<rparr>;
          flag = (\<lambda>m. LStr (if has_status v m then [] else ''!'')) in
      if next_report l = 0
      then Inr (l\<lparr>next_report := cfg_loopstats_interval cfg - 1\<rparr>,
             vt_log_write LOG_INFO ''loopstats''
               ''off:%dns freq:%dppb jit:%dns fjit:%dppt looptc:%ds state:%d flags:%sPPS,%sToD,%sPLL,%sQUANT''
               (map LInt (loopstats_values v) @
                [flag STATUS_PPS_OK, flag STATUS_TOD_OK, flag STATUS_PLL_OK, flag STATUS_USED_QUANT]) v)
      else Inr (l\<lparr>next_report := next_report l - 1\<rparr>, v))))))"

definition pll_thread_leds_on :: "vtimer \<Rightarrow> vtimer" where
  "pll_thread_leds_on v =
     (let v = (if NOT (status_flags v) AND STATUS_VALID \<noteq> 0
               then let v = v\<lparr>LED3 := True\<rparr> in
                    if has_status v STATUS_PPS_OK then v\<lparr>LED4 := True\<rparr> else v\<lparr>LED4 := False\<rparr>
               else v\<lparr>LED3 := False, LED4 := True\<rparr>)
      in if status_flags v AND STATUS_SETTLED = STATUS_SETTLED then v\<lparr>LED2 := True\<rparr>
         else if has_status v STATUS_SETTLED then v\<lparr>LED1 := True\<rparr>
         else v)"

text \<open>\<open>tmp += x * NTP_SECOND\<close> adds in \<open>double\<close> and converts back to \<open>uint64_t\<close>.\<close>

definition add_seconds :: "u64 \<Rightarrow> fp \<Rightarrow> u64 res" where
  "add_seconds t x =
     rbind (f2i 0 (2 ^ 64 - 1) (add64 (dbl (uint t)) (mul64 x (dbl (uint NTP_SECOND))))) (\<lambda>r.
     Inr (word_of_int r))"

definition pll_thread_wait ::
  "irq list \<Rightarrow> irq list \<Rightarrow> irq list \<Rightarrow> u64 \<Rightarrow> vtimer \<Rightarrow> vtimer res" where
  "pll_thread_wait irqs1 irqs2 irqs3 last_vt v =
     (let tmp = (last_vt AND NTP_MASK_SECONDS) + NTP_SECOND in
      rbind (vtimer_sleep_until irqs1 tmp v) (\<lambda>v.
      let v = pll_thread_leds_on v in
      rbind (add_seconds tmp PPS_BLINK_TIME) (\<lambda>tmp.
      rbind (vtimer_sleep_until irqs2 tmp v) (\<lambda>v.
      let v = v\<lparr>LED1 := False, LED2 := False\<rparr> in
      rbind (add_seconds tmp (sub64 PLL_SUB_TIME PPS_BLINK_TIME)) (\<lambda>tmp.
      vtimer_sleep_until irqs3 tmp v)))))"

text \<open>What one round reads from the hardware and from the scheduler.\<close>

record round_inputs =
  in_tick1 :: u32
  in_tick2 :: u32
  in_pps_step :: "sample list"
  in_update :: "sample list"
  in_utc_step :: "sample list"
  in_utc_update :: "sample list"
  in_irqs1 :: "irq list"
  in_irqs2 :: "irq list"
  in_irqs3 :: "irq list"

definition pll_thread_round ::
  "(fp \<Rightarrow> fp \<Rightarrow> fp) \<Rightarrow> (fp \<Rightarrow> fp) \<Rightarrow> clock_cfg \<Rightarrow> round_inputs \<Rightarrow> pll_local \<Rightarrow> vtimer
   \<Rightarrow> (pll_local \<times> vtimer) res" where
  "pll_thread_round pow sqrtf cfg inp l v =
     (let (tmp, m) = monotonic_get_capture (vmono v); v = v\<lparr>vmono := m\<rparr>;
          old_status = status_flags v in
      rbind (if tmp \<noteq> 0 \<and> cfg_flags cfg AND FLAG_HOLDOVER_TEST = 0
             then pll_thread_pps pow (in_pps_step inp) (in_tick1 inp) (in_tick2 inp) tmp l v
             else pll_thread_no_pps cfg (in_tick1 inp) (in_tick2 inp) tmp l v) (\<lambda>(ppb, l, v).
      rbind (pll_thread_discipline (in_update inp) ppb v) (\<lambda>(tmps, last_vt, v).
      rbind (pll_thread_step_utc (in_utc_step inp) (in_utc_update inp) old_status tmps last_vt v)
        (\<lambda>(last_vt, v).
      rbind (pll_thread_loopstats sqrtf cfg ppb l v) (\<lambda>(l, v).
      rbind (pll_thread_wait (in_irqs1 inp) (in_irqs2 inp) (in_irqs3 inp) last_vt v) (\<lambda>v.
      Inr (l, v)))))))"

text \<open>The state after the C startup code, before \<open>vtimer_start\<close>.\<close>

definition vtimer0 :: vtimer where
  "vtimer0 = \<lparr>vt_rate = 0, vt_rate_nominal = Fin 0, vt_last = 0, mono_last = 0, utc_next = 0,
     quant_corr = Fin 0, quant_corr_deferred = Fin 0, loopstats_values = replicate 6 0,
     status_flags = 0, vmono = mono0, vpll = pll_state0, watchdog_main = 0, watchdog_net = 0,
     iwdg_clears = 0, LED1 = False, LED2 = False, LED3 = False, LED4 = False, vt_log = []\<rparr>"

section \<open>Readings\<close>

lemma sint_word_of_int_id:
  assumes "- (2 ^ 63) \<le> x" "x < 2 ^ 63"
  shows "sint (word_of_int x :: u64) = x"
  using assms by (simp add: signed_of_int signed_take_bit_int_eq_self)

lemma vtimer_getI_linear:
  assumes "s = sint (ucast (mono_next - mono_last v) :: u32)"
    and "- (2 ^ 63) \<le> uint (vt_rate v) * s" "uint (vt_rate v) * s < 2 ^ 63"
  shows "vtimer_getI mono_next v = vt_last v + word_of_int ((uint (vt_rate v) * s) div 2 ^ 28)"
proof -
  let ?d = "ucast (mono_next - mono_last v) :: u32"
  have "vt_rate v * scast ?d = word_of_int (uint (vt_rate v) * s)"
    unfolding assms(1) wi_hom_mult [symmetric] by simp
  then have "sint (vt_rate v * scast ?d) = uint (vt_rate v) * s"
    using sint_word_of_int_id [OF assms(2,3)] by simp
  then have "sint (signed_drop_bit 28 (vt_rate v * scast ?d)) = (uint (vt_rate v) * s) div 2 ^ 28"
    by (simp add: sint_signed_drop_bit_eq drop_bit_eq_div)
  from arg_cong [OF this, of "word_of_int :: int \<Rightarrow> u64"]
  have "signed_drop_bit 28 (vt_rate v * scast ?d) = word_of_int ((uint (vt_rate v) * s) div 2 ^ 28)"
    by simp
  then show ?thesis by (simp add: vtimer_getI_def VT_RATE_PREC_def Let_def)
qed

lemma vtimer_getI_forward:
  assumes "d < 2 ^ 31" "unat (vt_rate v) * d < 2 ^ 63"
  shows "vtimer_getI (mono_last v + of_nat d) v
       = vt_last v + of_nat (unat (vt_rate v) * d div 2 ^ 28)"
proof -
  have "ucast (of_nat d :: u64) = (of_nat d :: u32)"
    using assms(1) by (intro ucast_of_nat_small) simp
  then have s: "int d = sint (ucast (mono_last v + of_nat d - mono_last v) :: u32)"
    using assms(1) by (simp add: sint_eq_uint_small unsigned_of_nat take_bit_nat_eq_self signed_of_nat
        signed_take_bit_int_eq_self)
  have p: "uint (vt_rate v) * int d = int (unat (vt_rate v) * d)" by simp
  have "uint (vt_rate v) * int d < 2 ^ 63"
    unfolding p using assms(2) by (metis of_nat_less_iff of_nat_numeral of_nat_power)
  moreover have "- (2 ^ 63) \<le> uint (vt_rate v) * int d"
    unfolding p by (rule order_trans [of _ 0]) simp_all
  ultimately have "vtimer_getI (mono_last v + of_nat d) v
      = vt_last v + word_of_int ((uint (vt_rate v) * int d) div 2 ^ 28)"
    by (intro vtimer_getI_linear [OF s])
  also have "(uint (vt_rate v) * int d) div 2 ^ 28 = int (unat (vt_rate v) * d div 2 ^ 28)"
    unfolding p by (simp add: zdiv_int)
  finally show ?thesis by simp
qed

text \<open>
  C9. The clock never runs backwards between two updates: of two readings taken later
  than the last update, the later tick gives the later (or same) time, as long as the
  product \<open>vt_rate * delta_ticks\<close> fits 63 bits (seven seconds at 72 MHz) and the NTP era
  does not end in between.
\<close>

theorem vtimer_monotone:
  assumes "d1 \<le> d2" "d2 < 2 ^ 31" "unat (vt_rate v) * d2 < 2 ^ 63"
    and "unat (vt_last v) + unat (vt_rate v) * d2 div 2 ^ 28 < 2 ^ 64"
  shows "vtimer_getI (mono_last v + of_nat d1) v \<le> vtimer_getI (mono_last v + of_nat d2) v"
proof -
  let ?f = "\<lambda>d. unat (vt_rate v) * d div 2 ^ 28"
  have le: "unat (vt_rate v) * d1 \<le> unat (vt_rate v) * d2" using assms(1) by simp
  then have f: "?f d1 \<le> ?f d2" by (rule div_le_mono)
  have r: "vtimer_getI (mono_last v + of_nat d) v = of_nat (unat (vt_last v) + ?f d)"
    if "d < 2 ^ 31" "unat (vt_rate v) * d < 2 ^ 63" for d
    using vtimer_getI_forward [OF that] by simp
  have "of_nat (unat (vt_last v) + ?f d1) \<le> (of_nat (unat (vt_last v) + ?f d2) :: u64)"
    using f assms(4) by (subst of_nat_le_iff_word) simp_all
  moreover have "unat (vt_rate v) * d1 < 2 ^ 63" using le assms(3) by (rule le_less_trans)
  ultimately show ?thesis using r [of d1] r [of d2] assms by simp
qed

lemma floor_split:
  assumes "0 < (k::nat)"
  shows "(a + b) div k = a div k + b div k \<or> (a + b) div k = a div k + b div k + 1"
proof -
  have "(a mod k + b mod k) div k < 2"
    using mod_less_divisor [OF assms, of a] mod_less_divisor [OF assms, of b]
    by (intro less_mult_imp_div_less) linarith
  then have "(a mod k + b mod k) div k = 0 \<or> (a mod k + b mod k) div k = 1" by linarith
  with div_add1_eq [of a b k] show ?thesis by auto
qed

text \<open>
  C10. Advancing the base of the clock is seamless: \<open>vtimer_updateI\<close> at \<open>d1\<close> ticks after
  the previous update sets the base to the reading at that tick, and a reading \<open>d2\<close> ticks
  later is the reading without that update, less at most one unit of \<open>2 ^ -32\<close> second.
\<close>

theorem vtimer_update_seamless:
  assumes "monotonic_now rs (vmono v) = Inr (mono_last v + of_nat d1, m)"
    and "d1 + d2 < 2 ^ 31" "unat (vt_rate v) * (d1 + d2) < 2 ^ 63"
  shows "\<exists>w. vtimer_updateI rs v = Inr w \<and> mono_last w = mono_last v + of_nat d1
     \<and> vt_last w = vtimer_getI (mono_last v + of_nat d1) v
     \<and> (let t = vtimer_getI (mono_last v + of_nat (d1 + d2)) v in
         vtimer_getI (mono_last w + of_nat d2) w \<in> {t, t - 1})"
proof -
  define w where "w = v\<lparr>vmono := m, vt_last := vtimer_getI (mono_last v + of_nat d1) v,
      mono_last := mono_last v + of_nat d1\<rparr>"
  have [simp]: "vtimer_getI x (v\<lparr>vmono := m\<rparr>) = vtimer_getI x v" for x by (simp add: vtimer_getI_def)
  have u: "vtimer_updateI rs v = Inr w" using assms(1) by (simp add: vtimer_updateI_def w_def)
  let ?r = "unat (vt_rate v)"
  have b: "?r * d1 < 2 ^ 63" "?r * d2 < 2 ^ 63" using assms(3) by (simp_all add: distrib_left)
  have "vtimer_getI (mono_last w + of_nat d2) w = vt_last w + of_nat (?r * d2 div 2 ^ 28)"
    using vtimer_getI_forward [of d2 w] assms(2) b by (simp add: w_def)
  also have "vt_last w = vt_last v + of_nat (?r * d1 div 2 ^ 28)"
    using vtimer_getI_forward [of d1 v] assms(2) b by (simp add: w_def)
  finally have g: "vtimer_getI (mono_last w + of_nat d2) w
      = vt_last v + of_nat (?r * d1 div 2 ^ 28 + ?r * d2 div 2 ^ 28)" by simp
  have t: "vtimer_getI (mono_last v + of_nat (d1 + d2)) v
      = vt_last v + of_nat ((?r * d1 + ?r * d2) div 2 ^ 28)"
    using vtimer_getI_forward [OF assms(2,3)] by (simp add: distrib_left)
  have "vtimer_getI (mono_last w + of_nat d2) w
      \<in> {vtimer_getI (mono_last v + of_nat (d1 + d2)) v, vtimer_getI (mono_last v + of_nat (d1 + d2)) v - 1}"
    using floor_split [of "2 ^ 28" "?r * d1" "?r * d2"] unfolding g t by auto
  with u show ?thesis by (simp add: w_def Let_def)
qed

section \<open>Steering\<close>

lemma f64_half: "f64 (1 / 2) = Fin (1 / 2)"
  using double.rn_dyadic [of 1 1] by simp

lemma ntp_to_float: "NTP_TO_FLOAT = Fin 4294967296"
  using double.rn_int [of 4294967296] by (simp add: NTP_TO_FLOAT_def)

lemma abs_sum4: "\<lbrakk>\<bar>a\<bar> \<le> A; \<bar>b\<bar> \<le> B; \<bar>c\<bar> \<le> C; \<bar>d\<bar> \<le> D; A + B + C + D \<le> E\<rbrakk>
    \<Longrightarrow> \<bar>a + b + c + d\<bar> \<le> E" for a b c d A B C D E :: real
  by linarith

text \<open>The frequency that \<open>f\<close> asks for, cut at 500 ppm.\<close>

fun ppm_asked :: "fp \<Rightarrow> real" where
  "ppm_asked (Fin a) = max (- 1 / 2000) (min (1 / 2000) a)"
| "ppm_asked (FInf neg) = (if neg then - 1 / 2000 else 1 / 2000)"
| "ppm_asked FNaN = 0"

lemma ppm_asked_range: "\<bar>ppm_asked f\<bar> \<le> 1 / 2000"
  by (cases f) (auto simp: abs_le_iff)

lemma freq_clamp_near:
  assumes "f \<noteq> FNaN"
  obtains c where "freq_clamp f = Fin c" "\<bar>c - ppm_asked f\<bar> \<le> 1 / 2 ^ 52"
proof -
  obtain k where k: "ppm500 = Fin k" "\<bar>k - 1 / 2000\<bar> \<le> 1 / 2 ^ 52"
    using double.rn_near [of "500 / 10 ^ 6" 1 52] by (auto simp: ppm500_def)
  have "(1 :: real) / 2 ^ 52 \<le> 1 / 2000" by simp
  then have k0: "0 \<le> k" using k(2) by linarith
  show thesis
  proof (cases f)
    case (Fin a)
    let ?c = "if k < a then k else if a < - k then - k else a"
    have "freq_clamp f = Fin ?c" by (auto simp: freq_clamp_def k(1) Fin)
    moreover have "\<bar>?c - ppm_asked f\<bar> \<le> \<bar>k - 1 / 2000\<bar>" using k0 Fin by (auto simp: max_def min_def)
    then have "\<bar>?c - ppm_asked f\<bar> \<le> 1 / 2 ^ 52" using k(2) by (rule order_trans)
    ultimately show thesis by (rule that)
  next
    case (FInf s)
    have "freq_clamp f = Fin (if s then - k else k)" by (auto simp: freq_clamp_def k(1) FInf)
    moreover have "\<bar>(if s then - k else k) - ppm_asked f\<bar> = \<bar>k - 1 / 2000\<bar>" using FInf by auto
    then have "\<bar>(if s then - k else k) - ppm_asked f\<bar> \<le> 1 / 2 ^ 52" using k(2) by simp
    ultimately show thesis by (rule that)
  qed (use assms in simp)
qed

text \<open>
  C4. The rate that \<open>kern_freq\<close> sets, for a nominal rate of \<open>n\<close> NTP fractions per tick
  (any \<open>n\<close> below 2^14: 59.65 at 72 MHz): for every requested frequency, infinities
  included, the new \<open>vt_rate\<close> is \<open>n (1 + f) 2^28\<close> with \<open>f\<close> cut to +-500 ppm, to within
  2^-26 NTP fractions per tick (the roundings of the three \<open>double\<close> operations and of the
  truncation together); so it lies within 500 ppm and 2^-26 of the nominal rate itself and
  no conversion overflows. A NaN passes both comparisons of the cut and reaches the
  conversion to \<open>uint64_t\<close>, which C leaves undefined.
\<close>

theorem kern_freq_bounded:
  assumes "vt_rate_nominal v = Fin n" "0 \<le> n" "n < 2 ^ 14"
  shows "(f \<noteq> FNaN \<longrightarrow> (\<exists>r. kern_freq f v = Inr (v\<lparr>vt_rate := r\<rparr>)
       \<and> \<bar>of_int (uint r) / 2 ^ 28 - n * (1 + ppm_asked f)\<bar> \<le> 1 / 2 ^ 26
       \<and> \<bar>of_int (uint r) / 2 ^ 28 - n\<bar> \<le> n / 2000 + 1 / 2 ^ 26))
     \<and> (f = FNaN \<longrightarrow> kern_freq f v = Inl (Undef ''float to integer''))"
proof -
  have e28: "f64 (2 ^ VT_RATE_PREC) = Fin (2 ^ 28)" using double.rn_int [of "2 ^ 28"] by (simp add: VT_RATE_PREC_def)
  have one: "f64 1 = Fin 1" using double.rn_int [of 1] by simp
  have nan: "kern_freq FNaN v = Inl (Undef ''float to integer'')" by (simp add: kern_freq_def freq_clamp_def one e28 assms(1))
  have "\<exists>r. kern_freq f v = Inr (v\<lparr>vt_rate := r\<rparr>) \<and> \<bar>of_int (uint r) / 2 ^ 28 - n * (1 + ppm_asked f)\<bar> \<le> 1 / 2 ^ 26
      \<and> \<bar>of_int (uint r) / 2 ^ 28 - n\<bar> \<le> n / 2000 + 1 / 2 ^ 26" if f: "f \<noteq> FNaN"
  proof -
    let ?x = "1 + ppm_asked f"
    obtain c where c: "freq_clamp f = Fin c" "\<bar>c - ppm_asked f\<bar> \<le> 1 / 2 ^ 52" using f by (rule freq_clamp_near)
    have cr: "\<bar>c\<bar> \<le> 1 / 1000" 
    proof -
      have "(1 :: real) / 2 ^ 52 \<le> 1 / 2000" by simp
      then show ?thesis using c(2) ppm_asked_range [of f] by linarith
    qed
    obtain g where g: "f64 (1 + c) = Fin g" "\<bar>g - (1 + c)\<bar> \<le> 1 / 2 ^ 51"
    proof (rule double.rn_near [of "1 + c" 2 51])
      have "\<bar>1 + c\<bar> \<le> 1 + 1 / 1000" using cr by linarith
      then show "\<bar>1 + c\<bar> < 2 ^ 2 - 1" by simp
    qed simp_all
    have "(1 :: real) / 2 ^ 51 + 1 / 2 ^ 52 \<le> 1 / 2 ^ 50" by simp
    then have gx: "\<bar>g - ?x\<bar> \<le> 1 / 2 ^ 50" using g(2) c(2) by linarith
    have "(1 :: real) / 2 ^ 51 \<le> 1 / 2" by simp
    then have g01: "0 \<le> g" "g \<le> 2" using g(2) cr by linarith+
    have ng: "0 \<le> n * g" "n * g \<le> 2 ^ 15" using mult_mono [of n "2 ^ 14" g 2] assms(2,3) g01 by simp_all
    obtain p where p: "f64 (n * g) = Fin p" "\<bar>p - n * g\<bar> \<le> 1 / 2 ^ 36"
      using double.rn_near [of "n * g" 17 36] ng by (auto simp: abs_less_iff)
    have pn: "\<bar>p - n * g\<bar> \<le> 1" using p(2) by (rule order_trans) simp
    have "(2 :: real) ^ 15 + 1 \<le> 2 ^ 16" by simp
    then have pr: "- 1 \<le> p" "p \<le> 2 ^ 16" using pn ng by linarith+
    obtain q where q: "f64 (p * 2 ^ 28) = Fin q" "\<bar>q - p * 2 ^ 28\<bar> \<le> 1 / 2 ^ 8"
      using double.rn_near [of "p * 2 ^ 28" 45 8] pr by (auto simp: abs_less_iff)
    have p0: "0 \<le> p" using double.rn_nonneg [OF ng(1) p(1)] .
    have q0: "0 \<le> q" using double.rn_nonneg [OF _ q(1)] p0 by simp
    have qn: "\<bar>q - p * 2 ^ 28\<bar> \<le> 1" using q(2) by (rule order_trans) simp
    have q1: "q < 2 ^ 45" using qn pr(2) by simp
    have r: "0 \<le> \<lfloor>q\<rfloor>" "\<lfloor>q\<rfloor> < 2 ^ 64" using q0 q1 by (simp_all add: floor_less_iff)
    have k: "kern_freq f v = Inr (v\<lparr>vt_rate := word_of_int \<lfloor>q\<rfloor>\<rparr>)"
      using c(1) g(1) p(1) q(1) q0 r by (simp add: kern_freq_def one e28 assms(1) trunc_def)
    have u: "uint (word_of_int \<lfloor>q\<rfloor> :: u64) = \<lfloor>q\<rfloor>" using r by (intro uint_word_of_int_id) simp_all
    have fl: "\<bar>of_int \<lfloor>q\<rfloor> - q\<bar> \<le> (1 :: real)" by linarith
    have "\<bar>n * g - n * ?x\<bar> = n * \<bar>g - ?x\<bar>" using assms(2) by (simp add: abs_mult flip: right_diff_distrib)
    also have "\<dots> \<le> 2 ^ 14 * (1 / 2 ^ 50)" using assms(2,3) gx by (intro mult_mono) simp_all
    finally have ngx: "\<bar>n * g - n * ?x\<bar> \<le> 1 / 2 ^ 36" by simp
    have near: "\<bar>of_int (uint (word_of_int \<lfloor>q\<rfloor> :: u64)) / 2 ^ 28 - n * ?x\<bar> \<le> 1 / 2 ^ 26"
    proof -
      have e: "of_int (uint (word_of_int \<lfloor>q\<rfloor> :: u64)) / 2 ^ 28 - n * ?x
          = (of_int \<lfloor>q\<rfloor> - q) / 2 ^ 28 + (q - p * 2 ^ 28) / 2 ^ 28 + (p - n * g) + (n * g - n * ?x)"
        unfolding u by (simp add: field_simps)
      have "\<bar>(of_int \<lfloor>q\<rfloor> - q) / 2 ^ 28\<bar> \<le> 1 / 2 ^ 28" "\<bar>(q - p * 2 ^ 28) / 2 ^ 28\<bar> \<le> 1 / 2 ^ 28"
        using fl qn by (simp_all add: divide_right_mono)
      moreover have "(1 :: real) / 2 ^ 28 + 1 / 2 ^ 28 + 1 / 2 ^ 36 + 1 / 2 ^ 36 \<le> 1 / 2 ^ 26" by simp
      ultimately show ?thesis unfolding e using p(2) ngx by (intro abs_sum4)
    qed
    have "\<bar>n * ?x - n\<bar> = n * \<bar>ppm_asked f\<bar>" using assms(2) by (simp add: abs_mult algebra_simps)
    also have "\<dots> \<le> n * (1 / 2000)" using assms(2) ppm_asked_range [of f] by (intro mult_left_mono) simp_all
    finally have "\<bar>n * ?x - n\<bar> \<le> n / 2000" by simp
    then have "\<bar>of_int (uint (word_of_int \<lfloor>q\<rfloor> :: u64)) / 2 ^ 28 - n\<bar> \<le> n / 2000 + 1 / 2 ^ 26" using near by linarith
    then show ?thesis using k near by blast
  qed
  then show ?thesis using nan by blast
qed

theorem kern_freq_bounded_witness:
  "(\<exists>r. kern_freq (Fin 1) (vtimer0\<lparr>vt_rate_nominal := Fin (119 / 2)\<rparr>)
         = Inr (vtimer0\<lparr>vt_rate_nominal := Fin (119 / 2), vt_rate := r\<rparr>)
     \<and> \<bar>of_int (uint r) / 2 ^ 28 - (119 / 2) * (2001 / 2000 :: real)\<bar> \<le> 1 / 2 ^ 26)
   \<and> kern_freq FNaN (vtimer0\<lparr>vt_rate_nominal := Fin (119 / 2)\<rparr>) = Inl (Undef ''float to integer'')"
proof
  let ?v = "vtimer0\<lparr>vt_rate_nominal := Fin (119 / 2)\<rparr>"
  have "ppm_asked (Fin 1) = 1 / 2000" by simp
  then show "\<exists>r. kern_freq (Fin 1) ?v = Inr (?v\<lparr>vt_rate := r\<rparr>) \<and> \<bar>of_int (uint r) / 2 ^ 28 - (119 / 2) * (2001 / 2000 :: real)\<bar> \<le> 1 / 2 ^ 26"
    using kern_freq_bounded [of ?v "119 / 2" "Fin 1"] by auto
  show "kern_freq FNaN ?v = Inl (Undef ''float to integer'')"
    using kern_freq_bounded [of ?v "119 / 2" FNaN] by simp
qed

theorem vtimer_monotone_witness:
  "vtimer_getI 1000 (vtimer0\<lparr>vt_rate := 16012598272\<rparr>) \<le> vtimer_getI 72000000 (vtimer0\<lparr>vt_rate := 16012598272\<rparr>)"
  using vtimer_monotone [of 1000 72000000 "vtimer0\<lparr>vt_rate := 16012598272\<rparr>"]
  by (simp add: vtimer0_def)

theorem vtimer_update_seamless_witness:
  "\<exists>w. vtimer_updateI [\<lparr>smp_tmr1 = 5, smp_tmr2 = 7, smp_sr = 0, smp_ccr1 = 0, smp_ccr3 = 0\<rparr>]
         (vtimer0\<lparr>vt_rate := 16012598272\<rparr>) = Inr w \<and> mono_last w = 7
     \<and> (let t = vtimer_getI 107 (vtimer0\<lparr>vt_rate := 16012598272\<rparr>) in
         vtimer_getI (mono_last w + 100) w \<in> {t, t - 1})"
  using vtimer_update_seamless [of "[\<lparr>smp_tmr1 = 5, smp_tmr2 = 7, smp_sr = 0, smp_ccr1 = 0, smp_ccr3 = 0\<rparr>]"
      "vtimer0\<lparr>vt_rate := 16012598272\<rparr>" 7 mono0 100]
  by (simp add: vtimer0_def mono0_def) blast

section \<open>Phase measurement\<close>

lemma frac_exact:
  "div64 (dbl (uint (w::u32))) NTP_TO_FLOAT = Fin (of_int (uint w) / 2 ^ 32)"
proof -
  have w: "\<bar>uint w\<bar> < 2 ^ 53" using uint_lt2p [of w] by simp
  then have "dbl (uint w) = Fin (of_int (uint w))" by (rule double.rn_int)
  moreover have "f64 (of_int (uint w) / 2 ^ 32) = Fin (of_int (uint w) / 2 ^ 32)"
    using w by (intro double.rn_dyadic) simp_all
  ultimately show ?thesis by (simp add: ntp_to_float)
qed

lemma above_half_iff: "1 / 2 < of_int x / (2 ^ 32 :: real) \<longleftrightarrow> \<not> x \<le> 2 ^ 31"
proof -
  have "1 / 2 < of_int x / (2 ^ 32 :: real) \<longleftrightarrow> of_int (2 ^ 31) < (of_int x :: real)" by simp
  then show ?thesis by (simp only: of_int_less_iff not_le)
qed

text \<open>
  The phase error fed to the loop is exact when no quantisation correction is
  pending: \<open>vtimer_get_frac_delta\<close> returns the fraction of a second of the pulse's time
  stamp, taken to the nearest second, with no rounding at all, so it lies in
  \<open>(-1/2, 1/2]\<close>; the pending correction slots move on.
\<close>

theorem frac_delta_exact:
  assumes "quant_corr v = Fin 0"
  shows "\<exists>w. vtimer_get_frac_delta cap v =
      (Fin (let x = uint (vtimer_getI cap v) mod 2 ^ 32 in
            if x \<le> 2 ^ 31 then of_int x / 2 ^ 32 else of_int (x - 2 ^ 32) / 2 ^ 32), w)
    \<and> quant_corr w = quant_corr_deferred v \<and> quant_corr_deferred w = Fin 0"
proof -
  define u where "u = (ucast (vtimer_getI cap v AND NTP_MASK_FRAC) :: u32)"
  have "vtimer_getI cap v AND NTP_MASK_FRAC = take_bit 32 (vtimer_getI cap v)"
    by (simp add: take_bit_eq_mask NTP_MASK_FRAC_def mask_eq_exp_minus_1)
  then have u: "uint u = uint (vtimer_getI cap v) mod 2 ^ 32"
    unfolding u_def by (simp only: unsigned_ucast_eq unsigned_take_bit_eq) (simp add: take_bit_eq_mod)
  let ?x = "uint u"
  have x: "0 \<le> ?x" "?x < 2 ^ 32" using uint_lt2p [of u] by simp_all
  have z: "add64 (Fin (of_int ?x / 2 ^ 32)) (Fin 0) = Fin (of_int ?x / 2 ^ 32)"
    using double.rn_dyadic [of ?x 32] x by simp
  have s: "sub64 (Fin (of_int ?x / 2 ^ 32)) (f64 1) = Fin (of_int (?x - 2 ^ 32) / 2 ^ 32)"
  proof -
    have "\<bar>?x - 2 ^ 32\<bar> \<le> 2 ^ 32" using x by linarith
    then have "\<bar>?x - 2 ^ 32\<bar> < 2 ^ 53" by (rule le_less_trans) simp
    from double.rn_dyadic [OF this, of 32] show ?thesis by (simp add: fsub_def diff_divide_distrib)
  qed
  have c: "fgt (Fin (of_int ?x / 2 ^ 32)) (f64 (1 / 2)) \<longleftrightarrow> \<not> ?x \<le> 2 ^ 31"
    unfolding f64_half flt.simps by (rule above_half_iff)
  show ?thesis
    unfolding vtimer_get_frac_delta_def Let_def u_def [symmetric] u [symmetric] assms frac_exact z c
    using s by (auto simp: vt_set_status_def vt_clear_status_def)
qed

theorem frac_delta_exact_witness:
  "\<exists>w. vtimer_get_frac_delta 5 (vtimer0\<lparr>vt_last := 3221225472\<rparr>) = (Fin (- 1 / 4), w)
    \<and> quant_corr w = Fin 0 \<and> quant_corr_deferred w = Fin 0"
  using frac_delta_exact [of "vtimer0\<lparr>vt_last := 3221225472\<rparr>" 5]
  by (simp add: vtimer0_def vtimer_getI_def)

section \<open>Sleeping\<close>

text \<open>
  The tick at which a sleeping thread is to be woken brackets the requested clock
  time: for a time \<open>d\<close> units ahead of the last update (less than sixteen seconds) the
  clock reads no more than that time at the computed tick and at least that time one tick
  later.
\<close>

theorem sleep_target_brackets:
  assumes "vt_when = vt_last v + of_nat d" "d < 2 ^ 36" "vt_rate v \<noteq> 0"
    and "d * 2 ^ 28 + unat (vt_rate v) < 2 ^ 63" "d * 2 ^ 28 div unat (vt_rate v) + 1 < 2 ^ 31"
  shows "\<exists>a b. vtimer_getI (sleep_target vt_when v) v = vt_last v + of_nat a
     \<and> vtimer_getI (sleep_target vt_when v + 1) v = vt_last v + of_nat b \<and> a \<le> d \<and> d \<le> b"
proof -
  let ?r = "unat (vt_rate v)"
  define m where "m = d * 2 ^ 28 div ?r"
  have r0: "0 < ?r" using assms(3) by (simp add: unat_gt_0)
  have "push_bit 28 (vt_when - vt_last v) = of_nat (d * 2 ^ 28)"
    by (simp add: assms(1) push_bit_eq_mult mult.commute)
  moreover have "unat (of_nat (d * 2 ^ 28) :: u64) = d * 2 ^ 28"
    using assms(2) by (simp only: unsigned_of_nat) (simp add: take_bit_nat_eq_self)
  ultimately have "push_bit 28 (vt_when - vt_last v) div vt_rate v = of_nat m"
    by (simp add: word_arith_nat_div m_def)
  then have t: "sleep_target vt_when v = mono_last v + of_nat m"
    by (simp add: sleep_target_def VT_RATE_PREC_def)
  have lo: "?r * m \<le> d * 2 ^ 28" by (simp add: m_def)
  have hi: "d * 2 ^ 28 \<le> ?r * (m + 1)"
    using mult_div_mod_eq [of ?r "d * 2 ^ 28"] mod_less_divisor [OF r0, of "d * 2 ^ 28"]
    unfolding m_def [symmetric] distrib_left by linarith
  have b: "m + 1 < 2 ^ 31" "?r * m < 2 ^ 63" "?r * (m + 1) < 2 ^ 63"
    using lo assms(4,5) unfolding distrib_left m_def [symmetric] by linarith+
  have "vtimer_getI (mono_last v + of_nat m) v = vt_last v + of_nat (?r * m div 2 ^ 28)"
    using b by (intro vtimer_getI_forward) simp_all
  moreover have "vtimer_getI (mono_last v + of_nat (m + 1)) v = vt_last v + of_nat (?r * (m + 1) div 2 ^ 28)"
    using b by (intro vtimer_getI_forward) simp_all
  moreover have "?r * m div 2 ^ 28 \<le> d" "d \<le> ?r * (m + 1) div 2 ^ 28"
    using div_le_mono [OF lo, of "2 ^ 28"] div_le_mono [OF hi, of "2 ^ 28"] by simp_all
  ultimately have "\<exists>a b. vtimer_getI (mono_last v + of_nat m) v = vt_last v + of_nat a
     \<and> vtimer_getI (mono_last v + of_nat (m + 1)) v = vt_last v + of_nat b \<and> a \<le> d \<and> d \<le> b" by blast
  moreover have "mono_last v + of_nat (m + 1) = sleep_target vt_when v + 1" by (simp add: t)
  ultimately show ?thesis by (simp only: t [symmetric])
qed

theorem sleep_target_brackets_witness:
  "\<exists>a b. vtimer_getI (sleep_target 4294967296 (vtimer0\<lparr>vt_rate := 16012598272\<rparr>)) (vtimer0\<lparr>vt_rate := 16012598272\<rparr>) = of_nat a
     \<and> vtimer_getI (sleep_target 4294967296 (vtimer0\<lparr>vt_rate := 16012598272\<rparr>) + 1) (vtimer0\<lparr>vt_rate := 16012598272\<rparr>) = of_nat b
     \<and> a \<le> 4294967296 \<and> 4294967296 \<le> b"
  using sleep_target_brackets [of 4294967296 "vtimer0\<lparr>vt_rate := 16012598272\<rparr>" 4294967296]
  by (simp add: vtimer0_def)

end
