(* ===== verification/Relay.thy ===== *)
theory Relay
  imports Prelude
begin

text \<open>
  The GPS relay port, \<open>src/src/net/relay.c\<close>: bytes from the receiver are collected in
  \<open>rbuf\<close> and sent to the one connected TCP client; bytes from the client go to the
  receiver. The calls into lwIP, the serial driver and the log are recorded in order in
  \<open>relay_out\<close>; a protocol control block is its number. Whether lwIP takes a write is its own
  affair: \<open>tcp_ok\<close> gives its answer to the call of each index of \<open>relay_out\<close>, and the answer is
  recorded with the call, because the code ignores it. Each function is one atomic operation.
\<close>

section \<open>State and operations\<close>

datatype relay_call =
    TcpWrite nat "u8 list" bool
  | TcpOutput nat
  | TcpClose nat
  | TcpAbort nat
  | TcpRecved nat nat
  | TcpListen u16
  | TcpSetup nat u32
  | PbufFree
  | SerialWrite "u8 list"
  | RelayLog nat

record relay =
  rbuf :: "u8 list"
  rbuf_len :: nat
  relay_client :: "nat option"
  client_sigil :: u32
  needs_flush :: bool
  relay_out :: "relay_call list"
  tcp_ok :: "nat \<Rightarrow> bool"

definition relay0 :: relay where
  "relay0 = \<lparr>rbuf = replicate 16 0, rbuf_len = 0, relay_client = None, client_sigil = 0,
     needs_flush = False, relay_out = [], tcp_ok = (\<lambda>_. True)\<rparr>"

definition relay_emit :: "relay_call \<Rightarrow> relay \<Rightarrow> relay" where
  "relay_emit c r = r\<lparr>relay_out := relay_out r @ [c]\<rparr>"

definition client_err :: "u32 \<Rightarrow> relay \<Rightarrow> relay" where
  "client_err arg r = (if arg = client_sigil r then r\<lparr>relay_client := None\<rparr> else r)"

datatype err_t = ERR_OK | ERR_ABRT

text \<open>A received packet is its first segment \<open>payload\<close> and its total length.\<close>

definition client_recv :: "u32 \<Rightarrow> nat \<Rightarrow> (u8 list \<times> nat) option \<Rightarrow> relay \<Rightarrow> err_t \<times> relay" where
  "client_recv arg pcb p r =
     (case p of
        None \<Rightarrow>
          (let r = relay_emit (TcpClose pcb) r;
               r = (if arg = client_sigil r then r\<lparr>relay_client := None\<rparr> else r)
           in (ERR_OK, r))
      | Some (payload, tot_len) \<Rightarrow>
          if arg \<noteq> client_sigil r
          then (ERR_ABRT, relay_emit (TcpAbort pcb) (relay_emit PbufFree r))
          else (ERR_OK, relay_emit PbufFree (relay_emit (TcpRecved pcb tot_len)
                 (relay_emit (SerialWrite payload) r))))"

definition relay_accept :: "nat \<Rightarrow> relay \<Rightarrow> err_t \<times> relay" where
  "relay_accept pcb r =
     (let r = relay_emit (RelayLog pcb) r;
          r = (case relay_client r of Some c \<Rightarrow> relay_emit (TcpClose c) r | None \<Rightarrow> r);
          r = r\<lparr>relay_client := Some pcb\<rparr>;
          r = r\<lparr>client_sigil := client_sigil r + 1\<rparr>;
          r = relay_emit (TcpSetup pcb (client_sigil r)) r
      in (ERR_OK, r))"

definition relay_server_start :: "bool \<Rightarrow> u16 \<Rightarrow> relay \<Rightarrow> relay res" where
  "relay_server_start pcb_created port r =
     rbind (ASSERT pcb_created) (\<lambda>_. Inr (relay_emit (TcpListen port) r))"

definition rbuf_flush :: "relay \<Rightarrow> relay" where
  "rbuf_flush r =
     (let r = (case relay_client r of
                 Some c \<Rightarrow> if rbuf_len r \<noteq> 0
                           then relay_emit (TcpWrite c (take (rbuf_len r) (rbuf r)) (tcp_ok r (length (relay_out r)))) r else r
               | None \<Rightarrow> r)
      in r\<lparr>rbuf_len := 0\<rparr>)"

definition relay_push :: "u8 \<Rightarrow> relay \<Rightarrow> relay res" where
  "relay_push val r =
     (let r = r\<lparr>needs_flush := True\<rparr> in
      rbind (if rbuf_len r < 16
             then rbind (wr ''rbuf'' (rbuf r) (rbuf_len r) val) (\<lambda>b.
                  Inr (r\<lparr>rbuf := b, rbuf_len := rbuf_len r + 1\<rparr>))
             else Inr r) (\<lambda>r.
      Inr (if rbuf_len r = 16 then rbuf_flush r else r)))"

definition relay_flush :: "relay \<Rightarrow> relay" where
  "relay_flush r =
     (let r = rbuf_flush r;
          r = (case relay_client r of
                 Some c \<Rightarrow> if needs_flush r then relay_emit (TcpOutput c) r else r
               | None \<Rightarrow> r)
      in r\<lparr>needs_flush := False\<rparr>)"

section \<open>What the client receives\<close>

definition relay_inv :: "relay \<Rightarrow> bool" where
  "relay_inv r \<longleftrightarrow> length (rbuf r) = 16 \<and> rbuf_len r < 16 \<and> (rbuf_len r \<noteq> 0 \<longrightarrow> needs_flush r)"

definition pending :: "relay \<Rightarrow> u8 list" where "pending r = take (rbuf_len r) (rbuf r)"

fun tcp_writes :: "relay_call list \<Rightarrow> (nat \<times> u8 list \<times> bool) list" where
  "tcp_writes [] = []"
| "tcp_writes (TcpWrite d bs ok # es) = (d, bs, ok) # tcp_writes es"
| "tcp_writes (_ # es) = tcp_writes es"

lemma tcp_writes_append [simp]: "tcp_writes (as @ bs) = tcp_writes as @ tcp_writes bs"
  by (induction as rule: tcp_writes.induct) simp_all

lemma tcp_writes_set: "(d, k, ok) \<in> set (tcp_writes es) \<Longrightarrow> TcpWrite d k ok \<in> set es"
  by (induction es rule: tcp_writes.induct) auto

text \<open>The bytes of a client's connection: those of the writes that lwIP took, in order.\<close>

definition received :: "nat \<Rightarrow> relay_call list \<Rightarrow> u8 list" where
  "received c es = concat (map (\<lambda>(d, bs, ok). if d = c \<and> ok then bs else []) (tcp_writes es))"

text \<open>A write that no \<open>tcp_output\<close> has followed yet.\<close>

definition unsent :: "nat \<Rightarrow> relay_call list \<Rightarrow> bool" where
  "unsent c es = fold (\<lambda>e u. case e of TcpWrite d _ _ \<Rightarrow> d = c \<or> u | TcpOutput d \<Rightarrow> d \<noteq> c \<and> u | _ \<Rightarrow> u) es False"

lemma unsent_snoc [simp]:
  "unsent c (es @ [e]) = (case e of TcpWrite d _ _ \<Rightarrow> d = c \<or> unsent c es | TcpOutput d \<Rightarrow> d \<noteq> c \<and> unsent c es | _ \<Rightarrow> unsent c es)"
  by (cases e) (simp_all add: unsent_def)

text \<open>
  From \<open>r\<close> to \<open>s\<close> the bytes \<open>bs\<close> have been taken in and written, in chunks and in order, to client \<open>c\<close>, but
  for those that are still in the buffer; the answers are those of lwIP.
\<close>

definition relayed :: "nat \<Rightarrow> relay \<Rightarrow> relay \<Rightarrow> u8 list \<Rightarrow> relay_call list \<Rightarrow> u8 list list \<Rightarrow> bool list \<Rightarrow> bool" where
  "relayed c r s bs es chunks oks \<longleftrightarrow>
     relay_out s = relay_out r @ es \<and> concat chunks @ pending s = pending r @ bs
     \<and> (\<forall>k \<in> set chunks. k \<noteq> [] \<and> length k \<le> 16) \<and> length oks = length chunks
     \<and> tcp_writes es = map2 (\<lambda>k ok. (c, k, ok)) chunks oks \<and> tcp_ok s = tcp_ok r
     \<and> (\<forall>i d k ok. i < length es \<and> es ! i = TcpWrite d k ok \<longrightarrow> ok = tcp_ok r (length (relay_out r) + i))"

lemma relayed_quiet:
  assumes "relay_out s = relay_out r @ es" "tcp_writes es = []" "pending s = pending r @ bs" "tcp_ok s = tcp_ok r"
  shows "relayed c r s bs es [] []"
proof -
  have "es ! i \<noteq> TcpWrite d k ok" if "i < length es" for i d k ok
    using assms(2) that
  proof (induction es arbitrary: i)
    case (Cons e es)
    then show ?case by (cases e; cases i) auto
  qed simp
  then show ?thesis using assms by (simp add: relayed_def) blast
qed

lemma relayed_trans:
  assumes a: "relayed c r s bs es chunks oks" and b: "relayed c s t cs fs chunks' oks'"
  shows "relayed c r t (bs @ cs) (es @ fs) (chunks @ chunks') (oks @ oks')"
proof -
  have "concat chunks @ concat chunks' @ pending t = pending r @ bs @ cs"
    using a b unfolding relayed_def by (metis append_assoc)
  moreover have "ok = tcp_ok r (length (relay_out r) + i)" if "i < length (es @ fs)" "(es @ fs) ! i = TcpWrite d k ok" for i d k ok
  proof (cases "i < length es")
    case True
    then show ?thesis using a that by (simp add: relayed_def nth_append)
  next
    case False
    then have "fs ! (i - length es) = TcpWrite d k ok" "i - length es < length fs" using that by (simp_all add: nth_append)
    then have "ok = tcp_ok s (length (relay_out s) + (i - length es))" using b by (simp add: relayed_def)
    then show ?thesis using a False by (simp add: relayed_def)
  qed
  ultimately show ?thesis using a b unfolding relayed_def by (auto simp: zip_append)
qed

lemma relayed_flush:
  assumes "relay_client r = Some c" "length (rbuf r) = 16" "rbuf_len r \<le> 16"
  obtains es chunks oks where "relayed c r (rbuf_flush r) [] es chunks oks"
proof (cases "rbuf_len r = 0")
  case True
  have "relayed c r (rbuf_flush r) [] [] [] []"
    by (rule relayed_quiet) (use True assms in \<open>simp_all add: rbuf_flush_def pending_def\<close>)
  then show thesis by (rule that)
next
  case False
  let ?ok = "tcp_ok r (length (relay_out r))"
  have "pending r \<noteq> []" "length (pending r) \<le> 16" using False assms by (auto simp: pending_def)
  then have "relayed c r (rbuf_flush r) [] [TcpWrite c (pending r) ?ok] [pending r] [?ok]"
    using False assms(1) by (simp add: relayed_def rbuf_flush_def relay_emit_def Let_def pending_def)
  then show thesis by (rule that)
qed

lemma rbuf_flush_spec:
  "relay_client (rbuf_flush r) = relay_client r" "rbuf (rbuf_flush r) = rbuf r"
  "rbuf_len (rbuf_flush r) = 0" "needs_flush (rbuf_flush r) = needs_flush r" "client_sigil (rbuf_flush r) = client_sigil r"
  by (auto simp: rbuf_flush_def relay_emit_def Let_def split: option.splits)

definition relay_good :: "nat \<Rightarrow> u32 \<Rightarrow> relay \<Rightarrow> bool" where
  "relay_good c sigil r \<longleftrightarrow> relay_inv r \<and> relay_client r = Some c \<and> client_sigil r = sigil
     \<and> (unsent c (relay_out r) \<longrightarrow> needs_flush r)"

lemma relay_push_spec:
  assumes "relay_inv r"
  obtains s where "relay_push b r = Inr s" "relay_inv s" "relay_client s = relay_client r" "client_sigil s = client_sigil r"
    "needs_flush s" "relay_client r = Some c \<Longrightarrow> \<exists>es chunks oks. relayed c r s [b] es chunks oks"
proof -
  define q where "q = r\<lparr>needs_flush := True, rbuf := (rbuf r)[rbuf_len r := b], rbuf_len := rbuf_len r + 1\<rparr>"
  define s where "s = (if rbuf_len q = 16 then rbuf_flush q else q)"
  have l: "rbuf_len r < 16" "rbuf_len r < length (rbuf r)" using assms by (simp_all add: relay_inv_def)
  have q: "length (rbuf q) = 16" "rbuf_len q \<le> 16" "relay_client q = relay_client r" "client_sigil q = client_sigil r" "needs_flush q"
    using l assms by (simp_all add: q_def relay_inv_def)
  have rq: "relayed c r q [b] [] [] []"
    by (rule relayed_quiet) (use l in \<open>simp_all add: q_def pending_def take_Suc_conv_app_nth\<close>)
  have "relay_push b r = Inr s"
    using l by (simp add: relay_push_def s_def q_def wr_in)
  moreover have "relay_inv s" "relay_client s = relay_client r" "client_sigil s = client_sigil r" "needs_flush s"
    using q by (auto simp: s_def relay_inv_def rbuf_flush_spec)
  moreover have "\<exists>es chunks oks. relayed c r s [b] es chunks oks" if c: "relay_client r = Some c"
  proof (cases "rbuf_len q = 16")
    case True
    obtain es chunks oks where "relayed c q (rbuf_flush q) [] es chunks oks" using relayed_flush [of q c] q c by auto
    from relayed_trans [OF rq this] show ?thesis using True by (auto simp: s_def)
  qed (use rq in \<open>auto simp: s_def\<close>)
  ultimately show thesis by (rule that)
qed

lemma relay_flush_spec:
  "relay_client (relay_flush r) = relay_client r"
  "relay_inv r \<Longrightarrow> relay_inv (relay_flush r)"
  "client_sigil (relay_flush r) = client_sigil r"
  using rbuf_flush_spec [of r]
  by (auto simp: relay_flush_def relay_inv_def Let_def relay_emit_def split: option.splits)

lemma relay_flush_relayed:
  assumes "relay_good c sigil r"
  shows "\<exists>es chunks oks. relayed c r (relay_flush r) [] es chunks oks" "\<not> unsent c (relay_out (relay_flush r))"
    "rbuf_len (relay_flush r) = 0" "relay_good c sigil (relay_flush r)"
proof -
  let ?q = "rbuf_flush r"
  have r: "relay_inv r" "relay_client r = Some c" "unsent c (relay_out r) \<longrightarrow> needs_flush r" "client_sigil r = sigil"
    using assms by (simp_all add: relay_good_def)
  obtain es chunks oks where q: "relayed c r ?q [] es chunks oks" using relayed_flush [OF r(2)] r(1) by (auto simp: relay_inv_def)
  let ?es = "if needs_flush r then [TcpOutput c] else []"
  have "relayed c ?q (relay_flush r) [] ?es [] []"
    by (rule relayed_quiet) (use r(2) rbuf_flush_spec [of r] in \<open>auto simp: relay_flush_def Let_def relay_emit_def pending_def rbuf_flush_def\<close>)
  from relayed_trans [OF q this] show "\<exists>es chunks oks. relayed c r (relay_flush r) [] es chunks oks" by auto
  show l: "rbuf_len (relay_flush r) = 0"
    using rbuf_flush_spec [of r] r(2) by (simp add: relay_flush_def Let_def relay_emit_def)
  show u: "\<not> unsent c (relay_out (relay_flush r))"
    using r rbuf_flush_spec [of r] by (auto simp: relay_flush_def Let_def relay_emit_def rbuf_flush_def relay_inv_def)
  show "relay_good c sigil (relay_flush r)" using relay_flush_spec [of r] r u by (simp add: relay_good_def)
qed

text \<open>
  The operations on the relay: the GPS parser pushes every byte and flushes at packet ends; lwIP calls
  back with a new connection, with data or the end of a connection, and with its failure.
\<close>

datatype relay_op = Push u8 | Flush | Accepted nat | Received u32 nat "(u8 list \<times> nat) option" | Failed u32

fun relay_op_step :: "relay_op \<Rightarrow> relay \<Rightarrow> relay res" where
  "relay_op_step (Push b) r = relay_push b r"
| "relay_op_step Flush r = Inr (relay_flush r)"
| "relay_op_step (Accepted pcb) r = Inr (snd (relay_accept pcb r))"
| "relay_op_step (Received arg pcb p) r = Inr (snd (client_recv arg pcb p r))"
| "relay_op_step (Failed arg) r = Inr (client_err arg r)"

fun relay_ops :: "relay_op list \<Rightarrow> relay \<Rightarrow> relay res" where
  "relay_ops [] r = Inr r"
| "relay_ops (x # xs) r = rbind (relay_op_step x r) (relay_ops xs)"

fun pushed :: "relay_op list \<Rightarrow> u8 list" where
  "pushed [] = []"
| "pushed (Push b # xs) = b # pushed xs"
| "pushed (_ # xs) = pushed xs"

text \<open>An operation that leaves the client of that \<open>client_sigil\<close> connected.\<close>

fun stays :: "u32 \<Rightarrow> relay_op \<Rightarrow> bool" where
  "stays sigil (Accepted _) = False"
| "stays sigil (Received arg _ None) = (arg \<noteq> sigil)"
| "stays sigil (Failed arg) = (arg \<noteq> sigil)"
| "stays sigil _ = True"

lemma relay_op_relayed:
  assumes g: "relay_good c sigil r" and x: "stays sigil x"
  obtains s es chunks oks where "relay_op_step x r = Inr s" "relay_good c sigil s" "relayed c r s (pushed [x]) es chunks oks"
proof -
  have r: "relay_inv r" "relay_client r = Some c" "client_sigil r = sigil" "unsent c (relay_out r) \<longrightarrow> needs_flush r"
    using g by (simp_all add: relay_good_def)
  show thesis
  proof (cases x)
    case (Push b)
    obtain s where s: "relay_push b r = Inr s" "relay_inv s" "relay_client s = relay_client r" "client_sigil s = client_sigil r"
      "needs_flush s" "relay_client r = Some c \<Longrightarrow> \<exists>es chunks oks. relayed c r s [b] es chunks oks"
      using relay_push_spec [OF r(1), of b c] by blast
    then show thesis using that [of s] r Push by (auto simp: relay_good_def)
  next
    case Flush
    then show thesis using that [of "relay_flush r"] relay_flush_relayed [OF g] by auto
  next
    case (Accepted pcb)
    then show thesis using x by simp
  next
    case (Received arg pcb p)
    let ?s = "snd (client_recv arg pcb p r)"
    let ?es = "case p of None \<Rightarrow> [TcpClose pcb] | Some (b, n) \<Rightarrow>
      if arg \<noteq> sigil then [PbufFree, TcpAbort pcb] else [SerialWrite b, TcpRecved pcb n, PbufFree]"
    have s: "?s = r\<lparr>relay_out := relay_out r @ ?es\<rparr>"
      using x r(3) Received by (auto simp: client_recv_def relay_emit_def Let_def split: option.splits prod.splits)
    have "tcp_writes ?es = []" by (auto split: option.splits)
    then have "relayed c r ?s [] ?es [] []" unfolding s by (intro relayed_quiet) (simp_all add: pending_def)
    moreover have "unsent c (relay_out r @ ?es) = unsent c (relay_out r)"
      by (auto simp: unsent_def split: option.splits)
    then have "relay_good c sigil ?s" unfolding s using r by (simp add: relay_good_def relay_inv_def)
    ultimately show thesis using that [of ?s] Received by simp
  next
    case (Failed arg)
    then have "client_err arg r = r" using x r(3) by (simp add: client_err_def)
    moreover have "relayed c r r [] [] [] []" by (rule relayed_quiet) simp_all
    ultimately show thesis using that [of r] g Failed by simp
  qed
qed

lemma relay_ops_relayed:
  "relay_good c sigil r \<Longrightarrow> list_all (stays sigil) xs \<Longrightarrow>
   \<exists>s es chunks oks. relay_ops xs r = Inr s \<and> relay_good c sigil s \<and> relayed c r s (pushed xs) es chunks oks"
proof (induction xs arbitrary: r)
  case Nil
  then show ?case using relayed_quiet [of r r "[]" "[]" c] by auto
next
  case (Cons x xs)
  obtain s es chunks oks where s: "relay_op_step x r = Inr s" "relay_good c sigil s" "relayed c r s (pushed [x]) es chunks oks"
    using relay_op_relayed [OF Cons.prems(1)] Cons.prems(2) unfolding list.pred_inject by blast
  obtain t fs chunks' oks' where t: "relay_ops xs s = Inr t" "relay_good c sigil t" "relayed c s t (pushed xs) fs chunks' oks'"
    using Cons.IH [OF s(2)] Cons.prems(2) by auto
  have "pushed (x # xs) = pushed [x] @ pushed xs" by (cases x) simp_all
  then have "relayed c r t (pushed (x # xs)) (es @ fs) (chunks @ chunks') (oks @ oks')" using relayed_trans [OF s(3) t(3)] by simp
  then show ?case using s(1) t(1,2) by auto
qed

lemma relay_ops_snoc: "relay_ops (xs @ [Flush]) r = rbind (relay_ops xs r) (\<lambda>s. Inr (relay_flush s))"
proof (induction xs arbitrary: r)
  case (Cons x xs)
  then show ?case by (cases "relay_op_step x r") simp_all
qed simp

lemma received_relayed:
  "tcp_writes es = map2 (\<lambda>k ok. (c, k, ok)) chunks oks \<Longrightarrow>
   received c es = concat (map2 (\<lambda>k ok. if ok then k else []) chunks oks)"
  by (simp add: received_def comp_def case_prod_beta' cong: if_cong)

lemma received_all:
  assumes w: "tcp_writes es = map2 (\<lambda>k ok. (c, k, ok)) chunks oks" "length oks = length chunks"
    and ok: "\<And>d k ok. TcpWrite d k ok \<in> set es \<Longrightarrow> ok"
  shows "received c es = concat chunks"
proof -
  have "snd x" if "x \<in> set (zip chunks oks)" for x
  proof -
    have "(c, fst x, snd x) \<in> set (tcp_writes es)" unfolding w(1) using that by force
    then show ?thesis using ok tcp_writes_set by blast
  qed
  then have "map2 (\<lambda>k ok. if ok then k else []) chunks oks = map fst (zip chunks oks)"
    by (intro map_cong refl) (simp add: case_prod_beta')
  then show ?thesis unfolding received_relayed [OF w(1)] using w(2) by simp
qed



end
