(* ===== verification/Gps.thy ===== *)
theory Gps
  imports Vtimer
begin

text \<open>
  What the GPS protocol parsers of \<open>src/src/gps\<close> share: the packet buffer \<open>pbuf\<close>, the
  satellite count and the clock they set (\<open>parser.h\<close>), and the contract each of them
  keeps with the dispatcher \<open>gps_byte_received\<close>. A parser reads the scheduler's tick and
  the configuration flags from its environment; every call of \<open>xTaskGetTickCount\<close> has a
  number of its own.
\<close>

section \<open>Shared state\<close>

record gps =
  pbuf :: "u8 list"
  gps_fix_svs :: int
  gclk :: vtimer

record feed_env =
  env_tick :: "nat \<Rightarrow> u32"
  env_flags :: u32

definition PBUF_SIZE :: nat where "PBUF_SIZE = 128"
definition FEED_UNKNOWN :: u8 where "FEED_UNKNOWN = 0"
definition FEED_CONTINUE :: u8 where "FEED_CONTINUE = 1"
definition FEED_COMPLETE :: u8 where "FEED_COMPLETE = 2"

lemmas feed_defs = FEED_UNKNOWN_def FEED_CONTINUE_def FEED_COMPLETE_def

definition PACKET_TIMEOUT :: u32 where "PACKET_TIMEOUT = pdMS_TO_TICKS 50"
definition PARSER_TIMEOUT :: u32 where "PARSER_TIMEOUT = pdMS_TO_TICKS 5000"

definition gps_set_utc :: "u16 \<Rightarrow> u8 \<Rightarrow> u8 \<Rightarrow> u8 \<Rightarrow> u8 \<Rightarrow> u8 \<Rightarrow> gps \<Rightarrow> gps res" where
  "gps_set_utc year month day hour minute second g =
     rbind (vtimer_set_utc year month day hour minute second (gclk g)) (\<lambda>v. Inr (g\<lparr>gclk := v\<rparr>))"

definition gps0 :: gps where
  "gps0 = \<lparr>pbuf = replicate 128 0, gps_fix_svs = 0, gclk = vtimer0\<rparr>"

section \<open>The contract of a parser\<close>

text \<open>
  The two faults a byte stream can cause: a month above 12 makes \<open>datetime_to_epoch\<close> read
  outside its table, and a u-blox quantisation error of \<open>INT32_MIN\<close> overflows when it is
  negated.
\<close>

definition gps_fault :: fault where "gps_fault = Oob ''_days_before_month''"
definition neg_overflow :: fault where "neg_overflow = Undef ''signed overflow''"

lemma gps_set_utc_cases:
  obtains (fine) t where "gps_set_utc y mo d h mi s g = Inr (g\<lparr>gclk := (gclk g)\<lparr>utc_next := t\<rparr>\<rparr>)" "mo \<le> 12"
  | (bad) "gps_set_utc y mo d h mi s g = Inl gps_fault" "12 < mo"
proof (cases "datetime_to_epoch y mo d h mi s")
  case (Inl f)
  have "unat mo \<le> 12 \<Longrightarrow> \<exists>t. datetime_to_epoch y mo d h mi s = Inr t"
    by (simp add: datetime_to_epoch_eq)
  with Inl have mo: "12 < mo" by (force simp: word_less_nat_alt)
  then have "datetime_to_epoch y mo d h mi s = Inl gps_fault"
    by (simp add: datetime_to_epoch_def days_before_month_def rd_def days_before_month_tbl_def
        word_less_nat_alt gps_fault_def)
  then show thesis using bad mo by (simp add: gps_set_utc_def vtimer_set_utc_def)
next
  case (Inr t)
  have "\<not> 12 < mo"
  proof
    assume "12 < mo"
    then have "datetime_to_epoch y mo d h mi s = Inl gps_fault"
      by (simp add: datetime_to_epoch_def days_before_month_def rd_def days_before_month_tbl_def
          word_less_nat_alt gps_fault_def)
    with Inr show False by simp
  qed
  with Inr fine show thesis by (simp add: gps_set_utc_def vtimer_set_utc_def)
qed

definition pbuf_ok :: "gps \<Rightarrow> bool" where "pbuf_ok g \<longleftrightarrow> length (pbuf g) = 128"

definition feed_ok :: "('s \<Rightarrow> bool) \<Rightarrow> (u8 \<times> 's \<times> gps) res \<Rightarrow> bool" where
  "feed_ok ok r \<longleftrightarrow>
     (case r of Inl f \<Rightarrow> f = gps_fault \<or> f = neg_overflow
      | Inr (rc, s, g) \<Rightarrow> rc \<in> {FEED_UNKNOWN, FEED_CONTINUE, FEED_COMPLETE} \<and> ok s \<and> pbuf_ok g)"

lemma feed_ok_simps [simp]:
  "feed_ok ok (Inl f) \<longleftrightarrow> f = gps_fault \<or> f = neg_overflow"
  "feed_ok ok (Inr (rc, s, g)) \<longleftrightarrow> rc \<in> {FEED_UNKNOWN, FEED_CONTINUE, FEED_COMPLETE} \<and> ok s \<and> pbuf_ok g"
  by (simp_all add: feed_ok_def)

lemma feed_ok_set_utc:
  assumes "ok s" "pbuf_ok g" "rc \<in> {FEED_UNKNOWN, FEED_CONTINUE, FEED_COMPLETE}"
  shows "feed_ok ok (rbind (gps_set_utc y mo d h mi sec g) (\<lambda>g. Inr (rc, s, g)))"
  by (rule gps_set_utc_cases [of y mo d h mi sec g]) (use assms in \<open>auto simp: pbuf_ok_def\<close>)

text \<open>The buffer after the bytes \<open>bs\<close> have been stored from index \<open>p\<close> on.\<close>

definition filled :: "u8 list \<Rightarrow> nat \<Rightarrow> gps \<Rightarrow> gps" where
  "filled bs p g = g\<lparr>pbuf := take p (pbuf g) @ bs @ drop (p + length bs) (pbuf g)\<rparr>"

lemma filled_Cons:
  "p + Suc (length bs) \<le> length (pbuf g) \<Longrightarrow>
   filled bs (Suc p) (g\<lparr>pbuf := (pbuf g)[p := b]\<rparr>) = filled (b # bs) p g"
  by (simp add: filled_def take_Suc_conv_app_nth take_update_swap list_update_append)

lemma pbuf_ok_filled: "pbuf_ok g \<Longrightarrow> k + length bs \<le> 128 \<Longrightarrow> pbuf_ok (filled bs k g)"
  by (simp add: pbuf_ok_def filled_def)

lemma filled_append:
  "k + length as + length bs \<le> length (pbuf g) \<Longrightarrow>
   filled bs (k + length as) (filled as k g) = filled (as @ bs) k g"
  by (simp add: filled_def add.assoc add.commute [of "length bs"])

text \<open>A parser fed with a sequence of bytes; the result codes are collected.\<close>

fun feeds ::
  "(feed_env \<Rightarrow> u8 \<Rightarrow> 's \<Rightarrow> gps \<Rightarrow> (u8 \<times> 's \<times> gps) res) \<Rightarrow> feed_env \<Rightarrow> u8 list \<Rightarrow> 's \<Rightarrow> gps
   \<Rightarrow> (u8 list \<times> 's \<times> gps) res" where
  "feeds feed e [] s g = Inr ([], s, g)"
| "feeds feed e (b # bs) s g =
     rbind (feed e b s g) (\<lambda>(rc, s, g).
     rbind (feeds feed e bs s g) (\<lambda>(rcs, s, g). Inr (rc # rcs, s, g)))"

lemma feeds_append:
  "feeds feed e (as @ bs) s g =
     rbind (feeds feed e as s g) (\<lambda>(r1, s, g). rbind (feeds feed e bs s g) (\<lambda>(r2, s, g). Inr (r1 @ r2, s, g)))"
proof (induction as arbitrary: s g)
  case Nil
  show ?case by (cases "feeds feed e bs s g") auto
next
  case (Cons a as)
  show ?case
  proof (cases "feed e a s g")
    case (Inr r)
    obtain rc s' g' where r: "r = (rc, s', g')" by (cases r)
    show ?thesis
    proof (cases "feeds feed e as s' g'")
      case (Inr q)
      obtain r1 s1 g1 where q: "q = (r1, s1, g1)" by (cases q)
      show ?thesis using Cons [of s' g'] Inr \<open>feed e a s g = Inr r\<close> r q
        by (cases "feeds feed e bs s1 g1") auto
    qed (use Cons [of s' g'] \<open>feed e a s g = Inr r\<close> r in simp)
  qed simp
qed

locale feed_parser =
  fixes feed :: "feed_env \<Rightarrow> u8 \<Rightarrow> 's \<Rightarrow> gps \<Rightarrow> (u8 \<times> 's \<times> gps) res"
    and ok :: "'s \<Rightarrow> bool"
  assumes feed_safe: "ok s \<Longrightarrow> pbuf_ok g \<Longrightarrow> feed_ok ok (feed e b s g)"
begin

lemma feed_cases:
  assumes "ok s" "pbuf_ok g"
  obtains (fault) f where "feed e b s g = Inl f" "f = gps_fault \<or> f = neg_overflow"
  | (go) rc s' g' where "feed e b s g = Inr (rc, s', g')" "ok s'" "pbuf_ok g'"
      "rc \<in> {FEED_UNKNOWN, FEED_CONTINUE, FEED_COMPLETE}"
  using feed_safe [OF assms, of e b] by (cases "feed e b s g") auto

lemma feeds_safe:
  assumes "ok s" "pbuf_ok g"
  shows "feeds feed e bs s g \<in> {Inl gps_fault, Inl neg_overflow}
     \<or> (\<exists>rcs s' g'. feeds feed e bs s g = Inr (rcs, s', g') \<and> length rcs = length bs \<and> ok s' \<and> pbuf_ok g')"
  using assms
proof (induction bs arbitrary: s g)
  case (Cons b bs)
  from Cons.prems show ?case
  proof (cases rule: feed_cases [where e = e and b = b])
    case (go rc s' g')
    with Cons.IH [OF go(2,3)] show ?thesis by (elim disjE) auto
  qed auto
qed simp

end

end
