(* ===== verification/Motorola.thy ===== *)
theory Motorola
  imports Gps
begin

text \<open>
  The Motorola Oncore parser, \<open>src/src/gps/motorola.c\<close>: frames \<open>@@\<close>, a two-byte command,
  a payload of the command's length and an XOR checksum. The pointer \<open>mptr\<close> is the index
  of the next byte of \<open>pbuf\<close>.
\<close>

datatype mstate_e = waiting | at1 | at2 | cmd1 | copying

record motorola =
  mstate :: mstate_e
  mremaining :: u8
  mcsum :: u8
  mcmd :: u16
  mptr :: nat

definition MCMD_Ea :: u16 where "MCMD_Ea = 0x4561"

definition motorola0 :: motorola where
  "motorola0 = \<lparr>mstate = waiting, mremaining = 0, mcsum = 0, mcmd = 0, mptr = 0\<rparr>"

definition motorola_cmd :: "u8 \<Rightarrow> motorola \<Rightarrow> gps \<Rightarrow> (u8 \<times> motorola \<times> gps) res" where
  "motorola_cmd data m g =
     (let m = m\<lparr>mcmd := push_bit 8 (mcmd m) OR ucast data\<rparr>;
          m = m\<lparr>mcsum := mcsum m XOR data\<rparr> in
      if mcmd m = MCMD_Ea
      then let m = m\<lparr>mremaining := 70\<rparr> in
           if unat (mremaining m) > PBUF_SIZE then Inr (FEED_UNKNOWN, m\<lparr>mstate := waiting\<rparr>, g)
           else Inr (FEED_CONTINUE, m\<lparr>mstate := copying, mptr := 0\<rparr>, g)
      else Inr (FEED_UNKNOWN, m\<lparr>mstate := waiting\<rparr>, g))"

definition motorola_finish :: "motorola \<Rightarrow> gps \<Rightarrow> (u8 \<times> motorola \<times> gps) res" where
  "motorola_finish m g =
     (if mcmd m = MCMD_Ea
      then let b = (\<lambda>i. pbuf g ! i) in
           rbind (gps_set_utc (push_bit 8 (ucast (b 2)) OR ucast (b 3)) (b 0) (b 1) (b 4) (b 5) (b 6) g) (\<lambda>g.
           Inr (FEED_COMPLETE, m, g))
      else Inr (FEED_COMPLETE, m, g))"

definition motorola_copy :: "u8 \<Rightarrow> motorola \<Rightarrow> gps \<Rightarrow> (u8 \<times> motorola \<times> gps) res" where
  "motorola_copy data m g =
     rbind (wr ''pbuf'' (pbuf g) (mptr m) data) (\<lambda>buf.
     let g = g\<lparr>pbuf := buf\<rparr>; m = m\<lparr>mptr := mptr m + 1\<rparr>;
         m = m\<lparr>mcsum := mcsum m XOR data\<rparr>;
         m = m\<lparr>mremaining := mremaining m - 1\<rparr> in
     if mremaining m \<noteq> 0 then Inr (FEED_CONTINUE, m, g)
     else let m = m\<lparr>mstate := waiting\<rparr> in
          if mcsum m \<noteq> 0 then Inr (FEED_UNKNOWN, m, g)
          else motorola_finish m g)"

definition motorola_feed :: "feed_env \<Rightarrow> u8 \<Rightarrow> motorola \<Rightarrow> gps \<Rightarrow> (u8 \<times> motorola \<times> gps) res" where
  "motorola_feed e data m g =
     (case mstate m of
        waiting \<Rightarrow>
          if data = 64 then Inr (FEED_CONTINUE, m\<lparr>mstate := at1\<rparr>, g) else Inr (0, m, g)
      | at1 \<Rightarrow>
          Inr (FEED_CONTINUE, if data = 64 then m\<lparr>mstate := at2\<rparr> else m\<lparr>mstate := waiting\<rparr>, g)
      | at2 \<Rightarrow>
          Inr (FEED_CONTINUE, m\<lparr>mcmd := ucast data, mcsum := data, mstate := cmd1\<rparr>, g)
      | cmd1 \<Rightarrow> motorola_cmd data m g
      | copying \<Rightarrow> motorola_copy data m g)"

definition motorola_ok :: "motorola \<Rightarrow> bool" where
  "motorola_ok m \<longleftrightarrow> (mstate m = copying \<longrightarrow> 0 < mremaining m \<and> mptr m + unat (mremaining m) \<le> 70)"

lemma motorola_copy_safe:
  assumes "motorola_ok m" "mstate m = copying" "pbuf_ok g"
  shows "feed_ok motorola_ok (motorola_copy b m g)"
proof -
  let ?r = "mremaining m"
  have r: "0 < ?r" "mptr m + unat ?r \<le> 70" using assms(1,2) by (simp_all add: motorola_ok_def)
  then have u: "0 < unat ?r" by (simp add: word_less_nat_alt)
  then have l: "mptr m < length (pbuf g)" using r(2) assms(3) by (simp add: pbuf_ok_def)
  have n: "unat (?r - 1) = unat ?r - 1" using r(1) by (simp add: unat_minus_one word_less_nat_alt unat_gt_0)
  have go: "?r - 1 \<noteq> 0 \<Longrightarrow> 0 < ?r - 1 \<and> Suc (mptr m) + unat (?r - 1) \<le> 70"
    using n u r(2) by (auto simp: word_gt_0)
  have w: "motorola_ok (q\<lparr>mstate := waiting\<rparr>)" for q by (simp add: motorola_ok_def)
  show ?thesis
    using l go assms(2,3) feed_ok_set_utc [where ok = motorola_ok, OF w]
    by (auto simp: motorola_copy_def wr_in Let_def feed_defs motorola_ok_def pbuf_ok_def motorola_finish_def)
qed

lemma motorola_feed_safe:
  assumes "motorola_ok m" "pbuf_ok g"
  shows "feed_ok motorola_ok (motorola_feed e b m g)"
proof (cases "mstate m")
  case copying
  then show ?thesis using motorola_copy_safe [OF assms(1) copying assms(2)] by (simp add: motorola_feed_def)
qed (use assms in \<open>auto simp: motorola_feed_def motorola_cmd_def motorola_ok_def feed_defs Let_def\<close>)

interpretation mot: feed_parser motorola_feed motorola_ok
  by unfold_locales (rule motorola_feed_safe)

section \<open>Whole frames\<close>

definition mot_done :: "u8 list \<Rightarrow> motorola \<Rightarrow> motorola" where
  "mot_done bs m = m\<lparr>mptr := mptr m + length bs, mcsum := foldl (XOR) (mcsum m) bs,
     mremaining := 0, mstate := waiting\<rparr>"

lemma mot_copying:
  assumes "bs \<noteq> []" "mstate m = copying" "mremaining m = of_nat (length bs)" "length bs \<le> 70"
    and "mptr m + length bs \<le> length (pbuf g)"
  shows "feeds motorola_feed e bs m g =
     (if mcsum (mot_done bs m) \<noteq> 0
      then Inr (replicate (length bs - 1) FEED_CONTINUE @ [FEED_UNKNOWN], mot_done bs m, filled bs (mptr m) g)
      else rbind (motorola_finish (mot_done bs m) (filled bs (mptr m) g)) (\<lambda>(rc, m, g).
           Inr (replicate (length bs - 1) FEED_CONTINUE @ [rc], m, g)))"
  using assms
proof (induction bs arbitrary: m g rule: list_nonempty_induct)
  case (single b)
  have "filled [b] (mptr m) g = g\<lparr>pbuf := (pbuf g)[mptr m := b]\<rparr>"
    using single.prems by (simp add: filled_def upd_conv_take_nth_drop)
  moreover have "motorola_feed e b m g = motorola_copy b m g" using single.prems by (simp add: motorola_feed_def)
  ultimately show ?case using single.prems
    by (simp add: motorola_copy_def wr_in Let_def mot_done_def rbind_def split: sum.splits prod.splits)
next
  case (cons b bs)
  define m1 where "m1 = m\<lparr>mptr := mptr m + 1, mcsum := mcsum m XOR b, mremaining := mremaining m - 1\<rparr>"
  define g1 where "g1 = g\<lparr>pbuf := (pbuf g)[mptr m := b]\<rparr>"
  have n: "mremaining m1 = of_nat (length bs)" using cons.prems(2) by (simp add: m1_def)
  have "(of_nat (length bs) :: u8) \<noteq> 0"
    using cons.hyps(1) cons.prems(3) by (simp add: word_of_nat_eq_0_iff) (auto dest!: dvd_imp_le)
  then have f: "motorola_feed e b m g = Inr (FEED_CONTINUE, m1, g1)"
    using cons.prems n by (simp add: motorola_feed_def motorola_copy_def wr_in Let_def m1_def g1_def)
  have "mot_done bs m1 = mot_done (b # bs) m" by (simp add: mot_done_def m1_def)
  moreover have "filled bs (mptr m1) g1 = filled (b # bs) (mptr m) g"
    using filled_Cons [of "mptr m" bs g b] cons.prems(4) by (simp add: m1_def g1_def)
  moreover have "replicate (length bs) FEED_CONTINUE = FEED_CONTINUE # replicate (length bs - 1) FEED_CONTINUE"
    using cons.hyps(1) by (cases bs) simp_all
  moreover note cons.IH [of m1 g1] n
  ultimately show ?case using cons.prems f
    by (simp add: m1_def g1_def rbind_def split: sum.splits prod.splits)
qed

definition mot_time :: "u8 list \<Rightarrow> u64 res" where
  "mot_time p = datetime_to_epoch (push_bit 8 (ucast (p ! 2)) OR ucast (p ! 3)) (p ! 0) (p ! 1) (p ! 4) (p ! 5) (p ! 6)"

text \<open>
A Motorola \<open>@@Ea\<close> frame sets the clock exactly when its checksum is right: fed
  byte by byte from the waiting state, every byte but the last asks for more; if the XOR of
  command and payload is zero the last byte completes the packet and \<open>utc_next\<close> is the
  date and time in the payload, and otherwise the last byte is rejected and the clock is
  untouched.
\<close>

theorem motorola_frame:
  assumes "mstate m = waiting" "pbuf_ok g" "length p = 70" "mot_time p = Inr t"
  shows "\<exists>m' g'. feeds motorola_feed e (64 # 64 # 0x45 # 0x61 # p) m g
       = Inr (replicate 73 FEED_CONTINUE @ [if foldl (XOR) 0x24 p = 0 then FEED_COMPLETE else FEED_UNKNOWN], m', g')
     \<and> mstate m' = waiting
     \<and> gclk g' = (if foldl (XOR) 0x24 p = 0 then (gclk g)\<lparr>utc_next := ucast t\<rparr> else gclk g)"
proof -
  define m4 where "m4 = m\<lparr>mcmd := MCMD_Ea, mcsum := 0x24, mremaining := 70, mstate := copying, mptr := 0\<rparr>"
  have pre: "feeds motorola_feed e (64 # 64 # 0x45 # 0x61 # p) m g
     = rbind (feeds motorola_feed e p m4 g) (\<lambda>(r, s, g). Inr ([FEED_CONTINUE, FEED_CONTINUE, FEED_CONTINUE, FEED_CONTINUE] @ r, s, g))"
    using assms(1)
    by (simp add: motorola_feed_def motorola_cmd_def Let_def m4_def MCMD_Ea_def PBUF_SIZE_def
        rbind_def split: sum.splits prod.splits)
  let ?m = "mot_done p m4" and ?g = "filled p 0 g"
  have "p \<noteq> []" "mstate m4 = copying" "mremaining m4 = of_nat (length p)" "length p \<le> 70" "mptr m4 + length p \<le> length (pbuf g)"
    using assms(2,3) by (auto simp: m4_def pbuf_ok_def)
  note run = mot_copying [OF this, of e]
  have c: "mcsum ?m = foldl (XOR) 0x24 p" "mcmd ?m = MCMD_Ea" "mstate ?m = waiting" "mptr m4 = 0"
    by (simp_all add: mot_done_def m4_def)
  have "motorola_finish ?m ?g = Inr (FEED_COMPLETE, ?m, ?g\<lparr>gclk := (gclk g)\<lparr>utc_next := ucast t\<rparr>\<rparr>)"
    using assms(3,4) by (simp add: motorola_finish_def c mot_time_def gps_set_utc_def vtimer_set_utc_def
        Let_def filled_def nth_append)
  with run c have "feeds motorola_feed e p m4 g = (if foldl (XOR) 0x24 p = 0
      then Inr (replicate 69 FEED_CONTINUE @ [FEED_COMPLETE], ?m, ?g\<lparr>gclk := (gclk g)\<lparr>utc_next := ucast t\<rparr>\<rparr>)
      else Inr (replicate 69 FEED_CONTINUE @ [FEED_UNKNOWN], ?m, ?g))"
    using assms(3) by simp
  moreover have "replicate 73 FEED_CONTINUE
      = [FEED_CONTINUE, FEED_CONTINUE, FEED_CONTINUE, FEED_CONTINUE] @ replicate 69 FEED_CONTINUE"
    using replicate_add [of 4 69 FEED_CONTINUE] by (simp add: numeral_eq_Suc)
  ultimately show ?thesis using c(3) unfolding pre by (auto simp: filled_def)
qed

lemma foldl_xor_zeros: "foldl (XOR) c (replicate n 0) = (c :: u8)"
  by (induction n) simp_all

theorem motorola_frame_witness:
  "\<exists>m' g'. feeds motorola_feed \<lparr>env_tick = (\<lambda>_. 0), env_flags = 0\<rparr>
       (64 # 64 # 0x45 # 0x61 # (1 # 2 # 7 # 208 # replicate 65 0 @ [240])) motorola0 gps0
     = Inr (replicate 73 FEED_CONTINUE @ [FEED_COMPLETE], m', g')
     \<and> utc_next (gclk g') = 3155760000"
proof -
  let ?p = "1 # 2 # 7 # 208 # replicate 65 0 @ [240] :: u8 list"
  have "mot_time ?p = Inr 3155760000"
    by (simp add: mot_time_def datetime_to_epoch_def days_before_month_def rd_def
        days_before_month_tbl_def days_before_year_def NTP_EPOCH_ORDINAL_def is_leap_def nth_append)
  moreover have "foldl (XOR) 0x24 ?p = 0" by (simp add: foldl_xor_zeros)
  ultimately show ?thesis
    using motorola_frame [of motorola0 gps0 ?p 3155760000 "\<lparr>env_tick = (\<lambda>_. 0), env_flags = 0\<rparr>"]
    by (auto simp: motorola0_def gps0_def pbuf_ok_def)
qed

end
