(* ===== verification/Ublox.thy ===== *)
theory Ublox
  imports Gps
begin

text \<open>
  The u-blox UBX protocol, \<open>src/src/gps/ublox.c\<close>: the parser \<open>ublox_feed\<close>, the packed
  message layouts of \<open>ublox.h\<close>, and \<open>ublox_configure\<close>, which writes configuration
  frames to the receiver.
\<close>

section \<open>State and messages\<close>

datatype ustate_e = U_WAITING | U_SYNC | U_HEADER | U_COPYING | U_CHECKSUM1 | U_CHECKSUM2

record ublox =
  ustate :: ustate_e
  u_count :: u8
  u_ck1 :: u8
  u_ck2 :: u8
  u_pktlen :: u16

definition ublox0 :: ublox where
  "ublox0 = \<lparr>ustate = U_WAITING, u_count = 0, u_ck1 = 0, u_ck2 = 0, u_pktlen = 0\<rparr>"

definition le16 :: "u8 list \<Rightarrow> nat \<Rightarrow> u16" where
  "le16 b i = push_bit 8 (ucast (b ! (i + 1))) OR ucast (b ! i)"

definition le32 :: "u8 list \<Rightarrow> nat \<Rightarrow> u32" where
  "le32 b i = push_bit 24 (ucast (b ! (i + 3))) OR push_bit 16 (ucast (b ! (i + 2)))
     OR push_bit 8 (ucast (b ! (i + 1))) OR ucast (b ! i)"

definition TIMEUTC_VALIDTOW :: u8 where "TIMEUTC_VALIDTOW = 1"
definition TIMEUTC_VALIDWKN :: u8 where "TIMEUTC_VALIDWKN = 2"
definition TIMEUTC_VALIDUTC :: u8 where "TIMEUTC_VALIDUTC = 4"

record nav_timegps =
  gps_iTOW :: u32
  gps_fTOW :: u32
  gps_week :: u16
  gps_leapS :: u8
  gps_valid :: u8
  gps_tAcc :: u32

definition nav_timegps_of :: "u8 list \<Rightarrow> nav_timegps" where
  "nav_timegps_of b = \<lparr>gps_iTOW = le32 b 4, gps_fTOW = le32 b 8, gps_week = le16 b 12,
     gps_leapS = b ! 14, gps_valid = b ! 15, gps_tAcc = le32 b 16\<rparr>"

record nav_timeutc =
  utc_iTOW :: u32
  utc_tAcc :: u32
  utc_nano :: u32
  utc_year :: u16
  utc_month :: u8
  utc_day :: u8
  utc_hour :: u8
  utc_min :: u8
  utc_sec :: u8
  utc_valid :: u8

definition nav_timeutc_of :: "u8 list \<Rightarrow> nav_timeutc" where
  "nav_timeutc_of b = \<lparr>utc_iTOW = le32 b 4, utc_tAcc = le32 b 8, utc_nano = le32 b 12,
     utc_year = le16 b 16, utc_month = b ! 18, utc_day = b ! 19, utc_hour = b ! 20,
     utc_min = b ! 21, utc_sec = b ! 22, utc_valid = b ! 23\<rparr>"

section \<open>Parser\<close>

definition set_quant_ubx :: "nat \<Rightarrow> gps \<Rightarrow> gps res" where
  "set_quant_ubx qf g =
     (let picoseconds = sint (le32 (pbuf g) qf) in
      if picoseconds = - (2 ^ 31) then Inl neg_overflow
      else let corr = fcast f32 (mul64 (dbl (- picoseconds)) (div64 (f64 1) (f64 (10 ^ 12)))) in
           Inr (g\<lparr>gclk := vtimer_set_correction corr LEADING (gclk g)\<rparr>))"

definition ublox_message :: "feed_env \<Rightarrow> u8 \<Rightarrow> gps \<Rightarrow> gps res" where
  "ublox_message e rx_count g =
     (let b = pbuf g in
      if b ! 0 = 0x01 \<and> b ! 1 = 0x06 \<and> rx_count \<ge> 4 + 52
      then Inr (g\<lparr>gps_fix_svs := uint (b ! (4 + 47))\<rparr>)
      else if b ! 0 = 0x01 \<and> b ! 1 = 0x20 \<and> rx_count \<ge> 4 + 16
      then let msg = nav_timegps_of b in
           if env_flags e AND FLAG_TIMESCALE_GPS \<noteq> 0 \<and> gps_valid msg AND TIMEUTC_VALIDWKN \<noteq> 0
              \<and> gps_valid msg AND TIMEUTC_VALIDTOW \<noteq> 0
           then Inr (g\<lparr>gclk := vtimer_set_gps (gps_week msg) (gps_iTOW msg div 1000) (gclk g)\<rparr>)
           else Inr g
      else if b ! 0 = 0x01 \<and> b ! 1 = 0x21 \<and> rx_count \<ge> 4 + 20
      then let msg = nav_timeutc_of b in
           if env_flags e AND FLAG_TIMESCALE_GPS = 0 \<and> utc_valid msg AND TIMEUTC_VALIDUTC \<noteq> 0
           then gps_set_utc (utc_year msg) (utc_month msg) (utc_day msg) (utc_hour msg)
                  (utc_min msg) (utc_sec msg) g
           else Inr g
      else if b ! 0 = 0x0B \<and> b ! 1 = 0x02 \<and> rx_count \<ge> 4 + 72
      then Inr g
      else if b ! 0 = 0x0D \<and> b ! 1 = 0x01 \<and> rx_count \<ge> 4 + 16
      then set_quant_ubx (4 + 8) g
      else Inr g)"

definition ublox_reject :: "ublox \<Rightarrow> gps \<Rightarrow> (u8 \<times> ublox \<times> gps) res" where
  "ublox_reject u g = Inr (FEED_UNKNOWN, u\<lparr>ustate := U_WAITING\<rparr>, g)"

definition ublox_store :: "u8 \<Rightarrow> ublox \<Rightarrow> gps \<Rightarrow> (ublox \<times> gps) res" where
  "ublox_store val u g =
     rbind (wr ''pbuf'' (pbuf g) (unat (u_count u)) val) (\<lambda>buf.
     let u = u\<lparr>u_count := u_count u + 1\<rparr>;
         u = u\<lparr>u_ck1 := u_ck1 u + val\<rparr>;
         u = u\<lparr>u_ck2 := u_ck2 u + u_ck1 u\<rparr>
     in Inr (u, g\<lparr>pbuf := buf\<rparr>))"

definition ublox_feed :: "feed_env \<Rightarrow> u8 \<Rightarrow> ublox \<Rightarrow> gps \<Rightarrow> (u8 \<times> ublox \<times> gps) res" where
  "ublox_feed e val u g =
     (case ustate u of
        U_WAITING \<Rightarrow>
          if val = 0xB5 then Inr (FEED_CONTINUE, u\<lparr>ustate := U_SYNC\<rparr>, g) else ublox_reject u g
      | U_SYNC \<Rightarrow>
          if val = 0x62
          then Inr (FEED_CONTINUE, u\<lparr>u_count := 0, u_ck1 := 0, u_ck2 := 0, ustate := U_HEADER\<rparr>, g)
          else ublox_reject u g
      | U_HEADER \<Rightarrow>
          rbind (ublox_store val u g) (\<lambda>(u, g).
          if u_count u \<ge> 4
          then let u = u\<lparr>u_pktlen := le16 (pbuf g) 2 + 4\<rparr> in
               if ucast (u_count u) \<ge> u_pktlen u
               then Inr (FEED_CONTINUE, u\<lparr>ustate := U_CHECKSUM1\<rparr>, g)
               else Inr (FEED_CONTINUE, u\<lparr>ustate := U_COPYING\<rparr>, g)
          else Inr (FEED_CONTINUE, u, g))
      | U_COPYING \<Rightarrow>
          if unat (u_count u) \<ge> PBUF_SIZE then ublox_reject u g
          else rbind (ublox_store val u g) (\<lambda>(u, g).
               if ucast (u_count u) \<ge> u_pktlen u
               then Inr (FEED_CONTINUE, u\<lparr>ustate := U_CHECKSUM1\<rparr>, g)
               else Inr (FEED_CONTINUE, u, g))
      | U_CHECKSUM1 \<Rightarrow>
          if u_ck1 u \<noteq> val then ublox_reject u g
          else Inr (FEED_CONTINUE, u\<lparr>ustate := U_CHECKSUM2\<rparr>, g)
      | U_CHECKSUM2 \<Rightarrow>
          if u_ck2 u \<noteq> val then ublox_reject u g
          else rbind (ublox_message e (u_count u) g) (\<lambda>g.
               Inr (FEED_COMPLETE, u\<lparr>ustate := U_WAITING\<rparr>, g)))"

definition ublox_ok :: "ublox \<Rightarrow> bool" where
  "ublox_ok u \<longleftrightarrow> (ustate u = U_HEADER \<longrightarrow> u_count u < 4)"

lemma ublox_store_eq:
  "unat (u_count u) < length (pbuf g) \<Longrightarrow> ublox_store val u g =
     Inr (u\<lparr>u_count := u_count u + 1, u_ck1 := u_ck1 u + val, u_ck2 := u_ck2 u + (u_ck1 u + val)\<rparr>,
          g\<lparr>pbuf := (pbuf g)[unat (u_count u) := val]\<rparr>)"
  by (simp add: ublox_store_def wr_in)

lemma ublox_message_safe:
  assumes "pbuf_ok g" "ok s"
  shows "feed_ok ok (rbind (ublox_message e n g) (\<lambda>g. Inr (FEED_COMPLETE, s, g)))"
  unfolding ublox_message_def Let_def set_quant_ubx_def
  using feed_ok_set_utc [where ok = ok, OF assms(2,1)] assms
  by (simp add: pbuf_ok_def feed_defs)

lemma ublox_feed_safe:
  assumes "ublox_ok u" "pbuf_ok g"
  shows "feed_ok ublox_ok (ublox_feed e b u g)"
proof (cases "ustate u")
  case U_HEADER
  then have "u_count u < 4" using assms(1) by (simp add: ublox_ok_def)
  then have "unat (u_count u) < length (pbuf g)" using assms(2) by (simp add: word_less_nat_alt pbuf_ok_def)
  then show ?thesis using U_HEADER assms
    by (auto simp: ublox_feed_def ublox_store_eq Let_def ublox_ok_def pbuf_ok_def feed_defs)
next
  case U_COPYING
  then show ?thesis using assms
    by (auto simp: ublox_feed_def ublox_store_eq ublox_ok_def pbuf_ok_def feed_defs PBUF_SIZE_def ublox_reject_def)
next
  case U_CHECKSUM2
  then show ?thesis
    using assms(2) ublox_message_safe [where ok = ublox_ok and s = "u\<lparr>ustate := U_WAITING\<rparr>", OF assms(2)]
    by (simp add: ublox_feed_def ublox_reject_def ublox_ok_def feed_defs)
qed (use assms in \<open>auto simp: ublox_feed_def ublox_reject_def ublox_ok_def feed_defs\<close>)

interpretation ubx: feed_parser ublox_feed ublox_ok
  by unfold_locales (rule ublox_feed_safe)

section \<open>Configuration\<close>

definition ublox_cfg :: "(u8 \<times> u8 \<times> u8) list" where
  "ublox_cfg = [(0x01, 0x06, 0x01), (0x01, 0x12, 0x00), (0x01, 0x20, 0x05), (0x01, 0x21, 0x01), (0x0D, 0x01, 0x01)]"

definition ublox_cfg5 :: "u8 list" where
  "ublox_cfg5 = [
    0xB5, 0x62, 0x06, 0x24, 0x24, 0x00, 0x07, 0x00,
    0x02, 0x03, 0x00, 0x00, 0x00, 0x00, 0x00, 0x00,
    0x00, 0x00, 0x05, 0x00, 0x00, 0x00, 0x00, 0x00,
    0x00, 0x00, 0x00, 0x00, 0x00, 0x00, 0x00, 0x00,
    0x00, 0x00, 0x00, 0x00, 0x00, 0x00, 0x00, 0x00,
    0x00, 0x00, 0x5F, 0xDF]"

definition ublox_template :: "u8 list" where "ublox_template = [0xB5, 0x62, 0x06, 0x01, 0x08, 0x00]"

fun ublox_cks :: "u8 \<times> u8 \<Rightarrow> u8 list \<Rightarrow> u8 \<times> u8" where
  "ublox_cks c [] = c"
| "ublox_cks (ck1, ck2) (b # bs) = (let ck1 = ck1 + b; ck2 = ck2 + ck1 in ublox_cks (ck1, ck2) bs)"

fun ublox_cfg_loop :: "(u8 \<times> u8 \<times> u8) list \<Rightarrow> u8 list \<Rightarrow> u8 list list" where
  "ublox_cfg_loop [] buf = []"
| "ublox_cfg_loop ((x0, x1, x2) # xs) buf =
     (let buf = buf[6 := x0, 7 := x1, 9 := x2];
          (ck1, ck2) = ublox_cks (0, 0) (take 12 (drop 2 buf));
          buf = buf[14 := ck1, 15 := ck2]
      in buf # ublox_cfg_loop xs buf)"

text \<open>The result is the sequence of \<open>serial_write\<close> calls on the GPS port.\<close>

definition ublox_configure :: "u8 list list" where
  "ublox_configure =
     ublox_cfg_loop ublox_cfg (ublox_template @ replicate 8 0 @ replicate 2 0) @ [ublox_cfg5]"

section \<open>Whole frames\<close>

definition ubx_absorb :: "u8 list \<Rightarrow> ublox \<Rightarrow> ublox" where
  "ubx_absorb bs u = (let (c1, c2) = ublox_cks (u_ck1 u, u_ck2 u) bs in
     u\<lparr>u_count := u_count u + of_nat (length bs), u_ck1 := c1, u_ck2 := c2\<rparr>)"

lemma ubx_absorb_Nil [simp]: "ubx_absorb [] u = u"
  by (simp add: ubx_absorb_def)

lemma ubx_absorb_Cons:
  "ubx_absorb bs (u\<lparr>u_count := u_count u + 1, u_ck1 := u_ck1 u + b, u_ck2 := u_ck2 u + (u_ck1 u + b)\<rparr>)
     = ubx_absorb (b # bs) u"
  by (simp add: ubx_absorb_def Let_def split: prod.splits)

lemma ubx_absorb_simps [simp]:
  "ustate (ubx_absorb bs u) = ustate u" "u_pktlen (ubx_absorb bs u) = u_pktlen u"
  "u_count (ubx_absorb bs u) = u_count u + of_nat (length bs)"
  by (simp_all add: ubx_absorb_def split: prod.splits)

lemma ubx_copying:
  assumes "bs \<noteq> []" "ustate u = U_COPYING" "u_count u = of_nat k" "u_pktlen u = of_nat (k + length bs)"
    and "k + length bs \<le> 128" "pbuf_ok g"
  shows "feeds ublox_feed e bs u g =
     Inr (replicate (length bs) FEED_CONTINUE, (ubx_absorb bs u)\<lparr>ustate := U_CHECKSUM1\<rparr>, filled bs k g)"
  using assms
proof (induction bs arbitrary: u g k rule: list_nonempty_induct)
  case (single b)
  have k: "unat (u_count u) = k" using single.prems by (simp add: unsigned_of_nat take_bit_nat_eq_self)
  have "ucast (of_nat k + 1 :: u8) = (1 + of_nat k :: u16)"
    using ucast_of_nat_small [of "k + 1", where ?'a = 8 and ?'b = 16] single.prems by (simp add: add.commute)
  then show ?case using single.prems k
    by (simp add: ublox_feed_def ublox_store_eq PBUF_SIZE_def pbuf_ok_def filled_def ubx_absorb_def
        upd_conv_take_nth_drop Let_def)
next
  case (cons b bs)
  define u1 where "u1 = u\<lparr>u_count := u_count u + 1, u_ck1 := u_ck1 u + b, u_ck2 := u_ck2 u + (u_ck1 u + b)\<rparr>"
  define g1 where "g1 = g\<lparr>pbuf := (pbuf g)[k := b]\<rparr>"
  have k: "unat (u_count u) = k" using cons.prems by (simp add: unsigned_of_nat take_bit_nat_eq_self)
  have "ucast (of_nat k + 1 :: u8) = (of_nat (k + 1) :: u16)"
    using ucast_of_nat_small [of "k + 1", where ?'a = 8 and ?'b = 16] cons.prems by (simp add: add.commute)
  moreover have "\<not> (of_nat (k + Suc (length bs)) :: u16) \<le> of_nat (k + 1)"
    using cons.prems(4) cons.hyps(1) by (subst of_nat_le_iff_word) simp_all
  ultimately have f: "ublox_feed e b u g = Inr (FEED_CONTINUE, u1, g1)"
    using cons.prems k
    by (simp add: ublox_feed_def ublox_store_eq PBUF_SIZE_def pbuf_ok_def u1_def g1_def)
  have "feeds ublox_feed e bs u1 g1 =
     Inr (replicate (length bs) FEED_CONTINUE, (ubx_absorb bs u1)\<lparr>ustate := U_CHECKSUM1\<rparr>, filled bs (k + 1) g1)"
    using cons.prems by (intro cons.IH) (simp_all add: u1_def g1_def pbuf_ok_def add.assoc)
  moreover have "ubx_absorb bs u1 = ubx_absorb (b # bs) u" unfolding u1_def by (rule ubx_absorb_Cons)
  moreover have "filled bs (k + 1) g1 = filled (b # bs) k g"
    using filled_Cons [of k bs g b] cons.prems by (simp add: g1_def pbuf_ok_def)
  ultimately show ?case using f by simp
qed

definition ubx_synced :: "ublox \<Rightarrow> ublox" where
  "ubx_synced u = u\<lparr>u_count := 0, u_ck1 := 0, u_ck2 := 0, ustate := U_HEADER\<rparr>"

lemma ublox_store_absorb:
  assumes "u_count u = of_nat k" "k < 128" "pbuf_ok g"
  shows "ublox_store b u g = Inr (ubx_absorb [b] u, filled [b] k g)"
proof -
  have "unat (u_count u) = k" using assms(1,2) by (simp add: unsigned_of_nat take_bit_nat_eq_self)
  then show ?thesis using assms(2,3)
    by (simp add: ublox_store_eq pbuf_ok_def ubx_absorb_def filled_def upd_conv_take_nth_drop Let_def)
qed

lemma ubx_absorb_append: "ubx_absorb bs (ubx_absorb as u) = ubx_absorb (as @ bs) u"
proof (induction as arbitrary: u)
  case (Cons a as)
  show ?case using Cons [of "u\<lparr>u_count := u_count u + 1, u_ck1 := u_ck1 u + a, u_ck2 := u_ck2 u + (u_ck1 u + a)\<rparr>"]
    by (simp add: ubx_absorb_Cons)
qed simp

lemma ubx_header_byte:
  assumes "ustate u = U_HEADER" "u_count u = of_nat k" "k < 3" "pbuf_ok g"
  shows "ublox_feed e b u g = Inr (FEED_CONTINUE, ubx_absorb [b] u, filled [b] k g)"
proof -
  have "\<not> (4::u8) \<le> of_nat k + 1"
    using of_nat_le_iff_word [of 4 "k + 1", where ?'a = 8] assms(3) by (simp add: add.commute)
  with ublox_store_absorb [OF assms(2) _ assms(4)] assms show ?thesis by (simp add: ublox_feed_def)
qed

lemma ubx_header_last:
  assumes "ustate u = U_HEADER" "u_count u = 3" "pbuf_ok g"
  shows "ublox_feed e b u g =
     Inr (FEED_CONTINUE, (ubx_absorb [b] u)\<lparr>u_pktlen := (push_bit 8 (ucast b) OR ucast (pbuf g ! 2)) + 4,
          ustate := if (push_bit 8 (ucast b) OR ucast (pbuf g ! 2)) + 4 \<le> (4::u16) then U_CHECKSUM1 else U_COPYING\<rparr>,
        filled [b] 3 g)"
proof -
  have "le16 (pbuf (filled [b] 3 g)) 2 = push_bit 8 (ucast b) OR ucast (pbuf g ! 2)"
    using assms(3) by (simp add: le16_def filled_def nth_append pbuf_ok_def)
  with ublox_store_absorb [of u 3 g b] assms show ?thesis by (simp add: ublox_feed_def Let_def)
qed

definition ubx_body :: "u8 \<Rightarrow> u8 \<Rightarrow> u8 list \<Rightarrow> u8 list" where
  "ubx_body cls mid payload = cls # mid # of_nat (length payload) # 0 # payload"

lemma ubx_header_len:
  assumes "pbuf_ok g"
  shows "feeds ublox_feed e [0xB5, 0x62, a, b, c, d] (u\<lparr>ustate := U_WAITING\<rparr>) g =
     Inr (replicate 6 FEED_CONTINUE,
       (ubx_absorb [a, b, c, d] (ubx_synced u))\<lparr>u_pktlen := (push_bit 8 (ucast d) OR ucast c) + 4,
          ustate := if (push_bit 8 (ucast d) OR ucast c) + 4 \<le> (4::u16) then U_CHECKSUM1 else U_COPYING\<rparr>,
       filled [a, b, c, d] 0 g)"
proof -
  let ?u = "ubx_synced u"
  have z: "u_count ?u = of_nat 0" "ustate ?u = U_HEADER" by (simp_all add: ubx_synced_def)
  have o: "pbuf_ok (filled bs 0 g)" if "length bs \<le> 4" for bs using assms that by (intro pbuf_ok_filled) simp_all
  have s: "filled bs (length as) (filled as 0 g) = filled (as @ bs) 0 g" if "length as + length bs \<le> 4" for as bs
    using filled_append [of 0 as bs g] assms that by (simp add: pbuf_ok_def)
  have c1: "ublox_feed e a ?u g = Inr (FEED_CONTINUE, ubx_absorb [a] ?u, filled [a] 0 g)"
    using z assms by (intro ubx_header_byte) simp_all
  have c2: "ublox_feed e b (ubx_absorb [a] ?u) (filled [a] 0 g)
      = Inr (FEED_CONTINUE, ubx_absorb [a, b] ?u, filled [a, b] 0 g)"
    using z o [of "[a]"] s [of "[a]" "[b]"] ubx_header_byte [of "ubx_absorb [a] ?u" 1 "filled [a] 0 g" e b]
    by (simp add: ubx_absorb_append)
  have c3: "ublox_feed e c (ubx_absorb [a, b] ?u) (filled [a, b] 0 g)
      = Inr (FEED_CONTINUE, ubx_absorb [a, b, c] ?u, filled [a, b, c] 0 g)"
    using z o [of "[a, b]"] s [of "[a, b]" "[c]"] ubx_header_byte [of "ubx_absorb [a, b] ?u" 2 "filled [a, b] 0 g" e c]
    by (simp add: ubx_absorb_append numeral_2_eq_2)
  have "pbuf (filled [a, b, c] 0 g) ! 2 = c" by (simp add: filled_def nth_append)
  then have c4: "ublox_feed e d (ubx_absorb [a, b, c] ?u) (filled [a, b, c] 0 g)
      = Inr (FEED_CONTINUE, (ubx_absorb [a, b, c, d] ?u)\<lparr>u_pktlen := (push_bit 8 (ucast d) OR ucast c) + 4,
          ustate := if (push_bit 8 (ucast d) OR ucast c) + 4 \<le> (4::u16) then U_CHECKSUM1 else U_COPYING\<rparr>, filled [a, b, c, d] 0 g)"
    using z o [of "[a, b, c]"] s [of "[a, b, c]" "[d]"] ubx_header_last [of "ubx_absorb [a, b, c] ?u" "filled [a, b, c] 0 g" e d]
    by (simp add: ubx_absorb_append numeral_3_eq_3)
  have f1: "ublox_feed e 0xB5 (u\<lparr>ustate := U_WAITING\<rparr>) g = Inr (FEED_CONTINUE, u\<lparr>ustate := U_SYNC\<rparr>, g)"
    by (simp add: ublox_feed_def)
  have f2: "ublox_feed e 0x62 (u\<lparr>ustate := U_SYNC\<rparr>) g = Inr (FEED_CONTINUE, ?u, g)"
    by (simp add: ublox_feed_def ubx_synced_def)
  have "replicate 6 FEED_CONTINUE = [FEED_CONTINUE, FEED_CONTINUE, FEED_CONTINUE, FEED_CONTINUE, FEED_CONTINUE, FEED_CONTINUE]"
    by (simp add: numeral_eq_Suc)
  then show ?thesis by (simp add: f1 f2 c1 c2 c3 c4)
qed

lemma ubx_header:
  assumes "pbuf_ok g"
  shows "feeds ublox_feed e [0xB5, 0x62, a, b, c, 0] (u\<lparr>ustate := U_WAITING\<rparr>) g =
     Inr (replicate 6 FEED_CONTINUE,
       (ubx_absorb [a, b, c, 0] (ubx_synced u))\<lparr>u_pktlen := ucast c + 4,
          ustate := if ucast c + 4 \<le> (4::u16) then U_CHECKSUM1 else U_COPYING\<rparr>,
       filled [a, b, c, 0] 0 g)"
  using ubx_header_len [OF assms, of e a b c 0 u] by simp

lemma ubx_absorb_cks:
  "(u_ck1 (ubx_absorb bs u), u_ck2 (ubx_absorb bs u)) = ublox_cks (u_ck1 u, u_ck2 u) bs"
  by (simp add: ubx_absorb_def split: prod.splits)

lemma ubx_payload:
  assumes "ustate u = U_WAITING" "pbuf_ok g" "length payload \<le> 124"
  shows "feeds ublox_feed e (0xB5 # 0x62 # ubx_body cls mid payload) u g =
     Inr (replicate (length payload + 6) FEED_CONTINUE,
       (ubx_absorb (ubx_body cls mid payload) (ubx_synced u))
         \<lparr>u_pktlen := of_nat (length payload + 4), ustate := U_CHECKSUM1\<rparr>,
       filled (ubx_body cls mid payload) 0 g)"
proof -
  let ?n = "length payload" and ?h = "[cls, mid, of_nat (length payload), 0]"
  have u: "u = u\<lparr>ustate := U_WAITING\<rparr>" using assms(1) by simp
  have n: "ucast (of_nat ?n :: u8) = (of_nat ?n :: u16)"
    using assms(3) by (intro ucast_of_nat_small) simp
  have le: "of_nat ?n + 4 \<le> (4::u16) \<longleftrightarrow> payload = []"
    using of_nat_le_iff_word [of "?n + 4" 4, where ?'a = 16] assms(3) by simp
  define s where "s = (ubx_absorb ?h (ubx_synced u))\<lparr>u_pktlen := of_nat (?n + 4), ustate := U_COPYING\<rparr>"
  note hd = ubx_header [OF assms(2), of e cls mid "of_nat ?n" u, folded u]
  have sp: "0xB5 # 0x62 # ubx_body cls mid payload = [0xB5, 0x62, cls, mid, of_nat ?n, 0] @ payload"
    by (simp add: ubx_body_def)
  show ?thesis
  proof (cases "payload = []")
    case True
    then show ?thesis using hd le by (simp add: ubx_body_def)
  next
    case False
    have "pbuf_ok (filled ?h 0 g)" using assms(2) by (intro pbuf_ok_filled) simp_all
    then have "feeds ublox_feed e payload s (filled ?h 0 g) =
       Inr (replicate ?n FEED_CONTINUE, (ubx_absorb payload s)\<lparr>ustate := U_CHECKSUM1\<rparr>,
            filled payload 4 (filled ?h 0 g))"
      using False assms(3) by (intro ubx_copying) (simp_all add: s_def ubx_synced_def add.commute)
    moreover have "(ubx_absorb payload s)\<lparr>ustate := U_CHECKSUM1\<rparr>
        = (ubx_absorb (?h @ payload) (ubx_synced u))\<lparr>u_pktlen := of_nat (?n + 4), ustate := U_CHECKSUM1\<rparr>"
      unfolding ubx_absorb_append [symmetric] by (simp add: s_def ubx_absorb_def split: prod.splits)
    moreover have "filled payload 4 (filled ?h 0 g) = filled (?h @ payload) 0 g"
      using filled_append [of 0 ?h payload g] assms(2,3) by (simp add: pbuf_ok_def eval_nat_numeral)
    moreover have "feeds ublox_feed e [0xB5, 0x62, cls, mid, of_nat ?n, 0] u g
        = Inr (replicate 6 FEED_CONTINUE, s, filled ?h 0 g)"
      unfolding hd by (simp add: le n False s_def)
    ultimately show ?thesis
      unfolding sp feeds_append by (simp only: rbind_simps prod.case) (simp add: ubx_body_def replicate_add [symmetric])
  qed
qed

lemma ubx_copying_on:
  assumes "ustate u = U_COPYING" "u_count u = of_nat k" "u_pktlen u = of_nat p" "k + length bs < p" "p < 65536"
    and "k + length bs \<le> 128" "pbuf_ok g"
  shows "feeds ublox_feed e bs u g = Inr (replicate (length bs) FEED_CONTINUE, ubx_absorb bs u, filled bs k g)"
  using assms
proof (induction bs arbitrary: u g k)
  case (Cons b bs)
  define u1 where "u1 = u\<lparr>u_count := u_count u + 1, u_ck1 := u_ck1 u + b, u_ck2 := u_ck2 u + (u_ck1 u + b)\<rparr>"
  define g1 where "g1 = g\<lparr>pbuf := (pbuf g)[k := b]\<rparr>"
  have k: "unat (u_count u) = k" using Cons.prems by (simp add: unsigned_of_nat take_bit_nat_eq_self)
  have "ucast (of_nat k + 1 :: u8) = (of_nat (k + 1) :: u16)"
    using ucast_of_nat_small [of "k + 1", where ?'a = 8 and ?'b = 16] Cons.prems by (simp add: add.commute)
  moreover have "\<not> (of_nat p :: u16) \<le> of_nat (k + 1)"
    using Cons.prems(4-6) by (subst of_nat_le_iff_word) simp_all
  ultimately have f: "ublox_feed e b u g = Inr (FEED_CONTINUE, u1, g1)"
    using Cons.prems k
    by (simp add: ublox_feed_def ublox_store_eq PBUF_SIZE_def pbuf_ok_def u1_def g1_def)
  have "feeds ublox_feed e bs u1 g1 = Inr (replicate (length bs) FEED_CONTINUE, ubx_absorb bs u1, filled bs (k + 1) g1)"
    using Cons.prems by (intro Cons.IH) (simp_all add: u1_def g1_def pbuf_ok_def add.commute)
  moreover have "ubx_absorb bs u1 = ubx_absorb (b # bs) u" unfolding u1_def by (rule ubx_absorb_Cons)
  moreover have "filled bs (k + 1) g1 = filled (b # bs) k g"
    using filled_Cons [of k bs g b] Cons.prems by (simp add: g1_def pbuf_ok_def)
  ultimately show ?case using f by simp
qed (simp add: filled_def)

text \<open>The length that a header announces, and the first byte that does not fit in \<open>pbuf\<close>.\<close>

definition ubx_length :: "u8 \<Rightarrow> u8 \<Rightarrow> nat" where "ubx_length lo hi = 256 * unat hi + unat lo"

lemma ubx_length_word: "push_bit 8 (ucast hi) OR ucast lo = (of_nat (ubx_length lo hi) :: u16)"
proof -
  have "push_bit 8 (ucast hi) AND ucast lo = (0 :: u16)"
    by (rule bit_eqI) (auto simp: bit_simps dest: bit_imp_le_length)
  then have "push_bit 8 (ucast hi) OR ucast lo = push_bit 8 (ucast hi) + (ucast lo :: u16)" by (simp add: disjunctive_add_eq_or)
  also have "\<dots> = of_nat (ubx_length lo hi)" by (simp add: ubx_length_def push_bit_eq_mult)
  finally show ?thesis .
qed

lemma ubx_too_long:
  assumes "ustate u = U_WAITING" "pbuf_ok g" "length payload = 124" "124 < ubx_length lo hi" "ubx_length lo hi < 65532"
  shows "\<exists>u'. ustate u' = U_WAITING \<and> feeds ublox_feed e ((0xB5 # 0x62 # cls # mid # lo # hi # payload) @ [x]) u g =
     Inr (replicate 130 FEED_CONTINUE @ [FEED_UNKNOWN], u', filled (cls # mid # lo # hi # payload) 0 g)"
proof -
  let ?p = "ubx_length lo hi + 4" and ?h = "[cls, mid, lo, hi]"
  have u: "u\<lparr>ustate := U_WAITING\<rparr> = u" using assms(1) by simp
  have p: "(push_bit 8 (ucast hi) OR ucast lo) + 4 = (of_nat ?p :: u16)" unfolding ubx_length_word by simp
  have le: "\<not> of_nat ?p \<le> (4 :: u16)" using of_nat_le_iff_word [of ?p 4, where ?'a = 16] assms(4,5) by simp
  define s where "s = (ubx_absorb ?h (ubx_synced u))\<lparr>u_pktlen := of_nat ?p, ustate := U_COPYING\<rparr>"
  have hd: "feeds ublox_feed e [0xB5, 0x62, cls, mid, lo, hi] u g = Inr (replicate 6 FEED_CONTINUE, s, filled ?h 0 g)"
    using ubx_header_len [OF assms(2), of e cls mid lo hi u] le unfolding u p by (simp add: s_def)
  have ok: "pbuf_ok (filled ?h 0 g)" using assms(2) by (intro pbuf_ok_filled) simp_all
  have cp: "feeds ublox_feed e payload s (filled ?h 0 g) =
      Inr (replicate 124 FEED_CONTINUE, ubx_absorb payload s, filled payload 4 (filled ?h 0 g))"
    using ubx_copying_on [of s 4 ?p payload "filled ?h 0 g" e] assms(3-5) ok by (simp add: s_def ubx_synced_def)
  have st: "ustate (ubx_absorb payload s) = U_COPYING" "u_count (ubx_absorb payload s) = 128"
    using assms(3) by (simp_all add: s_def ubx_synced_def)
  have rj: "ublox_feed e x (ubx_absorb payload s) h = Inr (FEED_UNKNOWN, (ubx_absorb payload s)\<lparr>ustate := U_WAITING\<rparr>, h)" for h
    using st by (simp add: ublox_feed_def ublox_reject_def PBUF_SIZE_def)
  have fl: "filled payload 4 (filled ?h 0 g) = filled (?h @ payload) 0 g"
    using filled_append [of 0 ?h payload g] assms(2,3) by (simp add: pbuf_ok_def eval_nat_numeral)
  have sp: "(0xB5 # 0x62 # cls # mid # lo # hi # payload) @ [x] = [0xB5, 0x62, cls, mid, lo, hi] @ payload @ [x]" by simp
  have "replicate 130 FEED_CONTINUE = replicate 6 FEED_CONTINUE @ replicate 124 FEED_CONTINUE" by (simp flip: replicate_add)
  then have "feeds ublox_feed e ((0xB5 # 0x62 # cls # mid # lo # hi # payload) @ [x]) u g =
     Inr (replicate 130 FEED_CONTINUE @ [FEED_UNKNOWN], (ubx_absorb payload s)\<lparr>ustate := U_WAITING\<rparr>, filled (?h @ payload) 0 g)"
    unfolding sp feeds_append hd cp rbind_simps prod.case by (simp add: rj fl)
  then show ?thesis by (intro exI [of _ "(ubx_absorb payload s)\<lparr>ustate := U_WAITING\<rparr>"]) simp
qed

text \<open>
  C20. A UBX frame is accepted exactly when both its checksum bytes are right and its body fits in \<open>pbuf\<close>:
  for every message class and every payload the buffer has room for (124 bytes), from the waiting state,
  each byte of the frame asks for more, the last one completes the packet and hands the message with its
  whole body in \<open>pbuf\<close> to \<open>ublox_message\<close>; a wrong first checksum byte and, after a right first one, a
  wrong second checksum byte are rejected, leave the clock alone and go back to waiting; a frame that
  announces more (below 65532 bytes, where the 16-bit \<open>rx_pktlen\<close> wraps) is rejected at the first byte
  that does not fit, whatever it holds.
\<close>

theorem ublox_frame:
  assumes "ustate u = U_WAITING" "pbuf_ok g" "length payload \<le> 124"
    and "ublox_cks (0, 0) (ubx_body cls mid payload) = (c1, c2)"
  shows "\<exists>u'. ustate u' = U_WAITING
     \<and> feeds ublox_feed e ((0xB5 # 0x62 # ubx_body cls mid payload) @ [c1, c2]) u g =
        rbind (ublox_message e (of_nat (length payload + 4)) (filled (ubx_body cls mid payload) 0 g)) (\<lambda>g'.
        Inr (replicate (length payload + 7) FEED_CONTINUE @ [FEED_COMPLETE], u', g'))
     \<and> (\<forall>k. k \<noteq> c1 \<longrightarrow>
        feeds ublox_feed e ((0xB5 # 0x62 # ubx_body cls mid payload) @ [k]) u g =
        Inr (replicate (length payload + 6) FEED_CONTINUE @ [FEED_UNKNOWN], u', filled (ubx_body cls mid payload) 0 g))
     \<and> (\<forall>k. k \<noteq> c2 \<longrightarrow>
        feeds ublox_feed e ((0xB5 # 0x62 # ubx_body cls mid payload) @ [c1, k]) u g =
        Inr (replicate (length payload + 7) FEED_CONTINUE @ [FEED_UNKNOWN], u', filled (ubx_body cls mid payload) 0 g))
     \<and> (\<forall>lo hi x. length payload = 124 \<and> 124 < ubx_length lo hi \<and> ubx_length lo hi < 65532 \<longrightarrow>
        (\<exists>u'. ustate u' = U_WAITING \<and> feeds ublox_feed e ((0xB5 # 0x62 # cls # mid # lo # hi # payload) @ [x]) u g =
           Inr (replicate 130 FEED_CONTINUE @ [FEED_UNKNOWN], u', filled (cls # mid # lo # hi # payload) 0 g)))"
proof -
  define s where "s = (ubx_absorb (ubx_body cls mid payload) (ubx_synced u))
         \<lparr>u_pktlen := of_nat (length payload + 4), ustate := U_CHECKSUM1\<rparr>"
  have c: "u_ck1 s = c1" "u_ck2 s = c2"
    using ubx_absorb_cks [of "ubx_body cls mid payload" "ubx_synced u"] assms(4)
    by (simp_all add: s_def ubx_synced_def)
  have n: "u_count s = of_nat (length payload + 4)"
    by (simp add: s_def ubx_synced_def ubx_body_def)
  have r: "replicate (length payload + 6) FEED_CONTINUE @ [FEED_CONTINUE, x]
      = replicate (length payload + 7) FEED_CONTINUE @ [x]" for x
    using replicate_append_same [of "length payload + 6" FEED_CONTINUE] by (simp add: eval_nat_numeral)
  have f1: "ublox_feed e c1 s h = Inr (FEED_CONTINUE, s\<lparr>ustate := U_CHECKSUM2\<rparr>, h)" for h
    using c by (simp add: ublox_feed_def s_def)
  have f2: "ublox_feed e c2 (s\<lparr>ustate := U_CHECKSUM2\<rparr>) h = rbind (ublox_message e (u_count s) h) (\<lambda>h.
      Inr (FEED_COMPLETE, s\<lparr>ustate := U_WAITING\<rparr>, h))" for h
    using c by (simp add: ublox_feed_def)
  have f3: "k \<noteq> c1 \<Longrightarrow> ublox_feed e k s h = Inr (FEED_UNKNOWN, s\<lparr>ustate := U_WAITING\<rparr>, h)" for k h
    using c by (simp add: ublox_feed_def ublox_reject_def s_def)
  have f4: "k \<noteq> c2 \<Longrightarrow> ublox_feed e k (s\<lparr>ustate := U_CHECKSUM2\<rparr>) h = Inr (FEED_UNKNOWN, s\<lparr>ustate := U_WAITING\<rparr>, h)" for k h
    using c by (simp add: ublox_feed_def ublox_reject_def)
  note p = ubx_payload [OF assms(1-3), of e cls mid, folded s_def]
  let ?g = "filled (ubx_body cls mid payload) 0 g"
  have "feeds ublox_feed e ((0xB5 # 0x62 # ubx_body cls mid payload) @ [c1, c2]) u g =
      rbind (ublox_message e (u_count s) ?g) (\<lambda>g'.
      Inr (replicate (length payload + 7) FEED_CONTINUE @ [FEED_COMPLETE], s\<lparr>ustate := U_WAITING\<rparr>, g'))"
    unfolding feeds_append p by (cases "ublox_message e (u_count s) ?g") (simp_all add: f1 f2 r)
  moreover have "k \<noteq> c1 \<Longrightarrow> feeds ublox_feed e ((0xB5 # 0x62 # ubx_body cls mid payload) @ [k]) u g =
      Inr (replicate (length payload + 6) FEED_CONTINUE @ [FEED_UNKNOWN], s\<lparr>ustate := U_WAITING\<rparr>, ?g)" for k
    unfolding feeds_append p by (simp add: f3)
  moreover have "k \<noteq> c2 \<Longrightarrow> feeds ublox_feed e ((0xB5 # 0x62 # ubx_body cls mid payload) @ [c1, k]) u g =
      Inr (replicate (length payload + 7) FEED_CONTINUE @ [FEED_UNKNOWN], s\<lparr>ustate := U_WAITING\<rparr>, ?g)" for k
    unfolding feeds_append p by (simp add: f1 f4 r)
  moreover have "\<forall>lo hi x. length payload = 124 \<and> 124 < ubx_length lo hi \<and> ubx_length lo hi < 65532 \<longrightarrow>
      (\<exists>u'. ustate u' = U_WAITING \<and> feeds ublox_feed e ((0xB5 # 0x62 # cls # mid # lo # hi # payload) @ [x]) u g =
         Inr (replicate 130 FEED_CONTINUE @ [FEED_UNKNOWN], u', filled (cls # mid # lo # hi # payload) 0 g))"
    using ubx_too_long [OF assms(1,2)] by blast
  ultimately show ?thesis unfolding n by (intro exI [of _ "s\<lparr>ustate := U_WAITING\<rparr>"]) simp
qed

theorem ublox_frame_witness:
  "\<exists>u' g'. feeds ublox_feed \<lparr>env_tick = (\<lambda>_. 0), env_flags = 0\<rparr>
       ((0xB5 # 0x62 # ubx_body 0x0A 0x04 []) @ [0x0E, 0x34]) ublox0 gps0
     = Inr (replicate 7 FEED_CONTINUE @ [FEED_COMPLETE], u', g')"
proof -
  let ?e = "\<lparr>env_tick = (\<lambda>_. 0), env_flags = 0\<rparr>" and ?g = "filled (ubx_body 0x0A 0x04 []) 0 gps0"
  have m: "ublox_message ?e (of_nat (length ([] :: u8 list) + 4)) ?g = Inr ?g"
    by (simp add: ublox_message_def filled_def ubx_body_def)
  have c: "ublox_cks (0, 0) (ubx_body 0x0A 0x04 []) = (0x0E, 0x34)" by (simp add: ubx_body_def Let_def)
  have s: "ustate ublox0 = U_WAITING" "pbuf_ok gps0" "length ([] :: u8 list) \<le> 124"
    by (simp_all add: ublox0_def gps0_def pbuf_ok_def)
  from ublox_frame [OF s c, of ?e] obtain u' where
    "feeds ublox_feed ?e ((0xB5 # 0x62 # ubx_body 0x0A 0x04 []) @ [0x0E, 0x34]) ublox0 gps0
       = Inr (replicate (length ([] :: u8 list) + 7) FEED_CONTINUE @ [FEED_COMPLETE], u', ?g)"
    unfolding m rbind_simps by blast
  then show ?thesis unfolding list.size add_0 by blast
qed

text \<open>
  Every frame that \<open>ublox_configure\<close> writes to the receiver is a well-formed UBX
  frame: sync bytes, class, identifier, the length of its payload and the two checksum
  bytes over them, the constant frame \<open>ublox_cfg5\<close> included; the first five are CFG-MSG
  messages that set the rate of each entry of \<open>ublox_cfg\<close> on the serial port.
\<close>

theorem ublox_configure_frames:
  "map (\<lambda>w. take (length w - 2) w) ublox_configure =
     map (\<lambda>(c, m, r). 0xB5 # 0x62 # ubx_body 0x06 0x01 [c, m, 0, r, 0, 0, 0, 0]) ublox_cfg
     @ [0xB5 # 0x62 # ubx_body 0x06 0x24 (take 36 (drop 6 ublox_cfg5))]
   \<and> list_all (\<lambda>w. (w ! (length w - 2), w ! (length w - 1)) = ublox_cks (0, 0) (take (length w - 4) (drop 2 w)))
       ublox_configure"
  by code_simp

end
