(* ===== verification/Tsip.thy ===== *)
theory Tsip
  imports Gps
begin

text \<open>
  The Trimble TSIP parser, \<open>src/src/gps/tsip.c\<close>: packets start with DLE and end with DLE
  ETX, and DLE bytes of the data are doubled. The parser counts the DLE bytes seen and
  stores the packet, with its framing bytes, in \<open>pbuf\<close>.
\<close>

record tsip =
  t_count :: u8
  t_dle_count :: u8
  t_last_tick :: u64

definition tsip0 :: tsip where "tsip0 = \<lparr>t_count = 0, t_dle_count = 0, t_last_tick = 0\<rparr>"

definition TFLAG_NO_TIME :: u8 where "TFLAG_NO_TIME = 4"
definition TFLAG_NO_UTC :: u8 where "TFLAG_NO_UTC = 8"

definition tsip_clear :: "tsip \<Rightarrow> tsip" where
  "tsip_clear t = t\<lparr>t_count := 0, t_dle_count := 0\<rparr>"

definition set_quant :: "nat \<Rightarrow> gps \<Rightarrow> gps" where
  "set_quant qf g =
     (let b = (\<lambda>i. pbuf g ! (qf + i));
          out_f = f32_of_bits (push_bit 24 (ucast (b 0)) OR push_bit 16 (ucast (b 1))
                    OR push_bit 8 (ucast (b 2)) OR ucast (b 3));
          out_f = fmul f32 out_f (fneg (fdiv f32 (f32 1) (f32 (10 ^ 9))))
      in g\<lparr>gclk := vtimer_set_correction out_f LAGGING (gclk g)\<rparr>)"

definition tsip_end :: "tsip \<Rightarrow> gps \<Rightarrow> (u8 \<times> tsip \<times> gps) res" where
  "tsip_end t g =
     (let b = (\<lambda>i. pbuf g ! i) in
      if t_count t \<ge> 19 \<and> b 1 = 0x8f \<and> b 2 = 0xab
      then if b 11 AND (TFLAG_NO_TIME OR TFLAG_NO_UTC) \<noteq> 0 then Inr (FEED_COMPLETE, t, g)
           else rbind (gps_set_utc (push_bit 8 (ucast (b 17)) OR ucast (b 18)) (b 16) (b 15) (b 14) (b 13) (b 12) g) (\<lambda>g.
                Inr (FEED_COMPLETE, tsip_clear t, g))
      else if t_count t > 65 \<and> b 1 = 0x8f \<and> b 2 = 0xac
      then Inr (FEED_COMPLETE, tsip_clear t, set_quant 62 g)
      else Inr (FEED_COMPLETE, tsip_clear t, g))"

definition tsip_store :: "u8 \<Rightarrow> tsip \<Rightarrow> gps \<Rightarrow> (u8 \<times> tsip \<times> gps) res" where
  "tsip_store val t g =
     (if unat (t_count t) \<ge> PBUF_SIZE then Inr (FEED_UNKNOWN, tsip_clear t, g)
      else rbind (wr ''pbuf'' (pbuf g) (unat (t_count t)) val) (\<lambda>buf.
           let g = g\<lparr>pbuf := buf\<rparr>; t = t\<lparr>t_count := t_count t + 1\<rparr> in
           if val = 0x03 \<and> t_dle_count t mod 2 = 0 then tsip_end t g
           else Inr (FEED_CONTINUE, t, g)))"

definition tsip_feed :: "feed_env \<Rightarrow> u8 \<Rightarrow> tsip \<Rightarrow> gps \<Rightarrow> (u8 \<times> tsip \<times> gps) res" where
  "tsip_feed e val t g =
     (let t = (if ucast (env_tick e 4) - t_last_tick t > ucast PACKET_TIMEOUT then tsip_clear t else t);
          t = t\<lparr>t_last_tick := ucast (env_tick e 5)\<rparr> in
      if val = 0x10
      then let t = t\<lparr>t_dle_count := t_dle_count t + 1\<rparr> in
           if t_dle_count t > 2 \<and> t_dle_count t mod 2 = 1 then Inr (FEED_CONTINUE, t, g)
           else tsip_store val t g
      else if t_dle_count t = 0 then Inr (FEED_UNKNOWN, t, g)
      else tsip_store val t g)"

definition tsip_ok :: "tsip \<Rightarrow> bool" where "tsip_ok t \<longleftrightarrow> True"

lemma tsip_end_safe: "pbuf_ok g \<Longrightarrow> feed_ok tsip_ok (tsip_end t g)"
  unfolding tsip_end_def Let_def
  using feed_ok_set_utc [where ok = tsip_ok and s = "tsip_clear t" and rc = FEED_COMPLETE and g = g]
  by (simp add: tsip_ok_def set_quant_def pbuf_ok_def Let_def)

lemma tsip_store_safe: "pbuf_ok g \<Longrightarrow> feed_ok tsip_ok (tsip_store b t g)"
  using tsip_end_safe [of "g\<lparr>pbuf := (pbuf g)[unat (t_count t) := b]\<rparr>" "t\<lparr>t_count := t_count t + 1\<rparr>"]
  by (auto simp: tsip_store_def wr_def PBUF_SIZE_def pbuf_ok_def tsip_ok_def Let_def feed_defs)

lemma tsip_feed_safe: "pbuf_ok g \<Longrightarrow> feed_ok tsip_ok (tsip_feed e b t g)"
  using tsip_store_safe by (simp add: tsip_feed_def Let_def tsip_ok_def feed_defs)

interpretation tsp: feed_parser tsip_feed tsip_ok
  by unfold_locales (rule tsip_feed_safe)

section \<open>Whole packets\<close>

fun stuff :: "u8 list \<Rightarrow> u8 list" where
  "stuff [] = []"
| "stuff (b # bs) = (if b = 0x10 then 0x10 # 0x10 # stuff bs else b # stuff bs)"

definition steady :: "feed_env \<Rightarrow> tsip \<Rightarrow> bool" where
  "steady e t \<longleftrightarrow> env_tick e 4 = env_tick e 5 \<and> t_last_tick t = ucast (env_tick e 5)"

lemma steady_feed:
  assumes "steady e t"
  shows "tsip_feed e val t g =
     (if val = 0x10
      then let t = t\<lparr>t_dle_count := t_dle_count t + 1\<rparr> in
           if t_dle_count t > 2 \<and> t_dle_count t mod 2 = 1 then Inr (FEED_CONTINUE, t, g)
           else tsip_store val t g
      else if t_dle_count t = 0 then Inr (FEED_UNKNOWN, t, g)
      else tsip_store val t g)"
proof -
  have "t\<lparr>t_last_tick := ucast (env_tick e 5)\<rparr> = t"
    "(if ucast (env_tick e 4) - t_last_tick t > ucast PACKET_TIMEOUT then tsip_clear t else t) = t"
    using assms by (simp_all add: steady_def)
  then show ?thesis by (simp only: tsip_feed_def Let_def)
qed

lemma parity_of_nat:
  assumes "d < 256"
  shows "(of_nat d :: u8) mod 2 = 0 \<longleftrightarrow> even d" "(of_nat d :: u8) mod 2 = 1 \<longleftrightarrow> odd d"
  using assms
  by (simp_all add: word_unat_eq_iff unat_mod unsigned_of_nat take_bit_nat_eq_self even_iff_mod_2_eq_zero
      odd_iff_mod_2_eq_one)

definition tsip_at :: "feed_env \<Rightarrow> nat \<Rightarrow> nat \<Rightarrow> tsip" where
  "tsip_at e k d = \<lparr>t_count = of_nat k, t_dle_count = of_nat d, t_last_tick = ucast (env_tick e 5)\<rparr>"

lemma tsip_at_simps [simp]:
  "t_count (tsip_at e k d) = of_nat k" "t_dle_count (tsip_at e k d) = of_nat d"
  "(tsip_at e k d)\<lparr>t_count := of_nat j\<rparr> = tsip_at e j d"
  "(tsip_at e k d)\<lparr>t_dle_count := of_nat j\<rparr> = tsip_at e k j"
  "env_tick e 4 = env_tick e 5 \<Longrightarrow> steady e (tsip_at e k d)"
  by (simp_all add: tsip_at_def steady_def)

lemma tsip_store_at:
  assumes "k < 128" "pbuf_ok g"
  shows "tsip_store b (tsip_at e k d) g =
     (if b = 3 \<and> (of_nat d :: u8) mod 2 = 0 then tsip_end (tsip_at e (k + 1) d) (filled [b] k g)
      else Inr (FEED_CONTINUE, tsip_at e (k + 1) d, filled [b] k g))"
proof -
  have k: "unat (of_nat k :: u8) = k" using assms(1) by (simp add: unsigned_of_nat take_bit_nat_eq_self)
  have f: "g\<lparr>pbuf := (pbuf g)[k := b]\<rparr> = filled [b] k g"
    using assms by (simp add: filled_def pbuf_ok_def upd_conv_take_nth_drop)
  have n: "(tsip_at e k d)\<lparr>t_count := of_nat k + 1\<rparr> = tsip_at e (k + 1) d"
    by (simp add: tsip_at_def add.commute)
  show ?thesis using assms k n unfolding f [symmetric]
    by (simp add: tsip_store_def PBUF_SIZE_def wr_in pbuf_ok_def Let_def)
qed

lemma tsip_feed_data:
  assumes "env_tick e 4 = env_tick e 5" "k < 128" "pbuf_ok g" "odd d" "d < 256" "b \<noteq> 0x10"
  shows "tsip_feed e b (tsip_at e k d) g = Inr (FEED_CONTINUE, tsip_at e (k + 1) d, filled [b] k g)"
proof -
  have "(of_nat d :: u8) \<noteq> 0"
    using parity_of_nat(1) [OF assms(5)] assms(4) by auto
  with assms parity_of_nat(1) [OF assms(5)] show ?thesis by (simp add: steady_feed tsip_store_at)
qed

lemma tsip_feed_dle_odd:
  assumes "env_tick e 4 = env_tick e 5" "k < 128" "pbuf_ok g" "odd d" "d < 255"
  shows "tsip_feed e 0x10 (tsip_at e k d) g = Inr (FEED_CONTINUE, tsip_at e (k + 1) (d + 1), filled [0x10] k g)"
proof -
  have p: "\<not> (of_nat (d + 1) :: u8) mod 2 = 1" using assms(4,5) by (subst parity_of_nat) simp_all
  have n: "(tsip_at e k d)\<lparr>t_dle_count := of_nat d + 1\<rparr> = tsip_at e k (d + 1)"
    by (simp add: tsip_at_def add.commute)
  from p have "\<not> (of_nat d + 1 :: u8) mod 2 = 1" "\<not> (1 + of_nat d :: u8) mod 2 = 1"
    by (simp_all add: add.commute)
  with n assms show ?thesis by (simp add: steady_feed tsip_store_at Let_def)
qed

lemma tsip_feed_dle_even:
  assumes "env_tick e 4 = env_tick e 5" "even d" "0 < d" "d < 255"
  shows "tsip_feed e 0x10 (tsip_at e k d) g = Inr (FEED_CONTINUE, tsip_at e k (d + 1), g)"
proof -
  have "(of_nat (d + 1) :: u8) mod 2 = 1" using assms by (subst parity_of_nat) simp_all
  moreover have "(2 :: u8) < of_nat (d + 1)"
  proof -
    have "2 < d + 1" using assms(2,3) by presburger
    then show ?thesis using assms(4) by (simp only: word_less_nat_alt unsigned_of_nat) (simp add: take_bit_nat_eq_self)
  qed
  moreover have "(tsip_at e k d)\<lparr>t_dle_count := of_nat d + 1\<rparr> = tsip_at e k (d + 1)"
    by (simp add: tsip_at_def add.commute)
  ultimately show ?thesis using assms(1) by (simp add: steady_feed add.commute)
qed

lemma tsip_stuffed:
  assumes "env_tick e 4 = env_tick e 5"
  shows "pbuf_ok g \<Longrightarrow> 0 < k \<Longrightarrow> k + length p \<le> 128 \<Longrightarrow> odd d \<Longrightarrow> d \<le> 2 * k - 1 \<Longrightarrow>
   \<exists>d'. odd d' \<and> d' \<le> 2 * (k + length p) - 1 \<and>
     feeds tsip_feed e (stuff p) (tsip_at e k d) g =
       Inr (replicate (length (stuff p)) FEED_CONTINUE, tsip_at e (k + length p) d', filled p k g)"
proof (induction p arbitrary: k d g)
  case Nil
  have "filled [] k g = g" by (simp add: filled_def)
  then show ?case using Nil by auto
next
  case (Cons b p)
  define j where "j = (if b = 0x10 then d + 2 else d)"
  let ?g = "filled [b] k g"
  have ok: "pbuf_ok ?g" using Cons.prems by (intro pbuf_ok_filled) simp_all
  have fl: "filled p (k + 1) ?g = filled (b # p) k g"
    using filled_append [of k "[b]" p g] Cons.prems by (simp add: pbuf_ok_def)
  have "odd j" "j \<le> 2 * (k + 1) - 1" using Cons.prems by (auto simp: j_def)
  then obtain d' where d': "odd d'" "d' \<le> 2 * (k + 1 + length p) - 1"
    "feeds tsip_feed e (stuff p) (tsip_at e (k + 1) j) ?g =
       Inr (replicate (length (stuff p)) FEED_CONTINUE, tsip_at e (k + 1 + length p) d', filled p (k + 1) ?g)"
    using Cons.IH [OF ok, of "k + 1" j] Cons.prems by auto
  have "feeds tsip_feed e (stuff (b # p)) (tsip_at e k d) g =
      Inr (replicate (length (stuff (b # p))) FEED_CONTINUE, tsip_at e (k + 1 + length p) d', filled (b # p) k g)"
  proof (cases "b = 0x10")
    case True
    have "tsip_feed e 0x10 (tsip_at e k d) g = Inr (FEED_CONTINUE, tsip_at e (k + 1) (d + 1), ?g)"
      using True Cons.prems assms by (simp add: tsip_feed_dle_odd)
    moreover have "tsip_feed e 0x10 (tsip_at e (k + 1) (d + 1)) ?g = Inr (FEED_CONTINUE, tsip_at e (k + 1) (d + 2), ?g)"
      using Cons.prems assms tsip_feed_dle_even [of e "d + 1" "k + 1" ?g] by simp
    ultimately show ?thesis using d'(3) True fl by (simp add: j_def)
  next
    case False
    have "tsip_feed e b (tsip_at e k d) g = Inr (FEED_CONTINUE, tsip_at e (k + 1) d, ?g)"
      using False Cons.prems assms by (intro tsip_feed_data) simp_all
    then show ?thesis using d'(3) False fl by (simp add: j_def)
  qed
  with d'(1,2) show ?case by (intro exI [of _ d']) simp
qed

text \<open>
DLE stuffing is undone: for every payload of up to 125 bytes, DLE bytes included,
  the stuffed packet between DLE and DLE ETX, fed without a time-out from the idle state,
  asks for more at every byte but the last, and at the last hands \<open>tsip_end\<close> a buffer
  that holds DLE, the payload exactly as it was before stuffing, DLE and ETX.
\<close>

theorem tsip_packet:
  assumes "env_tick e 4 = env_tick e 5" "pbuf_ok g" "length p \<le> 125"
  shows "\<exists>t. t_count t = of_nat (length p + 3)
     \<and> feeds tsip_feed e (0x10 # stuff p @ [0x10, 0x03]) (tsip_at e 0 0) g =
        rbind (tsip_end t (filled (0x10 # p @ [0x10, 0x03]) 0 g)) (\<lambda>(rc, t, g).
        Inr (replicate (length (stuff p) + 2) FEED_CONTINUE @ [rc], t, g))"
proof -
  let ?n = "length p"
  have first: "tsip_feed e 0x10 (tsip_at e 0 0) g = Inr (FEED_CONTINUE, tsip_at e 1 1, filled [0x10] 0 g)"
    using tsip_store_at [of 0 g "0x10" e 1] assms by (simp add: steady_feed tsip_at_def steady_def)
  have ok1: "pbuf_ok (filled [0x10] 0 g)" using assms(2) by (intro pbuf_ok_filled) simp_all
  obtain d where d: "odd d" "d \<le> 2 * (1 + ?n) - 1"
    "feeds tsip_feed e (stuff p) (tsip_at e 1 1) (filled [0x10] 0 g) =
       Inr (replicate (length (stuff p)) FEED_CONTINUE, tsip_at e (1 + ?n) d, filled p 1 (filled [0x10] 0 g))"
    using tsip_stuffed [OF assms(1) ok1, of 1 p 1] assms(3) by auto
  have f1: "filled p 1 (filled [0x10] 0 g) = filled (0x10 # p) 0 g"
    using filled_append [of 0 "[0x10]" p g] assms by (simp add: pbuf_ok_def)
  have ok2: "pbuf_ok (filled (0x10 # p) 0 g)" using assms by (intro pbuf_ok_filled) simp_all
  have dle: "tsip_feed e 0x10 (tsip_at e (1 + ?n) d) (filled (0x10 # p) 0 g)
      = Inr (FEED_CONTINUE, tsip_at e (?n + 2) (d + 1), filled (0x10 # p @ [0x10]) 0 g)"
    using filled_append [of 0 "0x10 # p" "[0x10]" g] d assms ok2
      tsip_feed_dle_odd [of e "1 + ?n" "filled (0x10 # p) 0 g" d]
    by (simp add: pbuf_ok_def numeral_2_eq_2)
  have ok3: "pbuf_ok (filled (0x10 # p @ [0x10]) 0 g)" using assms by (intro pbuf_ok_filled) simp_all
  have ev: "(of_nat (d + 1) :: u8) mod 2 = 0" "(of_nat (d + 1) :: u8) \<noteq> 0"
  proof -
    show "(of_nat (d + 1) :: u8) mod 2 = 0" using d assms(3) by (subst parity_of_nat) simp_all
    show "(of_nat (d + 1) :: u8) \<noteq> 0"
      using d(2) assms(3) by (simp only: word_unat_eq_iff unsigned_of_nat) (simp add: take_bit_nat_eq_self)
  qed
  let ?g = "filled (0x10 # p @ [0x10, 0x03]) 0 g"
  have "filled [3] (?n + 2) (filled (0x10 # p @ [0x10]) 0 g) = ?g"
    using filled_append [of 0 "0x10 # p @ [0x10]" "[3]" g] assms by (simp add: pbuf_ok_def numeral_2_eq_2)
  then have etx: "tsip_feed e 3 (tsip_at e (?n + 2) (d + 1)) (filled (0x10 # p @ [0x10]) 0 g)
      = tsip_end (tsip_at e (?n + 3) (d + 1)) ?g"
    using ev assms ok3 tsip_store_at [of "?n + 2" "filled (0x10 # p @ [0x10]) 0 g" 3 e "d + 1"]
    by (simp add: steady_feed numeral_3_eq_3)
  have r: "replicate n x @ [x, y] = replicate (Suc n) x @ [y]" for n and x y :: u8
    by (simp add: replicate_append_same)
  have "feeds tsip_feed e (0x10 # stuff p @ [0x10, 0x03]) (tsip_at e 0 0) g =
      rbind (tsip_end (tsip_at e (?n + 3) (d + 1)) ?g) (\<lambda>(rc, t, g).
        Inr (replicate (length (stuff p) + 2) FEED_CONTINUE @ [rc], t, g))"
    using d(3) f1 dle etx
    by (cases "tsip_end (tsip_at e (?n + 3) (d + 1)) ?g") (auto simp: first feeds_append r)
  then show ?thesis by (intro exI [of _ "tsip_at e (?n + 3) (d + 1)"]) simp
qed

theorem tsip_packet_witness:
  "\<exists>t. t_count t = 7 \<and> feeds tsip_feed \<lparr>env_tick = (\<lambda>_. 9), env_flags = 0\<rparr>
       [0x10, 0x41, 0x10, 0x10, 0x03, 0x42, 0x10, 0x03] (tsip_at \<lparr>env_tick = (\<lambda>_. 9), env_flags = 0\<rparr> 0 0) gps0
     = rbind (tsip_end t (filled [0x10, 0x41, 0x10, 0x03, 0x42, 0x10, 0x03] 0 gps0)) (\<lambda>(rc, t, g).
        Inr ([FEED_CONTINUE, FEED_CONTINUE, FEED_CONTINUE, FEED_CONTINUE, FEED_CONTINUE, FEED_CONTINUE,
              FEED_CONTINUE, rc], t, g))"
proof -
  have g: "pbuf_ok gps0" by (simp add: gps0_def pbuf_ok_def)
  show ?thesis
    using tsip_packet [of "\<lparr>env_tick = (\<lambda>_. 9), env_flags = 0\<rparr>" gps0 "[0x41, 0x10, 0x03, 0x42]", OF _ g]
    unfolding stuff.simps by (simp del: feeds.simps)
qed

end
