(* ===== verification/Parse.thy ===== *)
theory Parse
  imports Prelude
begin

text \<open>
  Text parsing, \<open>src/lib/util/parse.c\<close>. A C string is a position in a byte buffer and
  runs up to the next zero byte; reading past the end of the buffer is a fault. The static
  variable \<open>last\<close> of \<open>strtok_s\<close> is threaded explicitly.
\<close>

definition is_digit :: "u8 \<Rightarrow> bool" where "is_digit c \<longleftrightarrow> 48 \<le> c \<and> c \<le> 57"

definition parse_hex :: "u8 \<Rightarrow> u8" where
  "parse_hex dat =
     (if 48 \<le> dat \<and> dat \<le> 57 then dat - 48
      else if 65 \<le> dat \<and> dat \<le> 70 then dat - 55
      else if 97 \<le> dat \<and> dat \<le> 102 then dat - 87
      else 0)"

definition atoi_2dig :: "u8 list \<Rightarrow> nat \<Rightarrow> u8 res" where
  "atoi_2dig buf i =
     rbind (rd ''str'' buf i) (\<lambda>c0.
     if \<not> is_digit c0 then Inr 0
     else rbind (rd ''str'' buf (i + 1)) (\<lambda>c1.
          if \<not> is_digit c1 then Inr 0
          else let ret = c1 - 48 in Inr (ret + (c0 - 48) * 10)))"

function atoi_decimal_loop :: "u8 list \<Rightarrow> nat \<Rightarrow> u32 \<Rightarrow> u32 res" where
  "atoi_decimal_loop buf i ret =
     (if i < length buf
      then let c = buf ! i in
           if c \<noteq> 0 \<and> c \<noteq> 46
           then if \<not> is_digit c then Inr 0
                else atoi_decimal_loop buf (i + 1) (ret * 10 + (ucast c - 48))
           else Inr ret
      else Inl (Oob ''str''))"
  by pat_completeness auto

termination atoi_decimal_loop
  by (relation "measure (\<lambda>(buf, i, ret). length buf - i)") auto

definition atoi_decimal :: "u8 list \<Rightarrow> nat \<Rightarrow> u32 res" where
  "atoi_decimal buf i = atoi_decimal_loop buf i 0"

function strtok_scan :: "u8 \<Rightarrow> nat \<Rightarrow> u8 list \<Rightarrow> nat \<Rightarrow> (nat option \<times> u8 list \<times> nat option) res" where
  "strtok_scan delim start buf i =
     (if i < length buf
      then if buf ! i \<noteq> 0
           then if buf ! i = delim then Inr (Some start, buf[i := 0], Some (i + 1))
                else strtok_scan delim start buf (i + 1)
           else Inr (Some start, buf, None)
      else Inl (Oob ''str''))"
  by pat_completeness auto

termination strtok_scan
  by (relation "measure (\<lambda>(d, s, buf, i). length buf - i)") auto

declare atoi_decimal_loop.simps [simp del] strtok_scan.simps [simp del]

text \<open>The result is the returned pointer, the buffer and the new value of \<open>last\<close>.\<close>

definition strtok_s ::
  "nat option \<Rightarrow> u8 \<Rightarrow> u8 list \<Rightarrow> nat option \<Rightarrow> (nat option \<times> u8 list \<times> nat option) res" where
  "strtok_s str delim buf last_p =
     (case str of
        Some s \<Rightarrow> strtok_scan delim s buf s
      | None \<Rightarrow> (case last_p of Some s \<Rightarrow> strtok_scan delim s buf s | None \<Rightarrow> Inr (None, buf, last_p)))"

function c_strlen :: "u8 list \<Rightarrow> nat \<Rightarrow> nat res" where
  "c_strlen buf i =
     (if i < length buf
      then if buf ! i = 0 then Inr 0 else rbind (c_strlen buf (i + 1)) (\<lambda>n. Inr (n + 1))
      else Inl (Oob ''str''))"
  by pat_completeness auto

termination c_strlen
  by (relation "measure (\<lambda>(buf, i). length buf - i)") auto

declare c_strlen.simps [simp del]

text \<open>\<open>strcmp (p, lit) == 0\<close> for a literal: it stops at the first difference.\<close>

fun c_streq :: "u8 list \<Rightarrow> nat \<Rightarrow> u8 list \<Rightarrow> bool res" where
  "c_streq buf i [] = rbind (rd ''str'' buf i) (\<lambda>c. Inr (c = 0))"
| "c_streq buf i (x # xs) =
     rbind (rd ''str'' buf i) (\<lambda>c. if c = x then c_streq buf (i + 1) xs else Inr False)"

definition ascii :: "string \<Rightarrow> u8 list" where
  "ascii s = map (\<lambda>c. of_nat (of_char c)) s"

section \<open>C strings in a buffer\<close>

definition cstr :: "u8 list \<Rightarrow> nat \<Rightarrow> u8 list" where
  "cstr buf i = takeWhile (\<lambda>c. c \<noteq> 0) (drop i buf)"

definition terminated :: "u8 list \<Rightarrow> nat \<Rightarrow> bool" where
  "terminated buf i \<longleftrightarrow> (\<exists>k. i \<le> k \<and> k < length buf \<and> buf ! k = 0)"

lemma terminated_less: "terminated buf i \<Longrightarrow> i < length buf"
  by (auto simp: terminated_def)

lemma terminated_step: "terminated buf i \<Longrightarrow> buf ! i \<noteq> 0 \<Longrightarrow> terminated buf (i + 1)"
  unfolding terminated_def by (metis Suc_eq_plus1 Suc_leI le_neq_implies_less)

lemma terminated_antimono: "terminated buf j \<Longrightarrow> i \<le> j \<Longrightarrow> terminated buf i"
  by (auto simp: terminated_def intro: order_trans)

lemma terminated_update: "terminated buf i \<Longrightarrow> terminated (buf[k := 0]) i"
proof -
  assume "terminated buf i"
  then obtain j where "i \<le> j" "j < length buf" "buf ! j = 0" by (auto simp: terminated_def)
  then show ?thesis unfolding terminated_def
    by (intro exI [of _ j]) (cases "k = j", simp_all)
qed

lemma cstr_unfold:
  "i < length buf \<Longrightarrow> cstr buf i = (if buf ! i = 0 then [] else buf ! i # cstr buf (i + 1))"
  by (simp add: cstr_def Cons_nth_drop_Suc [symmetric])

lemma c_strlen_eq: "terminated buf i \<Longrightarrow> c_strlen buf i = Inr (length (cstr buf i))"
proof (induction buf i rule: c_strlen.induct)
  case (1 buf i)
  note i = terminated_less [OF 1(2)]
  show ?case
  proof (cases "buf ! i = 0")
    case True
    then show ?thesis using i by (subst c_strlen.simps) (simp add: cstr_unfold)
  next
    case False
    have "c_strlen buf (i + 1) = Inr (length (cstr buf (i + 1)))"
      using 1(1) [OF i False] terminated_step [OF 1(2) False] by simp
    then show ?thesis using i False
      by (subst c_strlen.simps) (simp add: cstr_unfold [OF i])
  qed
qed

lemma c_streq_eq:
  assumes "0 \<notin> set lit"
  shows "terminated buf i \<Longrightarrow> c_streq buf i lit = Inr (cstr buf i = lit)"
  using assms
proof (induction lit arbitrary: i)
  case Nil
  then show ?case using terminated_less [of buf i] by (simp add: rd_in cstr_unfold)
next
  case (Cons x xs)
  note i = terminated_less [OF Cons.prems(1)]
  show ?case
  proof (cases "buf ! i = x")
    case True
    then have "buf ! i \<noteq> 0" using Cons.prems(2) by auto
    then show ?thesis
      using True i Cons.IH [of "i + 1"] Cons.prems terminated_step
      by (simp add: rd_in cstr_unfold [OF i])
  next
    case False
    then show ?thesis using i by (simp add: rd_in cstr_unfold [OF i])
  qed
qed

definition token :: "u8 \<Rightarrow> u8 list \<Rightarrow> nat \<Rightarrow> u8 list" where
  "token delim buf i = takeWhile (\<lambda>c. c \<noteq> 0 \<and> c \<noteq> delim) (drop i buf)"

lemma token_unfold:
  "i < length buf \<Longrightarrow> token d buf i = (if buf ! i = 0 \<or> buf ! i = d then [] else buf ! i # token d buf (i + 1))"
  by (simp add: token_def Cons_nth_drop_Suc [symmetric])

lemma strtok_scan_eq:
  "terminated buf i \<Longrightarrow>
   (let k = i + length (token d buf i) in
    k < length buf \<and>
    (buf ! k = 0 \<and> strtok_scan d s buf i = Inr (Some s, buf, None)
     \<or> buf ! k = d \<and> buf ! k \<noteq> 0 \<and> terminated buf (k + 1)
       \<and> strtok_scan d s buf i = Inr (Some s, buf[k := 0], Some (k + 1))))"
proof (induction d s buf i rule: strtok_scan.induct)
  case (1 d s buf i)
  note i = terminated_less [OF 1(2)]
  consider (nul) "buf ! i = 0" | (dl) "buf ! i = d" "buf ! i \<noteq> 0" | (go) "buf ! i \<noteq> d" "buf ! i \<noteq> 0" by blast
  then show ?case
  proof cases
    case nul
    then show ?thesis using i by (simp add: strtok_scan.simps token_unfold)
  next
    case dl
    then show ?thesis using i terminated_step [OF 1(2)]
      by (simp add: strtok_scan.simps [of d s buf i] token_unfold)
  next
    case go
    have u: "strtok_scan d s buf i = strtok_scan d s buf (i + 1)"
      using i go by (simp add: strtok_scan.simps [of d s buf i])
    have t: "i + length (token d buf i) = (i + 1) + length (token d buf (i + 1))"
      using i go by (simp add: token_unfold [OF i])
    from 1(1) [OF i go(2,1) terminated_step [OF 1(2) go(2)]]
    show ?thesis unfolding Let_def u t .
  qed
qed

text \<open>What a client needs of one call: no fault, and every pointer stays a C string.\<close>

lemma strtok_s_safe:
  assumes "\<forall>p. str = Some p \<longrightarrow> terminated buf p" "\<forall>p. last_p = Some p \<longrightarrow> terminated buf p"
  shows "\<exists>q buf' last'. strtok_s str d buf last_p = Inr (q, buf', last')
    \<and> length buf' = length buf \<and> (\<forall>p. q = Some p \<longrightarrow> terminated buf' p)
    \<and> (\<forall>p. last' = Some p \<longrightarrow> terminated buf' p)"
proof (cases "case str of Some p \<Rightarrow> Some p | None \<Rightarrow> last_p")
  case None
  then show ?thesis by (simp add: strtok_s_def split: option.splits)
next
  case (Some p)
  have e: "strtok_s str d buf last_p = strtok_scan d p buf p"
    using Some by (simp add: strtok_s_def split: option.splits)
  have t: "terminated buf p" using Some assms by (auto split: option.splits)
  from strtok_scan_eq [OF t, of d p] t show ?thesis
    by (auto simp: Let_def e intro: terminated_update)
qed

lemma two_digits: "unat a \<le> 9 \<Longrightarrow> unat b \<le> 9 \<Longrightarrow> unat (b + a * 10 :: u8) \<le> 99"
  by (simp add: unat_word_ariths)

lemma atoi_2dig_safe:
  assumes "c_strlen buf i = Inr n" "j + 1 < n" "terminated buf i"
  shows "\<exists>v. atoi_2dig buf (i + j) = Inr v \<and> unat v \<le> 99"
proof -
  have "n = length (cstr buf i)" using assms(1,3) c_strlen_eq by simp
  also have "\<dots> \<le> length buf - i" by (simp add: cstr_def length_takeWhile_le [THEN order_trans])
  finally have l: "i + j + 1 < length buf" using assms(2) by linarith
  have d: "\<exists>v. (c1 - 48) + (c0 - 48) * 10 = (v::u8) \<and> unat v \<le> 99" if "is_digit c0" "is_digit c1" for c0 c1
  proof -
    have "unat (c0 - 48) \<le> 9" "unat (c1 - 48) \<le> 9"
      using that by (simp_all add: is_digit_def unat_sub word_le_nat_alt, linarith+)
    then have "unat (c1 - 48 + (c0 - 48) * 10) \<le> 99" by (rule two_digits)
    then show ?thesis by blast
  qed
  show ?thesis using l d by (auto simp: atoi_2dig_def rd_in Let_def)
qed

lemma atoi_decimal_safe: "terminated buf i \<Longrightarrow> \<exists>v. atoi_decimal_loop buf i r = Inr v"
proof (induction buf i r rule: atoi_decimal_loop.induct)
  case (1 buf i r)
  note i = terminated_less [OF 1(2)]
  then show ?case using 1(1) [OF i refl] terminated_step [OF 1(2)]
    by (subst atoi_decimal_loop.simps) (auto simp: Let_def)
qed

text \<open>
  A number written in decimal digits and ended by a period or the end of the string is
  read back, modulo the width of the result.
\<close>

definition decimal_value :: "u8 list \<Rightarrow> nat" where
  "decimal_value ds = foldl (\<lambda>v c. v * 10 + (unat c - 48)) 0 ds"

lemma atoi_decimal_loop_eq:
  "drop i buf = ds @ c # rest \<Longrightarrow> list_all is_digit ds \<Longrightarrow> c = 0 \<or> c = 46 \<Longrightarrow>
   atoi_decimal_loop buf i (of_nat v) = Inr (of_nat (foldl (\<lambda>v c. v * 10 + (unat c - 48)) v ds))"
proof (induction ds arbitrary: i v)
  case Nil
  then have "i < length buf" "buf ! i = c"
    by (metis append_Nil drop_all list.distinct(1) not_le) (metis Nil.prems(1) append_Nil nth_via_drop)
  with Nil.prems(3) show ?case by (subst atoi_decimal_loop.simps) auto
next
  case (Cons d ds)
  have i: "i < length buf" "buf ! i = d"
    by (metis Cons.prems(1) append_Cons drop_all list.distinct(1) not_le)
       (metis Cons.prems(1) append_Cons nth_via_drop)
  have "drop (i + 1) buf = ds @ c # rest" using Cons.prems(1)
    by (metis Suc_eq_plus1 append_Cons drop_Suc list.sel(3) tl_drop)
  note IH = Cons.IH [OF this _ Cons.prems(3)]
  have d: "is_digit d" "d \<noteq> 0" "d \<noteq> 46" using Cons.prems(2) by (auto simp: is_digit_def)
  then have "ucast d - 48 = (of_nat (unat d - 48) :: u32)"
    by (simp add: is_digit_def word_le_nat_alt of_nat_diff)
  then have "of_nat v * 10 + (ucast d - 48) = (of_nat (v * 10 + (unat d - 48)) :: u32)"
    by simp
  then show ?case using i d IH [of "v * 10 + (unat d - 48)"] Cons.prems(2)
    by (subst atoi_decimal_loop.simps) simp
qed

text \<open>
  Decimal fields are read exactly: for a field of decimal digits ended by a period or
  by the end of the string, \<open>atoi_decimal\<close> returns its value modulo \<open>2 ^ 32\<close>.
\<close>

theorem atoi_decimal_value:
  assumes "drop i buf = ds @ c # rest" "list_all is_digit ds" "c = 0 \<or> c = 46"
  shows "atoi_decimal buf i = Inr (of_nat (decimal_value ds))"
  using atoi_decimal_loop_eq [OF assms, of 0] by (simp add: atoi_decimal_def decimal_value_def)

theorem atoi_decimal_value_witness:
  "atoi_decimal (ascii ''2014.5'' @ [0]) 0 = Inr 2014"
  using atoi_decimal_value [of 0 "ascii ''2014.5'' @ [0]" "ascii ''2014''" 46 "ascii ''5'' @ [0]"]
  by (simp add: ascii_def is_digit_def decimal_value_def)

lemma takeWhile_upto: "d \<notin> set f \<Longrightarrow> takeWhile (\<lambda>c. c \<noteq> d) (f @ d # r) = f"
  by (induction f) auto

lemma token_decomp:
  assumes "terminated buf i" "k = i + length (token d buf i)"
  shows "k < length buf" "drop i buf = token d buf i @ buf ! k # drop (k + 1) buf"
    "cstr buf i = token d buf i @ (if buf ! k = 0 then [] else buf ! k # cstr buf (k + 1))"
    "0 \<notin> set (token d buf i)" "d \<notin> set (token d buf i)"
proof -
  let ?t = "token d buf i"
  show k: "k < length buf" using strtok_scan_eq [OF assms(1), of d i] by (simp add: assms(2) Let_def)
  show t: "0 \<notin> set ?t" "d \<notin> set ?t" unfolding token_def by (auto dest: set_takeWhileD)
  have "take (length ?t) (drop i buf) = ?t" unfolding token_def by (metis takeWhile_eq_take)
  then show D: "drop i buf = ?t @ buf ! k # drop (k + 1) buf"
    using k append_take_drop_id [of "length ?t" "drop i buf"]
    by (simp add: assms(2) Cons_nth_drop_Suc add.commute)
  show "cstr buf i = ?t @ (if buf ! k = 0 then [] else buf ! k # cstr buf (k + 1))"
    unfolding cstr_def D using t by (auto simp: takeWhile_append)
qed

lemma cstr_cut:
  assumes "terminated buf i" "k = i + length (token d buf i)"
  shows "cstr (buf[k := 0]) i = token d buf i"
proof -
  note td = token_decomp [OF assms]
  have "drop i (buf[k := 0]) = token d buf i @ 0 # drop (k + 1) buf"
    using td(1,2) assms(2) by (simp add: drop_update_swap list_update_append)
  then show ?thesis unfolding cstr_def using td(4) by (auto simp: takeWhile_append)
qed

lemma strtok_cut:
  assumes "terminated buf i" "cstr buf i = f @ d # r" "d \<notin> set f" "d \<noteq> 0" "k = i + length f"
  shows "strtok_scan d i buf i = Inr (Some i, buf[k := 0], Some (k + 1))"
    "cstr (buf[k := 0]) i = f" "cstr (buf[k := 0]) (k + 1) = r"
    "terminated (buf[k := 0]) i" "terminated (buf[k := 0]) (k + 1)"
proof -
  let ?t = "token d buf i"
  have t: "?t = f"
  proof -
    note td = token_decomp [OF assms(1) refl, of d]
    have "takeWhile (\<lambda>c. c \<noteq> d) (f @ d # r) = f" using assms(3) by (rule takeWhile_upto)
    moreover have "takeWhile (\<lambda>c. c \<noteq> d) (cstr buf i) = ?t"
    proof -
      have "\<forall>x\<in>set ?t. x \<noteq> d" using td(5) by auto
      moreover have "buf ! (i + length ?t) = 0 \<or> buf ! (i + length ?t) = d"
        using strtok_scan_eq [OF assms(1), of d i] by (auto simp: Let_def)
      ultimately show ?thesis using td(3) by (auto simp: takeWhile_append2)
    qed
    ultimately show ?thesis using assms(2) by simp
  qed
  have k: "k = i + length ?t" using t assms(5) by simp
  note td = token_decomp [OF assms(1) k]
  have "buf ! k \<noteq> 0" using td(3) t assms(2) by auto
  with strtok_scan_eq [OF assms(1), of d i] k
  have res: "strtok_scan d i buf i = Inr (Some i, buf[k := 0], Some (k + 1))" "terminated buf (k + 1)"
    by (auto simp: Let_def)
  then show "strtok_scan d i buf i = Inr (Some i, buf[k := 0], Some (k + 1))" by simp
  show "cstr (buf[k := 0]) i = f" using cstr_cut [OF assms(1) k] t by simp
  have "cstr buf (k + 1) = r" using td(3) t assms(2) \<open>buf ! k \<noteq> 0\<close> by simp
  then show "cstr (buf[k := 0]) (k + 1) = r" by (simp add: cstr_def)
  show "terminated (buf[k := 0]) i" "terminated (buf[k := 0]) (k + 1)"
    using assms(1) res(2) by (simp_all add: terminated_update)
qed

lemma strtok_last:
  assumes "terminated buf i" "d \<notin> set (cstr buf i)" "d \<noteq> 0"
  shows "strtok_scan d i buf i = Inr (Some i, buf, None)"
  using strtok_scan_eq [OF assms(1), of d i] token_decomp(3) [OF assms(1) refl, of d] assms(2,3)
  by (auto simp: Let_def split: if_splits)

text \<open>
  \<open>strtok_s\<close> cuts a string at its first delimiter: on a string that starts at \<open>i\<close>
  it returns \<open>i\<close>; the string found there afterwards is the part before the first
  delimiter, the rest of the buffer after that is unchanged, and the next call continues
  right behind the delimiter, or reports the end when there was none.
\<close>

theorem strtok_s_cuts:
  assumes "terminated buf i" "d \<noteq> 0"
  shows "\<exists>buf' last'. strtok_s (Some i) d buf last_p = Inr (Some i, buf', last')
     \<and> cstr buf' i = takeWhile (\<lambda>c. c \<noteq> d) (cstr buf i)
     \<and> (d \<notin> set (cstr buf i) \<and> buf' = buf \<and> last' = None
        \<or> (\<exists>k. last' = Some k \<and> drop k buf' = drop k buf
             \<and> cstr buf i = cstr buf' i @ d # cstr buf k))"
proof -
  have e: "strtok_s (Some i) d buf last_p = strtok_scan d i buf i" by (simp add: strtok_s_def)
  show ?thesis
  proof (cases "d \<in> set (cstr buf i)")
    case True
    then obtain f r where f: "cstr buf i = f @ d # r" "d \<notin> set f" by (meson split_list_first)
    note cut = strtok_cut [OF assms(1) f assms(2) refl]
    have "takeWhile (\<lambda>c. c \<noteq> d) (cstr buf i) = f" using f by (simp add: takeWhile_upto)
    moreover have "cstr buf (i + length f + 1) = r"
      using cut(3) by (simp add: cstr_def)
    ultimately show ?thesis using cut f by (intro exI) (auto simp: e)
  next
    case False
    then have "takeWhile (\<lambda>c. c \<noteq> d) (cstr buf i) = cstr buf i" by (subst takeWhile_eq_all_conv) auto
    then show ?thesis using strtok_last [OF assms(1) False assms(2)] False
      by (intro exI [of _ buf] exI [of _ None] conjI) (simp_all only: e, simp)
  qed
qed

theorem strtok_s_cuts_witness:
  "\<exists>buf' last'. strtok_s (Some 0) 44 (ascii ''GP,12'' @ [0]) None = Inr (Some 0, buf', last')
     \<and> cstr buf' 0 = ascii ''GP''"
proof -
  have "terminated (ascii ''GP,12'' @ [0]) 0"
    unfolding terminated_def by (intro exI [of _ 5]) (simp add: ascii_def)
  from strtok_s_cuts [OF this, of 44 None] show ?thesis by (auto simp: ascii_def cstr_def)
qed

end
