(* ===== verification/Nmea.thy ===== *)
theory Nmea
  imports Gps Parse
begin

text \<open>
  The NMEA 0183 parser, \<open>src/src/gps/nmea.c\<close>. A sentence is collected in \<open>pbuf\<close>, checked
  and cut into fields in place with \<open>strtok_s\<close>, whose static pointer is \<open>tok_last\<close>; the
  three supported sentences set the clock. \<open>next_field\<close> is the recurring statement that
  fetches a field or returns.
\<close>

section \<open>State\<close>

datatype nstate_e = N_WAITING | N_COPYING | N_CHECKSUM1 | N_CHECKSUM2

definition stype_NONE :: nat where "stype_NONE = 0"
definition stype_GPRMC :: nat where "stype_GPRMC = 1"
definition stype_PGRMF :: nat where "stype_PGRMF = 2"
definition stype_GPZDA :: nat where "stype_GPZDA = 3"

record nmea =
  n_state :: nstate_e
  n_count :: u8
  n_cksum :: u8
  seen_type :: nat
  seen_time :: u32
  tok_last :: "nat option"

definition nmea0 :: nmea where
  "nmea0 = \<lparr>n_state = N_WAITING, n_count = 0, n_cksum = 0, seen_type = 0, seen_time = 0, tok_last = None\<rparr>"

section \<open>Sentences\<close>

definition use_sentence :: "feed_env \<Rightarrow> nat \<Rightarrow> nmea \<Rightarrow> bool \<times> nmea" where
  "use_sentence e type n =
     (if type < seen_type n \<and> env_tick e 6 - seen_time n < PARSER_TIMEOUT then (False, n)
      else (True, n\<lparr>seen_type := type, seen_time := env_tick e 7\<rparr>))"

type_synonym nmea_result = "(u8 \<times> nmea \<times> gps) res"

definition next_field :: "(nat \<Rightarrow> nmea \<Rightarrow> gps \<Rightarrow> nmea_result) \<Rightarrow> nmea \<Rightarrow> gps \<Rightarrow> nmea_result" where
  "next_field k n g =
     rbind (strtok_s None 44 (pbuf g) (tok_last n)) (\<lambda>(p, buf, l).
     let n = n\<lparr>tok_last := l\<rparr>; g = g\<lparr>pbuf := buf\<rparr> in
     case p of None \<Rightarrow> Inr (FEED_COMPLETE, n, g) | Some ptr \<Rightarrow> k ptr n g)"

text \<open>A field of three two-digit numbers, or return when it is shorter than six characters.\<close>

definition three_2dig :: "nat \<Rightarrow> (u8 \<Rightarrow> u8 \<Rightarrow> u8 \<Rightarrow> nmea \<Rightarrow> gps \<Rightarrow> nmea_result) \<Rightarrow> nmea \<Rightarrow> gps \<Rightarrow> nmea_result" where
  "three_2dig ptr k n g =
     rbind (c_strlen (pbuf g) ptr) (\<lambda>l.
     if l < 6 then Inr (FEED_COMPLETE, n, g)
     else rbind (atoi_2dig (pbuf g) (ptr + 0)) (\<lambda>x.
          rbind (atoi_2dig (pbuf g) (ptr + 2)) (\<lambda>y.
          rbind (atoi_2dig (pbuf g) (ptr + 4)) (\<lambda>z. k x y z n g))))"

definition nmea_set_utc :: "u16 \<Rightarrow> u8 \<Rightarrow> u8 \<Rightarrow> u8 \<Rightarrow> u8 \<Rightarrow> u8 \<Rightarrow> nmea \<Rightarrow> gps \<Rightarrow> nmea_result" where
  "nmea_set_utc year month day hour minute second n g =
     rbind (gps_set_utc year month day hour minute second g) (\<lambda>g. Inr (FEED_COMPLETE, n, g))"

definition nmea_gpzda :: "nmea \<Rightarrow> gps \<Rightarrow> nmea_result" where
  "nmea_gpzda =
     next_field (\<lambda>ptr. three_2dig ptr (\<lambda>hour minute second.
     next_field (\<lambda>ptr n g. rbind (atoi_decimal (pbuf g) ptr) (\<lambda>day.
     next_field (\<lambda>ptr n g. rbind (atoi_decimal (pbuf g) ptr) (\<lambda>month.
     next_field (\<lambda>ptr n g. rbind (atoi_decimal (pbuf g) ptr) (\<lambda>year.
     nmea_set_utc (ucast year) (ucast month) (ucast day) hour minute second n g)) n g)) n g))))"

definition full_year :: "u8 \<Rightarrow> u16" where
  "full_year y = (if y \<ge> 13 then ucast y + 2000 else ucast y + 2100)"

definition nmea_gprmc :: "nmea \<Rightarrow> gps \<Rightarrow> nmea_result" where
  "nmea_gprmc =
     next_field (\<lambda>ptr. three_2dig ptr (\<lambda>hour minute second.
     next_field (\<lambda>_. next_field (\<lambda>_. next_field (\<lambda>_. next_field (\<lambda>_.
     next_field (\<lambda>_. next_field (\<lambda>_. next_field (\<lambda>_.
     next_field (\<lambda>ptr. three_2dig ptr (\<lambda>day month year.
     nmea_set_utc (full_year year) month day hour minute second))))))))))) "

definition nmea_pgrmf :: "nmea \<Rightarrow> gps \<Rightarrow> nmea_result" where
  "nmea_pgrmf =
     next_field (\<lambda>_. next_field (\<lambda>_.
     next_field (\<lambda>ptr. three_2dig ptr (\<lambda>day month year.
     next_field (\<lambda>ptr. three_2dig ptr (\<lambda>hour minute second.
     nmea_set_utc (full_year year) month day hour minute second))))))"

definition nmea_sentence :: "feed_env \<Rightarrow> nmea \<Rightarrow> gps \<Rightarrow> nmea_result" where
  "nmea_sentence e n g =
     rbind (wr ''pbuf'' (pbuf g) (unat (n_count n)) 0) (\<lambda>buf.
     let g = g\<lparr>pbuf := buf\<rparr> in
     rbind (strtok_s (Some 0) 44 (pbuf g) (tok_last n)) (\<lambda>(p, buf, l).
     let n = n\<lparr>tok_last := l\<rparr>; g = g\<lparr>pbuf := buf\<rparr> in
     case p of None \<Rightarrow> Inr (FEED_COMPLETE, n, g) | Some ptr \<Rightarrow>
     rbind (c_streq (pbuf g) ptr (ascii ''GPZDA'')) (\<lambda>is_zda.
     let (use_zda, n) = (if is_zda then use_sentence e stype_GPZDA n else (False, n)) in
     if use_zda then nmea_gpzda n g
     else rbind (c_streq (pbuf g) ptr (ascii ''GPRMC'')) (\<lambda>is_rmc.
     let (use_rmc, n) = (if is_rmc then use_sentence e stype_GPRMC n else (False, n)) in
     if use_rmc then nmea_gprmc n g
     else rbind (c_streq (pbuf g) ptr (ascii ''PGRMF'')) (\<lambda>is_rmf.
     let (use_rmf, n) = (if is_rmf then use_sentence e stype_PGRMF n else (False, n)) in
     if use_rmf then nmea_pgrmf n g
     else Inr (FEED_COMPLETE, n, g))))))"

section \<open>Parser\<close>

definition nmea_feed :: "feed_env \<Rightarrow> u8 \<Rightarrow> nmea \<Rightarrow> gps \<Rightarrow> nmea_result" where
  "nmea_feed e val n g =
     (if val = 36
      then Inr (FEED_CONTINUE, n\<lparr>n_state := N_COPYING, n_count := 0, n_cksum := 0\<rparr>, g)
      else case n_state n of
        N_WAITING \<Rightarrow> Inr (FEED_UNKNOWN, n, g)
      | N_COPYING \<Rightarrow>
          if val = 42 then Inr (FEED_CONTINUE, n\<lparr>n_state := N_CHECKSUM1\<rparr>, g)
          else if val = 13 \<or> val = 10 then nmea_sentence e n g
          else if unat (n_count n) \<ge> PBUF_SIZE - 1 then Inr (FEED_UNKNOWN, n\<lparr>n_state := N_WAITING\<rparr>, g)
          else rbind (wr ''pbuf'' (pbuf g) (unat (n_count n)) val) (\<lambda>buf.
               Inr (FEED_CONTINUE, n\<lparr>n_count := n_count n + 1, n_cksum := n_cksum n XOR val\<rparr>,
                    g\<lparr>pbuf := buf\<rparr>))
      | N_CHECKSUM1 \<Rightarrow>
          Inr (FEED_CONTINUE,
               n\<lparr>n_cksum := n_cksum n XOR push_bit 4 (parse_hex val), n_state := N_CHECKSUM2\<rparr>, g)
      | N_CHECKSUM2 \<Rightarrow>
          (let n = n\<lparr>n_cksum := n_cksum n XOR parse_hex val, n_state := N_WAITING\<rparr> in
           if n_cksum n \<noteq> 0 then Inr (FEED_UNKNOWN, n, g) else nmea_sentence e n g))"

section \<open>Safety\<close>

definition nmea_ok :: "nmea \<Rightarrow> bool" where "nmea_ok n \<longleftrightarrow> unat (n_count n) \<le> 127"

definition tok_ok :: "nmea \<Rightarrow> gps \<Rightarrow> bool" where
  "tok_ok n g \<longleftrightarrow> nmea_ok n \<and> pbuf_ok g \<and> (\<forall>p. tok_last n = Some p \<longrightarrow> terminated (pbuf g) p)"

definition k_safe :: "(nmea \<Rightarrow> gps \<Rightarrow> nmea_result) \<Rightarrow> bool" where
  "k_safe k \<longleftrightarrow> (\<forall>n g. tok_ok n g \<longrightarrow> feed_ok nmea_ok (k n g))"

definition p_safe :: "(nat \<Rightarrow> nmea \<Rightarrow> gps \<Rightarrow> nmea_result) \<Rightarrow> bool" where
  "p_safe k \<longleftrightarrow> (\<forall>p n g. tok_ok n g \<longrightarrow> terminated (pbuf g) p \<longrightarrow> feed_ok nmea_ok (k p n g))"

named_theorems nmea_safe \<open>safety of the statements of the sentence parsers\<close>

lemma p_safe_skip [nmea_safe]: "k_safe k \<Longrightarrow> p_safe (\<lambda>_. k)"
  by (simp add: k_safe_def p_safe_def)

lemma next_field_safe [nmea_safe]:
  assumes "p_safe k"
  shows "k_safe (next_field k)"
  unfolding k_safe_def
proof (intro allI impI)
  fix n g
  assume t: "tok_ok n g"
  then obtain q buf' l' where r: "strtok_s None 44 (pbuf g) (tok_last n) = Inr (q, buf', l')"
    "length buf' = length (pbuf g)" "\<forall>p. q = Some p \<longrightarrow> terminated buf' p" "\<forall>p. l' = Some p \<longrightarrow> terminated buf' p"
    using strtok_s_safe [of None "pbuf g" "tok_last n" 44] by (auto simp: tok_ok_def)
  have t': "tok_ok (n\<lparr>tok_last := l'\<rparr>) (g\<lparr>pbuf := buf'\<rparr>)"
    using t r by (simp add: tok_ok_def nmea_ok_def pbuf_ok_def)
  show "feed_ok nmea_ok (next_field k n g)"
  proof (cases q)
    case None
    then show ?thesis using r(1) t' by (simp add: next_field_def tok_ok_def)
  next
    case (Some p)
    then show ?thesis using r(1,3) t' assms by (simp add: next_field_def p_safe_def)
  qed
qed

lemma three_2dig_safe [nmea_safe]:
  assumes "\<And>x y z. k_safe (k x y z)"
  shows "p_safe (\<lambda>ptr. three_2dig ptr k)"
  unfolding p_safe_def
proof (intro allI impI)
  fix p n g
  assume t: "tok_ok n g" "terminated (pbuf g) p"
  note l = c_strlen_eq [OF t(2)]
  show "feed_ok nmea_ok (three_2dig p k n g)"
  proof (cases "length (cstr (pbuf g) p) < 6")
    case True
    then show ?thesis using t l by (simp add: three_2dig_def tok_ok_def)
  next
    case False
    then have "\<exists>v. atoi_2dig (pbuf g) (p + j) = Inr v" if "j \<le> 4" for j
      using atoi_2dig_safe [OF l _ t(2), of j] that by auto
    from this [of 0] this [of 2] this [of 4] obtain x y z where
      "atoi_2dig (pbuf g) p = Inr x" "atoi_2dig (pbuf g) (p + 2) = Inr y" "atoi_2dig (pbuf g) (p + 4) = Inr z"
      by auto
    then show ?thesis using False l t(1) assms by (simp add: three_2dig_def k_safe_def)
  qed
qed

lemma decimal_safe [nmea_safe]:
  assumes "\<And>x. k_safe (k x)"
  shows "p_safe (\<lambda>ptr n g. rbind (atoi_decimal (pbuf g) ptr) (\<lambda>x. k x n g))"
  unfolding p_safe_def
proof (intro allI impI)
  fix p n g
  assume t: "tok_ok n g" "terminated (pbuf g) p"
  obtain v where "atoi_decimal (pbuf g) p = Inr v" using atoi_decimal_safe [OF t(2)] by (auto simp: atoi_decimal_def)
  then show "feed_ok nmea_ok (rbind (atoi_decimal (pbuf g) p) (\<lambda>x. k x n g))"
    using t(1) assms by (simp add: k_safe_def)
qed

lemma nmea_set_utc_safe [nmea_safe]: "k_safe (nmea_set_utc y mo d h mi s)"
  unfolding k_safe_def nmea_set_utc_def tok_ok_def
  by (auto intro!: feed_ok_set_utc)

lemma nmea_gpzda_safe: "k_safe nmea_gpzda"
  and nmea_gprmc_safe: "k_safe nmea_gprmc"
  and nmea_pgrmf_safe: "k_safe nmea_pgrmf"
  unfolding nmea_gpzda_def nmea_gprmc_def nmea_pgrmf_def by (intro nmea_safe)+

lemma ascii_nonzero: "0 \<notin> set (ascii ''GPZDA'')" "0 \<notin> set (ascii ''GPRMC'')" "0 \<notin> set (ascii ''PGRMF'')"
  by (simp_all add: ascii_def)

lemma tok_ok_use_sentence: "tok_ok n g \<Longrightarrow> tok_ok (snd (use_sentence e ty n)) g"
  by (simp add: use_sentence_def tok_ok_def nmea_ok_def)

lemma nmea_sentence_safe:
  assumes "nmea_ok n" "pbuf_ok g"
  shows "feed_ok nmea_ok (nmea_sentence e n g)"
proof -
  let ?b = "(pbuf g)[unat (n_count n) := 0]"
  have l: "unat (n_count n) < length (pbuf g)" using assms by (simp add: nmea_ok_def pbuf_ok_def)
  have t0: "terminated ?b 0" unfolding terminated_def using l by (intro exI [of _ "unat (n_count n)"]) simp
  from strtok_scan_eq [OF t0, of 44 0] obtain buf' l' where
    s: "strtok_s (Some 0) 44 ?b (tok_last n) = Inr (Some 0, buf', l')" and
    b: "length buf' = length ?b" "terminated buf' 0" "\<And>p. l' = Some p \<Longrightarrow> terminated buf' p"
    using t0 by (auto simp: strtok_s_def Let_def terminated_update)
  let ?n = "n\<lparr>tok_last := l'\<rparr>" and ?g = "g\<lparr>pbuf := buf'\<rparr>"
  have t: "tok_ok ?n ?g" using assms b by (simp add: tok_ok_def nmea_ok_def pbuf_ok_def)
  have k: "feed_ok nmea_ok (k (snd (use_sentence e ty ?n)) ?g)" if "k_safe k" for k ty
    using that tok_ok_use_sentence [OF t] by (simp add: k_safe_def)
  have t1: "tok_ok (snd (use_sentence e ty (snd (use_sentence e tz ?n)))) ?g" "tok_ok (snd (use_sentence e ty ?n)) ?g"
    "tok_ok (snd (use_sentence e tx (snd (use_sentence e ty (snd (use_sentence e tz ?n)))))) ?g" for tx ty tz
    using tok_ok_use_sentence t by blast+
  note ks = nmea_gpzda_safe nmea_gprmc_safe nmea_pgrmf_safe
  have ok: "tok_ok m ?g \<Longrightarrow> feed_ok nmea_ok (nmea_gpzda m ?g) \<and> feed_ok nmea_ok (nmea_gprmc m ?g)
      \<and> feed_ok nmea_ok (nmea_pgrmf m ?g) \<and> feed_ok nmea_ok (Inr (FEED_COMPLETE, m, ?g))" for m
    using ks by (auto simp: k_safe_def tok_ok_def)
  have eq: "c_streq buf' 0 (ascii ''GPZDA'') = Inr (cstr buf' 0 = ascii ''GPZDA'')"
    "c_streq buf' 0 (ascii ''GPRMC'') = Inr (cstr buf' 0 = ascii ''GPRMC'')"
    "c_streq buf' 0 (ascii ''PGRMF'') = Inr (cstr buf' 0 = ascii ''PGRMF'')"
    using ascii_nonzero b(2) by (auto intro!: c_streq_eq)
  show ?thesis
    unfolding nmea_sentence_def
    using l s eq ok [OF t] ok [OF t1(2)] ok [OF t1(1)] ok [OF t1(3)]
    by (simp add: wr_in Let_def case_prod_beta)
qed

lemma nmea_feed_safe:
  assumes "nmea_ok n" "pbuf_ok g"
  shows "feed_ok nmea_ok (nmea_feed e b n g)"
proof (cases "n_state n")
  case N_COPYING
  have "unat (n_count n + 1) \<le> 127" if "\<not> 127 \<le> unat (n_count n)"
    using that by (simp add: unat_word_ariths)
  then show ?thesis using N_COPYING assms nmea_sentence_safe [OF assms, of e]
    by (auto simp: nmea_feed_def wr_def feed_defs nmea_ok_def pbuf_ok_def PBUF_SIZE_def)
next
  case N_CHECKSUM2
  have "nmea_ok (n\<lparr>n_cksum := c, n_state := s\<rparr>)" for c s using assms(1) by (simp add: nmea_ok_def)
  then show ?thesis using N_CHECKSUM2 assms(2) nmea_sentence_safe
    by (simp add: nmea_feed_def feed_defs Let_def nmea_ok_def)
qed (use assms in \<open>auto simp: nmea_feed_def feed_defs nmea_ok_def\<close>)

interpretation nme: feed_parser nmea_feed nmea_ok
  by unfold_locales (rule nmea_feed_safe)

section \<open>Whole sentences\<close>

definition plain :: "u8 list \<Rightarrow> bool" where
  "plain bs \<longleftrightarrow> list_all (\<lambda>b. b \<noteq> 36 \<and> b \<noteq> 42 \<and> b \<noteq> 13 \<and> b \<noteq> 10) bs"

lemma nmea_copying:
  "n_state n = N_COPYING \<Longrightarrow> n_count n = of_nat k \<Longrightarrow> k + length bs \<le> 127 \<Longrightarrow> plain bs \<Longrightarrow> pbuf_ok g \<Longrightarrow>
   feeds nmea_feed e bs n g = Inr (replicate (length bs) FEED_CONTINUE,
     n\<lparr>n_count := of_nat (k + length bs), n_cksum := foldl (XOR) (n_cksum n) bs\<rparr>, filled bs k g)"
proof (induction bs arbitrary: n g k)
  case Nil
  have "n = n\<lparr>n_count := of_nat k, n_cksum := n_cksum n\<rparr>" using Nil.prems(2) by simp
  then show ?case by (simp add: filled_def)
next
  case (Cons b bs)
  define m where "m = n\<lparr>n_count := n_count n + 1, n_cksum := n_cksum n XOR b\<rparr>"
  let ?g = "filled [b] k g"
  have k: "unat (n_count n) = k" using Cons.prems by (simp add: unsigned_of_nat take_bit_nat_eq_self)
  have "g\<lparr>pbuf := (pbuf g)[k := b]\<rparr> = ?g"
    using Cons.prems by (simp add: filled_def pbuf_ok_def upd_conv_take_nth_drop)
  then have f: "nmea_feed e b n g = Inr (FEED_CONTINUE, m, ?g)"
    using Cons.prems k by (simp add: nmea_feed_def plain_def PBUF_SIZE_def wr_in pbuf_ok_def m_def)
  have ok: "pbuf_ok ?g" using Cons.prems by (intro pbuf_ok_filled) simp_all
  have "n_state m = N_COPYING" "n_count m = of_nat (k + 1)" "k + 1 + length bs \<le> 127" "plain bs"
    using Cons.prems by (simp_all add: m_def plain_def)
  note Cons.IH [OF this ok]
  moreover have "filled bs (k + 1) ?g = filled (b # bs) k g"
    using filled_append [of k "[b]" bs g] Cons.prems by (simp add: pbuf_ok_def)
  ultimately show ?case using f by (simp add: m_def)
qed

lemma xor3_zero: "((c::u8) XOR a) XOR b = 0 \<longleftrightarrow> c = a XOR b"
  by (auto simp: bit_eq_iff bit_simps)

text \<open>
An NMEA sentence is taken only if its checksum is right: whatever state the parser
  is in, \<open>$\<close>, up to 127 plain characters, \<open>*\<close> and two hexadecimal digits ask for more at
  every character but the last; if the digits are the XOR of the characters, the last one
  hands the sentence in \<open>pbuf\<close> to the field parser, and otherwise it is rejected and the
  clock is untouched.
\<close>

theorem nmea_frame:
  assumes "plain bs" "length bs \<le> 127" "pbuf_ok g" "h \<noteq> 36" "l \<noteq> 36"
  shows "\<exists>m. n_count m = of_nat (length bs) \<and> n_state m = N_WAITING \<and> seen_type m = seen_type n
     \<and> feeds nmea_feed e (36 # bs @ [42, h, l]) n g =
        (if foldl (XOR) 0 bs = push_bit 4 (parse_hex h) XOR parse_hex l
         then rbind (nmea_sentence e m (filled bs 0 g)) (\<lambda>(rc, n, g).
              Inr (replicate (length bs + 3) FEED_CONTINUE @ [rc], n, g))
         else Inr (replicate (length bs + 3) FEED_CONTINUE @ [FEED_UNKNOWN], m, filled bs 0 g))"
proof -
  define n1 where "n1 = n\<lparr>n_state := N_COPYING, n_count := 0, n_cksum := 0\<rparr>"
  define n2 where "n2 = n1\<lparr>n_count := of_nat (length bs), n_cksum := foldl (XOR) 0 bs\<rparr>"
  define n4 where "n4 = n2\<lparr>n_cksum := foldl (XOR) 0 bs XOR push_bit 4 (parse_hex h), n_state := N_CHECKSUM2\<rparr>"
  define m where "m = n4\<lparr>n_cksum := n_cksum n4 XOR parse_hex l, n_state := N_WAITING\<rparr>"
  let ?g = "filled bs 0 g"
  have f1: "nmea_feed e 36 n g = Inr (FEED_CONTINUE, n1, g)" by (simp add: nmea_feed_def n1_def)
  have f2: "feeds nmea_feed e bs n1 g = Inr (replicate (length bs) FEED_CONTINUE, n2, ?g)"
    using nmea_copying [of n1 0 bs g e] assms by (simp add: n1_def n2_def)
  have f3: "nmea_feed e 42 n2 ?g = Inr (FEED_CONTINUE, n2\<lparr>n_state := N_CHECKSUM1\<rparr>, ?g)"
    by (simp add: nmea_feed_def n2_def n1_def)
  have f4: "nmea_feed e h (n2\<lparr>n_state := N_CHECKSUM1\<rparr>) ?g = Inr (FEED_CONTINUE, n4, ?g)"
    using assms(4) by (simp add: nmea_feed_def n4_def n2_def)
  have "n_cksum m = 0 \<longleftrightarrow> foldl (XOR) 0 bs = push_bit 4 (parse_hex h) XOR parse_hex l"
    by (simp add: m_def n4_def xor3_zero)
  then have f5: "nmea_feed e l n4 ?g =
      (if foldl (XOR) 0 bs = push_bit 4 (parse_hex h) XOR parse_hex l then nmea_sentence e m ?g
       else Inr (FEED_UNKNOWN, m, ?g))"
    using assms(5) by (simp add: nmea_feed_def n4_def m_def Let_def)
  have r: "FEED_CONTINUE # replicate k FEED_CONTINUE @ [FEED_CONTINUE, FEED_CONTINUE, x]
      = replicate (k + 3) FEED_CONTINUE @ [x]" for k x
    by (simp add: numeral_3_eq_3 replicate_app_Cons_same)
  have "feeds nmea_feed e (36 # bs @ [42, h, l]) n g =
        (if foldl (XOR) 0 bs = push_bit 4 (parse_hex h) XOR parse_hex l
         then rbind (nmea_sentence e m ?g) (\<lambda>(rc, n, g).
              Inr (replicate (length bs + 3) FEED_CONTINUE @ [rc], n, g))
         else Inr (replicate (length bs + 3) FEED_CONTINUE @ [FEED_UNKNOWN], m, ?g))"
    by (cases "nmea_sentence e m ?g")
      (auto simp: f1 f2 f3 f4 f5 feeds_append r simp del: replicate.simps)
  then show ?thesis by (intro exI [of _ m]) (simp add: m_def n4_def n2_def n1_def)
qed

lemma next_field_cut:
  assumes "tok_last n = Some i" "terminated (pbuf g) i" "cstr (pbuf g) i = f @ 44 # r" "44 \<notin> set f"
  obtains buf' where "next_field k n g = k i (n\<lparr>tok_last := Some (i + length f + 1)\<rparr>) (g\<lparr>pbuf := buf'\<rparr>)"
    "cstr buf' i = f" "terminated buf' i" "cstr buf' (i + length f + 1) = r"
    "terminated buf' (i + length f + 1)"
proof -
  note c = strtok_cut [OF assms(2-4) _ refl]
  show thesis
    by (rule that [of "(pbuf g)[i + length f := 0]"])
      (use c assms(1) in \<open>simp_all add: next_field_def strtok_s_def\<close>)
qed

lemma next_field_last:
  assumes "tok_last n = Some i" "terminated (pbuf g) i" "44 \<notin> set (cstr (pbuf g) i)"
  shows "next_field k n g = k i (n\<lparr>tok_last := None\<rparr>) g"
  using strtok_last [OF assms(2,3)] assms(1) by (simp add: next_field_def strtok_s_def)

lemma nth_cstr:
  assumes "terminated buf i" "j < length (cstr buf i)"
  shows "i + j < length buf" "buf ! (i + j) = cstr buf i ! j"
proof -
  have "length (cstr buf i) \<le> length buf - i" by (simp add: cstr_def length_takeWhile_le [THEN order_trans])
  with assms(2) show "i + j < length buf" by simp
  then show "buf ! (i + j) = cstr buf i ! j"
    using assms(2) by (simp add: cstr_def takeWhile_nth)
qed

definition two_dig :: "u8 list \<Rightarrow> nat \<Rightarrow> u8" where
  "two_dig ds j = (ds ! (j + 1) - 48) + (ds ! j - 48) * 10"

lemma atoi_2dig_eq:
  assumes "terminated buf i" "cstr buf i = ds" "j + 1 < length ds" "is_digit (ds ! j)" "is_digit (ds ! (j + 1))"
  shows "atoi_2dig buf (i + j) = Inr (two_dig ds j)"
  using nth_cstr [OF assms(1), of j] nth_cstr [OF assms(1), of "j + 1"] assms(2-5)
  by (simp add: atoi_2dig_def rd_in two_dig_def)

lemma three_2dig_eq:
  assumes "terminated (pbuf g) p" "cstr (pbuf g) p = ds" "6 \<le> length ds" "\<forall>j<6. is_digit (ds ! j)"
  shows "three_2dig p k n g = k (two_dig ds 0) (two_dig ds 2) (two_dig ds 4) n g"
  using c_strlen_eq [OF assms(1)] assms
    atoi_2dig_eq [OF assms(1,2), of 0] atoi_2dig_eq [OF assms(1,2), of 2] atoi_2dig_eq [OF assms(1,2), of 4]
  by (simp add: three_2dig_def)

lemma atoi_decimal_cstr:
  assumes "terminated buf i" "cstr buf i = ds" "list_all is_digit ds"
  shows "atoi_decimal buf i = Inr (of_nat (decimal_value ds))"
proof -
  note td = token_decomp [OF assms(1) refl, of 0]
  have "cstr buf i = token 0 buf i" by (simp add: cstr_def token_def)
  with td(2,3) assms(2) have "drop i buf = ds @ buf ! (i + length ds) # drop (i + length ds + 1) buf"
    and z: "buf ! (i + length ds) = 0" by (auto split: if_splits)
  from atoi_decimal_loop_eq [OF this(1) assms(3), of 0] z show ?thesis
    by (simp add: atoi_decimal_def decimal_value_def)
qed

definition field :: "u8 list \<Rightarrow> bool" where "field f \<longleftrightarrow> 0 \<notin> set f \<and> 44 \<notin> set f"

lemma digits_field: "list_all is_digit ds \<Longrightarrow> field ds"
  by (auto simp: field_def list_all_iff is_digit_def)

definition at_field :: "nmea \<Rightarrow> gps \<Rightarrow> u8 list \<Rightarrow> bool" where
  "at_field n g s \<longleftrightarrow> (\<exists>i. tok_last n = Some i \<and> terminated (pbuf g) i \<and> cstr (pbuf g) i = s)"

lemma three_field:
  assumes "at_field n g (ds @ 44 # r)" "field ds" "6 \<le> length ds" "\<forall>j<6. is_digit (ds ! j)"
  obtains n' g' where "\<And>k. next_field (\<lambda>ptr. three_2dig ptr k) n g = k (two_dig ds 0) (two_dig ds 2) (two_dig ds 4) n' g'"
    "at_field n' g' r" "gclk g' = gclk g"
proof -
  from assms(1) obtain i where i: "tok_last n = Some i" "terminated (pbuf g) i" "cstr (pbuf g) i = ds @ 44 # r"
    by (auto simp: at_field_def)
  have c: "44 \<notin> set ds" using assms(2) by (simp add: field_def)
  note cut = strtok_cut [OF i(2,3) c _ refl]
  let ?b = "(pbuf g)[i + length ds := 0]" and ?n = "n\<lparr>tok_last := Some (i + length ds + 1)\<rparr>"
  have "next_field (\<lambda>ptr. three_2dig ptr k) n g = three_2dig i k ?n (g\<lparr>pbuf := ?b\<rparr>)" for k
    using cut(1) i(1) by (simp add: next_field_def strtok_s_def)
  moreover have "three_2dig i k ?n (g\<lparr>pbuf := ?b\<rparr>) = k (two_dig ds 0) (two_dig ds 2) (two_dig ds 4) ?n (g\<lparr>pbuf := ?b\<rparr>)" for k
    using cut assms(3,4) by (intro three_2dig_eq) simp_all
  moreover have "at_field ?n (g\<lparr>pbuf := ?b\<rparr>) r" using cut by (simp add: at_field_def)
  ultimately show thesis by (intro that [of ?n "g\<lparr>pbuf := ?b\<rparr>"]) simp_all
qed

lemma decimal_field:
  assumes "at_field n g (ds @ 44 # r)" "list_all is_digit ds"
  obtains n' g' where
    "\<And>k. next_field (\<lambda>ptr n g. rbind (atoi_decimal (pbuf g) ptr) (\<lambda>x. k x n g)) n g = k (of_nat (decimal_value ds)) n' g'"
    "at_field n' g' r" "gclk g' = gclk g"
proof -
  from assms(1) obtain i where i: "tok_last n = Some i" "terminated (pbuf g) i" "cstr (pbuf g) i = ds @ 44 # r"
    by (auto simp: at_field_def)
  have c: "44 \<notin> set ds" using digits_field [OF assms(2)] by (simp add: field_def)
  note cut = strtok_cut [OF i(2,3) c _ refl]
  let ?b = "(pbuf g)[i + length ds := 0]" and ?n = "n\<lparr>tok_last := Some (i + length ds + 1)\<rparr>"
  have "next_field (\<lambda>ptr n g. rbind (atoi_decimal (pbuf g) ptr) (\<lambda>x. k x n g)) n g
      = k (of_nat (decimal_value ds)) ?n (g\<lparr>pbuf := ?b\<rparr>)" for k
    using cut(1) i(1) atoi_decimal_cstr [OF cut(4) _ assms(2)] cut(2) by (simp add: next_field_def strtok_s_def)
  moreover have "at_field ?n (g\<lparr>pbuf := ?b\<rparr>) r" using cut by (simp add: at_field_def)
  ultimately show thesis by (intro that [of ?n "g\<lparr>pbuf := ?b\<rparr>"]) simp_all
qed

lemma decimal_field_last:
  assumes "at_field n g ds" "list_all is_digit ds"
  obtains n' where
    "\<And>k. next_field (\<lambda>ptr n g. rbind (atoi_decimal (pbuf g) ptr) (\<lambda>x. k x n g)) n g = k (of_nat (decimal_value ds)) n' g"
proof -
  from assms(1) obtain i where i: "tok_last n = Some i" "terminated (pbuf g) i" "cstr (pbuf g) i = ds"
    by (auto simp: at_field_def)
  have "44 \<notin> set ds" using digits_field [OF assms(2)] by (simp add: field_def)
  with i have "next_field (\<lambda>ptr n g. rbind (atoi_decimal (pbuf g) ptr) (\<lambda>x. k x n g)) n g
      = k (of_nat (decimal_value ds)) (n\<lparr>tok_last := None\<rparr>) g" for k
    using next_field_last [of n i g] atoi_decimal_cstr [OF i(2,3) assms(2)] by simp
  then show thesis by (rule that)
qed

lemma nmea_gpzda_value:
  assumes "at_field n g (tod @ 44 # dd @ 44 # mm @ 44 # yy @ rest)" "rest = [] \<or> hd rest = 44"
    and "field tod" "6 \<le> length tod" "\<forall>j<6. is_digit (tod ! j)"
    and "list_all is_digit dd" "list_all is_digit mm" "list_all is_digit yy"
    and "datetime_to_epoch (of_nat (decimal_value yy)) (of_nat (decimal_value mm)) (of_nat (decimal_value dd))
           (two_dig tod 0) (two_dig tod 2) (two_dig tod 4) = Inr t"
  shows "\<exists>m g'. nmea_gpzda n g = Inr (FEED_COMPLETE, m, g') \<and> gclk g' = (gclk g)\<lparr>utc_next := ucast t\<rparr>"
proof -
  obtain n1 g1 where 1: "\<And>k. next_field (\<lambda>ptr. three_2dig ptr k) n g = k (two_dig tod 0) (two_dig tod 2) (two_dig tod 4) n1 g1"
    "at_field n1 g1 (dd @ 44 # mm @ 44 # yy @ rest)" "gclk g1 = gclk g"
    using three_field [OF assms(1,3-5)] by blast
  obtain n2 g2 where 2: "\<And>k. next_field (\<lambda>ptr n g. rbind (atoi_decimal (pbuf g) ptr) (\<lambda>x. k x n g)) n1 g1 = k (of_nat (decimal_value dd)) n2 g2"
    "at_field n2 g2 (mm @ 44 # yy @ rest)" "gclk g2 = gclk g1"
    using decimal_field [OF 1(2) assms(6)] by blast
  obtain n3 g3 where 3: "\<And>k. next_field (\<lambda>ptr n g. rbind (atoi_decimal (pbuf g) ptr) (\<lambda>x. k x n g)) n2 g2 = k (of_nat (decimal_value mm)) n3 g3"
    "at_field n3 g3 (yy @ rest)" "gclk g3 = gclk g2"
    using decimal_field [OF 2(2) assms(7)] by blast
  obtain n4 g4 where 4: "\<And>k. next_field (\<lambda>ptr n g. rbind (atoi_decimal (pbuf g) ptr) (\<lambda>x. k x n g)) n3 g3 = k (of_nat (decimal_value yy)) n4 g4"
    "gclk g4 = gclk g3"
  proof (cases rest)
    case Nil
    with decimal_field_last [of n3 g3 yy] 3(2) assms(8) that show thesis by auto
  next
    case (Cons c cs)
    with assms(2) 3(2) have "at_field n3 g3 (yy @ 44 # cs)" by simp
    from decimal_field [OF this assms(8)] that show thesis by blast
  qed
  have u: "ucast (of_nat k :: u32) = (of_nat k :: u8)" "ucast (of_nat k :: u32) = (of_nat k :: u16)" for k
    by (auto simp: bit_eq_iff bit_simps)
  have "nmea_gpzda n g = nmea_set_utc (of_nat (decimal_value yy)) (of_nat (decimal_value mm))
      (of_nat (decimal_value dd)) (two_dig tod 0) (two_dig tod 2) (two_dig tod 4) n4 g4"
    unfolding nmea_gpzda_def by (simp add: 1(1) 2(1) 3(1) 4(1) u)
  with 1(3) 2(3) 3(3) 4(2) assms(9) show ?thesis
    by (simp add: nmea_set_utc_def gps_set_utc_def vtimer_set_utc_def)
qed

text \<open>
  C21. A valid GPZDA sentence sets the clock to the time it states: with the characters
  \<open>GPZDA\<close>, a time of day whose first six characters are digits, and decimal day, month
  and year, separated by commas and possibly followed by more fields, in the buffer, the
  parser sets \<open>utc_next\<close> to exactly that date and time and completes the packet. Nothing
  can outrank GPZDA, so the outcome does not depend on the sentences seen before.
\<close>

theorem nmea_gpzda_sets_clock:
  assumes "bs = ascii ''GPZDA'' @ 44 # tod @ 44 # dd @ 44 # mm @ 44 # yy @ rest" "length bs \<le> 127"
    and "rest = [] \<or> hd rest = 44" "0 \<notin> set rest"
    and "field tod" "6 \<le> length tod" "\<forall>j<6. is_digit (tod ! j)"
    and "list_all is_digit dd" "list_all is_digit mm" "list_all is_digit yy"
    and "datetime_to_epoch (of_nat (decimal_value yy)) (of_nat (decimal_value mm)) (of_nat (decimal_value dd))
           (two_dig tod 0) (two_dig tod 2) (two_dig tod 4) = Inr t"
    and "n_count n = of_nat (length bs)" "seen_type n \<le> stype_GPZDA" "pbuf_ok g"
  shows "\<exists>m g'. nmea_sentence e n (filled bs 0 g) = Inr (FEED_COMPLETE, m, g')
     \<and> gclk g' = (gclk g)\<lparr>utc_next := ucast t\<rparr>"
proof -
  let ?g = "filled bs 0 g"
  have k: "unat (n_count n) = length bs"
    using assms(2,12) by (simp add: unsigned_of_nat take_bit_nat_eq_self)
  define b0 where "b0 = (pbuf ?g)[length bs := 0]"
  have b0: "b0 = bs @ 0 # drop (length bs + 1) (pbuf g)" "length b0 = 128"
    using assms(2,14) by (simp_all add: b0_def filled_def pbuf_ok_def list_update_append Cons_nth_drop_Suc [symmetric])
  have nz: "0 \<notin> set bs"
    using assms(1,4,5) digits_field [OF assms(8)] digits_field [OF assms(9)] digits_field [OF assms(10)]
    by (auto simp: field_def ascii_def)
  have t0: "terminated b0 0" unfolding terminated_def b0(1) by (intro exI [of _ "length bs"]) simp
  have "cstr b0 0 = bs" unfolding cstr_def b0(1) using nz by (auto simp: takeWhile_append)
  then have c0: "cstr b0 0 = ascii ''GPZDA'' @ 44 # (tod @ 44 # dd @ 44 # mm @ 44 # yy @ rest)" using assms(1) by simp
  have "44 \<notin> set (ascii ''GPZDA'')" "(44::u8) \<noteq> 0" by (simp_all add: ascii_def)
  note cut = strtok_cut [OF t0 c0 this refl]
  define j where "j = 0 + length (ascii ''GPZDA'')"
  let ?b = "b0[j := 0]" and ?n = "n\<lparr>tok_last := Some (j + 1), seen_type := stype_GPZDA, seen_time := env_tick e 7\<rparr>"
  let ?h = "?g\<lparr>pbuf := ?b\<rparr>"
  have "nmea_sentence e n ?g = nmea_gpzda ?n ?h"
  proof -
    have "wr ''pbuf'' (pbuf ?g) (length bs) 0 = Inr b0"
      using assms(2,14) by (simp add: wr_in b0_def filled_def pbuf_ok_def)
    moreover have "strtok_s (Some 0) 44 b0 (tok_last n) = Inr (Some 0, ?b, Some (j + 1))"
      using cut(1) by (simp add: strtok_s_def j_def)
    moreover have "c_streq ?b 0 (ascii ''GPZDA'') = Inr True"
      using c_streq_eq [OF ascii_nonzero(1) cut(4)] cut(2) by (simp add: j_def)
    moreover have "use_sentence e stype_GPZDA (n\<lparr>tok_last := Some (j + 1)\<rparr>) = (True, ?n)"
      using assms(13) by (simp add: use_sentence_def)
    ultimately show ?thesis using k by (simp add: nmea_sentence_def)
  qed
  moreover have "at_field ?n ?h (tod @ 44 # dd @ 44 # mm @ 44 # yy @ rest)"
    using cut(3,5) by (simp add: at_field_def j_def)
  from nmea_gpzda_value [OF this assms(3,5-11)]
  obtain m g' where "nmea_gpzda ?n ?h = Inr (FEED_COMPLETE, m, g')" "gclk g' = (gclk ?h)\<lparr>utc_next := ucast t\<rparr>"
    by blast
  moreover have "gclk ?h = gclk g" by (simp add: filled_def)
  ultimately show ?thesis by auto
qed

theorem nmea_frame_witness:
  "\<exists>m. n_count m = 1 \<and> feeds nmea_feed \<lparr>env_tick = (\<lambda>_. 0), env_flags = 0\<rparr> (36 # [65] @ [42, 52, 49]) nmea0 gps0
     = rbind (nmea_sentence \<lparr>env_tick = (\<lambda>_. 0), env_flags = 0\<rparr> m (filled [65] 0 gps0)) (\<lambda>(rc, n, g).
         Inr (replicate 4 FEED_CONTINUE @ [rc], n, g))"
proof -
  have "pbuf_ok gps0" by (simp add: gps0_def pbuf_ok_def)
  from nmea_frame [of "[65]" gps0 52 49 nmea0 "\<lparr>env_tick = (\<lambda>_. 0), env_flags = 0\<rparr>", OF _ _ this]
  have "\<exists>m. n_count m = of_nat (length [65 :: u8]) \<and> feeds nmea_feed \<lparr>env_tick = (\<lambda>_. 0), env_flags = 0\<rparr> (36 # [65] @ [42, 52, 49]) nmea0 gps0
     = rbind (nmea_sentence \<lparr>env_tick = (\<lambda>_. 0), env_flags = 0\<rparr> m (filled [65] 0 gps0)) (\<lambda>(rc, n, g).
         Inr (replicate (length [65 :: u8] + 3) FEED_CONTINUE @ [rc], n, g))"
    by (auto simp: plain_def parse_hex_def simp del: feeds.simps replicate.simps)
  moreover have "(of_nat (length [65 :: u8]) :: u8) = 1" "length [65 :: u8] + 3 = 4" by simp_all
  ultimately show ?thesis by metis
qed

theorem nmea_gpzda_sets_clock_witness:
  "\<exists>m g'. nmea_sentence \<lparr>env_tick = (\<lambda>_. 0), env_flags = 0\<rparr> (nmea0\<lparr>n_count := 23\<rparr>)
       (filled (ascii ''GPZDA,000000,02,01,2000'') 0 gps0) = Inr (FEED_COMPLETE, m, g')
     \<and> gclk g' = vtimer0\<lparr>utc_next := 3155760000\<rparr>"
proof -
  let ?z = "48 :: u8"
  have bs: "ascii ''GPZDA,000000,02,01,2000''
      = ascii ''GPZDA'' @ 44 # replicate 6 48 @ 44 # [48, 50] @ 44 # [48, 49] @ 44 # [50, 48, 48, 48] @ []"
    by (simp add: ascii_def numeral_eq_Suc)
  have dt: "datetime_to_epoch (of_nat (decimal_value [50, 48, 48, 48])) (of_nat (decimal_value [48, 49]))
      (of_nat (decimal_value [48, 50])) (two_dig (replicate 6 48) 0) (two_dig (replicate 6 48) 2)
      (two_dig (replicate 6 48) 4) = Inr 3155760000"
    by (simp add: decimal_value_def two_dig_def datetime_to_epoch_def days_before_month_def rd_def
        days_before_month_tbl_def days_before_year_def NTP_EPOCH_ORDINAL_def is_leap_def)
  show ?thesis
    using nmea_gpzda_sets_clock [OF bs _ _ _ _ _ _ _ _ _ dt, of "nmea0\<lparr>n_count := 23\<rparr>" gps0]
    by (simp add: ascii_def field_def is_digit_def nmea0_def gps0_def pbuf_ok_def)
qed

end
