(* ===== verification/Gps_Parser.thy ===== *)
theory Gps_Parser
  imports Motorola Ublox Tsip Nmea Relay
begin

text \<open>
  The dispatcher of \<open>src/src/gps/parser.c\<close>: every byte from the receiver is relayed and
  offered to the protocol parsers in turn until one takes it; a parser in the middle of a
  packet locks the others out until it completes, gives up or times out.
\<close>

section \<open>State and operation\<close>

datatype proto = PROTO_NONE | PROTO_NMEA | PROTO_TSIP | PROTO_TEP | PROTO_ONCORE | PROTO_UBLOX

record gps_sys =
  shared :: gps
  p_ublox :: ublox
  p_tsip :: tsip
  p_motorola :: motorola
  p_nmea :: nmea
  relay_st :: relay
  current_proto :: proto
  last_proto :: proto
  time_last_byte :: u64
  time_last_packet :: u64

definition parsers :: "proto list" where
  "parsers = [PROTO_UBLOX, PROTO_TSIP, PROTO_ONCORE, PROTO_NMEA]"

definition parser_func :: "proto \<Rightarrow> feed_env \<Rightarrow> u8 \<Rightarrow> gps_sys \<Rightarrow> (u8 \<times> gps_sys) res" where
  "parser_func p e b s =
     (case p of
        PROTO_UBLOX \<Rightarrow> rbind (ublox_feed e b (p_ublox s) (shared s)) (\<lambda>(rc, u, g). Inr (rc, s\<lparr>p_ublox := u, shared := g\<rparr>))
      | PROTO_TSIP \<Rightarrow> rbind (tsip_feed e b (p_tsip s) (shared s)) (\<lambda>(rc, u, g). Inr (rc, s\<lparr>p_tsip := u, shared := g\<rparr>))
      | PROTO_ONCORE \<Rightarrow> rbind (motorola_feed e b (p_motorola s) (shared s)) (\<lambda>(rc, u, g). Inr (rc, s\<lparr>p_motorola := u, shared := g\<rparr>))
      | PROTO_NMEA \<Rightarrow> rbind (nmea_feed e b (p_nmea s) (shared s)) (\<lambda>(rc, u, g). Inr (rc, s\<lparr>p_nmea := u, shared := g\<rparr>))
      | _ \<Rightarrow> Inr (FEED_UNKNOWN, s))"

fun try_parsers :: "proto list \<Rightarrow> feed_env \<Rightarrow> u8 \<Rightarrow> gps_sys \<Rightarrow> gps_sys res" where
  "try_parsers [] e b s = Inr s"
| "try_parsers (p # ps) e b s =
     (if current_proto s \<noteq> PROTO_NONE \<and> current_proto s \<noteq> p then try_parsers ps e b s
      else rbind (parser_func p e b s) (\<lambda>(rc, s).
           if rc = FEED_CONTINUE then Inr (s\<lparr>current_proto := p\<rparr>)
           else if rc = FEED_COMPLETE
           then Inr (s\<lparr>current_proto := PROTO_NONE, last_proto := p,
                       time_last_packet := ucast (env_tick e 3), relay_st := relay_flush (relay_st s)\<rparr>)
           else try_parsers ps e b s))"

definition gps_byte_received :: "feed_env \<Rightarrow> u8 \<Rightarrow> gps_sys \<Rightarrow> gps_sys res" where
  "gps_byte_received e data s =
     (let s = (if ucast (env_tick e 0) - time_last_byte s \<ge> ucast PACKET_TIMEOUT
               then s\<lparr>current_proto := PROTO_NONE, relay_st := relay_flush (relay_st s)\<rparr> else s);
          s = s\<lparr>time_last_byte := ucast (env_tick e 1)\<rparr> in
      rbind (relay_push data (relay_st s)) (\<lambda>r.
      let s = s\<lparr>relay_st := r\<rparr>;
          s = (if ucast (env_tick e 2) - time_last_packet s > ucast PARSER_TIMEOUT
               then s\<lparr>current_proto := PROTO_NONE, last_proto := PROTO_NONE,
                      shared := (shared s)\<lparr>gps_fix_svs := 0\<rparr>\<rparr> else s)
      in try_parsers parsers e data s))"

fun gps_bytes :: "(feed_env \<times> u8) list \<Rightarrow> gps_sys \<Rightarrow> gps_sys res" where
  "gps_bytes [] s = Inr s"
| "gps_bytes ((e, b) # bs) s = rbind (gps_byte_received e b s) (gps_bytes bs)"

definition gps_sys0 :: gps_sys where
  "gps_sys0 = \<lparr>shared = gps0, p_ublox = ublox0, p_tsip = tsip0, p_motorola = motorola0, p_nmea = nmea0,
     relay_st = relay0, current_proto = PROTO_NONE, last_proto = PROTO_NONE,
     time_last_byte = 0, time_last_packet = 0\<rparr>"

section \<open>Invariant\<close>

definition sys_ok :: "gps_sys \<Rightarrow> bool" where
  "sys_ok s \<longleftrightarrow> pbuf_ok (shared s) \<and> ublox_ok (p_ublox s) \<and> tsip_ok (p_tsip s) \<and> motorola_ok (p_motorola s)
     \<and> nmea_ok (p_nmea s) \<and> relay_inv (relay_st s)"

definition sys_res_ok :: "gps_sys res \<Rightarrow> bool" where
  "sys_res_ok r \<longleftrightarrow> (case r of Inl f \<Rightarrow> f = gps_fault \<or> f = neg_overflow | Inr s \<Rightarrow> sys_ok s)"

lemma parser_func_cases:
  assumes "sys_ok s"
  obtains (fault) f where "parser_func p e b s = Inl f" "f = gps_fault \<or> f = neg_overflow"
  | (go) rc s' where "parser_func p e b s = Inr (rc, s')" "sys_ok s'"
      "current_proto s' = current_proto s" "relay_st s' = relay_st s"
proof -
  have ok: "pbuf_ok (shared s)" "ublox_ok (p_ublox s)" "tsip_ok (p_tsip s)" "motorola_ok (p_motorola s)" "nmea_ok (p_nmea s)"
    using assms by (simp_all add: sys_ok_def)
  note f = ubx.feed_safe [OF ok(2,1), of e b] tsp.feed_safe [OF ok(3,1), of e b]
    mot.feed_safe [OF ok(4,1), of e b] nme.feed_safe [OF ok(5,1), of e b]
  have "\<exists>f. parser_func p e b s = Inl f \<and> (f = gps_fault \<or> f = neg_overflow)
     \<or> (\<exists>rc s'. parser_func p e b s = Inr (rc, s') \<and> sys_ok s' \<and> current_proto s' = current_proto s \<and> relay_st s' = relay_st s)"
    using f assms
    by (cases p) (auto simp: parser_func_def sys_ok_def feed_ok_def split: sum.splits prod.splits)
  then show thesis using fault go by blast
qed

lemma try_parsers_ok: "sys_ok s \<Longrightarrow> sys_res_ok (try_parsers ps e b s)"
proof (induction ps arbitrary: s)
  case Nil
  then show ?case by (simp add: sys_res_ok_def)
next
  case (Cons p ps)
  show ?case
  proof (cases "current_proto s \<noteq> PROTO_NONE \<and> current_proto s \<noteq> p")
    case True
    then show ?thesis using Cons by simp
  next
    case False
    from Cons.prems show ?thesis
    proof (cases rule: parser_func_cases [where p = p and e = e and b = b])
      case (fault f)
      then show ?thesis using False by (auto simp: sys_res_ok_def)
    next
      case (go rc s')
      then have "relay_inv (relay_flush (relay_st s'))" by (simp add: sys_ok_def relay_flush_spec)
      with go Cons.IH [OF go(2)] False show ?thesis by (auto simp: sys_res_ok_def sys_ok_def)
    qed
  qed
qed

lemma gps_byte_received_ok:
  assumes "sys_ok s"
  shows "sys_res_ok (gps_byte_received e b s)"
proof -
  define s1 where "s1 = (if ucast (env_tick e 0) - time_last_byte s \<ge> ucast PACKET_TIMEOUT
               then s\<lparr>current_proto := PROTO_NONE, relay_st := relay_flush (relay_st s)\<rparr> else s)\<lparr>time_last_byte := ucast (env_tick e 1)\<rparr>"
  have s1: "sys_ok s1" using assms by (simp add: s1_def sys_ok_def relay_flush_spec)
  then obtain r where r: "relay_push b (relay_st s1) = Inr r" "relay_inv r"
    using relay_push_spec [of "relay_st s1" b] by (auto simp: sys_ok_def)
  have "sys_ok (s1\<lparr>relay_st := r\<rparr>)" "sys_ok (s1\<lparr>relay_st := r, current_proto := PROTO_NONE, last_proto := PROTO_NONE,
      shared := (shared s1)\<lparr>gps_fix_svs := 0\<rparr>\<rparr>)"
    using s1 r by (simp_all add: sys_ok_def pbuf_ok_def)
  then show ?thesis
    using try_parsers_ok r unfolding gps_byte_received_def Let_def s1_def [symmetric] by simp
qed

text \<open>
  C6. No byte stream from the receiver, in any protocol or none, at any speed, can make
  the GPS parsers write or read outside the packet buffer or fail an assertion: from the
  initial state, every sequence of bytes leaves the parsers in a good state or stops at
  one of the two known faults, a month above 12 or the negation of \<open>INT32_MIN\<close>.
\<close>

theorem gps_stream_safe:
  "gps_bytes bs gps_sys0 = Inl (Oob ''_days_before_month'') \<or> gps_bytes bs gps_sys0 = Inl (Undef ''signed overflow'')
   \<or> (\<exists>s. gps_bytes bs gps_sys0 = Inr s \<and> sys_ok s)"
proof -
  have "sys_ok gps_sys0"
    by (simp add: sys_ok_def gps_sys0_def gps0_def pbuf_ok_def ublox_ok_def ublox0_def tsip_ok_def
        motorola_ok_def motorola0_def nmea_ok_def nmea0_def relay_inv_def relay0_def)
  moreover have "sys_ok s \<Longrightarrow> gps_bytes bs s \<in> {Inl gps_fault, Inl neg_overflow} \<or> (\<exists>t. gps_bytes bs s = Inr t \<and> sys_ok t)" for s
  proof (induction bs arbitrary: s)
    case (Cons eb bs)
    obtain e b where eb: "eb = (e, b)" by (cases eb)
    from gps_byte_received_ok [OF Cons.prems, of e b] Cons.IH show ?case
      by (cases "gps_byte_received e b s") (auto simp: eb sys_res_ok_def)
  qed simp
  ultimately show ?thesis by (auto simp: gps_fault_def neg_overflow_def)
qed

section \<open>Lock-out\<close>

definition others_kept :: "proto \<Rightarrow> gps_sys \<Rightarrow> gps_sys \<Rightarrow> bool" where
  "others_kept p s t \<longleftrightarrow>
     (p \<noteq> PROTO_UBLOX \<longrightarrow> p_ublox t = p_ublox s) \<and> (p \<noteq> PROTO_TSIP \<longrightarrow> p_tsip t = p_tsip s)
     \<and> (p \<noteq> PROTO_ONCORE \<longrightarrow> p_motorola t = p_motorola s) \<and> (p \<noteq> PROTO_NMEA \<longrightarrow> p_nmea t = p_nmea s)"

lemma parser_func_others:
  "parser_func p e b s = Inr (rc, t) \<Longrightarrow> others_kept p s t \<and> current_proto t = current_proto s"
  by (cases p) (auto simp: parser_func_def others_kept_def)

lemma try_parsers_locked:
  "current_proto s = p \<Longrightarrow> p \<noteq> PROTO_NONE \<Longrightarrow> try_parsers ps e b s = Inr t \<Longrightarrow> others_kept p s t"
proof (induction ps arbitrary: s)
  case Nil
  then show ?case by (simp add: others_kept_def)
next
  case (Cons q ps)
  show ?case
  proof (cases "q = p")
    case True
    with Cons.prems obtain rc s' where f: "parser_func p e b s = Inr (rc, s')" by (auto split: if_splits)
    from parser_func_others [OF this] Cons.prems True Cons.IH [of s'] f show ?thesis
      by (auto simp: others_kept_def split: if_splits)
  next
    case False
    with Cons show ?thesis by simp
  qed
qed

text \<open>
A packet in progress cannot be stolen: while a parser holds the lock and neither
  time-out has expired, the next byte changes the state of no other parser.
\<close>

theorem gps_lockout:
  assumes "current_proto s = p" "p \<noteq> PROTO_NONE"
    and "ucast (env_tick e 0) - time_last_byte s < ucast PACKET_TIMEOUT"
    and "ucast (env_tick e 2) - time_last_packet s \<le> ucast PARSER_TIMEOUT"
    and "gps_byte_received e b s = Inr t"
  shows "(p \<noteq> PROTO_UBLOX \<longrightarrow> p_ublox t = p_ublox s) \<and> (p \<noteq> PROTO_TSIP \<longrightarrow> p_tsip t = p_tsip s)
     \<and> (p \<noteq> PROTO_ONCORE \<longrightarrow> p_motorola t = p_motorola s) \<and> (p \<noteq> PROTO_NMEA \<longrightarrow> p_nmea t = p_nmea s)"
proof -
  from assms(3,5) obtain r where
    "try_parsers parsers e b (s\<lparr>time_last_byte := ucast (env_tick e 1), relay_st := r\<rparr>) = Inr t"
    using assms(4) by (auto simp: gps_byte_received_def Let_def not_le not_less split: if_splits)
  from try_parsers_locked [OF _ assms(2) this] assms(1) show ?thesis by (simp add: others_kept_def)
qed

theorem gps_lockout_witness:
  "\<exists>t. gps_byte_received \<lparr>env_tick = (\<lambda>_. 0), env_flags = 0\<rparr> 0x62
        (gps_sys0\<lparr>current_proto := PROTO_UBLOX, p_ublox := ublox0\<lparr>ustate := U_SYNC\<rparr>\<rparr>) = Inr t
     \<and> p_tsip t = p_tsip gps_sys0 \<and> p_nmea t = p_nmea gps_sys0"
proof -
  let ?s = "gps_sys0\<lparr>current_proto := PROTO_UBLOX, p_ublox := ublox0\<lparr>ustate := U_SYNC\<rparr>\<rparr>"
  let ?e = "\<lparr>env_tick = (\<lambda>_. 0), env_flags = 0\<rparr> :: feed_env"
  have to: "ucast PACKET_TIMEOUT = (5 :: u64)" "ucast PARSER_TIMEOUT = (500 :: u64)"
    by (simp_all add: PACKET_TIMEOUT_def PARSER_TIMEOUT_def pdMS_TO_TICKS_def)
  have "\<exists>t. gps_byte_received ?e 0x62 ?s = Inr t"
    by (simp add: gps_byte_received_def to gps_sys0_def relay_push_def relay0_def wr_def parsers_def
        parser_func_def ublox_feed_def)
  then obtain t where t: "gps_byte_received ?e 0x62 ?s = Inr t" by blast
  have "p_tsip t = p_tsip ?s \<and> p_nmea t = p_nmea ?s"
    using gps_lockout [OF _ _ _ _ t, of PROTO_UBLOX] by (simp add: to gps_sys0_def)
  with t show ?thesis by auto
qed

end
