(* ===== verification/Ihex.thy ===== *)
theory Ihex
  imports Prelude
begin

text \<open>
  The Intel HEX decoder of \<open>src/lib/ihex.c\<close>. The callback that receives data records is a
  parameter with a state of its own.
\<close>

section \<open>State and operations\<close>

datatype ihex_state_e = START | COPY1 | COPY2

record ihex =
  ihex_base :: u32
  ihex_buf :: "u8 list"
  ihex_cksum :: u8
  ihex_count :: u16
  ihex_state :: ihex_state_e

definition IHEX_CONTINUE :: u8 where "IHEX_CONTINUE = 0"
definition IHEX_EOF :: u8 where "IHEX_EOF = 30"
definition IHEX_INVALID :: u8 where "IHEX_INVALID = 31"
definition IHEX_UNSUPPORTED :: u8 where "IHEX_UNSUPPORTED = 32"
definition IHEX_CHECKSUM :: u8 where "IHEX_CHECKSUM = 33"

definition REC_DATA :: u8 where "REC_DATA = 0"
definition REC_EOF :: u8 where "REC_EOF = 1"
definition REC_SEG_ADDR :: u8 where "REC_SEG_ADDR = 2"
definition REC_SEG_START :: u8 where "REC_SEG_START = 3"
definition REC_LIN_ADDR :: u8 where "REC_LIN_ADDR = 4"
definition REC_LIN_START :: u8 where "REC_LIN_START = 5"

lemmas rec_defs = REC_DATA_def REC_EOF_def REC_SEG_ADDR_def REC_SEG_START_def REC_LIN_ADDR_def REC_LIN_START_def
lemmas ihex_codes = IHEX_CONTINUE_def IHEX_EOF_def IHEX_INVALID_def IHEX_UNSUPPORTED_def IHEX_CHECKSUM_def

definition ihex0 :: ihex where
  "ihex0 = \<lparr>ihex_base = 0, ihex_buf = replicate 70 0, ihex_cksum = 0, ihex_count = 0, ihex_state = START\<rparr>"

definition ihex_init :: "ihex \<Rightarrow> ihex" where
  "ihex_init h = h\<lparr>ihex_state := START, ihex_count := 0\<rparr>"

type_synonym 's ihex_cb = "u32 \<Rightarrow> u8 list \<Rightarrow> 's \<Rightarrow> (u8 \<times> 's) res"

text \<open>One step returns the code with which \<open>ihex_feed\<close> returns, or zero to go on.\<close>

definition ihex_record :: "'s ihex_cb \<Rightarrow> ihex \<Rightarrow> 's \<Rightarrow> (u8 \<times> ihex \<times> 's) res" where
  "ihex_record cb h s =
     (let b = (\<lambda>i. ihex_buf h ! i); rsize = b 0;
          addr = (push_bit 8 (ucast (b 1)) OR ucast (b 2)) :: u32; rtype = b 3 in
      if rtype = REC_DATA
      then rbind (cb (addr + ihex_base h) (take (unat rsize) (drop 4 (ihex_buf h))) s) (\<lambda>(rv, s). Inr (rv, h, s))
      else if rtype = REC_EOF then Inr (IHEX_EOF, h, s)
      else if rtype = REC_SEG_ADDR
      then if rsize \<noteq> 2 then Inr (IHEX_INVALID, h, s)
           else Inr (0, h\<lparr>ihex_base := push_bit 12 (ucast (b 4)) OR push_bit 4 (ucast (b 5))\<rparr>, s)
      else if rtype = REC_LIN_ADDR
      then if rsize \<noteq> 2 then Inr (IHEX_INVALID, h, s)
           else Inr (0, h\<lparr>ihex_base := push_bit 24 (ucast (b 4)) OR push_bit 16 (ucast (b 5))\<rparr>, s)
      else if rtype = REC_SEG_START \<or> rtype = REC_LIN_START then Inr (0, h, s)
      else Inr (IHEX_UNSUPPORTED, h, s))"

definition ihex_eol :: "'s ihex_cb \<Rightarrow> ihex \<Rightarrow> 's \<Rightarrow> (u8 \<times> ihex \<times> 's) res" where
  "ihex_eol cb h s =
     (if ihex_state h = START then Inr (0, h, s)
      else let h = h\<lparr>ihex_state := START\<rparr> in
           if ihex_count h < 5 then Inr (IHEX_INVALID, h, s)
           else if unat (ihex_count h) \<noteq> 5 + unat (ihex_buf h ! 0) then Inr (IHEX_INVALID, h, s)
           else if ihex_cksum h \<noteq> 0 then Inr (IHEX_CHECKSUM, h, s)
           else ihex_record cb h s)"

definition hex_value :: "u8 \<Rightarrow> u8 option" where
  "hex_value dat =
     (if 48 \<le> dat \<and> dat \<le> 57 then Some (dat - 48)
      else if 65 \<le> dat \<and> dat \<le> 70 then Some (dat - 55)
      else if 97 \<le> dat \<and> dat \<le> 102 then Some (dat - 87)
      else None)"

definition ihex_digit :: "u8 \<Rightarrow> ihex \<Rightarrow> (u8 \<times> ihex) res" where
  "ihex_digit dat h =
     (let n = unat (ihex_count h) in
      if ihex_state h = COPY1
      then if n \<ge> 70 then Inr (IHEX_UNSUPPORTED, h)
           else rbind (wr ''ihex_buf'' (ihex_buf h) n (push_bit 4 dat)) (\<lambda>buf.
                Inr (0, h\<lparr>ihex_buf := buf, ihex_state := COPY2\<rparr>))
      else rbind (rd ''ihex_buf'' (ihex_buf h) n) (\<lambda>old.
           rbind (wr ''ihex_buf'' (ihex_buf h) n (old OR dat)) (\<lambda>buf.
           Inr (0, h\<lparr>ihex_buf := buf, ihex_cksum := ihex_cksum h + buf ! n,
                     ihex_count := ihex_count h + 1, ihex_state := COPY1\<rparr>))))"

definition ihex_byte :: "'s ihex_cb \<Rightarrow> u8 \<Rightarrow> ihex \<Rightarrow> 's \<Rightarrow> (u8 \<times> ihex \<times> 's) res" where
  "ihex_byte cb dat h s =
     (if dat = 13 \<or> dat = 10 \<or> dat = 0 then ihex_eol cb h s
      else if ihex_state h = START
      then if dat \<noteq> 58 then Inr (IHEX_INVALID, h, s)
           else Inr (0, h\<lparr>ihex_state := COPY1, ihex_cksum := 0, ihex_count := 0\<rparr>, s)
      else case hex_value dat of
             None \<Rightarrow> Inr (IHEX_INVALID, h, s)
           | Some d \<Rightarrow> rbind (ihex_digit d h) (\<lambda>(rv, h). Inr (rv, h, s)))"

fun ihex_feed :: "'s ihex_cb \<Rightarrow> u8 list \<Rightarrow> ihex \<Rightarrow> 's \<Rightarrow> (u8 \<times> ihex \<times> 's) res" where
  "ihex_feed cb [] h s = Inr (IHEX_CONTINUE, h, s)"
| "ihex_feed cb (dat # inbuf) h s =
     rbind (ihex_byte cb dat h s) (\<lambda>(rv, h, s).
     if rv \<noteq> 0 then Inr (rv, h, s) else ihex_feed cb inbuf h s)"

section \<open>Safety\<close>

definition ihex_ok :: "ihex \<Rightarrow> bool" where
  "ihex_ok h \<longleftrightarrow> length (ihex_buf h) = 70 \<and> unat (ihex_count h) \<le> 70
     \<and> (ihex_state h = COPY2 \<longrightarrow> unat (ihex_count h) < 70)"

lemma ihex_digit_ok:
  assumes "ihex_ok h" "ihex_state h \<noteq> START"
  shows "\<exists>rv h'. ihex_digit d h = Inr (rv, h') \<and> ihex_ok h'"
proof (cases "ihex_state h = COPY1")
  case True
  then show ?thesis using assms by (auto simp: ihex_digit_def ihex_ok_def wr_def Let_def)
next
  case False
  with assms have c: "ihex_state h = COPY2" "unat (ihex_count h) < 70" "length (ihex_buf h) = 70"
    by (cases "ihex_state h"; simp add: ihex_ok_def)+
  then have "unat (ihex_count h + 1) = unat (ihex_count h) + 1" by (simp add: unat_word_ariths)
  with c show ?thesis by (auto simp: ihex_digit_def ihex_ok_def wr_def rd_def Let_def)
qed

lemma ihex_eol_ok:
  assumes "ihex_ok h" "ihex_eol cb h s = Inr (rv, h', s')"
  shows "ihex_ok h'"
  using assms
  by (auto simp: ihex_eol_def ihex_record_def ihex_ok_def Let_def split: if_splits)

lemma ihex_eol_fault:
  assumes "ihex_eol cb h s = Inl f"
  shows "\<exists>a d. cb a d s = Inl f"
  using assms by (auto simp: ihex_eol_def ihex_record_def Let_def rbind_eq_Inl split: if_splits)

lemma ihex_byte_ok:
  assumes "ihex_ok h"
  shows "(\<exists>f a d. cb a d s = Inl f \<and> ihex_byte cb dat h s = Inl f)
    \<or> (\<exists>rv h' s'. ihex_byte cb dat h s = Inr (rv, h', s') \<and> ihex_ok h')"
proof -
  consider (eol) "dat = 13 \<or> dat = 10 \<or> dat = 0"
    | (start) "\<not> (dat = 13 \<or> dat = 10 \<or> dat = 0)" "ihex_state h = START"
    | (digit) "\<not> (dat = 13 \<or> dat = 10 \<or> dat = 0)" "ihex_state h \<noteq> START" by blast
  then show ?thesis
  proof cases
    case eol
    then have "ihex_byte cb dat h s = ihex_eol cb h s" by (auto simp: ihex_byte_def)
    then show ?thesis using ihex_eol_ok [OF assms] ihex_eol_fault [of cb h s]
      by (cases "ihex_eol cb h s") auto
  next
    case start
    then show ?thesis using assms by (auto simp: ihex_byte_def ihex_ok_def)
  next
    case digit
    show ?thesis
    proof (cases "hex_value dat")
      case (Some d)
      obtain rv h' where "ihex_digit d h = Inr (rv, h')" "ihex_ok h'"
        using ihex_digit_ok [OF assms digit(2)] by blast
      then show ?thesis using digit Some by (auto simp: ihex_byte_def)
    qed (use digit assms in \<open>auto simp: ihex_byte_def\<close>)
  qed
qed

text \<open>
  No input can make the decoder leave its 70-byte record buffer: fed with any bytes
  from a good state, it ends in a good state, unless the callback itself faults.
\<close>

theorem ihex_feed_safe:
  assumes "ihex_ok h" "\<And>a d s. \<exists>rv s'. cb a d s = Inr (rv, s')"
  shows "\<exists>rv h' s'. ihex_feed cb inbuf h s = Inr (rv, h', s') \<and> ihex_ok h'"
  using assms(1)
proof (induction inbuf arbitrary: h s)
  case (Cons dat inbuf)
  have "\<not> (\<exists>f a d. cb a d s = Inl f)" using assms(2) by (metis Inl_Inr_False)
  with ihex_byte_ok [OF Cons.prems, of cb s dat]
  obtain rv h' s' where "ihex_byte cb dat h s = Inr (rv, h', s')" "ihex_ok h'" by blast
  then show ?case using Cons.IH [of h' s'] by (cases "rv = 0") auto
qed simp

theorem ihex_feed_safe_witness:
  "\<exists>rv h' s'. ihex_feed (\<lambda>a d n. Inr (0, n + 1)) [58, 48, 48, 13, 255] ihex0 (0::nat) = Inr (rv, h', s') \<and> ihex_ok h'"
  by (rule ihex_feed_safe) (auto simp: ihex_ok_def ihex0_def)

section \<open>Sinks\<close>

text \<open>
  What a client of the decoder may rely on. A property that the callback keeps is kept by a
  whole feed (\<open>ihex_sink\<close>); a callback that simulates appending to a log of records makes
  a whole feed simulate the decoding of the input into that log (\<open>record_sink\<close>).
\<close>

definition log_record :: "(u32 \<times> u8 list) list ihex_cb" where
  "log_record a d l = Inr (0, l @ [(a, d)])"

lemma ihex_byte_inner:
  "\<not> (dat = 13 \<or> dat = 10 \<or> dat = 0) \<Longrightarrow> ihex_byte cb dat h s =
     (if ihex_state h = START
      then if dat \<noteq> 58 then Inr (IHEX_INVALID, h, s)
           else Inr (0, h\<lparr>ihex_state := COPY1, ihex_cksum := 0, ihex_count := 0\<rparr>, s)
      else case hex_value dat of
             None \<Rightarrow> Inr (IHEX_INVALID, h, s)
           | Some d \<Rightarrow> rbind (ihex_digit d h) (\<lambda>(rv, h). Inr (rv, h, s)))"
  by (simp only: ihex_byte_def if_False)

locale ihex_sink =
  fixes cb :: "'s ihex_cb" and P :: "'s \<Rightarrow> bool"
  assumes cb_keeps: "P s \<Longrightarrow> cb a d s = Inr (rv, t) \<Longrightarrow> P t"
begin

lemma byte_keeps: "P s \<Longrightarrow> ihex_byte cb dat h s = Inr (rv, h', t) \<Longrightarrow> P t"
  by (auto simp: ihex_byte_def ihex_eol_def ihex_record_def Let_def rbind_eq_Inr
      split: if_splits option.splits dest: cb_keeps)

lemma feed_keeps: "P s \<Longrightarrow> ihex_feed cb buf h s = Inr (rv, h', t) \<Longrightarrow> P t"
proof (induction buf arbitrary: h s)
  case (Cons b buf)
  then show ?case by (auto simp: rbind_eq_Inr split: if_splits dest: byte_keeps)
qed simp

end

locale record_sink =
  fixes cb :: "'s ihex_cb" and R :: "(u32 \<times> u8 list) list \<Rightarrow> 's \<Rightarrow> bool"
  assumes cb_appends: "R l s \<Longrightarrow> cb a d s = Inr (0, t) \<Longrightarrow> R (l @ [(a, d)]) t"
    and cb_no_eof: "cb a d s = Inr (rv, t) \<Longrightarrow> rv \<noteq> IHEX_EOF"
begin

lemma record_logs:
  assumes "R l s" "ihex_record cb h s = Inr (rv, h', t)" "rv = 0 \<or> rv = IHEX_EOF"
  shows "\<exists>l'. ihex_record log_record h l = Inr (rv, h', l') \<and> R l' t"
proof (cases "ihex_buf h ! 3 = REC_DATA")
  case True
  with assms have "rv = 0" by (auto simp: ihex_record_def Let_def dest: cb_no_eof)
  with True assms show ?thesis
    by (auto simp: ihex_record_def Let_def log_record_def intro: cb_appends)
next
  case False
  then show ?thesis using assms by (auto simp: ihex_record_def Let_def split: if_splits)
qed

lemma eol_logs:
  assumes "R l s" "ihex_eol cb h s = Inr (rv, h', t)" "rv = 0 \<or> rv = IHEX_EOF"
  shows "\<exists>l'. ihex_eol log_record h l = Inr (rv, h', l') \<and> R l' t"
  using assms record_logs [OF assms(1) _ assms(3)]
  by (auto simp: ihex_eol_def Let_def split: if_splits)

lemma byte_logs:
  assumes "R l s" "ihex_byte cb dat h s = Inr (rv, h', t)" "rv = 0 \<or> rv = IHEX_EOF"
  shows "\<exists>l'. ihex_byte log_record dat h l = Inr (rv, h', l') \<and> R l' t"
proof (cases "dat = 13 \<or> dat = 10 \<or> dat = 0")
  case True
  then show ?thesis using assms by (auto simp: ihex_byte_def dest: eol_logs)
next
  case False
  with assms(2) obtain "ihex_byte log_record dat h l = Inr (rv, h', l)" "t = s"
    using ihex_byte_inner [of dat cb] ihex_byte_inner [of dat log_record]
    by (auto split: if_splits option.splits)
  then show ?thesis using assms(1) by blast
qed

lemma feed_logs:
  assumes "R l s" "ihex_feed cb buf h s = Inr (rv, h', t)" "rv = 0 \<or> rv = IHEX_EOF"
  shows "\<exists>l'. ihex_feed log_record buf h l = Inr (rv, h', l') \<and> R l' t"
  using assms(1,2)
proof (induction buf arbitrary: h s l)
  case (Cons b buf)
  then obtain rv1 h1 s1 where b: "ihex_byte cb b h s = Inr (rv1, h1, s1)"
    and r: "(if rv1 \<noteq> 0 then Inr (rv1, h1, s1) else ihex_feed cb buf h1 s1) = Inr (rv, h', t)"
    by (auto simp: rbind_eq_Inr)
  from r have "rv1 = 0 \<or> rv1 = IHEX_EOF" using assms(3) by (auto split: if_splits)
  from byte_logs [OF Cons.prems(1) b this] r Cons.IH show ?case by (auto split: if_splits)
qed (simp add: ihex_codes)

end

lemma ihex_feed_append:
  "ihex_feed cb (xs @ ys) h s =
     rbind (ihex_feed cb xs h s) (\<lambda>(rv, h, s). if rv \<noteq> 0 then Inr (rv, h, s) else ihex_feed cb ys h s)"
  by (induction xs arbitrary: h s) (auto simp: rbind_def ihex_codes split: sum.splits prod.splits)

section \<open>Well-formed records\<close>

definition hexc :: "u8 \<Rightarrow> u8" where "hexc d = (if d < 10 then d + 48 else d + 55)"

definition hex_byte :: "u8 \<Rightarrow> u8 list" where "hex_byte b = [hexc (drop_bit 4 b), hexc (b AND 15)]"

definition hex_line :: "u8 list \<Rightarrow> u8 list" where
  "hex_line bs = 58 # concat (map hex_byte bs) @ [10]"

lemma hexc_all:
  "list_all (\<lambda>d. hex_value (hexc d) = Some d \<and> hexc d \<noteq> 13 \<and> hexc d \<noteq> 10 \<and> hexc d \<noteq> 0) (map of_nat [0..<16])"
  by code_simp

lemma hexc_value:
  assumes "d < 16"
  shows "hex_value (hexc d) = Some d" "hexc d \<noteq> 13" "hexc d \<noteq> 10" "hexc d \<noteq> 0"
proof -
  have "d \<in> set (map of_nat [0..<16])"
    using assms by (auto simp: image_iff word_less_nat_alt intro!: bexI [of _ "unat d"])
  then show "hex_value (hexc d) = Some d" "hexc d \<noteq> 13" "hexc d \<noteq> 10" "hexc d \<noteq> 0"
    using hexc_all unfolding list_all_iff by blast+
qed

lemma nybbles: "drop_bit 4 b < (16::u8)" "b AND 15 < (16::u8)" "push_bit 4 (drop_bit 4 b) OR (b AND 15) = (b::u8)"
proof -
  have m: "b AND 15 = take_bit 4 b" by (simp add: take_bit_eq_mask mask_eq_exp_minus_1)
  show "drop_bit 4 b < (16::u8)"
    using unsigned_less [of b, where ?'a = nat]
    by (simp add: word_less_nat_alt drop_bit_eq_div unat_div less_mult_imp_div_less)
  show "b AND 15 < (16::u8)"
    unfolding m by (simp add: word_less_nat_alt take_bit_eq_mod unat_mod)
  show "push_bit 4 (drop_bit 4 b) OR (b AND 15) = b"
    unfolding m by (simp add: bit_eq_iff bit_simps) (metis le_add_diff_inverse not_le)
qed

definition ihex_absorb :: "u8 list \<Rightarrow> ihex \<Rightarrow> ihex" where
  "ihex_absorb bs h = (let n = unat (ihex_count h) in
     h\<lparr>ihex_buf := take n (ihex_buf h) @ bs @ drop (n + length bs) (ihex_buf h),
       ihex_cksum := ihex_cksum h + sum_list bs, ihex_count := ihex_count h + of_nat (length bs)\<rparr>)"

lemma ihex_two_digits:
  assumes "ihex_ok h" "ihex_state h = COPY1" "unat (ihex_count h) < 70"
  shows "ihex_feed cb (hex_byte b @ rest) h s = ihex_feed cb rest (ihex_absorb [b] h) s"
    "ihex_ok (ihex_absorb [b] h)" "ihex_state (ihex_absorb [b] h) = COPY1"
    "unat (ihex_count (ihex_absorb [b] h)) = unat (ihex_count h) + 1"
proof -
  let ?n = "unat (ihex_count h)"
  have l: "length (ihex_buf h) = 70" using assms(1) by (simp add: ihex_ok_def)
  define h1 where "h1 = h\<lparr>ihex_buf := (ihex_buf h)[?n := push_bit 4 (drop_bit 4 b)], ihex_state := COPY2\<rparr>"
  note x = hexc_value [OF nybbles(1), of b] and y = hexc_value [OF nybbles(2), of b]
  have d1: "ihex_digit (drop_bit 4 b) h = Inr (0, h1)"
    using assms l by (simp add: ihex_digit_def h1_def wr_in)
  have u: "(ihex_buf h)[?n := b] = take ?n (ihex_buf h) @ [b] @ drop (?n + 1) (ihex_buf h)"
    using assms(3) l by (simp add: upd_conv_take_nth_drop)
  have d2: "ihex_digit (b AND 15) h1 = Inr (0, ihex_absorb [b] h)"
    using assms l nybbles(3) [of b] u
    by (cases h) (simp add: ihex_digit_def h1_def wr_in rd_in ihex_absorb_def Let_def)
  show "ihex_feed cb (hex_byte b @ rest) h s = ihex_feed cb rest (ihex_absorb [b] h) s"
    using x y d1 d2 assms(2) by (simp add: hex_byte_def ihex_byte_def) (simp add: h1_def)
  show c: "unat (ihex_count (ihex_absorb [b] h)) = ?n + 1"
    using assms(3) by (simp add: ihex_absorb_def Let_def unat_word_ariths)
  show "ihex_state (ihex_absorb [b] h) = COPY1" using assms(2) by (simp add: ihex_absorb_def Let_def)
  show "ihex_ok (ihex_absorb [b] h)"
    using assms c l by (simp add: ihex_ok_def) (simp add: ihex_absorb_def Let_def)
qed

lemma ihex_absorb_Cons:
  assumes "unat (ihex_count h) + length bs < 70" "length (ihex_buf h) = 70"
  shows "ihex_absorb bs (ihex_absorb [b] h) = ihex_absorb (b # bs) h"
proof -
  have "unat (ihex_count h + 1) = unat (ihex_count h) + 1" using assms(1) by (simp add: unat_word_ariths)
  then show ?thesis using assms by (simp add: ihex_absorb_def Let_def algebra_simps)
qed

lemma ihex_digits:
  "ihex_ok h \<Longrightarrow> ihex_state h = COPY1 \<Longrightarrow> unat (ihex_count h) + length bs \<le> 70 \<Longrightarrow>
   ihex_feed cb (concat (map hex_byte bs) @ rest) h s = ihex_feed cb rest (ihex_absorb bs h) s"
proof (induction bs arbitrary: h)
  case Nil
  have "ihex_absorb [] h = h" by (simp add: ihex_absorb_def)
  then show ?case by simp
next
  case (Cons b bs)
  have n: "unat (ihex_count h) < 70" using Cons.prems(3) by simp
  note t = ihex_two_digits [OF Cons.prems(1,2) n, where b = b]
  have "ihex_feed cb (concat (map hex_byte (b # bs)) @ rest) h s
      = ihex_feed cb (concat (map hex_byte bs) @ rest) (ihex_absorb [b] h) s"
    using t(1) by simp
  also have "\<dots> = ihex_feed cb rest (ihex_absorb bs (ihex_absorb [b] h)) s"
    using Cons.prems(3) t by (intro Cons.IH) simp_all
  also have "ihex_absorb bs (ihex_absorb [b] h) = ihex_absorb (b # bs) h"
    using Cons.prems by (intro ihex_absorb_Cons) (simp_all add: ihex_ok_def)
  finally show ?case .
qed

text \<open>A whole line: the decoder has absorbed its bytes when it reaches the line feed.\<close>

definition line_state :: "u8 list \<Rightarrow> ihex \<Rightarrow> ihex" where
  "line_state bs h = ihex_absorb bs (h\<lparr>ihex_state := COPY1, ihex_cksum := 0, ihex_count := 0\<rparr>)"

lemma line_state_simps [simp]:
  "ihex_buf (line_state bs h) = bs @ drop (length bs) (ihex_buf h)" "ihex_cksum (line_state bs h) = sum_list bs"
  "ihex_count (line_state bs h) = of_nat (length bs)" "ihex_state (line_state bs h) = COPY1"
  "ihex_base (line_state bs h) = ihex_base h"
  by (simp_all add: line_state_def ihex_absorb_def)

lemma hex_line_feed:
  assumes "ihex_ok h" "ihex_state h = START" "length bs \<le> 70"
  shows "ihex_feed cb (hex_line bs) h s =
     rbind (ihex_eol cb (line_state bs h) s) (\<lambda>(rv, h, s). Inr (if rv \<noteq> 0 then rv else IHEX_CONTINUE, h, s))"
proof -
  let ?h1 = "h\<lparr>ihex_state := COPY1, ihex_cksum := 0, ihex_count := 0\<rparr>"
  have ok1: "ihex_ok ?h1" using assms(1) by (simp add: ihex_ok_def)
  have "ihex_feed cb (hex_line bs) h s = ihex_feed cb (concat (map hex_byte bs) @ [10]) ?h1 s"
    using assms(2) by (simp add: hex_line_def ihex_byte_def)
  also have "\<dots> = ihex_feed cb [10] (line_state bs h) s"
    using ok1 assms(3) unfolding line_state_def by (intro ihex_digits) simp_all
  also have "\<dots> = rbind (ihex_eol cb (line_state bs h) s) (\<lambda>(rv, h, s). Inr (if rv \<noteq> 0 then rv else IHEX_CONTINUE, h, s))"
    by (simp add: ihex_byte_def rbind_def split: sum.splits prod.splits)
  finally show ?thesis .
qed

text \<open>
A data record is decoded to exactly what was encoded: for every payload of up to
  65 bytes whose line (length, address, type 0, payload, checksum) sums to zero, the line
  calls the callback once, with the address offset by the current base and with that
  payload, and returns what the callback returned; a line whose sum is not zero is
  reported as a checksum error without calling it.
\<close>

theorem ihex_data_record:
  assumes "ihex_ok h" "ihex_state h = START" "length payload \<le> 65"
    and "bs = of_nat (length payload) # a1 # a2 # 0 # payload @ [ck]"
  shows "\<exists>h'. ihex_state h' = START \<and> ihex_base h' = ihex_base h
     \<and> ihex_feed cb (hex_line bs) h s =
        (if sum_list bs = 0
         then rbind (cb ((push_bit 8 (ucast a1) OR ucast a2) + ihex_base h) payload s) (\<lambda>(rv, s).
              Inr (rv, h', s))
         else Inr (IHEX_CHECKSUM, h', s))"
proof -
  define h' where "h' = line_state bs h\<lparr>ihex_state := START\<rparr>"
  have len: "length bs = length payload + 5" using assms(4) by simp
  have "unat (of_nat (length bs) :: u16) = length bs"
    using len assms(3) by (simp only: unsigned_of_nat) (simp add: take_bit_nat_eq_self)
  then have c: "unat (ihex_count h') = length payload + 5" "\<not> ihex_count h' < 5"
    using len by (simp_all add: word_less_nat_alt h'_def)
  have n: "unat (of_nat (length payload) :: u8) = length payload"
    using assms(3) by (simp add: unsigned_of_nat take_bit_nat_eq_self)
  have b: "ihex_buf h' ! 0 = of_nat (length payload)" "ihex_buf h' ! 1 = a1" "ihex_buf h' ! 2 = a2" "ihex_buf h' ! 3 = 0"
    "take (length payload) (drop 4 (ihex_buf h')) = payload"
    by (simp_all add: h'_def assms(4))
  have "ihex_eol cb (line_state bs h) s = (if sum_list bs = 0
      then rbind (cb ((push_bit 8 (ucast a1) OR ucast a2) + ihex_base h) payload s) (\<lambda>(rv, s). Inr (rv, h', s))
      else Inr (IHEX_CHECKSUM, h', s))"
    using c b n unfolding ihex_eol_def ihex_record_def h'_def [symmetric]
    by (simp add: Let_def rec_defs) (simp add: h'_def)
  then have "ihex_feed cb (hex_line bs) h s = (if sum_list bs = 0
         then rbind (cb ((push_bit 8 (ucast a1) OR ucast a2) + ihex_base h) payload s) (\<lambda>(rv, s).
              Inr (rv, h', s))
         else Inr (IHEX_CHECKSUM, h', s))"
    using len assms(1-3) by (auto simp: hex_line_feed rbind_def ihex_codes split: sum.splits)
  then show ?thesis by (intro exI [of _ h']) (simp add: h'_def)
qed

theorem ihex_data_record_witness:
  "\<exists>h'. ihex_feed (\<lambda>a d (s::(u32 \<times> u8 list) list). Inr (0, s @ [(a, d)]))
        (hex_line [2, 0x10, 0x20, 0, 0xAB, 0xCD, 0x56]) ihex0 []
     = Inr (0, h', [(0x1020, [0xAB, 0xCD])])"
proof -
  have h: "ihex_ok ihex0" "ihex_state ihex0 = START" "length [0xAB, 0xCD :: u8] \<le> 65"
    by (simp_all add: ihex_ok_def ihex0_def)
  have bs: "[2, 0x10, 0x20, 0, 0xAB, 0xCD, 0x56] = of_nat (length [0xAB, 0xCD :: u8]) # 0x10 # 0x20 # 0 # [0xAB, 0xCD] @ [0x56 :: u8]"
    by simp
  obtain h' where "ihex_feed (\<lambda>a d (s::(u32 \<times> u8 list) list). Inr (0, s @ [(a, d)]))
        (hex_line [2, 0x10, 0x20, 0, 0xAB, 0xCD, 0x56]) ihex0 [] =
      (if sum_list [2, 0x10, 0x20, 0, 0xAB, 0xCD, 0x56 :: u8] = 0
       then rbind (Inr (0, [] @ [((push_bit 8 (ucast (0x10 :: u8)) OR ucast (0x20 :: u8)) + ihex_base ihex0, [0xAB, 0xCD])]))
         (\<lambda>(rv, s). Inr (rv, h', s)) else Inr (IHEX_CHECKSUM, h', []))"
    using ihex_data_record [OF h bs, of "\<lambda>a d (s::(u32 \<times> u8 list) list). Inr (0, s @ [(a, d)])" "[]"] by blast
  then show ?thesis by (simp add: ihex0_def)
qed

end
