(* ===== verification/Crc7.thy ===== *)
theory Crc7
  imports Prelude
begin

text \<open>
  The table-driven CRC-7 of \<open>src/lib/crc7.c\<close> and \<open>src/lib/crc7.h\<close>, which protects the
  commands sent to the SD card, and its equivalence with the bit-serial shift register of
  the polynomial \<open>x^7 + x^3 + 1\<close>.
\<close>

section \<open>The code\<close>

definition crc_table :: "u8 list" where
  "crc_table =
    [0x00, 0x12, 0x24, 0x36, 0x48, 0x5a, 0x6c, 0x7e, 0x90, 0x82, 0xb4, 0xa6, 0xd8, 0xca, 0xfc, 0xee,
     0x32, 0x20, 0x16, 0x04, 0x7a, 0x68, 0x5e, 0x4c, 0xa2, 0xb0, 0x86, 0x94, 0xea, 0xf8, 0xce, 0xdc,
     0x64, 0x76, 0x40, 0x52, 0x2c, 0x3e, 0x08, 0x1a, 0xf4, 0xe6, 0xd0, 0xc2, 0xbc, 0xae, 0x98, 0x8a,
     0x56, 0x44, 0x72, 0x60, 0x1e, 0x0c, 0x3a, 0x28, 0xc6, 0xd4, 0xe2, 0xf0, 0x8e, 0x9c, 0xaa, 0xb8,
     0xc8, 0xda, 0xec, 0xfe, 0x80, 0x92, 0xa4, 0xb6, 0x58, 0x4a, 0x7c, 0x6e, 0x10, 0x02, 0x34, 0x26,
     0xfa, 0xe8, 0xde, 0xcc, 0xb2, 0xa0, 0x96, 0x84, 0x6a, 0x78, 0x4e, 0x5c, 0x22, 0x30, 0x06, 0x14,
     0xac, 0xbe, 0x88, 0x9a, 0xe4, 0xf6, 0xc0, 0xd2, 0x3c, 0x2e, 0x18, 0x0a, 0x74, 0x66, 0x50, 0x42,
     0x9e, 0x8c, 0xba, 0xa8, 0xd6, 0xc4, 0xf2, 0xe0, 0x0e, 0x1c, 0x2a, 0x38, 0x46, 0x54, 0x62, 0x70,
     0x82, 0x90, 0xa6, 0xb4, 0xca, 0xd8, 0xee, 0xfc, 0x12, 0x00, 0x36, 0x24, 0x5a, 0x48, 0x7e, 0x6c,
     0xb0, 0xa2, 0x94, 0x86, 0xf8, 0xea, 0xdc, 0xce, 0x20, 0x32, 0x04, 0x16, 0x68, 0x7a, 0x4c, 0x5e,
     0xe6, 0xf4, 0xc2, 0xd0, 0xae, 0xbc, 0x8a, 0x98, 0x76, 0x64, 0x52, 0x40, 0x3e, 0x2c, 0x1a, 0x08,
     0xd4, 0xc6, 0xf0, 0xe2, 0x9c, 0x8e, 0xb8, 0xaa, 0x44, 0x56, 0x60, 0x72, 0x0c, 0x1e, 0x28, 0x3a,
     0x4a, 0x58, 0x6e, 0x7c, 0x02, 0x10, 0x26, 0x34, 0xda, 0xc8, 0xfe, 0xec, 0x92, 0x80, 0xb6, 0xa4,
     0x78, 0x6a, 0x5c, 0x4e, 0x30, 0x22, 0x14, 0x06, 0xe8, 0xfa, 0xcc, 0xde, 0xa0, 0xb2, 0x84, 0x96,
     0x2e, 0x3c, 0x0a, 0x18, 0x66, 0x74, 0x42, 0x50, 0xbe, 0xac, 0x9a, 0x88, 0xf6, 0xe4, 0xd2, 0xc0,
     0x1c, 0x0e, 0x38, 0x2a, 0x54, 0x46, 0x70, 0x62, 0x8c, 0x9e, 0xa8, 0xba, 0xc4, 0xd6, 0xe0, 0xf2]"

definition crc7_init :: u8 where "crc7_init = 0"

definition crc7_step :: "u8 \<Rightarrow> u8 \<Rightarrow> u8" where
  "crc7_step crc b =
     (let tbl_idx = (drop_bit 0 crc XOR b) AND 0xff in
      (crc_table ! unat tbl_idx XOR push_bit (8 - 1) crc) AND push_bit 1 0x7f)"

definition crc7_update :: "u8 \<Rightarrow> u8 list \<Rightarrow> u8" where
  "crc7_update crc data = foldl crc7_step crc data AND push_bit 1 0x7f"

definition crc7_finalize :: "u8 \<Rightarrow> u8" where
  "crc7_finalize crc = drop_bit 1 crc XOR 0"

section \<open>The shift register\<close>

text \<open>
  One message bit enters the 7-bit register \<open>r\<close>: the register shifts left, and the
  polynomial is added when the bit that leaves differs from the bit that enters.
\<close>

definition lfsr_bit :: "u8 \<Rightarrow> bool \<Rightarrow> u8" where
  "lfsr_bit r b = ((push_bit 1 r AND 0x7f) XOR (if bit r 6 \<noteq> b then 0x09 else 0))"

definition msb_bits :: "u8 \<Rightarrow> bool list" where
  "msb_bits b = map (\<lambda>i. bit b (7 - i)) [0..<8]"

definition lfsr_byte :: "u8 \<Rightarrow> u8 \<Rightarrow> u8" where
  "lfsr_byte r b = foldl lfsr_bit r (msb_bits b)"

section \<open>Equivalence\<close>

text \<open>
  The register moved to the top of a byte, with the message bits still to come below it.
\<close>

definition top_step :: "u8 \<Rightarrow> u8" where
  "top_step x = (if bit x 7 then push_bit 1 x XOR 0x12 else push_bit 1 x)"

definition top8 :: "u8 \<Rightarrow> u8" where
  "top8 x = top_step (top_step (top_step (top_step (top_step (top_step (top_step (top_step x)))))))"

lemma upto_256: "[0..<256] = 0 # 1 # [2..<256]" and upto_8: "[0..<8] = [0, 1, 2, 3, 4, 5, 6, 7]"
  by (simp_all add: upt_rec [of 0] upt_rec [of "Suc 0"] upt_rec_numeral numeral_2_eq_2 [symmetric])

definition all_bytes :: "u8 list" where
  "all_bytes =
    [0, 1, 2, 3, 4, 5, 6, 7, 8, 9, 10, 11, 12, 13, 14, 15,
     16, 17, 18, 19, 20, 21, 22, 23, 24, 25, 26, 27, 28, 29, 30, 31,
     32, 33, 34, 35, 36, 37, 38, 39, 40, 41, 42, 43, 44, 45, 46, 47,
     48, 49, 50, 51, 52, 53, 54, 55, 56, 57, 58, 59, 60, 61, 62, 63,
     64, 65, 66, 67, 68, 69, 70, 71, 72, 73, 74, 75, 76, 77, 78, 79,
     80, 81, 82, 83, 84, 85, 86, 87, 88, 89, 90, 91, 92, 93, 94, 95,
     96, 97, 98, 99, 100, 101, 102, 103, 104, 105, 106, 107, 108, 109, 110, 111,
     112, 113, 114, 115, 116, 117, 118, 119, 120, 121, 122, 123, 124, 125, 126, 127,
     128, 129, 130, 131, 132, 133, 134, 135, 136, 137, 138, 139, 140, 141, 142, 143,
     144, 145, 146, 147, 148, 149, 150, 151, 152, 153, 154, 155, 156, 157, 158, 159,
     160, 161, 162, 163, 164, 165, 166, 167, 168, 169, 170, 171, 172, 173, 174, 175,
     176, 177, 178, 179, 180, 181, 182, 183, 184, 185, 186, 187, 188, 189, 190, 191,
     192, 193, 194, 195, 196, 197, 198, 199, 200, 201, 202, 203, 204, 205, 206, 207,
     208, 209, 210, 211, 212, 213, 214, 215, 216, 217, 218, 219, 220, 221, 222, 223,
     224, 225, 226, 227, 228, 229, 230, 231, 232, 233, 234, 235, 236, 237, 238, 239,
     240, 241, 242, 243, 244, 245, 246, 247, 248, 249, 250, 251, 252, 253, 254, 255]"

lemma all_bytes_upto: "all_bytes = map of_nat [0..<256]"
  by (simp add: all_bytes_def upto_256 upt_rec_numeral)

lemma top8_all_bytes: "map top8 all_bytes = crc_table"
  unfolding crc_table_def all_bytes_def by (simp add: top8_def top_step_def)

lemma crc_table_nth: "crc_table ! unat x = top8 x"
proof -
  have "unat x < 256" using unsigned_less [of x, where ?'a = nat] by simp
  then show ?thesis unfolding top8_all_bytes [symmetric] all_bytes_upto by simp
qed

lemma u8_eqI:
  fixes x y :: u8
  assumes "bit x 0 = bit y 0" "bit x 1 = bit y 1" "bit x 2 = bit y 2" "bit x 3 = bit y 3"
    "bit x 4 = bit y 4" "bit x 5 = bit y 5" "bit x 6 = bit y 6" "bit x 7 = bit y 7"
  shows "x = y"
proof (rule bit_eqI)
  fix n assume "possible_bit TYPE(8 word) n"
  then have "n < 8" by simp
  then consider "n = 0" | "n = 1" | "n = 2" | "n = 3" | "n = 4" | "n = 5" | "n = 6" | "n = 7" by linarith
  then show "bit x n = bit y n" using assms by cases simp_all
qed

definition shl :: "u8 \<Rightarrow> u8" where "shl x = push_bit (Suc 0) x"

lemma bit_push_1: "bit (shl x) n \<longleftrightarrow> 0 < n \<and> n < 8 \<and> bit x (n - 1)"
  unfolding shl_def bit_push_bit_iff by auto

lemma shl_0 [simp]: "shl 0 = 0" by (simp add: shl_def)

lemma lfsr_bit_bits:
  "\<not> bit (lfsr_bit r b) 7" "bit (lfsr_bit r b) 0 \<longleftrightarrow> bit r 6 \<noteq> b" "bit (lfsr_bit r b) 1 \<longleftrightarrow> bit r 0"
  "bit (lfsr_bit r b) 2 \<longleftrightarrow> bit r 1" "bit (lfsr_bit r b) 3 \<longleftrightarrow> bit r 2 \<noteq> (bit r 6 \<noteq> b)"
  "bit (lfsr_bit r b) 4 \<longleftrightarrow> bit r 3" "bit (lfsr_bit r b) 5 \<longleftrightarrow> bit r 4" "bit (lfsr_bit r b) 6 \<longleftrightarrow> bit r 5"
  unfolding lfsr_bit_def One_nat_def shl_def [symmetric] bit_xor_iff bit_and_iff bit_push_1 by (auto simp: bit_simps)

lemma top_step_lfsr:
  "top_step (shl r XOR x) = shl (lfsr_bit r (bit x 7)) XOR shl x"
  unfolding top_step_def One_nat_def shl_def [symmetric]
  by (rule u8_eqI) (auto simp: bit_xor_iff bit_push_1 lfsr_bit_bits lfsr_bit_bits(3) [unfolded One_nat_def])

lemma top8_lfsr: "top8 (shl r XOR b) = shl (lfsr_byte r b)"
proof -
  have m: "msb_bits b = [bit b 7, bit b 6, bit b 5, bit b 4, bit b 3, bit b 2, bit b 1, bit b 0]"
    by (simp add: msb_bits_def upto_8)
  have z: "shl (shl (shl (shl (shl (shl (shl (shl b))))))) = 0"
    by (rule u8_eqI) (simp_all only: bit_push_1, simp_all)
  show ?thesis
    unfolding top8_def top_step_lfsr lfsr_byte_def m z by (simp add: bit_push_1)
qed

lemma crc7_step_lfsr: "crc7_step (shl r) b = shl (lfsr_byte r b)"
proof -
  have "(shl r XOR b) AND 0xff = shl r XOR b"
    by (rule u8_eqI) (auto simp: bit_and_iff bit_xor_iff bit_push_1)
  then have "crc7_step (shl r) b
      = (shl (lfsr_byte r b) XOR push_bit 7 (shl r)) AND 0xfe"
    by (simp add: crc7_step_def Let_def crc_table_nth top8_lfsr)
  also have "\<dots> = shl (lfsr_byte r b)"
    by (rule u8_eqI) (auto simp: bit_and_iff bit_xor_iff bit_push_1 bit_simps)
  finally show ?thesis .
qed

lemma crc7_fold_lfsr: "foldl crc7_step (shl r) data = shl (foldl lfsr_byte r data)"
  by (induction data arbitrary: r) (simp_all add: crc7_step_lfsr)

lemma lfsr_bits_low: "\<not> bit r 7 \<Longrightarrow> \<not> bit (foldl lfsr_bit r bs) 7"
  by (induction bs arbitrary: r) (simp_all add: lfsr_bit_bits)

lemma lfsr_bytes_low: "\<not> bit r 7 \<Longrightarrow> \<not> bit (foldl lfsr_byte r bs) 7"
  by (induction bs arbitrary: r) (simp_all add: lfsr_byte_def lfsr_bits_low)

text \<open>
  C22. The table-driven checksum is the CRC-7 of the SD protocol: for every message the
  value computed from \<open>crc_table\<close> is the register of the bit-serial shift register with
  polynomial \<open>x^7 + x^3 + 1\<close>, started at zero and fed the message most significant bit
  first.
\<close>

theorem crc7_reference:
  "crc7_finalize (crc7_update crc7_init data) = foldl lfsr_byte 0 data"
proof -
  let ?r = "foldl lfsr_byte 0 data"
  have "crc7_update crc7_init data = shl ?r AND 0xfe"
    using crc7_fold_lfsr [of 0 data] by (simp add: crc7_update_def crc7_init_def)
  moreover have "\<not> bit ?r 7" by (rule lfsr_bytes_low) simp
  ultimately show ?thesis
    by (intro u8_eqI) (simp_all add: crc7_finalize_def bit_simps bit_push_1 flip: numeral_2_eq_2)
qed

end
