(* ===== verification/Mmc.thy ===== *)
theory Mmc
  imports Common Crc7
begin

text \<open>
  The SD card driver \<open>src/lib/stm32/mmc.c\<close> and the disk layer \<open>src/lib/fatfs/mmc_diskio.c\<close>
  on top of it. The SPI bus is full duplex: every exchange logs the bytes sent in
  \<open>wire_out\<close> and takes as many from \<open>wire_in\<close>, the bytes the card will send, the line
  being high (\<open>0xFF\<close>) when the card is silent. \<open>ticks\<close> are the successive results of
  \<open>xTaskGetTickCount\<close>; a polling loop that has used them up is \<open>Fuel\<close>. Every turn of a
  polling loop reads the tick counter, so one turn more than there are readings is fuel
  enough for each of them. Delays are not modelled.
\<close>

section \<open>State and bus\<close>

datatype mmc_state_t = MMC_UNLOADED | MMC_READY | MMC_READING | MMC_WRITING

record mmc =
  mmc_state :: mmc_state_t
  mmc_block_mode :: bool
  cs_low :: bool
  spi_cr1 :: u16
  wire_out :: "u8 list"
  wire_in :: "u8 list"
  ticks :: "u32 list"

definition MMC_RESET_DEADLINE :: u32 where "MMC_RESET_DEADLINE = 10"
definition MMC_INIT_DEADLINE :: u32 where "MMC_INIT_DEADLINE = 100"
definition MMC_DATA_DEADLINE :: u32 where "MMC_DATA_DEADLINE = 10"
definition MMC_IDLE_DEADLINE :: u32 where "MMC_IDLE_DEADLINE = 100"

definition MMC_CMDGOIDLE :: u8 where "MMC_CMDGOIDLE = 0"
definition MMC_CMDINIT :: u8 where "MMC_CMDINIT = 1"
definition MMC_CMDINTERFACE_CONDITION :: u8 where "MMC_CMDINTERFACE_CONDITION = 8"
definition MMC_CMDSTOP :: u8 where "MMC_CMDSTOP = 12"
definition MMC_CMDSETBLOCKLEN :: u8 where "MMC_CMDSETBLOCKLEN = 16"
definition MMC_CMDREADMULTIPLE :: u8 where "MMC_CMDREADMULTIPLE = 18"
definition MMC_CMDAPP :: u8 where "MMC_CMDAPP = 55"
definition MMC_CMDREADOCR :: u8 where "MMC_CMDREADOCR = 58"
definition MMC_ACMDOPCONDITION :: u8 where "MMC_ACMDOPCONDITION = 41"

definition SPI_CR1_SPE :: u16 where "SPI_CR1_SPE = 0x40"
definition SPI_CR1_BR_2 :: u16 where "SPI_CR1_BR_2 = 0x20"
definition SPI_CR1_BR_1 :: u16 where "SPI_CR1_BR_1 = 0x10"


definition spi_exchange :: "u8 list option \<Rightarrow> nat \<Rightarrow> mmc \<Rightarrow> u8 list \<times> mmc" where
  "spi_exchange tx n s =
     (let out = (case tx of Some b \<Rightarrow> b | None \<Rightarrow> replicate n 0xFF) in
      (take n (wire_in s @ replicate n 0xFF),
       s\<lparr>wire_out := wire_out s @ out, wire_in := drop n (wire_in s)\<rparr>))"

definition spi_select :: "mmc \<Rightarrow> mmc" where "spi_select s = s\<lparr>cs_low := True\<rparr>"
definition spi_deselect :: "mmc \<Rightarrow> mmc" where "spi_deselect s = s\<lparr>cs_low := False\<rparr>"

definition get_tick :: "mmc \<Rightarrow> (u32 \<times> mmc) res" where
  "get_tick s = (case ticks s of [] \<Rightarrow> Inl Fuel | t # ts \<Rightarrow> Inr (t, s\<lparr>ticks := ts\<rparr>))"

definition recv1 :: "mmc \<Rightarrow> u8 \<times> mmc" where
  "recv1 s = (let (r, s) = spi_exchange None 1 s in (hd r, s))"

section \<open>Low level\<close>

fun idle_try :: "nat \<Rightarrow> mmc \<Rightarrow> bool \<times> mmc" where
  "idle_try 0 s = (False, s)"
| "idle_try (Suc k) s =
     (let (result, s) = recv1 s in if result = 0xFF then (True, s) else idle_try k s)"

fun idle_loop :: "nat \<Rightarrow> u32 \<Rightarrow> mmc \<Rightarrow> mmc res" where
  "idle_loop 0 start s = Inl Fuel"
| "idle_loop (Suc n) start s =
     (let (result, s) = recv1 s in
      if result = 0xFF then Inr s
      else rbind (get_tick s) (\<lambda>(t, s).
           if t - start > MMC_IDLE_DEADLINE then Inr s else idle_loop n start s))"

definition mmc_ll_wait_idle :: "mmc \<Rightarrow> mmc res" where
  "mmc_ll_wait_idle s =
     (let (found, s) = idle_try 16 s in
      if found then Inr s
      else rbind (get_tick s) (\<lambda>(start, s). idle_loop (Suc (length (ticks s))) start s))"

definition mmc_header :: "u8 \<Rightarrow> u32 \<Rightarrow> u8 list" where
  "mmc_header cmd arg =
     (let buf = [0x40 OR cmd, ucast (drop_bit 24 arg), ucast (drop_bit 16 arg), ucast (drop_bit 8 arg), ucast arg];
          crc = crc7_update crc7_init buf in
      buf @ [push_bit 1 (crc7_finalize crc) OR 0x01])"

definition mmc_ll_send_header :: "u8 \<Rightarrow> u32 \<Rightarrow> mmc \<Rightarrow> mmc" where
  "mmc_ll_send_header cmd arg s = snd (spi_exchange (Some (mmc_header cmd arg)) 6 s)"

fun r1_try :: "nat \<Rightarrow> mmc \<Rightarrow> u8 \<times> mmc" where
  "r1_try 0 s = (0xFF, s)"
| "r1_try (Suc k) s =
     (let (r, s) = recv1 s in if r \<noteq> 0xFF then (r, s) else r1_try k s)"

definition mmc_ll_receive_r1 :: "mmc \<Rightarrow> u8 \<times> mmc" where
  "mmc_ll_receive_r1 s = r1_try 9 s"

definition mmc_cmd_r1 :: "u8 \<Rightarrow> u32 \<Rightarrow> mmc \<Rightarrow> (u8 \<times> mmc) res" where
  "mmc_cmd_r1 cmd arg s =
     (let s = spi_select s in
      rbind (if cmd \<noteq> MMC_CMDGOIDLE then mmc_ll_wait_idle s else Inr s) (\<lambda>s.
      let s = mmc_ll_send_header cmd arg s; (ret, s) = mmc_ll_receive_r1 s in
      Inr (ret, spi_deselect s)))"

definition mmc_cmd_r3 :: "u8 \<Rightarrow> u32 \<Rightarrow> mmc \<Rightarrow> (u8 \<times> u8 list \<times> mmc) res" where
  "mmc_cmd_r3 cmd arg s =
     (let s = spi_select s in
      rbind (mmc_ll_wait_idle s) (\<lambda>s.
      let s = mmc_ll_send_header cmd arg s; (ret, s) = mmc_ll_receive_r1 s;
          (buf, s) = spi_exchange None 4 s in
      Inr (ret, buf, spi_deselect s)))"

section \<open>Connecting\<close>

definition mmc_start :: "mmc \<Rightarrow> mmc" where
  "mmc_start s = s\<lparr>mmc_state := MMC_UNLOADED, mmc_block_mode := False\<rparr>"

text \<open>
  The three polling loops of \<open>mmc_connect\<close>. Each returns \<open>0\<close> to go on and otherwise the
  code with which \<open>mmc_connect\<close> returns, the state being set to \<open>MMC_UNLOADED\<close> then.
\<close>

fun reset_loop :: "nat \<Rightarrow> u32 \<Rightarrow> mmc \<Rightarrow> (int \<times> mmc) res" where
  "reset_loop 0 start s = Inl Fuel"
| "reset_loop (Suc n) start s =
     rbind (mmc_cmd_r1 MMC_CMDGOIDLE 0 s) (\<lambda>(r, s).
     if r = 0x01 then Inr (EERR_OK, s)
     else rbind (get_tick s) (\<lambda>(t, s).
          if t - start > MMC_RESET_DEADLINE then Inr (EERR_TIMEOUT, s\<lparr>mmc_state := MMC_UNLOADED\<rparr>)
          else reset_loop n start s))"

fun v2_loop :: "nat \<Rightarrow> u32 \<Rightarrow> mmc \<Rightarrow> (int \<times> mmc) res" where
  "v2_loop 0 start s = Inl Fuel"
| "v2_loop (Suc n) start s =
     rbind (mmc_cmd_r1 MMC_CMDAPP 0 s) (\<lambda>(r, s).
     rbind (if r = 0x01
            then rbind (mmc_cmd_r3 MMC_ACMDOPCONDITION 0x400001aa s) (\<lambda>(r, buf, s). Inr (r = 0x00, s))
            else Inr (False, s)) (\<lambda>(brk, s).
     if brk then Inr (EERR_OK, s)
     else rbind (get_tick s) (\<lambda>(t, s).
          if t - start > MMC_INIT_DEADLINE then Inr (EERR_TIMEOUT, s\<lparr>mmc_state := MMC_UNLOADED\<rparr>)
          else v2_loop n start s)))"

fun v1_loop :: "nat \<Rightarrow> u32 \<Rightarrow> mmc \<Rightarrow> (int \<times> mmc) res" where
  "v1_loop 0 start s = Inl Fuel"
| "v1_loop (Suc k) start s =
     rbind (mmc_cmd_r1 MMC_CMDINIT 0 s) (\<lambda>(n, s).
     if n = 0x00 then Inr (EERR_OK, s)
     else if n \<noteq> 0x01 then Inr (EERR_FAULT, s\<lparr>mmc_state := MMC_UNLOADED\<rparr>)
     else rbind (get_tick s) (\<lambda>(t, s).
          if t - start > MMC_INIT_DEADLINE then Inr (EERR_TIMEOUT, s\<lparr>mmc_state := MMC_UNLOADED\<rparr>)
          else v1_loop k start s))"

definition polled :: "(nat \<Rightarrow> u32 \<Rightarrow> mmc \<Rightarrow> 'a res) \<Rightarrow> mmc \<Rightarrow> 'a res" where
  "polled loop s = rbind (get_tick s) (\<lambda>(start, s). loop (Suc (length (ticks s))) start s)"

definition mmc_detect :: "mmc \<Rightarrow> (int \<times> mmc) res" where
  "mmc_detect s =
     rbind (mmc_cmd_r3 MMC_CMDINTERFACE_CONDITION 0x01AA s) (\<lambda>(r, buf, s).
     if r \<noteq> 0x05
     then rbind (polled v2_loop s) (\<lambda>(rc, s).
          if rc \<noteq> 0 then Inr (rc, s)
          else rbind (mmc_cmd_r3 MMC_CMDREADOCR 0 s) (\<lambda>(r, buf, s).
               Inr (0, if buf ! 0 AND 0x40 \<noteq> 0 then s\<lparr>mmc_block_mode := True\<rparr> else s)))
     else polled v1_loop s)"

definition mmc_connect :: "mmc \<Rightarrow> (int \<times> mmc) res" where
  "mmc_connect s =
     (let s = spi_deselect s;
          s = s\<lparr>spi_cr1 := spi_cr1 s AND NOT SPI_CR1_SPE\<rparr>;
          s = s\<lparr>spi_cr1 := spi_cr1 s OR (SPI_CR1_SPE OR SPI_CR1_BR_2 OR SPI_CR1_BR_1)\<rparr>;
          s = snd (spi_exchange None 16 s) in
      rbind (polled reset_loop s) (\<lambda>(rc, s).
      if rc \<noteq> 0 then Inr (rc, s)
      else rbind (mmc_detect s) (\<lambda>(rc, s).
      if rc \<noteq> 0 then Inr (rc, s)
      else let s = s\<lparr>spi_cr1 := spi_cr1 s AND NOT (SPI_CR1_SPE OR SPI_CR1_BR_2 OR SPI_CR1_BR_1)\<rparr>;
               s = s\<lparr>spi_cr1 := spi_cr1 s OR SPI_CR1_SPE\<rparr> in
           rbind (mmc_cmd_r1 MMC_CMDSETBLOCKLEN 512 s) (\<lambda>(r, s).
           if r \<noteq> 0 then Inr (EERR_FAULT, s\<lparr>mmc_state := MMC_UNLOADED\<rparr>)
           else Inr (EERR_OK, s\<lparr>mmc_state := MMC_READY\<rparr>)))))"

definition mmc_sync :: "mmc \<Rightarrow> mmc res" where
  "mmc_sync s = rbind (mmc_ll_wait_idle (spi_select s)) (\<lambda>s. Inr (spi_deselect s))"

definition mmc_disconnect :: "mmc \<Rightarrow> (int \<times> mmc) res" where
  "mmc_disconnect s =
     (if mmc_state s = MMC_UNLOADED then Inr (EERR_OK, s)
      else if mmc_state s \<noteq> MMC_READY then Inr (EERR_INVALID, s)
      else rbind (mmc_sync s) (\<lambda>s.
           let s = s\<lparr>mmc_state := MMC_UNLOADED\<rparr>; s = snd (spi_exchange None 16 s) in
           Inr (EERR_OK, s)))"

section \<open>Reading\<close>

definition mmc_start_read :: "u32 \<Rightarrow> mmc \<Rightarrow> (int \<times> mmc) res" where
  "mmc_start_read lba s =
     (if mmc_state s \<noteq> MMC_READY then Inr (EERR_INVALID, s)
      else let s = spi_select (s\<lparr>mmc_state := MMC_READING\<rparr>) in
           rbind (mmc_ll_wait_idle s) (\<lambda>s.
           let s = (if mmc_block_mode s then mmc_ll_send_header MMC_CMDREADMULTIPLE lba s
                    else mmc_ll_send_header MMC_CMDREADMULTIPLE (lba * 512) s);
               (rc, s) = mmc_ll_receive_r1 s in
           if rc \<noteq> 0x00 then Inr (EERR_FAULT, (spi_deselect s)\<lparr>mmc_state := MMC_READY\<rparr>)
           else Inr (EERR_OK, s)))"

fun sector_loop :: "nat \<Rightarrow> u32 \<Rightarrow> mmc \<Rightarrow> (int \<times> u8 list \<times> mmc) res" where
  "sector_loop 0 start s = Inl Fuel"
| "sector_loop (Suc n) start s =
     (let (r, s) = recv1 s in
      if r = 0xFE
      then let (out, s) = spi_exchange None 512 s; s = snd (spi_exchange None 2 s) in
           Inr (EERR_OK, out, s)
      else rbind (get_tick s) (\<lambda>(t, s).
           if t - start > MMC_DATA_DEADLINE
           then let s = spi_deselect s;
                    s = (if mmc_state s = MMC_READING then s\<lparr>mmc_state := MMC_READY\<rparr> else s) in
                Inr (EERR_TIMEOUT, [], s)
           else sector_loop n start s))"

definition mmc_read_sector :: "mmc \<Rightarrow> (int \<times> u8 list \<times> mmc) res" where
  "mmc_read_sector s =
     (if mmc_state s \<noteq> MMC_READING then Inr (EERR_INVALID, [], s) else polled sector_loop s)"

definition mmc_stop_read :: "mmc \<Rightarrow> (int \<times> mmc) res" where
  "mmc_stop_read s =
     (if mmc_state s \<noteq> MMC_READING then Inr (EERR_INVALID, s)
      else let s = snd (spi_exchange (Some [0x40 OR MMC_CMDSTOP, 0, 0, 0, 0, 1, 0xFF]) 7 s);
               (r, s) = mmc_ll_receive_r1 s in
           Inr (EERR_OK, (spi_deselect s)\<lparr>mmc_state := MMC_READY\<rparr>))"

section \<open>Disk layer\<close>

datatype DRESULT = RES_OK | RES_ERROR | RES_WRPRT | RES_NOTRDY | RES_PARERR

definition STA_NODISK :: u8 where "STA_NODISK = 2"

definition disk_initialize :: "mmc \<Rightarrow> u8" where
  "disk_initialize s = (if mmc_state s = MMC_UNLOADED then STA_NODISK else 0)"

definition disk_status :: "mmc \<Rightarrow> u8" where
  "disk_status s = (if mmc_state s = MMC_UNLOADED then STA_NODISK else 0)"

fun read_sectors :: "nat \<Rightarrow> u8 list \<Rightarrow> mmc \<Rightarrow> (bool \<times> u8 list \<times> mmc) res" where
  "read_sectors 0 buff s = Inr (True, buff, s)"
| "read_sectors (Suc count) buff s =
     rbind (mmc_read_sector s) (\<lambda>(rc, out, s).
     if rc \<noteq> 0 then Inr (False, buff @ out, s)
     else read_sectors count (buff @ out) s)"

definition disk_read :: "u32 \<Rightarrow> u8 \<Rightarrow> mmc \<Rightarrow> (DRESULT \<times> u8 list \<times> mmc) res" where
  "disk_read sector count s =
     (if mmc_state s \<noteq> MMC_READY then Inr (RES_NOTRDY, [], s)
      else rbind (mmc_start_read sector s) (\<lambda>(rc, s).
      if rc \<noteq> 0 then Inr (RES_ERROR, [], s)
      else rbind (read_sectors (unat count) [] s) (\<lambda>(ok, buff, s).
      if \<not> ok then Inr (RES_ERROR, buff, s)
      else rbind (mmc_stop_read s) (\<lambda>(rc, s).
           if rc \<noteq> 0 then Inr (RES_ERROR, buff, s) else Inr (RES_OK, buff, s)))))"

definition disk_write :: DRESULT where "disk_write = RES_PARERR"

definition disk_ioctl :: DRESULT where "disk_ioctl = RES_PARERR"

section \<open>Chip select discipline\<close>

named_theorems bus_simps \<open>what the bus operations leave alone\<close>

lemma spi_exchange_frame [bus_simps]:
  "mmc_state (snd (spi_exchange tx n s)) = mmc_state s" "cs_low (snd (spi_exchange tx n s)) = cs_low s"
  by (simp_all add: spi_exchange_def Let_def)

lemma recv1_frame [bus_simps]:
  "mmc_state (snd (recv1 s)) = mmc_state s" "cs_low (snd (recv1 s)) = cs_low s"
  by (simp_all add: recv1_def case_prod_beta bus_simps)

lemma get_tick_frame: "get_tick s = Inr p \<Longrightarrow> mmc_state (snd p) = mmc_state s \<and> cs_low (snd p) = cs_low s"
  by (auto simp: get_tick_def split: list.splits)

lemma idle_try_frame [bus_simps]:
  "mmc_state (snd (idle_try n s)) = mmc_state s" "cs_low (snd (idle_try n s)) = cs_low s"
  by (induction n arbitrary: s) (simp_all add: case_prod_beta bus_simps)

lemma r1_frame [bus_simps]:
  "mmc_state (snd (mmc_ll_receive_r1 s)) = mmc_state s" "cs_low (snd (mmc_ll_receive_r1 s)) = cs_low s"
proof -
  have "mmc_state (snd (r1_try n s)) = mmc_state s \<and> cs_low (snd (r1_try n s)) = cs_low s" for n
    by (induction n arbitrary: s) (simp_all add: case_prod_beta bus_simps)
  then show "mmc_state (snd (mmc_ll_receive_r1 s)) = mmc_state s" "cs_low (snd (mmc_ll_receive_r1 s)) = cs_low s"
    by (simp_all add: mmc_ll_receive_r1_def)
qed

lemma send_header_frame [bus_simps]:
  "mmc_state (mmc_ll_send_header c a s) = mmc_state s" "cs_low (mmc_ll_send_header c a s) = cs_low s"
  by (simp_all add: mmc_ll_send_header_def bus_simps)

lemma select_frame [bus_simps]:
  "mmc_state (spi_select s) = mmc_state s" "cs_low (spi_select s)"
  "mmc_state (spi_deselect s) = mmc_state s" "\<not> cs_low (spi_deselect s)"
  by (simp_all add: spi_select_def spi_deselect_def)

lemma idle_loop_frame: "idle_loop n start s = Inr t \<Longrightarrow> mmc_state t = mmc_state s \<and> cs_low t = cs_low s"
proof (induction n arbitrary: s)
  case (Suc n)
  from Suc.prems show ?case
    by (auto simp: case_prod_beta bus_simps split: if_splits dest!: get_tick_frame Suc.IH)
qed simp

lemma wait_idle_frame: "mmc_ll_wait_idle s = Inr t \<Longrightarrow> mmc_state t = mmc_state s \<and> cs_low t = cs_low s"
  by (auto simp: mmc_ll_wait_idle_def case_prod_beta bus_simps split: if_splits dest!: get_tick_frame idle_loop_frame)

lemma cmd_r1_frame: "mmc_cmd_r1 cmd arg s = Inr p \<Longrightarrow> mmc_state (snd p) = mmc_state s \<and> \<not> cs_low (snd p)"
  by (auto simp: mmc_cmd_r1_def Let_def case_prod_beta bus_simps split: if_splits dest!: wait_idle_frame)

lemma cmd_r3_frame:
  "mmc_cmd_r3 cmd arg s = Inr p \<Longrightarrow> mmc_state (snd (snd p)) = mmc_state s \<and> \<not> cs_low (snd (snd p))"
  by (auto simp: mmc_cmd_r3_def Let_def case_prod_beta bus_simps split: if_splits dest!: wait_idle_frame)

text \<open>
  What every public operation keeps: the card is selected exactly while a multi-block read
  is open, and the unused writing state is never entered.
\<close>

definition bus_ok :: "mmc \<Rightarrow> bool" where
  "bus_ok s \<longleftrightarrow> (cs_low s \<longleftrightarrow> mmc_state s = MMC_READING) \<and> mmc_state s \<noteq> MMC_WRITING"

lemma reset_loop_frame:
  "reset_loop n start s = Inr p \<Longrightarrow> \<not> cs_low (snd p) \<and> (fst p \<noteq> 0 \<longrightarrow> mmc_state (snd p) = MMC_UNLOADED)"
proof (induction n arbitrary: s)
  case (Suc n)
  then show ?case
    by (auto simp: case_prod_beta eerr_defs split: if_splits dest!: cmd_r1_frame get_tick_frame)
qed simp

lemma v2_loop_frame:
  "v2_loop n start s = Inr p \<Longrightarrow> \<not> cs_low (snd p) \<and> (fst p \<noteq> 0 \<longrightarrow> mmc_state (snd p) = MMC_UNLOADED)"
proof (induction n arbitrary: s)
  case (Suc n)
  then show ?case
    by (auto simp: case_prod_beta eerr_defs split: if_splits dest!: cmd_r1_frame cmd_r3_frame get_tick_frame)
qed simp

lemma v1_loop_frame:
  "v1_loop n start s = Inr p \<Longrightarrow> \<not> cs_low (snd p) \<and> (fst p \<noteq> 0 \<longrightarrow> mmc_state (snd p) = MMC_UNLOADED)"
proof (induction n arbitrary: s)
  case (Suc n)
  then show ?case
    by (auto simp: case_prod_beta eerr_defs split: if_splits dest!: cmd_r1_frame get_tick_frame)
qed simp


declare reset_loop.simps [simp del] v1_loop.simps [simp del] v2_loop.simps [simp del] idle_loop.simps [simp del]

lemma detect_frame:
  "mmc_detect s = Inr p \<Longrightarrow> \<not> cs_low (snd p) \<and> (fst p \<noteq> 0 \<longrightarrow> mmc_state (snd p) = MMC_UNLOADED)"
  by (auto simp: mmc_detect_def polled_def case_prod_beta split: if_splits
      dest!: cmd_r3_frame v1_loop_frame v2_loop_frame)

lemma connect_frame:
  assumes "mmc_connect s = Inr p"
  shows "\<not> cs_low (snd p) \<and> mmc_state (snd p) = (if fst p = 0 then MMC_READY else MMC_UNLOADED)"
  using assms unfolding mmc_connect_def Let_def
  by (auto simp: polled_def case_prod_beta eerr_defs split: if_splits
      dest!: reset_loop_frame detect_frame cmd_r1_frame)

lemma disconnect_ok: "mmc_disconnect s = Inr p \<Longrightarrow> bus_ok s \<Longrightarrow> bus_ok (snd p)"
  by (auto simp: mmc_disconnect_def mmc_sync_def bus_ok_def Let_def bus_simps split: if_splits)

lemma start_read_ok:
  "mmc_start_read lba s = Inr p \<Longrightarrow> bus_ok s \<Longrightarrow> bus_ok (snd p)"
  "mmc_start_read lba s = Inr p \<Longrightarrow> mmc_state s = MMC_READY \<Longrightarrow>
     mmc_state (snd p) = (if fst p = 0 then MMC_READING else MMC_READY)"
  by (auto simp: mmc_start_read_def bus_ok_def Let_def case_prod_beta bus_simps eerr_defs
      split: if_splits dest!: wait_idle_frame)

lemma sector_loop_ok:
  "sector_loop n start s = Inr p \<Longrightarrow> mmc_state s = MMC_READING \<Longrightarrow> cs_low s \<Longrightarrow>
   bus_ok (snd (snd p)) \<and> mmc_state (snd (snd p)) = (if fst p = 0 then MMC_READING else MMC_READY)"
proof (induction n arbitrary: s)
  case (Suc n)
  from Suc.prems show ?case
    by (auto simp: case_prod_beta Let_def bus_simps bus_ok_def eerr_defs split: if_splits dest!: get_tick_frame Suc.IH)
qed simp

declare sector_loop.simps [simp del]

lemma read_sector_ok:
  assumes "mmc_read_sector s = Inr p" "bus_ok s"
  shows "bus_ok (snd (snd p))"
    "mmc_state s = MMC_READING \<Longrightarrow> mmc_state (snd (snd p)) = (if fst p = 0 then MMC_READING else MMC_READY)"
  using assms
  by (auto simp: mmc_read_sector_def polled_def bus_ok_def split: if_splits dest!: get_tick_frame sector_loop_ok)

lemma stop_read_ok: "mmc_stop_read s = Inr p \<Longrightarrow> bus_ok s \<Longrightarrow> bus_ok (snd p)"
  by (auto simp: mmc_stop_read_def bus_ok_def Let_def case_prod_beta bus_simps split: if_splits)

lemma read_sectors_ok:
  "read_sectors n b s = Inr p \<Longrightarrow> bus_ok s \<Longrightarrow> mmc_state s = MMC_READING \<Longrightarrow>
   bus_ok (snd (snd p)) \<and> mmc_state (snd (snd p)) = (if fst p then MMC_READING else MMC_READY)"
proof (induction n arbitrary: b s)
  case (Suc n)
  from Suc.prems(1) obtain q where q: "mmc_read_sector s = Inr q"
    "(if fst q \<noteq> 0 then Inr (False, b @ fst (snd q), snd (snd q))
      else read_sectors n (b @ fst (snd q)) (snd (snd q))) = Inr p"
    by (auto simp: case_prod_beta)
  from read_sector_ok [OF q(1) Suc.prems(2)] Suc.prems(3) q(2) show ?case
    by (auto split: if_splits dest!: Suc.IH)
qed auto

lemma disk_read_ok:
  assumes "disk_read sector count s = Inr p" "bus_ok s"
  shows "bus_ok (snd (snd p))"
proof (cases "mmc_state s = MMC_READY")
  case True
  with assms(1) obtain q where q: "mmc_start_read sector s = Inr q"
    "(if fst q \<noteq> 0 then Inr (RES_ERROR, [], snd q)
      else rbind (read_sectors (unat count) [] (snd q)) (\<lambda>(ok, buff, s).
        if \<not> ok then Inr (RES_ERROR, buff, s)
        else rbind (mmc_stop_read s) (\<lambda>(rc, s).
             if rc \<noteq> 0 then Inr (RES_ERROR, buff, s) else Inr (RES_OK, buff, s)))) = Inr p"
    by (auto simp: disk_read_def case_prod_beta)
  note s = start_read_ok(1) [OF q(1) assms(2)] start_read_ok(2) [OF q(1) True]
  show ?thesis
  proof (cases "fst q = 0")
    case True
    with q(2) obtain r where r: "read_sectors (unat count) [] (snd q) = Inr r"
      "(if \<not> fst r then Inr (RES_ERROR, fst (snd r), snd (snd r))
        else rbind (mmc_stop_read (snd (snd r))) (\<lambda>(rc, s).
             if rc \<noteq> 0 then Inr (RES_ERROR, fst (snd r), s) else Inr (RES_OK, fst (snd r), s))) = Inr p"
      by (auto simp: case_prod_beta)
    have "bus_ok (snd (snd r))" using read_sectors_ok [OF r(1) s(1)] s(2) True by simp
    then show ?thesis using r(2) by (auto simp: case_prod_beta split: if_splits dest: stop_read_ok)
  qed (use q(2) s(1) in auto)
qed (use assms in \<open>auto simp: disk_read_def\<close>)

datatype mmc_op = Connect | Disconnect | StartRead u32 | ReadSector | StopRead | DiskRead u32 u8 | Sync | Start

fun mmc_run_op :: "mmc_op \<Rightarrow> mmc \<Rightarrow> mmc res" where
  "mmc_run_op Sync s = mmc_sync s"
| "mmc_run_op Start s = Inr (mmc_start s)"
| "mmc_run_op Connect s = rbind (mmc_connect s) (\<lambda>(_, s). Inr s)"
| "mmc_run_op Disconnect s = rbind (mmc_disconnect s) (\<lambda>(_, s). Inr s)"
| "mmc_run_op (StartRead lba) s = rbind (mmc_start_read lba s) (\<lambda>(_, s). Inr s)"
| "mmc_run_op ReadSector s = rbind (mmc_read_sector s) (\<lambda>(_, _, s). Inr s)"
| "mmc_run_op StopRead s = rbind (mmc_stop_read s) (\<lambda>(_, s). Inr s)"
| "mmc_run_op (DiskRead sector count) s = rbind (disk_read sector count s) (\<lambda>(_, _, s). Inr s)"

fun mmc_run :: "mmc_op list \<Rightarrow> mmc \<Rightarrow> mmc res" where
  "mmc_run [] s = Inr s"
| "mmc_run (x # xs) s = rbind (mmc_run_op x s) (mmc_run xs)"

text \<open>\<open>mmc_sync\<close> and \<open>mmc_start\<close>, which look at no state, are called with no read open.\<close>

fun orderly :: "mmc_op list \<Rightarrow> mmc \<Rightarrow> bool" where
  "orderly [] s = True"
| "orderly (x # xs) s = ((x = Sync \<or> x = Start \<longrightarrow> mmc_state s \<noteq> MMC_READING)
     \<and> (case mmc_run_op x s of Inl _ \<Rightarrow> True | Inr t \<Rightarrow> orderly xs t))"

lemma sync_frame: "mmc_sync s = Inr t \<Longrightarrow> mmc_state t = mmc_state s \<and> \<not> cs_low t"
  by (auto simp: mmc_sync_def bus_simps dest!: wait_idle_frame)

lemma mmc_run_op_ok:
  "bus_ok s \<Longrightarrow> mmc_run_op x s = Inr t \<Longrightarrow> x = Sync \<or> x = Start \<longrightarrow> mmc_state s \<noteq> MMC_READING \<Longrightarrow> bus_ok t"
proof (cases x)
  case Connect
  then show "mmc_run_op x s = Inr t \<Longrightarrow> bus_ok t"
    by (auto simp: case_prod_beta bus_ok_def split: if_splits dest!: connect_frame)
next
  case Sync
  then show "bus_ok s \<Longrightarrow> mmc_run_op x s = Inr t \<Longrightarrow> x = Sync \<or> x = Start \<longrightarrow> mmc_state s \<noteq> MMC_READING \<Longrightarrow> bus_ok t"
    by (auto simp: bus_ok_def dest: sync_frame)
next
  case Start
  then show "bus_ok s \<Longrightarrow> mmc_run_op x s = Inr t \<Longrightarrow> x = Sync \<or> x = Start \<longrightarrow> mmc_state s \<noteq> MMC_READING \<Longrightarrow> bus_ok t"
    by (auto simp: bus_ok_def mmc_start_def)
qed (auto simp: case_prod_beta dest: disconnect_ok start_read_ok read_sector_ok stop_read_ok disk_read_ok)

text \<open>
  C24. The card is selected exactly while a multi-block read is open: after \<open>mmc_start\<close> with the card
  deselected, any sequence of the public operations of the driver and of the disk layer, whatever the card
  answers and whichever deadlines pass, leaves chip select low exactly in the reading state, and never
  enters the writing state, as long as \<open>mmc_sync\<close> and \<open>mmc_start\<close> are called with no read open; within an
  open read \<open>mmc_sync\<close> deselects the card and leaves the state reading, and \<open>mmc_start\<close> forgets the read
  and leaves the card selected.
\<close>

theorem mmc_chip_select:
  assumes "\<not> cs_low s0" "mmc_run ops (mmc_start s0) = Inr s" "orderly ops (mmc_start s0)"
  shows "(cs_low s \<longleftrightarrow> mmc_state s = MMC_READING) \<and> mmc_state s \<noteq> MMC_WRITING
    \<and> (\<forall>t. mmc_state s = MMC_READING \<and> mmc_run_op Sync s = Inr t \<longrightarrow> \<not> cs_low t \<and> mmc_state t = MMC_READING)
    \<and> (\<forall>t. mmc_state s = MMC_READING \<and> mmc_run_op Start s = Inr t \<longrightarrow> cs_low t \<and> mmc_state t = MMC_UNLOADED)"
proof -
  have "bus_ok u \<Longrightarrow> mmc_run ops u = Inr s \<Longrightarrow> orderly ops u \<Longrightarrow> bus_ok s" for u
  proof (induction ops arbitrary: u)
    case (Cons x xs)
    then obtain t where t: "mmc_run_op x u = Inr t" "mmc_run xs t = Inr s" by (cases "mmc_run_op x u") auto
    then have "bus_ok t" using mmc_run_op_ok [OF Cons.prems(1) t(1)] Cons.prems(3) by simp
    then show ?case using Cons.IH t Cons.prems(3) by simp
  qed simp
  moreover have "bus_ok (mmc_start s0)" using assms(1) by (simp add: bus_ok_def mmc_start_def)
  ultimately have "bus_ok s" using assms(2,3) by blast
  then show ?thesis using sync_frame [of s] by (auto simp: bus_ok_def mmc_start_def)
qed

definition mmc0 :: mmc where
  "mmc0 = \<lparr>mmc_state = MMC_READY, mmc_block_mode = True, cs_low = False, spi_cr1 = 0, wire_out = [], wire_in = [], ticks = []\<rparr>"

text \<open>A card of the first version that answers at once.\<close>

definition mmc_card :: mmc where
  "mmc_card = mmc0\<lparr>ticks := [0, 0], wire_in := replicate 22 0xFF @ [1] @ replicate 7 0xFF @ [5, 0, 0, 0, 0] @ replicate 7 0xFF
     @ [0] @ replicate 7 0xFF @ [0] @ replicate 8 0xFF @ [0]\<rparr>"

lemma mmc_card_reading:
  "(case mmc_run [Connect, Sync, StartRead 9] (mmc_start mmc_card) of Inl _ \<Rightarrow> False | Inr t \<Rightarrow> mmc_state t = MMC_READING)"
  "orderly [Connect, Sync, StartRead 9] (mmc_start mmc_card)" "\<not> cs_low mmc_card"
  by code_simp+

theorem mmc_chip_select_witness:
  "\<exists>s. mmc_run [Connect, Sync, StartRead 9] (mmc_start mmc_card) = Inr s \<and> mmc_state s = MMC_READING \<and> cs_low s"
proof -
  obtain s where s: "mmc_run [Connect, Sync, StartRead 9] (mmc_start mmc_card) = Inr s" "mmc_state s = MMC_READING"
    using mmc_card_reading(1) by (cases "mmc_run [Connect, Sync, StartRead 9] (mmc_start mmc_card)") (simp_all del: mmc_run.simps)
  show ?thesis using mmc_chip_select [OF mmc_card_reading(3) s(1) mmc_card_reading(2)] s by blast
qed

section \<open>Reading sectors\<close>

lemma recv1_Cons:
  "wire_in s = b # w \<Longrightarrow> recv1 s = (b, s\<lparr>wire_out := wire_out s @ [0xFF], wire_in := w\<rparr>)"
  by (simp add: recv1_def spi_exchange_def)

lemma spi_exchange_append:
  "wire_in s = b @ w \<Longrightarrow> length b = n \<Longrightarrow>
   spi_exchange tx n s = (b, s\<lparr>wire_out := wire_out s @ (case tx of Some x \<Rightarrow> x | None \<Rightarrow> replicate n 0xFF), wire_in := w\<rparr>)"
  by (auto simp: spi_exchange_def Let_def)

lemma wait_idle_at_once:
  assumes "wire_in s = 0xFF # w"
  shows "mmc_ll_wait_idle s = Inr (s\<lparr>wire_out := wire_out s @ [0xFF], wire_in := w\<rparr>)"
proof -
  have "(16::nat) = Suc 15" by simp
  then show ?thesis unfolding mmc_ll_wait_idle_def by (simp only: idle_try.simps) (simp add: recv1_Cons [OF assms])
qed

lemma receive_r1_at_once:
  assumes "wire_in s = r # w" "r \<noteq> 0xFF"
  shows "mmc_ll_receive_r1 s = (r, s\<lparr>wire_out := wire_out s @ [0xFF], wire_in := w\<rparr>)"
proof -
  have "(9::nat) = Suc 8" by simp
  then show ?thesis unfolding mmc_ll_receive_r1_def by (simp only: r1_try.simps) (simp add: recv1_Cons [OF assms(1)] assms(2))
qed

definition read_arg :: "mmc \<Rightarrow> u32 \<Rightarrow> u32" where
  "read_arg s lba = (if mmc_block_mode s then lba else lba * 512)"

lemma start_read_accepted:
  assumes "mmc_state s = MMC_READY" "wire_in s = 0xFF # hdr @ 0 # w" "length hdr = 6"
  shows "mmc_start_read lba s = Inr (0, s\<lparr>mmc_state := MMC_READING, cs_low := True, wire_in := w,
     wire_out := wire_out s @ 0xFF # mmc_header MMC_CMDREADMULTIPLE (read_arg s lba) @ [0xFF]\<rparr>)"
proof -
  let ?s1 = "spi_select (s\<lparr>mmc_state := MMC_READING\<rparr>)"
  let ?s2 = "?s1\<lparr>wire_out := wire_out s @ [0xFF], wire_in := hdr @ 0 # w\<rparr>"
  have "mmc_ll_wait_idle ?s1 = Inr ?s2"
    using wait_idle_at_once [of ?s1] assms(2) by (simp add: spi_select_def)
  moreover have "mmc_ll_send_header c a ?s2 = ?s2\<lparr>wire_out := wire_out s @ 0xFF # mmc_header c a, wire_in := 0 # w\<rparr>" for c a
    using spi_exchange_append [of ?s2 hdr "0 # w" 6 "Some (mmc_header c a)"] assms(3)
    by (simp add: mmc_ll_send_header_def)
  ultimately show ?thesis
    using assms(1) by (simp add: mmc_start_read_def Let_def receive_r1_at_once read_arg_def spi_select_def EERR_OK_def)
qed

type_synonym sector_frame = "u8 list \<times> u8 list \<times> u8 list"

definition frame_bytes :: "sector_frame \<Rightarrow> u8 list" where
  "frame_bytes f = (case f of (gap, d, crc) \<Rightarrow> gap @ 0xFE # d @ crc)"

definition frame_data :: "sector_frame \<Rightarrow> u8 list" where "frame_data f = fst (snd f)"

definition frame_ok :: "sector_frame \<Rightarrow> bool" where
  "frame_ok f \<longleftrightarrow> (case f of (gap, d, crc) \<Rightarrow> 0xFE \<notin> set gap \<and> length d = 512 \<and> length crc = 2)"

definition frame_polls :: "sector_frame \<Rightarrow> nat" where
  "frame_polls f = (case f of (gap, d, crc) \<Rightarrow> length gap + 1)"

lemma sector_loop_found:
  assumes "0xFE \<notin> set gap" "length d = 512" "length crc = 2" "length gap < n"
    and "wire_in s = gap @ 0xFE # d @ crc @ w" "ticks s = replicate (length gap) start @ ts"
  shows "\<exists>out. sector_loop n start s = Inr (0, d, s\<lparr>wire_in := w, ticks := ts, wire_out := wire_out s @ out\<rparr>)"
  using assms
proof (induction gap arbitrary: n s)
  case Nil
  then obtain m where n: "n = Suc m" by (cases n) auto
  let ?s1 = "s\<lparr>wire_out := wire_out s @ [0xFF], wire_in := d @ crc @ w\<rparr>"
  have "recv1 s = (0xFE, ?s1)" using Nil.prems(5) by (simp add: recv1_Cons)
  moreover have "spi_exchange None 512 ?s1 = (d, ?s1\<lparr>wire_out := wire_out ?s1 @ replicate 512 0xFF, wire_in := crc @ w\<rparr>)"
    using spi_exchange_append [of ?s1 d "crc @ w" 512 None] Nil.prems(2) by simp
  ultimately show ?case
    using spi_exchange_append [of "?s1\<lparr>wire_out := wire_out ?s1 @ replicate 512 0xFF, wire_in := crc @ w\<rparr>" crc w 2 None] Nil.prems(3,6)
    by (intro exI [of _ "0xFF # replicate 512 0xFF @ replicate 2 0xFF"]) (simp add: n sector_loop.simps EERR_OK_def)
next
  case (Cons g gap)
  then obtain m where n: "n = Suc m" "length gap < m" by (cases n) auto
  let ?s1 = "s\<lparr>wire_out := wire_out s @ [0xFF], wire_in := gap @ 0xFE # d @ crc @ w, ticks := replicate (length gap) start @ ts\<rparr>"
  have "\<exists>out. sector_loop m start ?s1 = Inr (0, d, ?s1\<lparr>wire_in := w, ticks := ts, wire_out := wire_out ?s1 @ out\<rparr>)"
    using Cons.prems n by (intro Cons.IH) simp_all
  moreover have "sector_loop n start s = sector_loop m start ?s1"
    using Cons.prems by (simp add: n sector_loop.simps recv1_Cons get_tick_def MMC_DATA_DEADLINE_def)
  ultimately show ?case by auto
qed

lemma read_sector_found:
  assumes "frame_ok f" "mmc_state s = MMC_READING"
    and "wire_in s = frame_bytes f @ w" "ticks s = replicate (frame_polls f) t0 @ ts"
  shows "\<exists>out. mmc_read_sector s = Inr (0, frame_data f, s\<lparr>wire_in := w, ticks := ts, wire_out := wire_out s @ out\<rparr>)"
proof -
  obtain gap d crc where f: "f = (gap, d, crc)" by (cases f)
  let ?s1 = "s\<lparr>ticks := replicate (length gap) t0 @ ts\<rparr>"
  have "\<exists>out. sector_loop (Suc (length (ticks ?s1))) t0 ?s1 = Inr (0, d, ?s1\<lparr>wire_in := w, ticks := ts, wire_out := wire_out ?s1 @ out\<rparr>)"
    using assms f by (intro sector_loop_found) (auto simp: frame_ok_def frame_bytes_def)
  moreover have "get_tick s = Inr (t0, ?s1)" using assms(4) f by (simp add: get_tick_def frame_polls_def)
  ultimately show ?thesis using assms(2) f by (simp add: mmc_read_sector_def polled_def frame_data_def)
qed

lemma r1_try_log: "\<exists>out. wire_out (snd (r1_try n s)) = wire_out s @ out"
proof (induction n arbitrary: s)
  case (Suc n)
  obtain b t where r: "recv1 s = (b, t)" by fastforce
  then have "wire_out t = wire_out s @ [0xFF]" by (auto simp: recv1_def spi_exchange_def Let_def)
  then show ?case using r Suc.IH [of t] by auto
qed simp

lemma stop_read_done:
  assumes "mmc_state s = MMC_READING"
  shows "\<exists>t out. mmc_stop_read s = Inr (0, t) \<and> mmc_state t = MMC_READY \<and> \<not> cs_low t \<and> wire_out t = wire_out s @ out"
proof -
  let ?cmd = "[0x40 OR MMC_CMDSTOP, 0, 0, 0, 0, 1, 0xFF]"
  obtain out where "wire_out (snd (mmc_ll_receive_r1 (snd (spi_exchange (Some ?cmd) 7 s)))) = wire_out s @ ?cmd @ out"
    using r1_try_log [of 9 "snd (spi_exchange (Some ?cmd) 7 s)"] by (auto simp: mmc_ll_receive_r1_def spi_exchange_def)
  then show ?thesis using assms by (auto simp: mmc_stop_read_def case_prod_beta Let_def spi_deselect_def EERR_OK_def)
qed

lemma read_sectors_found:
  assumes "list_all frame_ok fs" "mmc_state s = MMC_READING"
    and "wire_in s = concat (map frame_bytes fs) @ w" "ticks s = replicate (sum_list (map frame_polls fs)) t0 @ ts"
  shows "\<exists>out. read_sectors (length fs) b s =
     Inr (True, b @ concat (map frame_data fs), s\<lparr>wire_in := w, ticks := ts, wire_out := wire_out s @ out\<rparr>)"
  using assms
proof (induction fs arbitrary: b s)
  case Nil
  then show ?case by (intro exI [of _ "[]"]) simp
next
  case (Cons f fs)
  obtain out where r: "mmc_read_sector s = Inr (0, frame_data f,
      s\<lparr>wire_in := concat (map frame_bytes fs) @ w, ticks := replicate (sum_list (map frame_polls fs)) t0 @ ts,
        wire_out := wire_out s @ out\<rparr>)"
    using read_sector_found [of f s] Cons.prems by (auto simp: replicate_add)
  let ?s1 = "s\<lparr>wire_in := concat (map frame_bytes fs) @ w, ticks := replicate (sum_list (map frame_polls fs)) t0 @ ts,
        wire_out := wire_out s @ out\<rparr>"
  have "\<exists>o2. read_sectors (length fs) (b @ frame_data f) ?s1 =
     Inr (True, (b @ frame_data f) @ concat (map frame_data fs), ?s1\<lparr>wire_in := w, ticks := ts, wire_out := wire_out ?s1 @ o2\<rparr>)"
    using Cons.prems by (intro Cons.IH) simp_all
  then obtain o2 where "read_sectors (length fs) (b @ frame_data f) ?s1 =
     Inr (True, (b @ frame_data f) @ concat (map frame_data fs), ?s1\<lparr>wire_in := w, ticks := ts, wire_out := wire_out ?s1 @ o2\<rparr>)"
    by blast
  then show ?case using r by (intro exI [of _ "out @ o2"]) simp
qed


text \<open>
  C25. A read returns the card's sectors: if the card is ready, accepts the command and
  then sends each requested sector as an idle gap, the start token, 512 bytes and two CRC
  bytes, before the tick counter moves, \<open>disk_read\<close> succeeds and the buffer is exactly the
  concatenation of the sectors; the command on the wire carries the sector number, as a
  byte address for cards without block addressing; the card is deselected again.
\<close>

theorem disk_read_sectors:
  assumes "mmc_state s = MMC_READY" "unat count = length fs" "list_all frame_ok fs" "length hdr = 6"
    and "wire_in s = 0xFF # hdr @ 0 # concat (map frame_bytes fs) @ w"
    and "ticks s = replicate (sum_list (map frame_polls fs)) t0 @ ts"
  shows "\<exists>t out. disk_read sector count s = Inr (RES_OK, concat (map frame_data fs), t)
     \<and> mmc_state t = MMC_READY \<and> \<not> cs_low t
     \<and> wire_out t = wire_out s @ 0xFF # mmc_header MMC_CMDREADMULTIPLE
         (if mmc_block_mode s then sector else sector * 512) @ out"
proof -
  let ?s1 = "s\<lparr>mmc_state := MMC_READING, cs_low := True, wire_in := concat (map frame_bytes fs) @ w,
     wire_out := wire_out s @ 0xFF # mmc_header MMC_CMDREADMULTIPLE (read_arg s sector) @ [0xFF]\<rparr>"
  have 1: "mmc_start_read sector s = Inr (0, ?s1)"
    using assms by (intro start_read_accepted) simp_all
  obtain out where 2: "read_sectors (length fs) [] ?s1 = Inr (True, concat (map frame_data fs),
      ?s1\<lparr>wire_in := w, ticks := ts, wire_out := wire_out ?s1 @ out\<rparr>)"
    using read_sectors_found [of fs ?s1 w t0 ts "[]"] assms by auto
  let ?s2 = "?s1\<lparr>wire_in := w, ticks := ts, wire_out := wire_out ?s1 @ out\<rparr>"
  obtain t o2 where 3: "mmc_stop_read ?s2 = Inr (0, t)" "mmc_state t = MMC_READY" "\<not> cs_low t" "wire_out t = wire_out ?s2 @ o2"
    using stop_read_done [of ?s2] by auto
  show ?thesis using 1 2 3 assms(1,2) by (auto simp: disk_read_def read_arg_def)
qed

theorem disk_read_sectors_witness:
  "\<exists>t. disk_read 7 1 (mmc0\<lparr>wire_in := 0xFF # replicate 6 0xFF @ 0 # ([0xFF] @ 0xFE # replicate 512 0xAB @ [1, 2]) @ [],
        ticks := [3, 3]\<rparr>) = Inr (RES_OK, replicate 512 0xAB, t)"
proof -
  let ?fs = "[([0xFF], replicate 512 0xAB, [1, 2])] :: sector_frame list"
  let ?s = "mmc0\<lparr>wire_in := 0xFF # replicate 6 0xFF @ 0 # ([0xFF] @ 0xFE # replicate 512 0xAB @ [1, 2]) @ [], ticks := [3, 3]\<rparr>"
  have b: "concat (map frame_bytes ?fs) = [0xFF] @ 0xFE # replicate 512 0xAB @ [1, 2]" by (simp add: frame_bytes_def)
  have t: "[3, 3] = replicate (sum_list (map frame_polls ?fs)) (3::u32) @ []" by (simp add: frame_polls_def numeral_2_eq_2)
  have "mmc_state ?s = MMC_READY" "unat (1::u8) = length ?fs" "list_all frame_ok ?fs"
    "length (replicate 6 (0xFF::u8)) = 6"
    "wire_in ?s = 0xFF # replicate 6 0xFF @ 0 # concat (map frame_bytes ?fs) @ []"
    "ticks ?s = replicate (sum_list (map frame_polls ?fs)) 3 @ []"
    unfolding b t [symmetric] by (simp_all add: mmc0_def frame_ok_def)
  from disk_read_sectors [OF this, of 7] show ?thesis by (auto simp: frame_data_def)
qed

end
