(* ===== verification/Bootloader.thy ===== *)
theory Bootloader
  imports Ihex Mmc
begin

text \<open>
  The firmware loader: the flash driver \<open>src/lib/stm32/flash.c\<close> and the page buffer of
  \<open>src/bootloader/src/bootloader.c\<close>. Flash memory is a function from addresses to
  bytes. What the flash controller does on an erase or a half-word write, whether it accepts
  the unlock keys, and the linker symbols \<open>_user_start\<close> and \<open>_user_end\<close> are the
  parameter \<open>flash_hw\<close>. Pointers are 32-bit words, so \<open>NEXT_PAGE\<close> wraps.
\<close>

section \<open>Flash driver\<close>

type_synonym fmem = "u32 \<Rightarrow> u8"

record flash_hw =
  hw_keys_ok :: bool
  hw_erase :: "u32 \<Rightarrow> fmem \<Rightarrow> fmem"
  hw_program :: "u32 \<Rightarrow> u16 \<Rightarrow> fmem \<Rightarrow> fmem"
  user_start :: u32
  user_end :: u32

record flash =
  fl_mem :: fmem
  fl_locked :: bool

definition FLASH_PAGE_SIZE :: u32 where "FLASH_PAGE_SIZE = 2048"
definition FLASH_OK :: u8 where "FLASH_OK = 0"
definition FLASH_UNCHANGED :: u8 where "FLASH_UNCHANGED = 1"
definition FLASH_DENIED :: u8 where "FLASH_DENIED = 2"
definition FLASH_FAULT :: u8 where "FLASH_FAULT = 3"

lemmas flash_codes = FLASH_OK_def FLASH_UNCHANGED_def FLASH_DENIED_def FLASH_FAULT_def

definition PAGE_OF :: "u32 \<Rightarrow> u32" where "PAGE_OF addr = addr div FLASH_PAGE_SIZE * FLASH_PAGE_SIZE"
definition NEXT_PAGE :: "u32 \<Rightarrow> u32" where "NEXT_PAGE addr = addr + FLASH_PAGE_SIZE"
definition ASSERT_ALIGNED :: "u32 \<Rightarrow> unit res" where "ASSERT_ALIGNED addr = ASSERT (addr mod FLASH_PAGE_SIZE = 0)"

definition flash_unlock :: "flash_hw \<Rightarrow> flash \<Rightarrow> bool \<times> flash" where
  "flash_unlock hw f =
     (if \<not> fl_locked f then (False, f)
      else let f = (if hw_keys_ok hw then f\<lparr>fl_locked := False\<rparr> else f) in
           if \<not> fl_locked f then (False, f) else (True, f))"

definition flash_lock :: "flash \<Rightarrow> flash" where
  "flash_lock f = f\<lparr>fl_locked := True\<rparr>"

definition flash_can_write :: "flash_hw \<Rightarrow> u32 \<Rightarrow> bool" where
  "flash_can_write hw page =
     (if page < user_start hw \<or> NEXT_PAGE page > user_end hw then False else True)"

definition rd32 :: "fmem \<Rightarrow> u32 \<Rightarrow> u32" where
  "rd32 m a = push_bit 24 (ucast (m (a + 3))) OR push_bit 16 (ucast (m (a + 2)))
     OR push_bit 8 (ucast (m (a + 1))) OR ucast (m a)"

definition buf32 :: "u8 list \<Rightarrow> nat \<Rightarrow> u32" where
  "buf32 b i = push_bit 24 (ucast (b ! (i + 3))) OR push_bit 16 (ucast (b ! (i + 2)))
     OR push_bit 8 (ucast (b ! (i + 1))) OR ucast (b ! i)"

definition buf16 :: "u8 list \<Rightarrow> nat \<Rightarrow> u16" where
  "buf16 b i = push_bit 8 (ucast (b ! (i + 1))) OR ucast (b ! i)"

text \<open>The offsets at which a loop from \<open>page\<close> up to \<open>NEXT_PAGE (page)\<close> runs.\<close>

definition page_offsets :: "nat \<Rightarrow> u32 \<Rightarrow> nat list" where
  "page_offsets step page = (if page < NEXT_PAGE page then map (\<lambda>i. step * i) [0..<2048 div step] else [])"

definition flash_page_is_erased :: "fmem \<Rightarrow> u32 \<Rightarrow> bool" where
  "flash_page_is_erased m page =
     list_all (\<lambda>i. rd32 m (page + of_nat i) = 0xFFFFFFFF) (page_offsets 4 page)"

fun compare_step :: "fmem \<Rightarrow> u32 \<Rightarrow> u8 list \<Rightarrow> nat \<Rightarrow> nat \<Rightarrow> nat" where
  "compare_step m page data ret i =
     (if rd32 m (page + of_nat i) = buf32 data i then ret
      else let ret = (if ret = 0 then 1 else ret) in
           if rd32 m (page + of_nat i) \<noteq> 0xFFFFFFFF then 2 else ret)"

definition flash_page_compare :: "fmem \<Rightarrow> u32 \<Rightarrow> u8 list \<Rightarrow> nat" where
  "flash_page_compare m page data = foldl (compare_step m page data) 0 (page_offsets 4 page)"

definition flash_page_erase :: "flash_hw \<Rightarrow> u32 \<Rightarrow> flash \<Rightarrow> (u8 \<times> flash) res" where
  "flash_page_erase hw page f =
     rbind (ASSERT_ALIGNED page) (\<lambda>_.
     if \<not> flash_can_write hw page then Inr (FLASH_DENIED, f)
     else let (failed, f) = flash_unlock hw f in
          if failed then Inr (FLASH_FAULT, f)
          else let f = f\<lparr>fl_mem := hw_erase hw page (fl_mem f)\<rparr>; f = flash_lock f in
               if \<not> flash_page_is_erased (fl_mem f) page then Inr (FLASH_FAULT, f)
               else Inr (FLASH_OK, f))"

definition flash_page_write :: "flash_hw \<Rightarrow> u32 \<Rightarrow> u8 list \<Rightarrow> flash \<Rightarrow> (u8 \<times> flash) res" where
  "flash_page_write hw page data f =
     rbind (ASSERT_ALIGNED page) (\<lambda>_.
     if \<not> flash_can_write hw page then Inr (FLASH_DENIED, f)
     else let (failed, f) = flash_unlock hw f in
          if failed then Inr (FLASH_FAULT, f)
          else let f = f\<lparr>fl_mem := fold (\<lambda>i. hw_program hw (page + of_nat i) (buf16 data i)) (page_offsets 2 page) (fl_mem f)\<rparr>;
                   f = flash_lock f in
               if flash_page_compare (fl_mem f) page data \<noteq> 0 then Inr (FLASH_FAULT, f)
               else Inr (FLASH_OK, f))"

definition flash_page_maybe_write :: "flash_hw \<Rightarrow> u32 \<Rightarrow> u8 list \<Rightarrow> flash \<Rightarrow> (u8 \<times> flash) res" where
  "flash_page_maybe_write hw page data f =
     (let status = flash_page_compare (fl_mem f) page data in
      if status = 0 then Inr (FLASH_UNCHANGED, f)
      else if status = 2
      then rbind (flash_page_erase hw page f) (\<lambda>(st, f).
           if st \<noteq> 0 then Inr (st, f) else flash_page_write hw page data f)
      else flash_page_write hw page data f)"

section \<open>Page buffer\<close>

definition BLS_WAITING :: u8 where "BLS_WAITING = 0"
definition BLS_FLASHING :: u8 where "BLS_FLASHING = 1"
definition BLS_DONE :: u8 where "BLS_DONE = 2"
definition BLS_ERROR :: u8 where "BLS_ERROR = 3"

record boot =
  bootloader_status :: u8
  dirty :: bool
  changed :: bool
  current_page :: u32
  page_buffer :: "u8 list"
  bflash :: flash

definition flush_page :: "flash_hw \<Rightarrow> boot \<Rightarrow> (u8 \<times> boot) res" where
  "flush_page hw s =
     (if \<not> dirty s then Inr (0, s)
      else rbind (flash_page_maybe_write hw (current_page s) (page_buffer s) (bflash s)) (\<lambda>(rv, f).
           let s = s\<lparr>bflash := f\<rparr> in
           if rv = FLASH_OK then Inr (0, s\<lparr>changed := True, dirty := False\<rparr>)
           else if rv \<noteq> FLASH_UNCHANGED then Inr (rv, s)
           else Inr (0, s\<lparr>dirty := False\<rparr>)))"

definition page_bytes :: "fmem \<Rightarrow> u32 \<Rightarrow> u8 list" where
  "page_bytes m page = map (\<lambda>i. m (page + of_nat i)) [0..<2048]"

lemma page_index: "unat (a - PAGE_OF a) = unat a mod 2048"
  by (simp add: PAGE_OF_def FLASH_PAGE_SIZE_def minus_div_mult_eq_mod unat_mod)

definition turn_page :: "flash_hw \<Rightarrow> u32 \<Rightarrow> boot \<Rightarrow> (u8 \<times> boot) res" where
  "turn_page hw new_page s =
     (if new_page \<noteq> current_page s
      then rbind (flush_page hw s) (\<lambda>(rv, s).
           if rv \<noteq> 0 then Inr (rv, s)
           else Inr (0, s\<lparr>page_buffer := page_bytes (fl_mem (bflash s)) new_page,
                          dirty := False, current_page := new_page\<rparr>))
      else Inr (0, s))"

function bootloader_callback :: "flash_hw \<Rightarrow> u32 \<Rightarrow> u8 list \<Rightarrow> boot \<Rightarrow> (u8 \<times> boot) res" where
  "bootloader_callback hw address data s =
     (if data = [] then Inr (0, s)
      else let new_page = PAGE_OF address in
           rbind (turn_page hw new_page s) (\<lambda>(rv, s).
           if rv \<noteq> 0 then Inr (rv, s)
           else let index = unat (address - new_page);
                    chunk_size = min (2048 - index) (length data) in
                bootloader_callback hw (address + of_nat chunk_size) (drop chunk_size data)
                  (s\<lparr>page_buffer := copy_into (page_buffer s) index (take chunk_size data), dirty := True\<rparr>)))"
  by pat_completeness auto

termination bootloader_callback
proof (relation "measure (\<lambda>(hw, a, d, s). length d)", goal_cases)
  case 2
  then show ?case
    by (simp add: page_index min_def not_le)
qed simp

declare bootloader_callback.simps [simp del]

definition bootloader_start :: "ihex \<Rightarrow> boot \<Rightarrow> ihex \<times> boot" where
  "bootloader_start h s =
     (ihex_init h, s\<lparr>bootloader_status := BLS_FLASHING, current_page := 0, dirty := False, changed := False\<rparr>)"

definition bootloader_message :: "u8 \<Rightarrow> string" where
  "bootloader_message rv =
     (if rv = IHEX_UNSUPPORTED then ''unsupported ihex option''
      else if rv = IHEX_CHECKSUM then ''ihex checksum failure''
      else if rv = FLASH_FAULT then ''flash error''
      else if rv = FLASH_DENIED then ''application conflicts with bootloader''
      else ''malformed ihex'')"

definition bootloader_feed :: "flash_hw \<Rightarrow> u8 list \<Rightarrow> ihex \<Rightarrow> boot \<Rightarrow> (string option \<times> ihex \<times> boot) res" where
  "bootloader_feed hw buf h s =
     rbind (ihex_feed (bootloader_callback hw) buf h s) (\<lambda>(rv, h, s).
     rbind (if rv = IHEX_EOF then rbind (flush_page hw s) (\<lambda>(rv, s). Inr (rv = 0, rv, s))
            else Inr (False, rv, s)) (\<lambda>(finished, rv', s).
     if finished then Inr (None, h, s\<lparr>bootloader_status := BLS_DONE\<rparr>)
     else if rv = IHEX_CONTINUE then Inr (None, h, s)
     else Inr (Some (bootloader_message rv'), h, s\<lparr>bootloader_status := BLS_ERROR\<rparr>)))"

definition bootloader_was_changed :: "boot \<Rightarrow> bool" where
  "bootloader_was_changed s = changed s"

text \<open>
  The loading loop of \<open>try_flash\<close> in \<open>src/bootloader/src/main.c\<close>, once the card is mounted
  and the file open: the reads are a list of results of \<open>f_read\<close>, \<open>None\<close> for an error. The
  messages go to the serial port. Running out of results is \<open>Fuel\<close>; the final \<open>HALT\<close> is
  \<open>Halt\<close>.
\<close>

fun try_flash_loop :: "flash_hw \<Rightarrow> u8 list option list \<Rightarrow> ihex \<Rightarrow> boot \<Rightarrow> (string list \<times> boot) res" where
  "try_flash_loop hw reads h s =
     (if bootloader_status s \<noteq> BLS_FLASHING then Inr ([], s)
      else case reads of
             [] \<Rightarrow> Inl Fuel
           | None # _ \<Rightarrow> Inr ([''Error reading file''], s)
           | Some buf # reads' \<Rightarrow>
               if buf = [] then Inr ([''Error: premature end of file''], s)
               else rbind (bootloader_feed hw buf h s) (\<lambda>(errmsg, h, s).
                    case errmsg of
                      Some m \<Rightarrow> Inr ([''Error flashing firmware: '', m], s)
                    | None \<Rightarrow> try_flash_loop hw reads' h s))"

declare try_flash_loop.simps [simp del]

definition try_flash_load :: "flash_hw \<Rightarrow> u8 list option list \<Rightarrow> ihex \<Rightarrow> boot \<Rightarrow> (string list \<times> boot) res" where
  "try_flash_load hw reads h s =
     (let (h, s) = bootloader_start h s in
      rbind (try_flash_loop hw reads h s) (\<lambda>(out, s).
      if bootloader_status s = BLS_DONE
      then Inr (out @ [if bootloader_was_changed s then ''New firmware successfully loaded''
                       else ''Firmware is up-to-date''], s)
      else Inl Halt))"

text \<open>
  The whole of \<open>try_flash\<close> after the banner: it connects to the card on the bus; the
  results of \<open>f_mount\<close>, \<open>f_open\<close> and \<open>f_read\<close>, from the FatFs library, are given. Then \<open>main_thread\<close>, which resets either to try again or, with
  the token set in memory that survives the reset, to jump to the application from \<open>main\<close>.
\<close>

record sdcard =
  card_bus :: mmc
  card_mounts :: bool
  card_opens :: bool
  card_reads :: "u8 list option list"

definition try_flash :: "flash_hw \<Rightarrow> sdcard \<Rightarrow> ihex \<Rightarrow> boot \<Rightarrow> (string list \<times> boot) res" where
  "try_flash hw sd h s =
     rbind (mmc_connect (mmc_start (card_bus sd))) (\<lambda>(rc, m).
     if rc = EERR_OK
     then if \<not> card_mounts sd
          then Inr ([''SD connected'', ''Mounting SD filesystem'', ''ERROR: Unable to mount filesystem''], s)
          else if \<not> card_opens sd
          then Inr ([''SD connected'', ''Mounting SD filesystem'', ''Opening file ll.hex'',
                     ''Error opening file, maybe it does not exist''], s)
          else rbind (try_flash_load hw (card_reads sd) h s) (\<lambda>(out, s).
               Inr ([''SD connected'', ''Mounting SD filesystem'', ''Opening file ll.hex'',
                     ''Comparing file to current flash contents''] @ out, s))
     else if rc = EERR_TIMEOUT then Inr ([''Timed out waiting for SD''], s)
     else Inr ([''Failed to connect to SD''], s))"

definition JUMP_TOKEN :: u32 where "JUMP_TOKEN = 0xeefc63d2"

definition main_thread :: "flash_hw \<Rightarrow> sdcard \<Rightarrow> ihex \<Rightarrow> u32 \<Rightarrow> boot \<Rightarrow> (string list \<times> u32 \<times> boot) res" where
  "main_thread hw sd h jump_token s =
     rbind (try_flash hw sd h s) (\<lambda>(out, s).
     if rd32 (fl_mem (bflash s)) (user_start hw + 4) = 0xFFFFFFFF
     then Inr (out @ [''No application loaded, trying to load again in 10 seconds''], jump_token, s)
     else Inr (out @ [''Booting application''], JUMP_TOKEN, s))"

definition jump_application :: "flash_hw \<Rightarrow> fmem \<Rightarrow> (u32 \<times> u32) option" where
  "jump_application hw m =
     (let entry = rd32 m (user_start hw + 4) in
      if entry \<noteq> 0xFFFFFFFF then Some (rd32 m (user_start hw), entry) else None)"

definition boot_main :: "flash_hw \<Rightarrow> u32 \<Rightarrow> fmem \<Rightarrow> u32 \<times> (u32 \<times> u32) option" where
  "boot_main hw jump_token m =
     (if jump_token = JUMP_TOKEN then (0, jump_application hw m) else (jump_token, None))"

section \<open>Verified writes\<close>

definition no_wrap :: "u32 \<Rightarrow> bool" where "no_wrap page \<longleftrightarrow> page < NEXT_PAGE page"

lemma bytes32_eq:
  "push_bit 24 (ucast (a3::u8)) OR push_bit 16 (ucast (a2::u8)) OR push_bit 8 (ucast (a1::u8)) OR ucast (a0::u8)
     = (push_bit 24 (ucast (b3::u8)) OR push_bit 16 (ucast (b2::u8)) OR push_bit 8 (ucast (b1::u8)) OR ucast (b0::u8) :: u32)
   \<longleftrightarrow> a3 = b3 \<and> a2 = b2 \<and> a1 = b1 \<and> a0 = b0" (is "?l = ?r \<longleftrightarrow> _")
proof
  assume e: "?l = ?r"
  have "ucast (drop_bit 24 ?l) = a3" "ucast (drop_bit 16 ?l) = a2" "ucast (drop_bit 8 ?l) = a1" "ucast ?l = a0"
    by (auto simp: bit_eq_iff bit_simps dest: bit_imp_le_length)
  moreover have "ucast (drop_bit 24 ?r) = b3" "ucast (drop_bit 16 ?r) = b2" "ucast (drop_bit 8 ?r) = b1" "ucast ?r = b0"
    by (auto simp: bit_eq_iff bit_simps dest: bit_imp_le_length)
  ultimately show "a3 = b3 \<and> a2 = b2 \<and> a1 = b1 \<and> a0 = b0" using e by metis
qed simp

lemma compare_fold:
  "foldl (compare_step m page data) r is = 0 \<longleftrightarrow>
     r = 0 \<and> (\<forall>i\<in>set is. rd32 m (page + of_nat i) = buf32 data i)"
  by (induction "is" arbitrary: r) (auto simp: Let_def)

lemma compare_zero:
  assumes "no_wrap page" "length data = 2048"
  shows "flash_page_compare m page data = 0 \<longleftrightarrow> page_bytes m page = data"
proof -
  have w: "rd32 m (page + of_nat i) = buf32 data i \<longleftrightarrow> (\<forall>k<4. m (page + of_nat (i + k)) = data ! (i + k))" for i
  proof -
    have "(\<forall>k<4. P k) \<longleftrightarrow> P 3 \<and> P 2 \<and> P 1 \<and> P 0" for P :: "nat \<Rightarrow> bool"
      by (auto simp: numeral_eq_Suc less_Suc_eq)
    then show ?thesis unfolding rd32_def buf32_def bytes32_eq by (simp add: add.assoc)
  qed
  have "set (page_offsets 4 page) = {4 * i |i. i < 512}"
    using assms(1) by (auto simp: page_offsets_def no_wrap_def)
  then have "flash_page_compare m page data = 0 \<longleftrightarrow> (\<forall>i<512. \<forall>k<4. m (page + of_nat (4 * i + k)) = data ! (4 * i + k))"
    unfolding flash_page_compare_def compare_fold w by auto
  also have "\<dots> \<longleftrightarrow> (\<forall>j<2048. m (page + of_nat j) = data ! j)"
  proof (intro iffI allI impI)
    fix j assume *: "\<forall>i<512. \<forall>k<4. m (page + of_nat (4 * i + k)) = data ! (4 * i + k)" and "j < (2048::nat)"
    then have "j div 4 < 512" "j mod 4 < 4" by simp_all
    with * have "m (page + of_nat (4 * (j div 4) + j mod 4)) = data ! (4 * (j div 4) + j mod 4)" by blast
    then show "m (page + of_nat j) = data ! j" by simp
  next
    fix i k assume *: "\<forall>j<2048. m (page + of_nat j) = data ! j" and "i < (512::nat)" "k < (4::nat)"
    then have "4 * i + k < 2048" by simp
    with * show "m (page + of_nat (4 * i + k)) = data ! (4 * i + k)" by blast
  qed
  also have "\<dots> \<longleftrightarrow> page_bytes m page = data"
    using assms(2) by (auto simp: page_bytes_def list_eq_iff_nth_eq)
  finally show ?thesis .
qed

definition hw_frame :: "flash_hw \<Rightarrow> bool" where
  "hw_frame hw \<longleftrightarrow>
     (\<forall>p m a. PAGE_OF a \<noteq> PAGE_OF p \<longrightarrow> hw_erase hw p m a = m a)
     \<and> (\<forall>p v m a. PAGE_OF a \<noteq> PAGE_OF p \<longrightarrow> hw_program hw p v m a = m a)"

lemma flash_unlock_mem [simp]: "flash_unlock hw f = (b, g) \<Longrightarrow> fl_mem g = fl_mem f"
  by (auto simp: flash_unlock_def Let_def split: if_splits)

lemma flash_page_write_OK:
  assumes "flash_page_write hw page data f = Inr (FLASH_OK, g)" "no_wrap page" "length data = 2048"
  shows "page_bytes (fl_mem g) page = data" "flash_can_write hw page"
  using assms compare_zero [OF assms(2,3)]
  by (auto simp: flash_page_write_def Let_def flash_codes split: if_splits prod.splits)

lemma unat_PAGE_OF: "unat (PAGE_OF a) = unat a div 2048 * 2048"
proof -
  have "unat a div 2048 * 2048 \<le> unat a" by simp
  also have "\<dots> < 2 ^ 32" using unsigned_less [of a, where ?'a = nat] by simp
  finally show ?thesis by (simp add: PAGE_OF_def FLASH_PAGE_SIZE_def unat_word_ariths unat_div)
qed

definition aligned :: "u32 \<Rightarrow> bool" where "aligned page \<longleftrightarrow> page mod FLASH_PAGE_SIZE = 0"

lemma aligned_unat: "aligned page \<longleftrightarrow> unat page mod 2048 = 0"
  by (simp add: aligned_def FLASH_PAGE_SIZE_def word_unat_eq_iff unat_mod)

lemma aligned_PAGE_OF [simp]: "aligned (PAGE_OF a)"
  by (simp add: aligned_unat unat_PAGE_OF)

lemma unat_page_plus:
  assumes "aligned page" "i < 2048"
  shows "unat (page + of_nat i) = unat page + i"
proof -
  obtain q where "unat page = 2048 * q" using assms(1) by (auto simp: aligned_unat)
  moreover have "unat page < 2 ^ 32" using unsigned_less [of page, where ?'a = nat] by simp
  ultimately have "unat page + i < 2 ^ 32" using assms(2) by simp
  then show ?thesis using assms(2) by (simp add: unat_word_ariths unsigned_of_nat take_bit_nat_eq_self)
qed

lemma PAGE_OF_offset:
  assumes "aligned page" "i < 2048"
  shows "PAGE_OF (page + of_nat i) = page"
proof -
  obtain q where "unat page = 2048 * q" using assms(1) by (auto simp: aligned_unat)
  then have "(unat page + i) div 2048 * 2048 = unat page" using assms(2) by simp
  then show ?thesis by (simp add: word_unat_eq_iff unat_PAGE_OF unat_page_plus [OF assms])
qed

lemma PAGE_OF_aligned: "aligned page \<Longrightarrow> PAGE_OF page = page"
  using PAGE_OF_offset [of page 0] by simp

lemma flash_page_erase_frame:
  assumes "flash_page_erase hw page f = Inr (rv, g)" "hw_frame hw" "PAGE_OF a \<noteq> PAGE_OF page"
  shows "fl_mem g a = fl_mem f a"
  using assms
  by (auto simp: flash_page_erase_def Let_def hw_frame_def flash_lock_def split: if_splits prod.splits)

lemma program_frame:
  assumes "hw_frame hw" "\<forall>i\<in>set is. PAGE_OF (page + of_nat i) = PAGE_OF page" "PAGE_OF a \<noteq> PAGE_OF page"
  shows "fold (\<lambda>i. hw_program hw (page + of_nat i) (buf16 data i)) is m a = m a"
  using assms(2)
proof (induction "is" arbitrary: m)
  case (Cons i "is")
  then show ?case using assms(1,3) by (simp add: hw_frame_def)
qed simp

lemma flash_page_write_frame:
  assumes "flash_page_write hw page data f = Inr (rv, g)" "hw_frame hw" "PAGE_OF a \<noteq> PAGE_OF page"
  shows "fl_mem g a = fl_mem f a"
proof -
  have al: "aligned page" using assms(1) by (auto simp: flash_page_write_def ASSERT_ALIGNED_def aligned_def)
  then have "\<forall>i\<in>set (page_offsets 2 page). PAGE_OF (page + of_nat i) = PAGE_OF page"
    by (auto simp: page_offsets_def PAGE_OF_aligned intro!: PAGE_OF_offset)
  from program_frame [OF assms(2) this assms(3)] assms(1) show ?thesis
    by (auto simp: flash_page_write_def Let_def flash_lock_def split: if_splits prod.splits)
qed

lemma maybe_write_cases:
  assumes "flash_page_maybe_write hw page data f = Inr (rv, g)"
  obtains (same) "flash_page_compare (fl_mem f) page data = 0" "rv = FLASH_UNCHANGED" "g = f"
  | (wrote) "flash_page_write hw page data f = Inr (rv, g)"
  | (erase_wrote) f' where "flash_page_erase hw page f = Inr (0, f')" "flash_page_write hw page data f' = Inr (rv, g)"
  | (erased) "flash_page_erase hw page f = Inr (rv, g)" "rv \<noteq> 0"
proof -
  let ?s = "flash_page_compare (fl_mem f) page data"
  consider "?s = 0" | "?s \<noteq> 0" "?s \<noteq> 2" | "?s = 2" by blast
  then show thesis
  proof cases
    case 1
    with assms have "rv = FLASH_UNCHANGED" "g = f" by (auto simp: flash_page_maybe_write_def)
    with 1 show thesis by (rule same)
  next
    case 2
    with assms have "flash_page_write hw page data f = Inr (rv, g)" by (simp add: flash_page_maybe_write_def Let_def)
    then show thesis by (rule wrote)
  next
    case 3
    with assms obtain st f' where e: "flash_page_erase hw page f = Inr (st, f')"
      "(if st \<noteq> 0 then Inr (st, f') else flash_page_write hw page data f') = Inr (rv, g)"
      by (auto simp: flash_page_maybe_write_def)
    then show thesis using erase_wrote erased by (cases "st = 0") auto
  qed
qed

lemma maybe_write_frame:
  assumes "flash_page_maybe_write hw page data f = Inr (rv, g)" "hw_frame hw" "PAGE_OF a \<noteq> PAGE_OF page"
  shows "fl_mem g a = fl_mem f a"
  using assms(1)
proof (cases rule: maybe_write_cases)
  case wrote
  then show ?thesis using assms(2,3) by (rule flash_page_write_frame)
next
  case (erase_wrote f')
  then show ?thesis
    using flash_page_erase_frame [OF _ assms(2,3)] flash_page_write_frame [OF _ assms(2,3)] by metis
next
  case erased
  then show ?thesis using flash_page_erase_frame [OF _ assms(2,3)] by blast
qed simp

lemma erase_codes: "flash_page_erase hw page f = Inr (rv, g) \<Longrightarrow> rv \<noteq> FLASH_UNCHANGED"
  by (auto simp: flash_page_erase_def Let_def flash_codes split: if_splits prod.splits)

lemma write_codes: "flash_page_write hw page data f = Inr (rv, g) \<Longrightarrow> rv \<noteq> FLASH_UNCHANGED"
  by (auto simp: flash_page_write_def Let_def flash_codes split: if_splits prod.splits)

lemma maybe_write_stored:
  assumes "flash_page_maybe_write hw page data f = Inr (rv, g)" "rv = FLASH_OK \<or> rv = FLASH_UNCHANGED"
    and "no_wrap page" "length data = 2048"
  shows "page_bytes (fl_mem g) page = data"
  using assms(1)
proof (cases rule: maybe_write_cases)
  case same
  then show ?thesis using compare_zero [OF assms(3,4)] by simp
next
  case wrote
  then show ?thesis using write_codes [OF wrote] assms(2) flash_page_write_OK(1) [OF _ assms(3,4)] by blast
next
  case (erase_wrote f')
  then show ?thesis using write_codes assms(2) flash_page_write_OK(1) [OF _ assms(3,4)] by blast
next
  case erased
  then show ?thesis using erase_codes [OF erased(1)] assms(2) by (auto simp: FLASH_OK_def)
qed

text \<open>
  The loader never reports success for a page it has not stored: if
  \<open>flash_page_maybe_write\<close> returns \<open>FLASH_OK\<close> or \<open>FLASH_UNCHANGED\<close>, the page holds
  exactly the requested bytes, whatever the flash controller did with the erase and
  program commands.
\<close>

theorem maybe_write_verified:
  assumes "flash_page_maybe_write hw page data f = Inr (rv, g)" "rv = FLASH_OK \<or> rv = FLASH_UNCHANGED"
    and "page < NEXT_PAGE page" "length data = 2048"
  shows "map (\<lambda>i. fl_mem g (page + of_nat i)) [0..<2048] = data"
  using maybe_write_stored [OF assms(1,2) _ assms(4)] assms(3) by (simp add: no_wrap_def page_bytes_def)

definition blank_hw :: flash_hw where
  "blank_hw = \<lparr>hw_keys_ok = True, hw_erase = (\<lambda>p m a. if PAGE_OF a = PAGE_OF p then 0xFF else m a),
     hw_program = (\<lambda>p v m. if p mod 2 = 0 then m(p := ucast v, p + 1 := ucast (drop_bit 8 v)) else m),
     user_start = 0x08004000, user_end = 0x08040000\<rparr>"

definition blank_flash :: flash where "blank_flash = \<lparr>fl_mem = (\<lambda>_. 0xFF), fl_locked = True\<rparr>"

lemma blank_page: "page_bytes (fl_mem blank_flash) page = replicate 2048 0xFF"
  by (simp add: page_bytes_def blank_flash_def map_replicate_const)

lemma blank_unchanged:
  assumes "no_wrap page"
  shows "flash_page_maybe_write hw page (replicate 2048 0xFF) blank_flash = Inr (FLASH_UNCHANGED, blank_flash)"
proof -
  have "flash_page_compare (fl_mem blank_flash) page (replicate 2048 0xFF) = 0"
    using assms by (simp add: compare_zero blank_page)
  then show ?thesis by (simp add: flash_page_maybe_write_def)
qed

theorem maybe_write_verified_witness:
  "\<exists>g. flash_page_maybe_write blank_hw 0x08004000 (replicate 2048 0xFF) blank_flash = Inr (FLASH_UNCHANGED, g)
     \<and> map (\<lambda>i. fl_mem g (0x08004000 + of_nat i)) [0..<2048] = replicate 2048 0xFF"
proof -
  have w: "no_wrap 0x08004000" by (simp add: no_wrap_def NEXT_PAGE_def FLASH_PAGE_SIZE_def)
  show ?thesis
    using maybe_write_verified [OF blank_unchanged [OF w]] blank_unchanged [OF w] w by (auto simp: no_wrap_def)
qed

section \<open>The flash image\<close>

text \<open>
  What the loader is building: the flash with the page buffer on top while it is dirty. A
  record is an overlay of bytes on an image.
\<close>

definition boot_image :: "boot \<Rightarrow> fmem" where
  "boot_image s a = (if dirty s \<and> PAGE_OF a = current_page s
                then page_buffer s ! unat (a - current_page s) else fl_mem (bflash s) a)"

definition overlay :: "fmem \<Rightarrow> u32 \<Rightarrow> u8 list \<Rightarrow> fmem" where
  "overlay m address data a = (if unat (a - address) < length data then data ! unat (a - address) else m a)"

definition boot_ok :: "boot \<Rightarrow> bool" where
  "boot_ok s \<longleftrightarrow> length (page_buffer s) = 2048 \<and> aligned (current_page s)
     \<and> (dirty s \<longrightarrow> no_wrap (current_page s))
     \<and> (\<not> dirty s \<and> current_page s \<noteq> 0 \<longrightarrow> page_buffer s = page_bytes (fl_mem (bflash s)) (current_page s))"

lemma PAGE_OF_split: "a = PAGE_OF a + of_nat (unat a mod 2048)"
proof -
  have "of_nat (unat (a - PAGE_OF a)) = a - PAGE_OF a" by simp
  then show ?thesis unfolding page_index by simp
qed

lemma page_bytes_nth:
  assumes "aligned page" "PAGE_OF a = page"
  shows "page_bytes m page ! unat (a - page) = m a"
proof -
  have "unat (a - page) = unat a mod 2048" using assms(2) page_index by metis
  moreover have "a = page + of_nat (unat a mod 2048)" using PAGE_OF_split assms(2) by metis
  ultimately show ?thesis by (simp add: page_bytes_def)
qed

lemma flush_page_image:
  assumes "flush_page hw s = Inr (0, t)" "boot_ok s" "hw_frame hw"
  shows "fl_mem (bflash t) = boot_image s" "\<not> dirty t" "boot_ok t"
proof -
  have "fl_mem (bflash t) = boot_image s \<and> \<not> dirty t \<and> boot_ok t"
  proof (cases "dirty s")
    case False
    with assms show ?thesis by (auto simp: flush_page_def boot_image_def)
  next
    case True
    with assms(1) obtain rv f where w: "flash_page_maybe_write hw (current_page s) (page_buffer s) (bflash s) = Inr (rv, f)"
      and e: "(if rv = FLASH_OK then Inr (0, s\<lparr>bflash := f, changed := True, dirty := False\<rparr>)
           else if rv \<noteq> FLASH_UNCHANGED then Inr (rv, s\<lparr>bflash := f\<rparr>)
           else Inr (0, s\<lparr>bflash := f, dirty := False\<rparr>)) = (Inr (0, t) :: (u8 \<times> boot) res)"
      by (auto simp: flush_page_def Let_def)
    then have r: "rv = FLASH_OK \<or> rv = FLASH_UNCHANGED" by (cases "rv = FLASH_OK") (auto simp: FLASH_OK_def split: if_splits)
    have t: "bflash t = f" "\<not> dirty t" "current_page t = current_page s" "page_buffer t = page_buffer s"
      using e r by (auto split: if_splits)
    have ok: "no_wrap (current_page s)" "length (page_buffer s) = 2048" "aligned (current_page s)"
      using assms(2) True by (auto simp: boot_ok_def)
    note b = maybe_write_stored [OF w r ok(1,2)]
    have "fl_mem f a = boot_image s a" for a
      using page_bytes_nth [OF ok(3), of a "fl_mem f"] b True maybe_write_frame [OF w assms(3), of a]
      by (auto simp: boot_image_def PAGE_OF_aligned [OF ok(3)])
    then show ?thesis using t b ok by (auto simp: boot_ok_def)
  qed
  then show "fl_mem (bflash t) = boot_image s" "\<not> dirty t" "boot_ok t" by auto
qed


lemma overlay_in_page:
  fixes page :: u32
  assumes "aligned page" "j < 2048" "i + length d \<le> 2048"
  shows "overlay m (page + of_nat i) d (page + of_nat j)
       = (if i \<le> j \<and> j < i + length d then d ! (j - i) else m (page + of_nat j))"
proof -
  let ?k = "unat (page + of_nat j - (page + of_nat i))"
  have k1: "j = i + ?k" if "?k < length d"
  proof -
    have "page + of_nat j = page + of_nat (i + ?k)" by simp
    then have "unat page + j = unat page + (i + ?k)"
      using unat_page_plus [OF assms(1), of j] unat_page_plus [OF assms(1), of "i + ?k"] that assms by simp
    then show ?thesis by simp
  qed
  have k2: "?k = j - i" if "i \<le> j"
  proof -
    have "page + of_nat j - (page + of_nat i) = (of_nat (j - i) :: u32)" using that by (simp add: of_nat_diff)
    then show ?thesis using assms(2) by (simp only: unsigned_of_nat) (simp add: take_bit_nat_eq_self)
  qed
  show ?thesis using k1 k2 by (auto simp: overlay_def)
qed

lemma overlay_off_page:
  assumes "aligned page" "i + length d \<le> 2048" "PAGE_OF a \<noteq> page"
  shows "overlay m (page + of_nat i) d a = m a"
proof (cases "unat (a - (page + of_nat i)) < length d")
  case True
  then have "PAGE_OF (page + of_nat (i + unat (a - (page + of_nat i)))) = page"
    using assms by (intro PAGE_OF_offset) simp_all
  then show ?thesis using assms(3) by simp
qed (simp add: overlay_def)

text \<open>A page buffer that holds the current page: dirty, or just read from flash.\<close>

definition loaded :: "boot \<Rightarrow> bool" where
  "loaded s \<longleftrightarrow> length (page_buffer s) = 2048 \<and> aligned (current_page s) \<and> no_wrap (current_page s)
     \<and> (\<not> dirty s \<longrightarrow> page_buffer s = page_bytes (fl_mem (bflash s)) (current_page s))"

lemma loaded_image:
  assumes "loaded s" "PAGE_OF a = current_page s"
  shows "boot_image s a = page_buffer s ! (unat a mod 2048)"
proof -
  have "unat (a - current_page s) = unat a mod 2048" using assms(2) page_index by metis
  then show ?thesis using assms page_bytes_nth [of "current_page s" a] by (auto simp: boot_image_def loaded_def)
qed

lemma store_chunk:
  assumes "loaded s" "current_page s = PAGE_OF address" "unat address mod 2048 + length d \<le> 2048"
    and t: "t = s\<lparr>page_buffer := copy_into (page_buffer s) (unat address mod 2048) d, dirty := True\<rparr>"
  shows "loaded t" "dirty t" "boot_image t = overlay (boot_image s) address d"
proof -
  let ?i = "unat address mod 2048"
  have len: "length (page_buffer s) = 2048" and al: "aligned (current_page s)" using assms(1) by (auto simp: loaded_def)
  show lt: "loaded t" "dirty t" using assms(1,3) len by (auto simp: t loaded_def copy_into_length)
  have adr: "address = current_page s + of_nat ?i" using PAGE_OF_split assms(2) by metis
  show "boot_image t = overlay (boot_image s) address d"
  proof
    fix a
    show "boot_image t a = overlay (boot_image s) address d a"
    proof (cases "PAGE_OF a = current_page s")
      case True
      then have a: "a = current_page s + of_nat (unat a mod 2048)" using PAGE_OF_split by metis
      have "boot_image t a = copy_into (page_buffer s) ?i d ! (unat a mod 2048)"
        using loaded_image [OF lt(1), of a] True by (simp add: t)
      also have "\<dots> = (if ?i \<le> unat a mod 2048 \<and> unat a mod 2048 < ?i + length d
          then d ! (unat a mod 2048 - ?i) else boot_image s a)"
        using copy_into_nth [of ?i d "page_buffer s" "unat a mod 2048"] len assms(3) loaded_image [OF assms(1) True] by simp
      also have "\<dots> = overlay (boot_image s) (current_page s + of_nat ?i) d (current_page s + of_nat (unat a mod 2048))"
      proof -
        have j: "unat a mod 2048 < 2048" by simp
        show ?thesis unfolding overlay_in_page [OF al j assms(3)] unfolding a [symmetric] ..
      qed
      finally show ?thesis unfolding a [symmetric] adr [symmetric] .
    next
      case False
      then have "boot_image t a = boot_image s a" by (simp add: boot_image_def t)
      then show ?thesis using overlay_off_page [OF al assms(3) False] adr by metis
    qed
  qed
qed


definition in_range :: "u32 \<times> u8 list \<Rightarrow> bool" where
  "in_range r \<longleftrightarrow> 2048 \<le> unat (fst r) \<and> unat (fst r) + length (snd r) \<le> 2 ^ 32 - 2048"

lemma in_range_page:
  assumes "in_range (a, d)" "d \<noteq> []"
  shows "PAGE_OF a \<noteq> 0" "no_wrap (PAGE_OF a)"
proof -
  have b: "2048 \<le> unat a" "unat a < 2 ^ 32 - 2048" using assms by (cases d; simp add: in_range_def)+
  then have "unat (PAGE_OF a) \<noteq> 0" by (simp add: unat_PAGE_OF)
  then show "PAGE_OF a \<noteq> 0" by (simp add: unat_eq_0)
  have "unat (PAGE_OF a) \<le> unat a" by (simp add: unat_PAGE_OF)
  then show "no_wrap (PAGE_OF a)" using b
    by (simp add: no_wrap_def NEXT_PAGE_def FLASH_PAGE_SIZE_def word_less_nat_alt unat_word_ariths)
qed

lemma in_range_drop:
  assumes "in_range (a, d)" "c \<le> length d"
  shows "in_range (a + of_nat c, drop c d)"
proof -
  have "unat (of_nat c :: u32) = c"
    using assms by (simp only: unsigned_of_nat) (simp add: in_range_def take_bit_nat_eq_self)
  then have "unat (a + of_nat c) = unat a + c" using assms by (simp add: in_range_def unat_word_ariths)
  then show ?thesis using assms by (simp add: in_range_def)
qed

lemma overlay_nth:
  assumes "k' < length d - c \<Longrightarrow> k = k' + c" "c \<le> k \<Longrightarrow> k' = k - c" "c \<le> length d"
  shows "(if k' < length (drop c d) then drop c d ! k'
          else if k < length (take c d) then take c d ! k else y) = (if k < length d then d ! k else y)"
  using assms by (cases "c \<le> k") auto

lemma overlay_append:
  assumes "length d < 2 ^ 32" "c \<le> length d"
  shows "overlay (overlay m a (take c d)) (a + of_nat c) (drop c d) = overlay m a d"
proof
  fix x
  let ?k = "unat (x - a)" and ?k' = "unat (x - (a + of_nat c))"
  have c: "unat (of_nat c :: u32) = c"
    using assms by (simp only: unsigned_of_nat) (simp add: take_bit_nat_eq_self)
  have e: "x - a = (x - (a + of_nat c)) + of_nat c" by simp
  have "?k' < 2 ^ 32" using unsigned_less [of "x - (a + of_nat c)", where ?'a = nat] by simp
  have k: "?k = (?k' + c) mod 2 ^ 32" by (subst e) (simp only: unat_word_ariths c, simp)
  have "?k = ?k' + c" if "?k' < length d - c" unfolding k using that assms by simp
  moreover have "?k' = ?k - c" if "c \<le> ?k"
  proof -
    have "x - (a + of_nat c) = x - a - of_nat c" by (rule diff_diff_add [symmetric])
    moreover have "unat (x - a - of_nat c) = ?k - c"
      using that c unat_sub [of "of_nat c" "x - a"] by (simp only: word_le_nat_alt c)
    ultimately show ?thesis by (simp only:)
  qed
  ultimately show "overlay (overlay m a (take c d)) (a + of_nat c) (drop c d) x = overlay m a d x"
    unfolding overlay_def using assms(2) by (intro overlay_nth)
qed

lemma callback_turn_page:
  assumes "boot_ok s" "hw_frame hw" "PAGE_OF a \<noteq> 0" "no_wrap (PAGE_OF a)"
    and "turn_page hw (PAGE_OF a) s = Inr (0, t)"
  shows "loaded t" "current_page t = PAGE_OF a" "boot_image t = boot_image s"
proof -
  have "loaded t \<and> current_page t = PAGE_OF a \<and> boot_image t = boot_image s"
  proof (cases "PAGE_OF a = current_page s")
    case True
    then show ?thesis using assms(1,3-5) by (auto simp: boot_ok_def loaded_def turn_page_def)
  next
    case False
    with assms(5) obtain u where u: "flush_page hw s = Inr (0, u)"
      "t = u\<lparr>page_buffer := page_bytes (fl_mem (bflash u)) (PAGE_OF a), dirty := False, current_page := PAGE_OF a\<rparr>"
      by (auto simp: turn_page_def split: if_splits)
    note f = flush_page_image [OF u(1) assms(1,2)]
    have "length (page_bytes m p) = 2048" for m p by (simp add: page_bytes_def)
    then have "loaded t" "current_page t = PAGE_OF a" using u(2) f assms(4) by (auto simp: loaded_def)
    moreover have "boot_image t = fl_mem (bflash u)" using u(2) by (auto simp: boot_image_def)
    ultimately show ?thesis using f(1) by simp
  qed
  then show "loaded t" "current_page t = PAGE_OF a" "boot_image t = boot_image s" by auto
qed

lemma loaded_dirty_ok: "loaded s \<Longrightarrow> dirty s \<Longrightarrow> boot_ok s"
  by (simp add: loaded_def boot_ok_def)

definition chunk :: "u32 \<Rightarrow> u8 list \<Rightarrow> nat" where
  "chunk a d = min (2048 - unat a mod 2048) (length d)"

definition store :: "u32 \<Rightarrow> u8 list \<Rightarrow> boot \<Rightarrow> boot" where
  "store a d s = s\<lparr>page_buffer := copy_into (page_buffer s) (unat a mod 2048) (take (chunk a d) d), dirty := True\<rparr>"

lemma callback_Nil [simp]: "bootloader_callback hw a [] s = Inr (0, s)"
  by (simp add: bootloader_callback.simps)

lemma callback_unfold:
  "d \<noteq> [] \<Longrightarrow> bootloader_callback hw a d s =
     rbind (turn_page hw (PAGE_OF a) s) (\<lambda>(rv, s).
     if rv \<noteq> 0 then Inr (rv, s)
     else bootloader_callback hw (a + of_nat (chunk a d)) (drop (chunk a d) d) (store a d s))"
  unfolding bootloader_callback.simps [of hw a d s] Let_def page_index chunk_def store_def by (rule if_not_P)

lemma callback_cases:
  assumes "bootloader_callback hw a d s = Inr (rv, t)"
  obtains (finished) "d = []" "rv = 0" "t = s"
  | (failed) "turn_page hw (PAGE_OF a) s = Inr (rv, t)" "d \<noteq> []" "rv \<noteq> 0"
  | (more) u where "turn_page hw (PAGE_OF a) s = Inr (0, u)" "d \<noteq> []" "length (drop (chunk a d) d) < length d"
      "bootloader_callback hw (a + of_nat (chunk a d)) (drop (chunk a d) d) (store a d u) = Inr (rv, t)"
proof (cases "d = []")
  case True
  with assms that(1) show thesis by simp
next
  case False
  then obtain rv' u where "turn_page hw (PAGE_OF a) s = Inr (rv', u)"
    "(if rv' \<noteq> 0 then Inr (rv', u)
      else bootloader_callback hw (a + of_nat (chunk a d)) (drop (chunk a d) d) (store a d u)) = Inr (rv, t)"
    using assms unfolding callback_unfold [OF False] by (auto simp del: callback_Nil)
  moreover have "length (drop (chunk a d) d) < length d" using False by (simp add: chunk_def)
  ultimately show thesis using that(2,3) False by (cases "rv' = 0") auto
qed

lemma callback_image:
  assumes "bootloader_callback hw a d s = Inr (0, t)" "boot_ok s" "hw_frame hw" "in_range (a, d)"
  shows "boot_ok t \<and> boot_image t = overlay (boot_image s) a d"
  using assms(1,2,4)
proof (induction d arbitrary: a s rule: length_induct)
  case (1 d)
  from 1(2) show ?case
  proof (cases rule: callback_cases)
    case finished
    then show ?thesis using 1(3) by (simp add: overlay_def fun_eq_iff)
  next
    case failed
    then show ?thesis by simp
  next
    case (more u)
    let ?c = "chunk a d"
    have c: "?c \<le> length d" and fits: "unat a mod 2048 + length (take ?c d) \<le> 2048" by (auto simp: chunk_def)
    note turn = callback_turn_page [OF 1(3) assms(3) in_range_page [OF 1(4) more(2)] more(1)]
    note st = store_chunk [OF turn(1,2) fits store_def]
    have "boot_ok t \<and> boot_image t = overlay (boot_image (store a d u)) (a + of_nat ?c) (drop ?c d)"
      using 1(1) more(3,4) loaded_dirty_ok [OF st(1,2)] in_range_drop [OF 1(4) c] by blast
    moreover have "overlay (overlay (boot_image s) a (take ?c d)) (a + of_nat ?c) (drop ?c d) = overlay (boot_image s) a d"
      using 1(4) c by (intro overlay_append) (simp_all add: in_range_def)
    ultimately show ?thesis using st(3) turn(3) by simp
  qed
qed

section \<open>Loading a file\<close>

lemma maybe_write_code: "flash_page_maybe_write hw page data f = Inr (rv, g) \<Longrightarrow> rv \<in> {0, 1, 2, 3}"
proof (cases rule: maybe_write_cases [where hw = hw and page = page and data = data and f = f and rv = rv and g = g])
qed (auto simp: flash_page_write_def flash_page_erase_def Let_def flash_codes split: if_splits prod.splits)

lemma callback_keeps:
  assumes "bootloader_callback hw a d s = Inr (rv, t)" "Q s"
    and tp: "\<And>s rv t p. Q s \<Longrightarrow> turn_page hw p s = Inr (rv, t) \<Longrightarrow> Q t \<and> C rv"
    and st: "\<And>s a d. Q s \<Longrightarrow> Q (store a d s)"
    and "C 0"
  shows "Q t \<and> C rv"
  using assms(1,2)
proof (induction d arbitrary: a s rule: length_induct)
  case (1 d)
  from 1(2) show ?case
  proof (cases rule: callback_cases)
    case finished
    then show ?thesis using 1(3) \<open>C 0\<close> by simp
  next
    case failed
    then show ?thesis using tp 1(3) by blast
  next
    case (more u)
    then show ?thesis using 1(1) 1(3) tp st by blast
  qed
qed

lemma flush_code: "flush_page hw s = Inr (rv, t) \<Longrightarrow> rv \<in> {0, 1, 2, 3}"
  by (auto simp: flush_page_def Let_def split: if_splits dest: maybe_write_code)

lemma callback_code: "bootloader_callback hw a d s = Inr (rv, t) \<Longrightarrow> rv \<in> {0, 1, 2, 3}"
proof -
  have "True \<and> rv \<in> {0, 1, 2, 3}" if "turn_page hw p s = Inr (rv, t)" for p s rv t
    using that by (auto simp: turn_page_def split: if_splits dest!: flush_code)
  then show "rv \<in> {0, 1, 2, 3}" if "bootloader_callback hw a d s = Inr (rv, t)"
    using callback_keeps [where Q = "\<lambda>_. True" and C = "\<lambda>rv. rv \<in> {0, 1, 2, 3}", OF that] by blast
qed

lemma maybe_write_protects:
  assumes w: "flash_page_maybe_write hw page data f = Inr (rv, g)" and "hw_frame hw" "\<not> flash_can_write hw (PAGE_OF a)"
  shows "fl_mem g a = fl_mem f a"
proof (cases "PAGE_OF a = PAGE_OF page")
  case False
  then show ?thesis by (rule maybe_write_frame [OF w assms(2)])
next
  case True
  have "fl_mem g' a = fl_mem f' a" if "flash_page_write hw page data f' = Inr (rv, g')" for f' g'
    using that True assms(3) PAGE_OF_aligned [of page]
    by (auto simp: flash_page_write_def ASSERT_ALIGNED_def aligned_def split: if_splits)
  moreover have "fl_mem g' a = fl_mem f' a" if "flash_page_erase hw page f' = Inr (rv, g')" for f' g' rv
    using that True assms(3) PAGE_OF_aligned [of page]
    by (auto simp: flash_page_erase_def ASSERT_ALIGNED_def aligned_def split: if_splits)
  ultimately show ?thesis by (auto intro: maybe_write_cases [OF w])
qed

definition builds :: "flash_hw \<Rightarrow> fmem \<Rightarrow> (u32 \<times> u8 list) list \<Rightarrow> boot \<Rightarrow> bool" where
  "builds hw m l s \<longleftrightarrow> (hw_frame hw \<and> list_all in_range l \<longrightarrow>
     boot_ok s \<and> boot_image s = fold (\<lambda>(a, d) m. overlay m a d) l m)"

definition protects :: "flash_hw \<Rightarrow> fmem \<Rightarrow> boot \<Rightarrow> bool" where
  "protects hw m s \<longleftrightarrow> (hw_frame hw \<longrightarrow> (\<forall>a. \<not> flash_can_write hw (PAGE_OF a) \<longrightarrow> fl_mem (bflash s) a = m a))"

lemma flush_protects: "protects hw m s \<Longrightarrow> flush_page hw s = Inr (rv, t) \<Longrightarrow> protects hw m t"
  by (auto simp: flush_page_def protects_def Let_def split: if_splits dest: maybe_write_protects)

lemma callback_protects:
  assumes "protects hw m s" "bootloader_callback hw a d s = Inr (rv, t)"
  shows "protects hw m t"
proof -
  have u: "protects hw m (u\<lparr>page_buffer := b, dirty := c\<rparr>) = protects hw m u"
    "protects hw m (u\<lparr>page_buffer := b, dirty := c, current_page := e\<rparr>) = protects hw m u" for u b c e
    by (simp_all add: protects_def)
  have "protects hw m t \<and> True" using assms(2,1)
  proof (rule callback_keeps)
    fix s rv t p
    assume "protects hw m s" "turn_page hw p s = Inr (rv, t)"
    then show "protects hw m t \<and> True"
      using flush_protects by (auto simp: turn_page_def u split: if_splits)
  qed (simp_all add: store_def u)
  then show ?thesis by simp
qed

interpretation img: record_sink "bootloader_callback hw" "builds hw m" for hw m
proof
  fix l s a d t
  assume "builds hw m l s" "bootloader_callback hw a d s = Inr (0, t)"
  then show "builds hw m (l @ [(a, d)]) t" using callback_image [of hw a d s t] by (auto simp: builds_def)
next
  fix a d s rv t
  assume "bootloader_callback hw a d s = Inr (rv, t)"
  from callback_code [OF this] show "rv \<noteq> IHEX_EOF" by (auto simp: IHEX_EOF_def)
qed

interpretation prt: ihex_sink "bootloader_callback hw" "protects hw m" for hw m
  by unfold_locales (rule callback_protects)


lemma flush_status: "flush_page hw s = Inr (rv, t) \<Longrightarrow> bootloader_status t = bootloader_status s"
  by (auto simp: flush_page_def Let_def split: if_splits)

interpretation sts: ihex_sink "bootloader_callback hw" "\<lambda>s. bootloader_status s = v" for hw v
proof
  fix s a d rv t
  assume s: "bootloader_status s = v" and c: "bootloader_callback hw a d s = Inr (rv, t)"
  have "bootloader_status t = v \<and> True" using c s
    by (rule callback_keeps) (auto simp: turn_page_def store_def split: if_splits dest: flush_status)
  then show "bootloader_status t = v" by simp
qed

definition file_bytes :: "u8 list option list \<Rightarrow> u8 list" where
  "file_bytes reads = concat (map (case_option [] id) reads)"

definition flash_with :: "(u32 \<times> u8 list) list \<Rightarrow> fmem \<Rightarrow> fmem" where
  "flash_with = fold (\<lambda>(a, d) m. overlay m a d)"

lemma bootloader_feed_eof:
  assumes "ihex_feed (bootloader_callback hw) buf h s = Inr (IHEX_EOF, h', u)"
  shows "bootloader_feed hw buf h s = rbind (flush_page hw u) (\<lambda>(rv, v).
     if rv = 0 then Inr (None, h', v\<lparr>bootloader_status := BLS_DONE\<rparr>)
     else Inr (Some (bootloader_message rv), h', v\<lparr>bootloader_status := BLS_ERROR\<rparr>))"
proof -
  have "IHEX_EOF \<noteq> IHEX_CONTINUE" by (simp add: ihex_codes)
  then show ?thesis using assms
    by (cases "flush_page hw u") (auto simp: bootloader_feed_def)
qed

lemma loop_None: "bootloader_status s = BLS_FLASHING \<Longrightarrow>
    try_flash_loop hw (None # reads) h s = Inr ([''Error reading file''], s)"
  by (simp add: try_flash_loop.simps [of hw "None # reads"])

lemma loop_empty: "bootloader_status s = BLS_FLASHING \<Longrightarrow>
    try_flash_loop hw (Some [] # reads) h s = Inr ([''Error: premature end of file''], s)"
  by (simp add: try_flash_loop.simps [of hw "Some [] # reads"])

lemma loop_Some: "bootloader_status s = BLS_FLASHING \<Longrightarrow> buf \<noteq> [] \<Longrightarrow>
    try_flash_loop hw (Some buf # reads) h s =
      rbind (bootloader_feed hw buf h s) (\<lambda>(errmsg, h, s).
      case errmsg of Some m \<Rightarrow> Inr ([''Error flashing firmware: '', m], s)
      | None \<Rightarrow> try_flash_loop hw reads h s)"
  by (simp add: try_flash_loop.simps [of hw "Some buf # reads"])

lemma loop_stop: "bootloader_status s \<noteq> BLS_FLASHING \<Longrightarrow> try_flash_loop hw reads h s = Inr ([], s)"
  by (simp add: try_flash_loop.simps [of hw reads])

lemma bootloader_feed_cases:
  assumes "bootloader_feed hw buf h s = Inr (None, h', t)"
  obtains (eof) u v where "ihex_feed (bootloader_callback hw) buf h s = Inr (IHEX_EOF, h', u)"
      "flush_page hw u = Inr (0, v)" "t = v\<lparr>bootloader_status := BLS_DONE\<rparr>"
  | (more) "ihex_feed (bootloader_callback hw) buf h s = Inr (0, h', t)"
proof -
  from assms obtain rv u where f: "ihex_feed (bootloader_callback hw) buf h s = Inr (rv, h', u)"
    by (auto simp: bootloader_feed_def split: if_splits)
  show thesis
  proof (cases "rv = IHEX_EOF")
    case False
    then show thesis using assms f more by (auto simp: bootloader_feed_def IHEX_CONTINUE_def split: if_splits)
  next
    case True
    from assms have "rbind (flush_page hw u) (\<lambda>(rv, v).
        if rv = 0 then Inr (None, h', v\<lparr>bootloader_status := BLS_DONE\<rparr>)
        else Inr (Some (bootloader_message rv), h', v\<lparr>bootloader_status := BLS_ERROR\<rparr>)) = Inr (None, h', t)"
      unfolding bootloader_feed_eof [OF f [unfolded True]] .
    then obtain v where v: "flush_page hw u = Inr (0, v)" "t = v\<lparr>bootloader_status := BLS_DONE\<rparr>"
      unfolding rbind_eq_Inr by (force split: if_split_asm)
    show thesis using f [unfolded True] v by (rule eof)
  qed
qed

lemma feed_error:
  "bootloader_feed hw buf h s = Inr (Some m, h', t) \<Longrightarrow> bootloader_status t \<noteq> BLS_DONE"
  by (auto simp: bootloader_feed_def BLS_ERROR_def BLS_DONE_def split: if_splits)

lemma loop_builds:
  assumes "try_flash_loop hw reads h s = Inr (out, t)" "bootloader_status s = BLS_FLASHING"
    and "bootloader_status t = BLS_DONE" "builds hw m l s" "hw_frame hw"
  shows "\<exists>h' l'. ihex_feed log_record (file_bytes reads) h l = Inr (IHEX_EOF, h', l')
     \<and> (list_all in_range l' \<longrightarrow> fl_mem (bflash t) = flash_with l' m)"
  using assms(1,2,4)
proof (induction reads arbitrary: h s l out)
  case Nil
  then show ?case by (simp add: try_flash_loop.simps)
next
  case (Cons r reads)
  have d: "BLS_FLASHING \<noteq> BLS_DONE" by (simp add: BLS_FLASHING_def BLS_DONE_def)
  from Cons.prems(2) assms(3) d have ne: "t \<noteq> s" by auto
  have "r \<noteq> None" using Cons.prems(1) loop_None [OF Cons.prems(2), of hw reads h] ne by (intro notI) simp
  moreover have "r \<noteq> Some []" using Cons.prems(1) loop_empty [OF Cons.prems(2), of hw reads h] ne by (intro notI) simp
  ultimately obtain buf where r: "r = Some buf" "buf \<noteq> []" by auto
  with Cons.prems(1,2) obtain e h1 s1 where e: "bootloader_feed hw buf h s = Inr (e, h1, s1)"
    "(case e of Some m \<Rightarrow> Inr ([''Error flashing firmware: '', m], s1)
      | None \<Rightarrow> try_flash_loop hw reads h1 s1) = Inr (out, t)"
    by (auto simp: loop_Some)
  have f: "bootloader_feed hw buf h s = Inr (None, h1, s1)" and l: "try_flash_loop hw reads h1 s1 = Inr (out, t)"
    using e feed_error [of hw buf h s _ h1 s1] assms(3) by (cases e; auto)+
  from f show ?case
  proof (cases rule: bootloader_feed_cases)
    case (eof u v)
    from img.feed_logs [OF Cons.prems(3) eof(1)] obtain l' where
      l': "ihex_feed log_record buf h l = Inr (IHEX_EOF, h1, l')" "builds hw m l' u" by blast
    have "t = s1" using l eof(3) d loop_stop [of s1 hw reads h1] by simp
    then have "list_all in_range l' \<longrightarrow> fl_mem (bflash t) = flash_with l' m"
      using flush_page_image(1) [OF eof(2)] l'(2) assms(5) eof(3) by (simp add: builds_def flash_with_def)
    moreover have "ihex_feed log_record (file_bytes (r # reads)) h l = Inr (IHEX_EOF, h1, l')"
      using l'(1) by (simp add: r(1) file_bytes_def ihex_feed_append IHEX_EOF_def)
    ultimately show ?thesis by blast
  next
    case more
    from img.feed_logs [OF Cons.prems(3) more] obtain l' where
      l': "ihex_feed log_record buf h l = Inr (0, h1, l')" "builds hw m l' s1" by blast
    have "bootloader_status s1 = BLS_FLASHING" using sts.feed_keeps [OF Cons.prems(2) more] .
    from Cons.IH [OF l this l'(2)] show ?thesis
      using l'(1) by (simp add: r(1) file_bytes_def ihex_feed_append)
  qed
qed


lemma feed_protects:
  assumes "protects hw m s" "bootloader_feed hw buf h s = Inr (e, h', t)"
  shows "protects hw m t"
proof -
  have p: "protects hw m (u\<lparr>bootloader_status := b\<rparr>) = protects hw m u" for u b by (simp add: protects_def)
  obtain rv h2 u where f: "ihex_feed (bootloader_callback hw) buf h s = Inr (rv, h2, u)"
  proof (cases "ihex_feed (bootloader_callback hw) buf h s")
    case (Inl x)
    then show thesis using assms(2) by (simp add: bootloader_feed_def)
  qed (use that in auto)
  have u: "protects hw m u" using prt.feed_keeps [OF assms(1) f] .
  show ?thesis
  proof (cases "rv = IHEX_EOF")
    case True
    show ?thesis
      using assms(2) flush_protects [OF u] unfolding bootloader_feed_eof [OF f [unfolded True]]
      by (auto simp: p split: if_splits)
  next
    case False
    then show ?thesis using assms(2) f u by (auto simp: bootloader_feed_def p split: if_splits)
  qed
qed

lemma loop_protects:
  assumes "try_flash_loop hw reads h s = Inr (out, t)" "protects hw m s"
  shows "protects hw m t"
  using assms
proof (induction reads arbitrary: h s out)
  case Nil
  then show ?case by (auto simp: try_flash_loop.simps split: if_splits)
next
  case (Cons r reads)
  show ?case
  proof (cases "bootloader_status s = BLS_FLASHING \<and> r \<noteq> None \<and> r \<noteq> Some []")
    case True
    then obtain buf where r: "r = Some buf" "buf \<noteq> []" by auto
    with Cons.prems(1) True obtain e h1 s1 where e: "bootloader_feed hw buf h s = Inr (e, h1, s1)"
      "(case e of Some m \<Rightarrow> Inr ([''Error flashing firmware: '', m], s1)
        | None \<Rightarrow> try_flash_loop hw reads h1 s1) = Inr (out, t)"
      by (auto simp: loop_Some)
    then show ?thesis using feed_protects [OF Cons.prems(2) e(1)] Cons.IH by (auto split: option.splits)
  next
    case False
    then have "t = s" using Cons.prems(1) loop_None [of s hw reads h] loop_empty [of s hw reads h]
      loop_stop [of s hw "r # reads" h] by (cases "bootloader_status s = BLS_FLASHING") auto
    then show ?thesis using Cons.prems(2) by simp
  qed
qed

text \<open>
  C7. A completed firmware load leaves exactly the file's image in flash: if the loading
  loop ends with success, the decoder read the file up to an end-of-file record, and the
  flash holds its old contents overlaid, in order, with every data record of the file, no
  other byte having changed. The records must lie above page 0 and below the last page of
  the address space, and the controller must only touch the page it is told to.
\<close>

theorem firmware_load_image:
  assumes "try_flash_load hw reads h s = Inr (out, t)" "length (page_buffer s) = 2048" "hw_frame hw"
    and "ihex_feed log_record (file_bytes reads) (ihex_init h) [] = Inr (rv, h', records)" "list_all in_range records"
  shows "rv = IHEX_EOF \<and> fl_mem (bflash t) = flash_with records (fl_mem (bflash s))"
proof -
  let ?s = "s\<lparr>bootloader_status := BLS_FLASHING, current_page := 0, dirty := False, changed := False\<rparr>"
  obtain out' where l: "try_flash_loop hw reads (ihex_init h) ?s = Inr (out', t)" "bootloader_status t = BLS_DONE"
    using assms(1) by (auto simp: try_flash_load_def bootloader_start_def split: if_splits)
  have "boot_image ?s = fl_mem (bflash s)" by (simp add: boot_image_def fun_eq_iff)
  then have "builds hw (fl_mem (bflash s)) [] ?s"
    using assms(2) by (simp add: builds_def boot_ok_def aligned_def)
  from loop_builds [OF l(1) _ l(2) this assms(3)] show ?thesis using assms(4,5) by auto
qed

definition sample_boot :: boot where
  "sample_boot = \<lparr>bootloader_status = BLS_WAITING, dirty = False, changed = False, current_page = 0,
     page_buffer = replicate 2048 0, bflash = blank_flash\<rparr>"

definition sample_file :: "u8 list" where
  "sample_file = hex_line [1, 0x10, 0, 0, 0xFF, 0xF0] @ hex_line [0, 0, 0, 1, 0xFF]"

lemma ihex_ok0: "ihex_ok ihex0" "ihex_state ihex0 = START" "ihex_init ihex0 = ihex0"
  by (simp_all add: ihex_ok_def ihex0_def ihex_init_def)

lemma sample_feed:
  assumes "cb 0x1000 [0xFF] s = Inr (0, t)"
  shows "\<exists>h'. ihex_feed cb sample_file ihex0 s = Inr (IHEX_EOF, h', t)"
proof -
  let ?l = "[1, 0x10, 0, 0, 0xFF, 0xF0] :: u8 list"
  let ?h = "line_state ?l ihex0\<lparr>ihex_state := START\<rparr>"
  have "ihex_eol cb (line_state ?l ihex0) s = Inr (0, ?h, t)"
    using assms by (simp add: ihex_eol_def ihex_record_def Let_def rec_defs ihex0_def)
  then have 1: "ihex_feed cb (hex_line ?l) ihex0 s = Inr (0, ?h, t)"
    using ihex_ok0 by (simp add: hex_line_feed ihex_codes)
  have ok: "ihex_ok ?h" "ihex_state ?h = START" by (simp_all add: ihex_ok_def ihex0_def)
  have "ihex_eol cb (line_state [0, 0, 0, 1, 0xFF] ?h) t
      = Inr (IHEX_EOF, line_state [0, 0, 0, 1, 0xFF] ?h\<lparr>ihex_state := START\<rparr>, t)"
    by (simp add: ihex_eol_def ihex_record_def Let_def rec_defs)
  then have "ihex_feed cb (hex_line [0, 0, 0, 1, 0xFF]) ?h t
      = Inr (IHEX_EOF, line_state [0, 0, 0, 1, 0xFF] ?h\<lparr>ihex_state := START\<rparr>, t)"
    using ok by (simp add: hex_line_feed ihex_codes)
  with 1 show ?thesis unfolding sample_file_def ihex_feed_append by simp
qed

lemma sample_load:
  "\<exists>t. try_flash_load blank_hw [Some sample_file] ihex0 sample_boot = Inr ([''Firmware is up-to-date''], t)"
proof -
  let ?s = "sample_boot\<lparr>bootloader_status := BLS_FLASHING, current_page := 0, dirty := False, changed := False\<rparr>"
  let ?t = "?s\<lparr>page_buffer := replicate 2048 0xFF, dirty := True, current_page := 0x1000\<rparr>"
  have p: "PAGE_OF 0x1000 = 0x1000" and nw: "no_wrap 0x1000"
    by (simp_all add: PAGE_OF_def FLASH_PAGE_SIZE_def no_wrap_def NEXT_PAGE_def)
  have c: "chunk 0x1000 [0xFF] = 1" by (simp add: chunk_def)
  have "copy_into (replicate 2048 0xFF) 0 [0xFF] = (replicate 2048 0xFF :: u8 list)"
    by (simp add: copy_into_def flip: replicate_Suc)
  then have cb: "bootloader_callback blank_hw 0x1000 [0xFF] ?s = Inr (0, ?t)"
    by (simp add: callback_unfold p c turn_page_def flush_page_def store_def sample_boot_def blank_page)
  from sample_feed [of "bootloader_callback blank_hw", OF this] obtain h' where
    "ihex_feed (bootloader_callback blank_hw) sample_file ihex0 ?s = Inr (IHEX_EOF, h', ?t)" by blast
  moreover have "flush_page blank_hw ?t = Inr (0, ?t\<lparr>dirty := False\<rparr>)"
    using blank_unchanged [OF nw] by (simp add: flush_page_def sample_boot_def flash_codes)
  ultimately have "bootloader_feed blank_hw sample_file ihex0 ?s
      = Inr (None, h', ?t\<lparr>dirty := False, bootloader_status := BLS_DONE\<rparr>)"
    by (simp add: bootloader_feed_eof)
  moreover have "sample_file \<noteq> []" by (simp add: sample_file_def hex_line_def)
  moreover have "BLS_DONE \<noteq> BLS_FLASHING" by (simp add: BLS_DONE_def BLS_FLASHING_def)
  ultimately have "try_flash_loop blank_hw [Some sample_file] ihex0 ?s
      = Inr ([], ?t\<lparr>dirty := False, bootloader_status := BLS_DONE\<rparr>)"
    by (simp add: loop_Some loop_stop)
  then show ?thesis
    by (simp add: try_flash_load_def bootloader_start_def ihex_ok0 bootloader_was_changed_def)
qed

lemma PAGE_OF_half_word:
  assumes "p mod 2 = 0"
  shows "PAGE_OF (p + 1) = PAGE_OF p"
proof -
  have "unat p mod 2 = 0" using assms by (simp add: word_unat_eq_iff unat_mod)
  then obtain q where q: "unat p = 2 * q" by auto
  have "unat p < 2 ^ 32" using unsigned_less [of p, where ?'a = nat] by simp
  then have "unat (p + 1) = 2 * q + 1" using q by (simp add: unat_word_ariths)
  moreover have "(2 * q + 1) div 2048 = (2 * q) div 2048" by simp
  ultimately show ?thesis using q by (simp add: word_unat_eq_iff unat_PAGE_OF)
qed

lemma blank_frame: "hw_frame blank_hw"
  by (auto simp: hw_frame_def blank_hw_def PAGE_OF_half_word)

theorem firmware_load_image_witness:
  "\<exists>t. try_flash_load blank_hw [Some sample_file] ihex0 sample_boot = Inr ([''Firmware is up-to-date''], t)
     \<and> fl_mem (bflash t) = flash_with [(0x1000, [0xFF])] (fl_mem blank_flash)"
proof -
  from sample_load obtain t where
    t: "try_flash_load blank_hw [Some sample_file] ihex0 sample_boot = Inr ([''Firmware is up-to-date''], t)" by blast
  obtain h' where "ihex_feed log_record (file_bytes [Some sample_file]) (ihex_init ihex0) [] = Inr (IHEX_EOF, h', [(0x1000, [0xFF])])"
    using sample_feed [of log_record "[]" "[(0x1000, [0xFF])]"] by (auto simp: log_record_def file_bytes_def ihex_ok0)
  from firmware_load_image [OF t _ blank_frame this] t show ?thesis
    by (auto simp: sample_boot_def in_range_def)
qed

text \<open>
  C8. No file can make the loader overwrite memory outside the application area: whatever
  bytes and read errors the loading loop sees, and however it ends, every address whose
  page starts below \<open>_user_start\<close>, where the loader itself is, or whose next page starts above
  \<open>_user_end\<close> keeps its contents.
\<close>

theorem firmware_load_protects:
  assumes "try_flash_loop hw reads h s = Inr (out, t)" "hw_frame hw" "PAGE_OF a < user_start hw \<or> user_end hw < NEXT_PAGE (PAGE_OF a)"
  shows "fl_mem (bflash t) a = fl_mem (bflash s) a"
  using loop_protects [OF assms(1), of "fl_mem (bflash s)"] assms(2,3)
  by (auto simp: protects_def flash_can_write_def)


theorem firmware_load_protects_witness:
  "\<exists>out t. try_flash_loop blank_hw [Some [58, 10]] ihex0 (sample_boot\<lparr>bootloader_status := BLS_FLASHING\<rparr>) = Inr (out, t)
     \<and> fl_mem (bflash t) 0x08000000 = fl_mem blank_flash 0x08000000"
proof -
  let ?s = "sample_boot\<lparr>bootloader_status := BLS_FLASHING\<rparr>"
  obtain out t where l: "try_flash_loop blank_hw [Some [58, 10]] ihex0 ?s = Inr (out, t)"
    by (simp add: loop_Some bootloader_feed_def ihex_byte_def ihex0_def ihex_eol_def ihex_codes)
  have "PAGE_OF 0x08000000 < user_start blank_hw \<or> user_end blank_hw < NEXT_PAGE (PAGE_OF 0x08000000)"
    by (simp add: blank_hw_def PAGE_OF_def FLASH_PAGE_SIZE_def)
  from firmware_load_protects [OF l blank_frame this] l show ?thesis by (auto simp: sample_boot_def)
qed

end
