(* ===== verification/Init.thy ===== *)
theory Init
  imports Common
begin

text \<open>
  Start-up of the board: the clock and pin configuration of \<open>src/src/init.c\<close>, the pin
  tables and \<open>SystemInit\<close> of \<open>src/src/board.c\<close>, and the information table lookup of
  \<open>src/lib/info_table.c\<close>. Peripheral registers are fields of records. What the clock
  hardware does to its status bits while the code polls them is the parameter \<open>settle\<close>; a
  status bit that never changes is \<open>Fuel\<close>.
\<close>

section \<open>Registers\<close>

record rcc =
  rcc_cr :: u32
  rcc_cfgr :: u32
  rcc_cfgr2 :: u32
  rcc_ahbenr :: u32
  rcc_apb1enr :: u32
  rcc_apb2enr :: u32

record gpio =
  gpio_crl :: u32
  gpio_crh :: u32
  gpio_odr :: u16

definition SET_BITS :: "u32 \<Rightarrow> u32 \<Rightarrow> u32 \<Rightarrow> u32" where
  "SET_BITS var m value = (var AND NOT m) OR (value AND m)"

definition RCC_CFGR_SW :: u32 where "RCC_CFGR_SW = 0x3"
definition RCC_CFGR_SW_HSI :: u32 where "RCC_CFGR_SW_HSI = 0"
definition RCC_CFGR_SW_PLL :: u32 where "RCC_CFGR_SW_PLL = 2"
definition RCC_CFGR_SWS :: u32 where "RCC_CFGR_SWS = 0xC"
definition RCC_CFGR_SWS_HSI :: u32 where "RCC_CFGR_SWS_HSI = 0"
definition RCC_CFGR_SWS_PLL :: u32 where "RCC_CFGR_SWS_PLL = 8"
definition RCC_CR_HSEON :: u32 where "RCC_CR_HSEON = 0x10000"
definition RCC_CR_HSERDY :: u32 where "RCC_CR_HSERDY = 0x20000"
definition RCC_CR_PLLON :: u32 where "RCC_CR_PLLON = 0x1000000"
definition RCC_CR_PLLRDY :: u32 where "RCC_CR_PLLRDY = 0x2000000"
definition RCC_CFGR_PLLSRC :: u32 where "RCC_CFGR_PLLSRC = 0x10000"
definition RCC_CFGR_PLLSRC_PREDIV1 :: u32 where "RCC_CFGR_PLLSRC_PREDIV1 = 0x10000"
definition RCC_CFGR_PLLMULL :: u32 where "RCC_CFGR_PLLMULL = 0x3C0000"
definition RCC_CFGR_PLLMULL6_5 :: u32 where "RCC_CFGR_PLLMULL6_5 = 0x340000"
definition RCC_CFGR2_PREDIV1SRC :: u32 where "RCC_CFGR2_PREDIV1SRC = 0x10000"
definition RCC_CFGR2_PREDIV1SRC_HSE :: u32 where "RCC_CFGR2_PREDIV1SRC_HSE = 0"
definition RCC_CFGR2_PREDIV1 :: u32 where "RCC_CFGR2_PREDIV1 = 0xF"

lemmas rcc_defs = RCC_CFGR_SW_def RCC_CFGR_SW_HSI_def RCC_CFGR_SW_PLL_def RCC_CFGR_SWS_def RCC_CFGR_SWS_HSI_def
  RCC_CFGR_SWS_PLL_def RCC_CR_HSEON_def RCC_CR_HSERDY_def RCC_CR_PLLON_def RCC_CR_PLLRDY_def RCC_CFGR_PLLSRC_def
  RCC_CFGR_PLLSRC_PREDIV1_def RCC_CFGR_PLLMULL_def RCC_CFGR_PLLMULL6_5_def RCC_CFGR2_PREDIV1SRC_def
  RCC_CFGR2_PREDIV1SRC_HSE_def RCC_CFGR2_PREDIV1_def

section \<open>Clocks\<close>

definition DIV_MIN :: nat where "DIV_MIN = 1"
definition DIV_MAX :: nat where "DIV_MAX = 16"
definition MUL_MIN :: nat where "MUL_MIN = 4"
definition MUL_MAX :: nat where "MUL_MAX = 10"
definition DIV1_MIN :: u32 where "DIV1_MIN = 3000000"
definition DIV1_MAX :: u32 where "DIV1_MAX = 12000000"
definition PLL_MIN :: u32 where "PLL_MIN = 18000000"
definition PLL_MAX :: u32 where "PLL_MAX = 72000000"

type_synonym pll_choice = "u32 \<times> nat \<times> nat"

definition pll_freq :: "u32 \<Rightarrow> nat \<Rightarrow> nat \<Rightarrow> u32" where
  "pll_freq hse_freq div1 mul =
     (if mul = 10 then hse_freq * 13 div 2 div of_nat div1 else hse_freq * of_nat mul div of_nat div1)"

definition mul_step :: "u32 \<Rightarrow> nat \<Rightarrow> pll_choice \<Rightarrow> nat \<Rightarrow> pll_choice" where
  "mul_step hse_freq dv best mul =
     (let freq = pll_freq hse_freq dv mul in
      if freq < PLL_MIN \<or> freq > PLL_MAX then best
      else if freq < fst best then best
      else (freq, dv, mul))"

definition div_step :: "u32 \<Rightarrow> pll_choice \<Rightarrow> nat \<Rightarrow> pll_choice" where
  "div_step hse_freq best dv =
     (let div1 = hse_freq div of_nat dv in
      if div1 < DIV1_MIN \<or> div1 > DIV1_MAX then best
      else foldl (mul_step hse_freq dv) best [MUL_MIN..<Suc MUL_MAX])"

definition best_pll :: "u32 \<Rightarrow> pll_choice" where
  "best_pll hse_freq = foldl (div_step hse_freq) (0, 0, 0) [DIV_MIN..<Suc DIV_MAX]"

definition rcc_wait :: "(rcc \<Rightarrow> rcc) \<Rightarrow> (rcc \<Rightarrow> bool) \<Rightarrow> rcc \<Rightarrow> rcc res" where
  "rcc_wait settle ready r = (let r = settle r in if ready r then Inr r else Inl Fuel)"

definition switch_to_hsi :: "(rcc \<Rightarrow> rcc) \<Rightarrow> rcc \<Rightarrow> rcc res" where
  "switch_to_hsi settle r =
     (if rcc_cfgr r AND RCC_CFGR_SWS \<noteq> RCC_CFGR_SWS_HSI
      then rcc_wait settle (\<lambda>r. rcc_cfgr r AND RCC_CFGR_SWS = RCC_CFGR_SWS_HSI)
             (r\<lparr>rcc_cfgr := SET_BITS (rcc_cfgr r) RCC_CFGR_SW RCC_CFGR_SW_HSI\<rparr>)
      else Inr r)"

definition pll_mul_reg :: "nat \<Rightarrow> u32" where
  "pll_mul_reg best_mul = (if best_mul = 10 then RCC_CFGR_PLLMULL6_5 else push_bit 18 (of_nat (best_mul - 2)))"

definition setup_clocks :: "(rcc \<Rightarrow> rcc) \<Rightarrow> u32 \<Rightarrow> rcc \<Rightarrow> (u32 \<times> rcc) res" where
  "setup_clocks settle hse_freq r =
     rbind (ASSERT (hse_freq > 1000000)) (\<lambda>_.
     rbind (ASSERT (hse_freq < 50000000)) (\<lambda>_.
     let (best_freq, best_div, best_mul) = best_pll hse_freq in
     if best_freq = 0 then Inl Halt
     else rbind (switch_to_hsi settle r) (\<lambda>r.
     rbind (rcc_wait settle (\<lambda>r. rcc_cr r AND RCC_CR_PLLRDY = 0) (r\<lparr>rcc_cr := rcc_cr r AND NOT RCC_CR_PLLON\<rparr>)) (\<lambda>r.
     let r = r\<lparr>rcc_cfgr := SET_BITS (rcc_cfgr r) RCC_CFGR_PLLSRC RCC_CFGR_PLLSRC_PREDIV1\<rparr>;
         r = r\<lparr>rcc_cfgr2 := SET_BITS (rcc_cfgr2 r) RCC_CFGR2_PREDIV1SRC RCC_CFGR2_PREDIV1SRC_HSE\<rparr>;
         r = r\<lparr>rcc_cfgr := SET_BITS (rcc_cfgr r) RCC_CFGR_PLLMULL (pll_mul_reg best_mul)\<rparr>;
         r = r\<lparr>rcc_cfgr2 := SET_BITS (rcc_cfgr2 r) RCC_CFGR2_PREDIV1 (of_nat (best_div - 1))\<rparr> in
     rbind (rcc_wait settle (\<lambda>r. rcc_cr r AND RCC_CR_HSERDY \<noteq> 0) (r\<lparr>rcc_cr := rcc_cr r OR RCC_CR_HSEON\<rparr>)) (\<lambda>r.
     rbind (rcc_wait settle (\<lambda>r. rcc_cr r AND RCC_CR_PLLRDY \<noteq> 0) (r\<lparr>rcc_cr := rcc_cr r OR RCC_CR_PLLON\<rparr>)) (\<lambda>r.
     rbind (rcc_wait settle (\<lambda>r. rcc_cfgr r AND RCC_CFGR_SWS = RCC_CFGR_SWS_PLL)
              (r\<lparr>rcc_cfgr := SET_BITS (rcc_cfgr r) RCC_CFGR_SW RCC_CFGR_SW_PLL\<rparr>)) (\<lambda>r.
     Inr (best_freq, r))))))))"

definition setup_hsi :: "(rcc \<Rightarrow> rcc) \<Rightarrow> rcc \<Rightarrow> (u32 \<times> rcc) res" where
  "setup_hsi settle r = rbind (switch_to_hsi settle r) (\<lambda>r. Inr (8000000, r))"

section \<open>Pins\<close>

text \<open>
  A bank's output latch is \<open>gpio_odr\<close>; a write to \<open>BSRR\<close> sets the bits of its low half and
  then resets those of its high half that it does not set; a write to \<open>BRR\<close> resets bits.
\<close>

definition write_BSRR :: "u32 \<Rightarrow> gpio \<Rightarrow> gpio" where
  "write_BSRR v b = b\<lparr>gpio_odr := (gpio_odr b AND NOT (ucast (drop_bit 16 v))) OR ucast v\<rparr>"

definition write_BRR :: "u32 \<Rightarrow> gpio \<Rightarrow> gpio" where
  "write_BRR v b = b\<lparr>gpio_odr := gpio_odr b AND NOT (ucast v)\<rparr>"

definition setup_gpio :: "gpio \<Rightarrow> nat \<Rightarrow> u32 \<Rightarrow> bool \<Rightarrow> gpio" where
  "setup_gpio bank pin flags value =
     (let bank = (if value then write_BSRR (push_bit pin 1) bank else write_BRR (push_bit pin 1) bank);
          low = pin < 8;
          reg = (if low then gpio_crl bank else gpio_crh bank);
          pin = (if low then pin else pin - 8);
          m = push_bit (pin * 4) 0xF;
          flags = push_bit (pin * 4) flags;
          reg = (reg AND NOT m) OR flags in
      if low then bank\<lparr>gpio_crl := reg\<rparr> else bank\<lparr>gpio_crh := reg\<rparr>)"

type_synonym gpio_cfg_t = "u8 \<times> nat"

definition bank_step :: "gpio_cfg_t list \<Rightarrow> u32 \<times> u32 \<times> u32 \<Rightarrow> nat \<Rightarrow> u32 \<times> u32 \<times> u32" where
  "bank_step pins a i =
     (let (crl, crh, bsrr) = a; (flags, value) = pins ! i;
          (crl, crh) = (if i < 8 then (crl OR push_bit (4 * i) (ucast flags), crh)
                        else (crl, crh OR push_bit (4 * (i - 8)) (ucast flags)));
          bsrr = (if value \<noteq> 0 then bsrr OR push_bit i 1 else bsrr OR push_bit (i + 16) 1) in
      (crl, crh, bsrr))"

definition setup_bank :: "gpio_cfg_t list \<Rightarrow> gpio \<Rightarrow> gpio" where
  "setup_bank pins bank =
     (let (crl, crh, bsrr) = foldl (bank_step pins) (0, 0, 0) [0..<16] in
      (write_BSRR bsrr bank)\<lparr>gpio_crl := crl, gpio_crh := crh\<rparr>)"

section \<open>Board\<close>

definition GPIO_MODE_INPUT :: u8 where "GPIO_MODE_INPUT = 0"
definition GPIO_MODE_10MHZ :: u8 where "GPIO_MODE_10MHZ = 1"
definition GPIO_MODE_2MHZ :: u8 where "GPIO_MODE_2MHZ = 2"
definition GPIO_MODE_50MHZ :: u8 where "GPIO_MODE_50MHZ = 3"
definition GPIO_INPUT_ANALOG :: u8 where "GPIO_INPUT_ANALOG = 0"
definition GPIO_INPUT_FLOATING :: u8 where "GPIO_INPUT_FLOATING = 4"
definition GPIO_INPUT_PUPD :: u8 where "GPIO_INPUT_PUPD = 8"
definition GPIO_OUTPUT_PP :: u8 where "GPIO_OUTPUT_PP = 0"
definition GPIO_OUTPUT_OD :: u8 where "GPIO_OUTPUT_OD = 4"
definition GPIO_AFIO_PP :: u8 where "GPIO_AFIO_PP = 8"
definition GPIO_AFIO_OD :: u8 where "GPIO_AFIO_OD = 12"

lemmas gpio_defs = GPIO_MODE_INPUT_def GPIO_MODE_10MHZ_def GPIO_MODE_2MHZ_def GPIO_MODE_50MHZ_def GPIO_INPUT_ANALOG_def GPIO_INPUT_FLOATING_def GPIO_INPUT_PUPD_def GPIO_OUTPUT_PP_def GPIO_OUTPUT_OD_def GPIO_AFIO_PP_def GPIO_AFIO_OD_def

definition gpio_cfg :: "gpio_cfg_t list list" where
  "gpio_cfg =
   [[(GPIO_MODE_2MHZ OR GPIO_OUTPUT_PP, 0), (GPIO_MODE_INPUT OR GPIO_INPUT_PUPD, 1),
      (GPIO_MODE_50MHZ OR GPIO_AFIO_OD, 1), (GPIO_MODE_INPUT OR GPIO_INPUT_PUPD, 1),
      (GPIO_MODE_2MHZ OR GPIO_OUTPUT_PP, 1), (GPIO_MODE_INPUT OR GPIO_INPUT_PUPD, 1),
      (GPIO_MODE_2MHZ OR GPIO_OUTPUT_PP, 1), (GPIO_MODE_INPUT OR GPIO_INPUT_PUPD, 1),
      (GPIO_MODE_50MHZ OR GPIO_AFIO_PP, 1), (GPIO_MODE_2MHZ OR GPIO_AFIO_PP, 1),
      (GPIO_MODE_INPUT OR GPIO_INPUT_PUPD, 1), (GPIO_MODE_INPUT OR GPIO_INPUT_PUPD, 1),
      (GPIO_MODE_INPUT OR GPIO_INPUT_PUPD, 1), (GPIO_MODE_INPUT OR GPIO_INPUT_PUPD, 1),
      (GPIO_MODE_INPUT OR GPIO_INPUT_PUPD, 1), (GPIO_MODE_INPUT OR GPIO_INPUT_PUPD, 1)],
    [(GPIO_MODE_INPUT OR GPIO_INPUT_PUPD, 1), (GPIO_MODE_INPUT OR GPIO_INPUT_PUPD, 1),
      (GPIO_MODE_2MHZ OR GPIO_OUTPUT_PP, 1), (GPIO_MODE_50MHZ OR GPIO_AFIO_PP, 1),
      (GPIO_MODE_INPUT OR GPIO_INPUT_PUPD, 1), (GPIO_MODE_50MHZ OR GPIO_AFIO_PP, 1),
      (GPIO_MODE_50MHZ OR GPIO_AFIO_OD, 1), (GPIO_MODE_50MHZ OR GPIO_AFIO_OD, 1),
      (GPIO_MODE_INPUT OR GPIO_INPUT_PUPD, 1), (GPIO_MODE_INPUT OR GPIO_INPUT_PUPD, 1),
      (GPIO_MODE_INPUT OR GPIO_INPUT_PUPD, 1), (GPIO_MODE_50MHZ OR GPIO_AFIO_PP, 1),
      (GPIO_MODE_50MHZ OR GPIO_AFIO_PP, 1), (GPIO_MODE_50MHZ OR GPIO_AFIO_PP, 1),
      (GPIO_MODE_2MHZ OR GPIO_OUTPUT_PP, 1), (GPIO_MODE_INPUT OR GPIO_INPUT_PUPD, 1)],
    [(GPIO_MODE_2MHZ OR GPIO_OUTPUT_PP, 0), (GPIO_MODE_50MHZ OR GPIO_AFIO_PP, 1),
      (GPIO_MODE_2MHZ OR GPIO_OUTPUT_PP, 0), (GPIO_MODE_2MHZ OR GPIO_OUTPUT_PP, 0),
      (GPIO_MODE_INPUT OR GPIO_INPUT_PUPD, 1), (GPIO_MODE_INPUT OR GPIO_INPUT_PUPD, 1),
      (GPIO_MODE_INPUT OR GPIO_INPUT_PUPD, 0), (GPIO_MODE_INPUT OR GPIO_INPUT_PUPD, 1),
      (GPIO_MODE_INPUT OR GPIO_INPUT_PUPD, 0), (GPIO_MODE_2MHZ OR GPIO_OUTPUT_PP, 1),
      (GPIO_MODE_2MHZ OR GPIO_AFIO_PP, 1), (GPIO_MODE_INPUT OR GPIO_INPUT_PUPD, 1),
      (GPIO_MODE_2MHZ OR GPIO_AFIO_PP, 1), (GPIO_MODE_2MHZ OR GPIO_OUTPUT_PP, 0),
      (GPIO_MODE_INPUT OR GPIO_INPUT_PUPD, 1), (GPIO_MODE_INPUT OR GPIO_INPUT_PUPD, 1)],
    [(GPIO_MODE_INPUT OR GPIO_INPUT_PUPD, 1), (GPIO_MODE_INPUT OR GPIO_INPUT_PUPD, 1),
      (GPIO_MODE_INPUT OR GPIO_INPUT_PUPD, 1), (GPIO_MODE_INPUT OR GPIO_INPUT_PUPD, 1),
      (GPIO_MODE_INPUT OR GPIO_INPUT_PUPD, 1), (GPIO_MODE_INPUT OR GPIO_INPUT_PUPD, 1),
      (GPIO_MODE_INPUT OR GPIO_INPUT_PUPD, 1), (GPIO_MODE_INPUT OR GPIO_INPUT_PUPD, 1),
      (GPIO_MODE_INPUT OR GPIO_INPUT_PUPD, 1), (GPIO_MODE_INPUT OR GPIO_INPUT_PUPD, 1),
      (GPIO_MODE_INPUT OR GPIO_INPUT_PUPD, 1), (GPIO_MODE_INPUT OR GPIO_INPUT_PUPD, 1),
      (GPIO_MODE_INPUT OR GPIO_INPUT_PUPD, 1), (GPIO_MODE_INPUT OR GPIO_INPUT_PUPD, 1),
      (GPIO_MODE_INPUT OR GPIO_INPUT_PUPD, 1), (GPIO_MODE_INPUT OR GPIO_INPUT_PUPD, 1)]]"

text \<open>\<open>info_get\<close> on a table given as its entries up to the one of type \<open>INFO_END\<close>.\<close>

definition INFO_APPVER :: u32 where "INFO_APPVER = 0x4d4e5641"
definition INFO_BOOTVER :: u32 where "INFO_BOOTVER = 0x4d4e5642"
definition INFO_HWVER :: u32 where "INFO_HWVER = 0x4d4e5648"
definition INFO_HSE_FREQ :: u32 where "INFO_HSE_FREQ = 0x46455348"
definition INFO_END :: u32 where "INFO_END = 0"

fun info_get :: "(u32 \<times> 'p) list \<Rightarrow> u32 \<Rightarrow> 'p option res" where
  "info_get [] typ = Inl (Oob ''table'')"
| "info_get ((t, p) # table) typ =
     (if t = INFO_END then Inr None else if t = typ then Inr (Some p) else info_get table typ)"

record board =
  b_rcc :: rcc
  b_mapr :: u32
  b_acr :: u32
  b_gpio :: "gpio list"
  hwver :: u16

definition SystemInit :: "(u32 \<times> u32) list \<Rightarrow> board \<Rightarrow> board res" where
  "SystemInit boot_table b =
     rbind (info_get boot_table INFO_HWVER) (\<lambda>v.
     let r = b_rcc b;
         r = r\<lparr>rcc_ahbenr := rcc_ahbenr r OR (0x1 OR 0x2 OR 0x4000 OR 0x8000 OR 0x10000),
               rcc_apb1enr := rcc_apb1enr r OR 0x8000,
               rcc_apb2enr := rcc_apb2enr r OR (0x1 OR 0x4 OR 0x8 OR 0x10 OR 0x20)\<rparr> in
     Inr (b\<lparr>hwver := (case v of None \<Rightarrow> 0 | Some x \<Rightarrow> ucast x),
            b_mapr := b_mapr b OR (0xC00 OR 0x2000000 OR 0x800000),
            b_gpio := map2 setup_bank gpio_cfg (b_gpio b),
            b_rcc := r\<lparr>rcc_cfgr := 0x04000000 OR 0 OR 0x400 OR 0 OR 0xC000\<rparr>,
            b_acr := 0x02 OR 0x10\<rparr>))"

text \<open>
  Bus recovery: \<open>unstick_i2c\<close> drives the clock line (pin 6) and the data line (pin 7) of bank B
  by hand. The readings of \<open>IDR\<close> are given; the result lists the bank after every write.
\<close>

fun wait_scl :: "u16 list \<Rightarrow> u16 list res" where
  "wait_scl [] = Inl Fuel"
| "wait_scl (idr # idrs) = (if \<not> bit idr 6 then wait_scl idrs else Inr idrs)"

fun clock_scl :: "nat \<Rightarrow> u16 list \<Rightarrow> gpio \<Rightarrow> (gpio list \<times> gpio) res" where
  "clock_scl 0 idrs b = Inr ([], b)"
| "clock_scl (Suc n) idrs b =
     rbind (wait_scl idrs) (\<lambda>idrs.
     let b1 = write_BRR (push_bit 6 1) b; b2 = write_BSRR (push_bit 6 1) b1 in
     rbind (clock_scl n idrs b2) (\<lambda>(tr, b). Inr (b1 # b2 # tr, b)))"

definition unstick_i2c :: "u16 list \<Rightarrow> gpio \<Rightarrow> (gpio list \<times> gpio) res" where
  "unstick_i2c idrs b =
     (let b1 = setup_gpio b 6 (ucast (GPIO_MODE_2MHZ OR GPIO_OUTPUT_OD)) True;
          b2 = setup_gpio b1 7 (ucast (GPIO_MODE_2MHZ OR GPIO_OUTPUT_OD)) True in
      rbind (clock_scl 8 idrs b2) (\<lambda>(tr, b).
      let b3 = write_BRR (push_bit 7 1) b; b4 = write_BRR (push_bit 6 1) b3;
          b5 = write_BSRR (push_bit 6 1) b4; b6 = write_BSRR (push_bit 7 1) b5;
          b7 = setup_gpio b6 6 (ucast (GPIO_MODE_2MHZ OR GPIO_AFIO_OD)) True;
          b8 = setup_gpio b7 7 (ucast (GPIO_MODE_2MHZ OR GPIO_AFIO_OD)) True in
      Inr ([b1, b2] @ tr @ [b3, b4, b5, b6, b7, b8], b8)))"

section \<open>The best clock\<close>

text \<open>
  The settings the search may choose, and what it must find: the largest admissible output
  frequency.
\<close>

definition admissible :: "u32 \<Rightarrow> nat \<Rightarrow> nat \<Rightarrow> bool" where
  "admissible hse d m \<longleftrightarrow> d \<in> {1..16} \<and> m \<in> {4..10}
     \<and> DIV1_MIN \<le> hse div of_nat d \<and> hse div of_nat d \<le> DIV1_MAX
     \<and> PLL_MIN \<le> pll_freq hse d m \<and> pll_freq hse d m \<le> PLL_MAX"

definition best_of :: "u32 \<Rightarrow> (nat \<times> nat) set \<Rightarrow> pll_choice \<Rightarrow> bool" where
  "best_of hse S b \<longleftrightarrow> (case b of (f, d, m) \<Rightarrow>
     (b = (0, 0, 0) \<and> (\<forall>(d, m)\<in>S. \<not> admissible hse d m)
      \<or> (d, m) \<in> S \<and> admissible hse d m \<and> f = pll_freq hse d m
        \<and> (\<forall>(d', m')\<in>S. admissible hse d' m' \<longrightarrow> pll_freq hse d' m' \<le> f)))"

lemma mul_step_best:
  assumes "best_of hse S b" "d \<in> {1..16}" "m \<in> {4..10}"
    and "DIV1_MIN \<le> hse div of_nat d" "hse div of_nat d \<le> DIV1_MAX"
  shows "best_of hse (insert (d, m) S) (mul_step hse d b m)"
proof (cases "PLL_MIN \<le> pll_freq hse d m \<and> pll_freq hse d m \<le> PLL_MAX")
  case True
  then have a: "admissible hse d m" using assms by (simp add: admissible_def)
  show ?thesis
  proof (cases "pll_freq hse d m < fst b")
    case less: True
    then have "mul_step hse d b m = b" by (simp add: mul_step_def Let_def)
    moreover have "b \<noteq> (0, 0, 0)" using less by auto
    ultimately show ?thesis using assms(1) less by (auto simp: best_of_def)
  next
    case False
    then have s: "mul_step hse d b m = (pll_freq hse d m, d, m)"
      using True by (auto simp: mul_step_def Let_def not_less)
    have "pll_freq hse d' m' \<le> pll_freq hse d m" if "(d', m') \<in> S" "admissible hse d' m'" for d' m'
      using assms(1) that False by (cases b) (fastforce simp: best_of_def not_less intro: order_trans)
    then show ?thesis unfolding s using a by (auto simp: best_of_def)
  qed
next
  case False
  then have "mul_step hse d b m = b" "\<not> admissible hse d m"
    by (auto simp: mul_step_def Let_def admissible_def not_le)
  then show ?thesis using assms(1) by (auto simp: best_of_def)
qed

lemma div_step_best:
  assumes "best_of hse S b" "d \<in> {1..16}"
  shows "best_of hse (S \<union> {d} \<times> {4..10}) (div_step hse b d)"
proof (cases "DIV1_MIN \<le> hse div of_nat d \<and> hse div of_nat d \<le> DIV1_MAX")
  case True
  have "best_of hse (S \<union> {d} \<times> set ms) (foldl (mul_step hse d) b ms)" if "set ms \<subseteq> {4..10}" for ms
    using that
  proof (induction ms rule: rev_induct)
    case (snoc m ms)
    then have "best_of hse (insert (d, m) (S \<union> {d} \<times> set ms)) (mul_step hse d (foldl (mul_step hse d) b ms) m)"
      using assms(2) True by (intro mul_step_best) simp_all
    then show ?case by (simp add: insert_commute Sigma_Un_distrib1 Times_insert_right)
  qed (simp add: assms(1))
  moreover have e: "set [MUL_MIN..<Suc MUL_MAX] = {4..10}" by (auto simp: MUL_MIN_def MUL_MAX_def)
  ultimately have "best_of hse (S \<union> {d} \<times> {4..10}) (foldl (mul_step hse d) b [MUL_MIN..<Suc MUL_MAX])"
    by (metis order_refl)
  moreover have "\<not> (hse div of_nat d < DIV1_MIN \<or> hse div of_nat d > DIV1_MAX)" using True by (simp add: not_less)
  ultimately show ?thesis unfolding div_step_def Let_def by (simp only: if_False)
next
  case False
  then have "div_step hse b d = b" by (auto simp: div_step_def Let_def not_le)
  moreover have "\<not> admissible hse d m" for m using False by (auto simp: admissible_def)
  ultimately show ?thesis using assms(1) by (auto simp: best_of_def)
qed

lemma best_pll_best: "best_of hse ({1..16} \<times> {4..10}) (best_pll hse)"
proof -
  have "best_of hse (set ds \<times> {4..10}) (foldl (div_step hse) (0, 0, 0) ds)" if "set ds \<subseteq> {1..16}" for ds
    using that
  proof (induction ds rule: rev_induct)
    case (snoc d ds)
    then have "best_of hse (set ds \<times> {4..10} \<union> {d} \<times> {4..10}) (div_step hse (foldl (div_step hse) (0, 0, 0) ds) d)"
      by (intro div_step_best) simp_all
    moreover have "set ds \<times> {4..10} \<union> {d} \<times> {4..10} = set (ds @ [d]) \<times> {4..10::nat}" by auto
    ultimately show ?case by simp
  qed (simp add: best_of_def)
  moreover have "set [DIV_MIN..<Suc DIV_MAX] = {1..16}" by (auto simp: DIV_MIN_def DIV_MAX_def)
  ultimately show ?thesis unfolding best_pll_def by (metis order_refl)
qed


text \<open>What the clock hardware does while it is polled: status follows control.\<close>

definition settles :: "(rcc \<Rightarrow> rcc) \<Rightarrow> bool" where
  "settles settle \<longleftrightarrow> (\<forall>r.
     rcc_cfgr (settle r) AND NOT RCC_CFGR_SWS = rcc_cfgr r AND NOT RCC_CFGR_SWS
     \<and> rcc_cfgr (settle r) AND RCC_CFGR_SWS = push_bit 2 (rcc_cfgr r AND RCC_CFGR_SW)
     \<and> rcc_cfgr2 (settle r) = rcc_cfgr2 r
     \<and> rcc_cr (settle r) AND NOT (RCC_CR_PLLRDY OR RCC_CR_HSERDY) = rcc_cr r AND NOT (RCC_CR_PLLRDY OR RCC_CR_HSERDY)
     \<and> (rcc_cr (settle r) AND RCC_CR_PLLRDY \<noteq> 0 \<longleftrightarrow> rcc_cr r AND RCC_CR_PLLON \<noteq> 0)
     \<and> (rcc_cr (settle r) AND RCC_CR_HSERDY \<noteq> 0 \<longleftrightarrow> rcc_cr r AND RCC_CR_HSEON \<noteq> 0))"

lemma SET_BITS_same: "SET_BITS v m x AND m = x AND m"
  by (rule bit_word_eqI) (auto simp: SET_BITS_def bit_simps)

lemma SET_BITS_other: "m AND m' = 0 \<Longrightarrow> SET_BITS v m x AND m' = v AND m'"
  by (rule bit_word_eqI) (auto simp: SET_BITS_def bit_simps bit_eq_iff)

lemma and_keep: "m AND s = 0 \<Longrightarrow> a AND NOT s = b AND NOT s \<Longrightarrow> a AND m = b AND (m::u32)"
  by (rule bit_word_eqI) (auto simp: bit_simps bit_eq_iff)

lemma masks_disjoint:
  "RCC_CFGR_PLLMULL AND RCC_CFGR_SWS = 0" "RCC_CFGR_SW AND RCC_CFGR_PLLMULL = 0" "RCC_CFGR2_PREDIV1SRC AND RCC_CFGR2_PREDIV1 = 0"
  "RCC_CR_PLLON AND (RCC_CR_PLLRDY OR RCC_CR_HSERDY) = 0" "RCC_CR_HSEON AND (RCC_CR_PLLRDY OR RCC_CR_HSERDY) = 0"
  "RCC_CR_PLLON AND RCC_CR_HSEON = 0"
  by (simp_all add: rcc_defs)

lemma settle_simps:
  assumes "settles settle"
  shows "rcc_cfgr (settle r) AND RCC_CFGR_SWS = push_bit 2 (rcc_cfgr r AND RCC_CFGR_SW)"
    "rcc_cfgr2 (settle r) = rcc_cfgr2 r"
    "rcc_cfgr (settle r) AND RCC_CFGR_PLLMULL = rcc_cfgr r AND RCC_CFGR_PLLMULL"
    "rcc_cr (settle r) AND RCC_CR_PLLRDY = 0 \<longleftrightarrow> rcc_cr r AND RCC_CR_PLLON = 0"
    "rcc_cr (settle r) AND RCC_CR_HSERDY = 0 \<longleftrightarrow> rcc_cr r AND RCC_CR_HSEON = 0"
  using assms and_keep [OF masks_disjoint(1), of "rcc_cfgr (settle r)" "rcc_cfgr r"] unfolding settles_def by blast+

lemma switch_sel:
  "push_bit 2 (SET_BITS v RCC_CFGR_SW RCC_CFGR_SW_HSI AND RCC_CFGR_SW) = RCC_CFGR_SWS_HSI"
  "push_bit 2 (SET_BITS v RCC_CFGR_SW RCC_CFGR_SW_PLL AND RCC_CFGR_SW) = RCC_CFGR_SWS_PLL"
  unfolding SET_BITS_same by (simp_all add: rcc_defs)

lemma on_off:
  "(v OR RCC_CR_PLLON) AND RCC_CR_PLLON \<noteq> 0" "(v OR RCC_CR_HSEON) AND RCC_CR_HSEON \<noteq> 0" "v AND NOT RCC_CR_PLLON AND RCC_CR_PLLON = 0"
proof -
  have "bit ((v OR RCC_CR_PLLON) AND RCC_CR_PLLON) 24" "bit ((v OR RCC_CR_HSEON) AND RCC_CR_HSEON) 16"
    by (simp_all add: rcc_defs bit_simps)
  then show "(v OR RCC_CR_PLLON) AND RCC_CR_PLLON \<noteq> 0" "(v OR RCC_CR_HSEON) AND RCC_CR_HSEON \<noteq> 0" by force+
  show "v AND NOT RCC_CR_PLLON AND RCC_CR_PLLON = 0" by (simp add: and.assoc)
qed

lemma on_masks:
  "RCC_CR_PLLON \<noteq> 0" "RCC_CR_HSEON \<noteq> 0" "push_bit 2 (RCC_CFGR_SW_PLL AND RCC_CFGR_SW) = RCC_CFGR_SWS_PLL"
  by (simp_all add: rcc_defs)

lemma off_mask: "(v AND NOT RCC_CR_PLLON) AND RCC_CR_PLLON = 0"
  by (rule bit_word_eqI) (auto simp: bit_simps)

lemma switch_to_hsi_ok: "settles settle \<Longrightarrow> \<exists>r'. switch_to_hsi settle r = Inr r'"
  by (simp add: switch_to_hsi_def rcc_wait_def Let_def settle_simps switch_sel del: push_bit_and)

lemma mul_reg_fits: "m \<in> {4..10} \<Longrightarrow> pll_mul_reg m AND RCC_CFGR_PLLMULL = pll_mul_reg m"
proof -
  assume "m \<in> {4..10}"
  then consider "m = 4" | "m = 5" | "m = 6" | "m = 7" | "m = 8" | "m = 9" | "m = 10" by fastforce
  then show ?thesis by cases (simp_all add: pll_mul_reg_def rcc_defs)
qed

lemma low_nibble: "list_all (\<lambda>k. of_nat k AND 0xF = (of_nat k :: u32)) [0..<16]"
  by code_simp

lemma div_reg_fits: "d \<in> {1..16} \<Longrightarrow> of_nat (d - 1) AND RCC_CFGR2_PREDIV1 = (of_nat (d - 1) :: u32)"
proof -
  assume "d \<in> {1..16}"
  then have "d - 1 \<in> set [0..<16]" by auto
  with low_nibble show ?thesis unfolding RCC_CFGR2_PREDIV1_def list_all_iff by blast
qed

text \<open>
  C26. The clock set-up finds the best setting there is: for a crystal between 1 and 50 MHz
  and clock hardware whose status bits follow the control bits, \<open>setup_clocks\<close> halts exactly
  when no divider and multiplier keep the PLL input between 3 and 12 MHz and its output
  between 18 and 72 MHz; otherwise it runs the system from the PLL, with the divider and
  multiplier registers of a setting whose frequency no other reaches, and reports that
  frequency.
\<close>

theorem setup_clocks_best:
  assumes "1000000 < hse" "hse < 50000000" "settles settle"
  shows "setup_clocks settle hse r = Inl Halt \<and> (\<forall>d m. \<not> admissible hse d m)
     \<or> (\<exists>d m r'. setup_clocks settle hse r = Inr (pll_freq hse d m, r') \<and> admissible hse d m
         \<and> (\<forall>d' m'. admissible hse d' m' \<longrightarrow> pll_freq hse d' m' \<le> pll_freq hse d m)
         \<and> rcc_cfgr r' AND RCC_CFGR_PLLMULL = pll_mul_reg m
         \<and> rcc_cfgr2 r' AND RCC_CFGR2_PREDIV1 = of_nat (d - 1)
         \<and> rcc_cfgr r' AND RCC_CFGR_SWS = RCC_CFGR_SWS_PLL)"
proof -
  obtain f d m where p: "best_pll hse = (f, d, m)" by (cases "best_pll hse")
  have in_S: "admissible hse d m \<Longrightarrow> (d, m) \<in> {1..16} \<times> {4..10}" for d m by (simp add: admissible_def)
  note b = best_pll_best [of hse, unfolded p best_of_def prod.case]
  show ?thesis
  proof (cases "f = 0")
    case True
    have "f = pll_freq hse d m \<Longrightarrow> \<not> admissible hse d m" using True by (auto simp: admissible_def PLL_MIN_def)
    with b have "\<forall>d m. \<not> admissible hse d m" using in_S by blast
    then show ?thesis using assms True by (simp add: setup_clocks_def p)
  next
    case False
    then have a: "admissible hse d m" "f = pll_freq hse d m"
      "\<forall>d' m'. admissible hse d' m' \<longrightarrow> pll_freq hse d' m' \<le> f"
      using b in_S by auto
    obtain r1 where h: "switch_to_hsi settle r = Inr r1" using switch_to_hsi_ok [OF assms(3)] by blast
    have dm: "d \<in> {1..16}" "m \<in> {4..10}" using a(1) by (auto simp: admissible_def)
    have "\<exists>r'. setup_clocks settle hse r = Inr (f, r')
         \<and> rcc_cfgr r' AND RCC_CFGR_PLLMULL = pll_mul_reg m
         \<and> rcc_cfgr2 r' AND RCC_CFGR2_PREDIV1 = of_nat (d - 1)
         \<and> rcc_cfgr r' AND RCC_CFGR_SWS = RCC_CFGR_SWS_PLL"
      using assms False h
      by (simp add: setup_clocks_def p Let_def rcc_wait_def settle_simps on_off switch_sel SET_BITS_same
          on_masks off_mask SET_BITS_other [OF masks_disjoint(2)] mul_reg_fits [OF dm(2)] div_reg_fits [OF dm(1)]
          del: push_bit_and One_nat_def)
    then show ?thesis using a by blast
  qed
qed

definition settle0 :: "rcc \<Rightarrow> rcc" where
  "settle0 r = r\<lparr>
     rcc_cfgr := (rcc_cfgr r AND NOT RCC_CFGR_SWS) OR push_bit 2 (rcc_cfgr r AND RCC_CFGR_SW),
     rcc_cr := (rcc_cr r AND NOT (RCC_CR_PLLRDY OR RCC_CR_HSERDY))
       OR (if rcc_cr r AND RCC_CR_PLLON \<noteq> 0 then RCC_CR_PLLRDY else 0)
       OR (if rcc_cr r AND RCC_CR_HSEON \<noteq> 0 then RCC_CR_HSERDY else 0)\<rparr>"

lemma field_laws:
  fixes x p h :: u32
  shows "((x AND NOT p) OR (h AND p)) AND p = h AND p" "((x AND NOT p) OR (h AND p)) AND NOT p = x AND NOT p"
    "((x AND NOT (p OR h)) OR (if a then p else 0) OR (if b then h else 0)) AND NOT (p OR h) = x AND NOT (p OR h)"
    "p AND h = 0 \<Longrightarrow> ((x AND NOT (p OR h)) OR (if a then p else 0) OR (if b then h else 0)) AND p = (if a then p else 0)"
    "p AND h = 0 \<Longrightarrow> ((x AND NOT (p OR h)) OR (if a then p else 0) OR (if b then h else 0)) AND h = (if b then h else 0)"
  by (rule bit_word_eqI, auto simp: bit_simps bit_eq_iff)+

lemma settles_settle0: "settles settle0"
proof -
  have q: "push_bit 2 (v AND RCC_CFGR_SW) = push_bit 2 v AND RCC_CFGR_SWS" for v by (simp add: rcc_defs)
  have d: "RCC_CR_PLLRDY AND RCC_CR_HSERDY = 0" "RCC_CR_PLLRDY \<noteq> 0" "RCC_CR_HSERDY \<noteq> 0" by (simp_all add: rcc_defs)
  have f: "rcc_cfgr (settle0 r) = (rcc_cfgr r AND NOT RCC_CFGR_SWS) OR (push_bit 2 (rcc_cfgr r) AND RCC_CFGR_SWS)"
    "rcc_cfgr2 (settle0 r) = rcc_cfgr2 r"
    "rcc_cr (settle0 r) = (rcc_cr r AND NOT (RCC_CR_PLLRDY OR RCC_CR_HSERDY))
       OR (if rcc_cr r AND RCC_CR_PLLON \<noteq> 0 then RCC_CR_PLLRDY else 0)
       OR (if rcc_cr r AND RCC_CR_HSEON \<noteq> 0 then RCC_CR_HSERDY else 0)" for r
    unfolding q [symmetric] by (simp_all add: settle0_def)
  show ?thesis
    unfolding settles_def f q field_laws field_laws(4,5) [OF d(1)] by (simp add: d)
qed

theorem setup_clocks_best_witness:
  "\<exists>f r'. setup_clocks settle0 25000000 \<lparr>rcc_cr = 0, rcc_cfgr = 0, rcc_cfgr2 = 0, rcc_ahbenr = 0, rcc_apb1enr = 0, rcc_apb2enr = 0\<rparr> = Inr (f, r')
     \<and> 66666666 \<le> f"
proof -
  have "admissible 25000000 3 8" "pll_freq 25000000 3 8 = 66666666"
    by (simp_all add: admissible_def pll_freq_def DIV1_MIN_def DIV1_MAX_def PLL_MIN_def PLL_MAX_def)
  then show ?thesis
    using setup_clocks_best [of 25000000 settle0, OF _ _ settles_settle0] by (simp del: One_nat_def) metis
qed

end
