(* ===== verification/Md32.thy ===== *)
theory Md32
  imports Common
begin

text \<open>
  The message digests that authenticate NTP packets: the buffering common to MD5 and SHA-1,
  \<open>src/lib/crypto/md32_common.h\<close>, MD5 itself, \<open>md5_dgst.c\<close> and \<open>md5_locl.h\<close>, and the C part
  of SHA-1, \<open>sha1dgst.c\<close>, whose compression function is assembly and a parameter here. The
  theory shows that feeding a message in pieces computes the digest of the whole, padded
  message.
\<close>

section \<open>Buffering\<close>

record 'h hash_ctx =
  hstate :: 'h
  Nl :: u32
  Nh :: u32
  hdata :: "u8 list"
  hnum :: nat

definition HASH_CBLOCK :: nat where "HASH_CBLOCK = 64"

fun hash_blocks :: "('h \<Rightarrow> u8 list \<Rightarrow> 'h) \<Rightarrow> nat \<Rightarrow> u8 list \<Rightarrow> 'h \<Rightarrow> 'h" where
  "hash_blocks block 0 data h = h"
| "hash_blocks block (Suc n) data h = hash_blocks block n (drop 64 data) (block h (take 64 data))"

definition hash_count :: "nat \<Rightarrow> 'h hash_ctx \<Rightarrow> 'h hash_ctx" where
  "hash_count len c =
     (let l = Nl c + push_bit 3 (of_nat len);
          c = (if l < Nl c then c\<lparr>Nh := Nh c + 1\<rparr> else c);
          c = c\<lparr>Nh := Nh c + of_nat (len div 2 ^ 29)\<rparr> in
      c\<lparr>Nl := l\<rparr>)"

definition hash_tail :: "('h \<Rightarrow> u8 list \<Rightarrow> 'h) \<Rightarrow> u8 list \<Rightarrow> 'h hash_ctx \<Rightarrow> 'h hash_ctx" where
  "hash_tail block data c =
     (let n = length data div 64;
          c = (if n > 0 then c\<lparr>hstate := hash_blocks block n data (hstate c)\<rparr> else c);
          data = drop (n * 64) data in
      if data \<noteq> [] then c\<lparr>hnum := length data, hdata := copy_into (hdata c) 0 data\<rparr> else c)"

definition HASH_UPDATE :: "('h \<Rightarrow> u8 list \<Rightarrow> 'h) \<Rightarrow> u8 list \<Rightarrow> 'h hash_ctx \<Rightarrow> 'h hash_ctx" where
  "HASH_UPDATE block data c =
     (let len = length data in
      if len = 0 then c
      else let c = hash_count len c; n = hnum c in
           if n \<noteq> 0
           then if len \<ge> 64 \<or> len + n \<ge> 64
                then let p = copy_into (hdata c) n (take (64 - n) data);
                         c = c\<lparr>hstate := block (hstate c) p, hnum := 0, hdata := replicate 64 0\<rparr> in
                     hash_tail block (drop (64 - n) data) c
                else c\<lparr>hdata := copy_into (hdata c) n data, hnum := n + len\<rparr>
           else hash_tail block data c)"

definition HASH_TRANSFORM :: "('h \<Rightarrow> u8 list \<Rightarrow> 'h) \<Rightarrow> u8 list \<Rightarrow> 'h hash_ctx \<Rightarrow> 'h hash_ctx" where
  "HASH_TRANSFORM block data c = c\<lparr>hstate := hash_blocks block 1 data (hstate c)\<rparr>"

definition HASH_FINAL ::
  "('h \<Rightarrow> u8 list \<Rightarrow> 'h) \<Rightarrow> (u32 \<Rightarrow> u32 \<Rightarrow> u8 list) \<Rightarrow> ('h \<Rightarrow> u8 list) \<Rightarrow> 'h hash_ctx \<Rightarrow> u8 list \<times> 'h hash_ctx" where
  "HASH_FINAL block enc mk c =
     (let n = hnum c; p = (hdata c)[n := 0x80]; n = n + 1;
          (p, n, c) = (if n > 64 - 8
                       then let p = copy_into p n (replicate (64 - n) 0) in
                            (p, 0, c\<lparr>hstate := block (hstate c) p\<rparr>)
                       else (p, n, c));
          p = copy_into p n (replicate (64 - 8 - n) 0);
          p = copy_into p (64 - 8) (enc (Nl c) (Nh c));
          c = c\<lparr>hstate := block (hstate c) p, hnum := 0, hdata := replicate 64 0\<rparr> in
      (mk (hstate c), c))"

section \<open>MD5\<close>

definition ROTATE :: "u32 \<Rightarrow> nat \<Rightarrow> u32" where
  "ROTATE a n = push_bit n a OR drop_bit (32 - n) (a AND 0xffffffff)"

definition md5_F :: "u32 \<Rightarrow> u32 \<Rightarrow> u32 \<Rightarrow> u32" where "md5_F b c d = ((c XOR d) AND b) XOR d"
definition md5_G :: "u32 \<Rightarrow> u32 \<Rightarrow> u32 \<Rightarrow> u32" where "md5_G b c d = ((b XOR c) AND d) XOR c"
definition md5_H :: "u32 \<Rightarrow> u32 \<Rightarrow> u32 \<Rightarrow> u32" where "md5_H b c d = b XOR c XOR d"
definition md5_I :: "u32 \<Rightarrow> u32 \<Rightarrow> u32 \<Rightarrow> u32" where "md5_I b c d = (NOT d OR b) XOR c"

type_synonym md5_state = "u32 \<times> u32 \<times> u32 \<times> u32"

text \<open>
  One line of a round works on the registers \<open>(a, b, c, d)\<close> in the order in which it names
  them; the next line names them rotated by one.
\<close>

definition md5_op :: "(u32 \<Rightarrow> u32 \<Rightarrow> u32 \<Rightarrow> u32) \<Rightarrow> u32 list \<Rightarrow> nat \<times> nat \<times> u32 \<Rightarrow> md5_state \<Rightarrow> md5_state" where
  "md5_op f X line r =
     (let (k, s, t) = line; (a, b, c, d) = r;
          a = a + (X ! k + t + f b c d);
          a = ROTATE a s;
          a = a + b in
      (d, a, b, c))"

definition md5_round0 :: "(nat \<times> nat \<times> u32) list" where
  "md5_round0 =
    [(0, 7, 0xd76aa478), (1, 12, 0xe8c7b756), (2, 17, 0x242070db), (3, 22, 0xc1bdceee),
     (4, 7, 0xf57c0faf), (5, 12, 0x4787c62a), (6, 17, 0xa8304613), (7, 22, 0xfd469501),
     (8, 7, 0x698098d8), (9, 12, 0x8b44f7af), (10, 17, 0xffff5bb1), (11, 22, 0x895cd7be),
     (12, 7, 0x6b901122), (13, 12, 0xfd987193), (14, 17, 0xa679438e), (15, 22, 0x49b40821)]"

definition md5_round1 :: "(nat \<times> nat \<times> u32) list" where
  "md5_round1 =
    [(1, 5, 0xf61e2562), (6, 9, 0xc040b340), (11, 14, 0x265e5a51), (0, 20, 0xe9b6c7aa),
     (5, 5, 0xd62f105d), (10, 9, 0x02441453), (15, 14, 0xd8a1e681), (4, 20, 0xe7d3fbc8),
     (9, 5, 0x21e1cde6), (14, 9, 0xc33707d6), (3, 14, 0xf4d50d87), (8, 20, 0x455a14ed),
     (13, 5, 0xa9e3e905), (2, 9, 0xfcefa3f8), (7, 14, 0x676f02d9), (12, 20, 0x8d2a4c8a)]"

definition md5_round2 :: "(nat \<times> nat \<times> u32) list" where
  "md5_round2 =
    [(5, 4, 0xfffa3942), (8, 11, 0x8771f681), (11, 16, 0x6d9d6122), (14, 23, 0xfde5380c),
     (1, 4, 0xa4beea44), (4, 11, 0x4bdecfa9), (7, 16, 0xf6bb4b60), (10, 23, 0xbebfbc70),
     (13, 4, 0x289b7ec6), (0, 11, 0xeaa127fa), (3, 16, 0xd4ef3085), (6, 23, 0x04881d05),
     (9, 4, 0xd9d4d039), (12, 11, 0xe6db99e5), (15, 16, 0x1fa27cf8), (2, 23, 0xc4ac5665)]"

definition md5_round3 :: "(nat \<times> nat \<times> u32) list" where
  "md5_round3 =
    [(0, 6, 0xf4292244), (7, 10, 0x432aff97), (14, 15, 0xab9423a7), (5, 21, 0xfc93a039),
     (12, 6, 0x655b59c3), (3, 10, 0x8f0ccc92), (10, 15, 0xffeff47d), (1, 21, 0x85845dd1),
     (8, 6, 0x6fa87e4f), (15, 10, 0xfe2ce6e0), (6, 15, 0xa3014314), (13, 21, 0x4e0811a1),
     (4, 6, 0xf7537e82), (11, 10, 0xbd3af235), (2, 15, 0x2ad7d2bb), (9, 21, 0xeb86d391)]"

definition HOST_c2l_le :: "u8 list \<Rightarrow> u32" where
  "HOST_c2l_le c = ucast (c ! 0) OR push_bit 8 (ucast (c ! 1)) OR push_bit 16 (ucast (c ! 2)) OR push_bit 24 (ucast (c ! 3))"

definition HOST_l2c_le :: "u32 \<Rightarrow> u8 list" where
  "HOST_l2c_le l = [ucast (l AND 0xff), ucast (drop_bit 8 l AND 0xff), ucast (drop_bit 16 l AND 0xff), ucast (drop_bit 24 l AND 0xff)]"

definition HOST_l2c_be :: "u32 \<Rightarrow> u8 list" where
  "HOST_l2c_be l = [ucast (drop_bit 24 l AND 0xff), ucast (drop_bit 16 l AND 0xff), ucast (drop_bit 8 l AND 0xff), ucast (l AND 0xff)]"

definition md5_words :: "u8 list \<Rightarrow> u32 list" where
  "md5_words data = map (\<lambda>i. HOST_c2l_le (drop (4 * i) data)) [0..<16]"

definition md5_block :: "md5_state \<Rightarrow> u8 list \<Rightarrow> md5_state" where
  "md5_block h data =
     (let X = md5_words data; (A, B, C, D) = h;
          (a, b, c, d) = fold (md5_op md5_I X) md5_round3 (fold (md5_op md5_H X) md5_round2
                          (fold (md5_op md5_G X) md5_round1 (fold (md5_op md5_F X) md5_round0 (A, B, C, D)))) in
      (A + a, B + b, C + c, D + d))"

definition MD5_Init :: "md5_state hash_ctx" where
  "MD5_Init = \<lparr>hstate = (0x67452301, 0xefcdab89, 0x98badcfe, 0x10325476), Nl = 0, Nh = 0,
     hdata = replicate 64 0, hnum = 0\<rparr>"

definition md5_enc :: "u32 \<Rightarrow> u32 \<Rightarrow> u8 list" where
  "md5_enc lo hi = HOST_l2c_le lo @ HOST_l2c_le hi"

definition md5_string :: "md5_state \<Rightarrow> u8 list" where
  "md5_string h = (case h of (A, B, C, D) \<Rightarrow> HOST_l2c_le A @ HOST_l2c_le B @ HOST_l2c_le C @ HOST_l2c_le D)"

definition MD5_Update :: "u8 list \<Rightarrow> md5_state hash_ctx \<Rightarrow> md5_state hash_ctx" where
  "MD5_Update = HASH_UPDATE md5_block"

definition MD5_Final :: "md5_state hash_ctx \<Rightarrow> u8 list \<times> md5_state hash_ctx" where
  "MD5_Final = HASH_FINAL md5_block md5_enc md5_string"

section \<open>SHA-1\<close>

type_synonym sha1_state = "u32 \<times> u32 \<times> u32 \<times> u32 \<times> u32"

definition SHA1_Init :: "sha1_state hash_ctx" where
  "SHA1_Init = \<lparr>hstate = (0x67452301, 0xefcdab89, 0x98badcfe, 0x10325476, 0xc3d2e1f0), Nl = 0, Nh = 0,
     hdata = replicate 64 0, hnum = 0\<rparr>"

definition sha1_enc :: "u32 \<Rightarrow> u32 \<Rightarrow> u8 list" where
  "sha1_enc lo hi = HOST_l2c_be hi @ HOST_l2c_be lo"

definition sha1_string :: "sha1_state \<Rightarrow> u8 list" where
  "sha1_string h = (case h of (h0, h1, h2, h3, h4) \<Rightarrow>
     HOST_l2c_be h0 @ HOST_l2c_be h1 @ HOST_l2c_be h2 @ HOST_l2c_be h3 @ HOST_l2c_be h4)"

type_synonym sha1_block = "sha1_state \<Rightarrow> u8 list \<Rightarrow> sha1_state"

definition SHA1_Update :: "sha1_block \<Rightarrow> u8 list \<Rightarrow> sha1_state hash_ctx \<Rightarrow> sha1_state hash_ctx" where
  "SHA1_Update sha1_block_data_order = HASH_UPDATE sha1_block_data_order"

definition SHA1_Final :: "sha1_block \<Rightarrow> sha1_state hash_ctx \<Rightarrow> u8 list \<times> sha1_state hash_ctx" where
  "SHA1_Final sha1_block_data_order = HASH_FINAL sha1_block_data_order sha1_enc sha1_string"

lemma md5_F_choose: "md5_F b c d = (b AND c) OR (NOT b AND d)"
  and md5_G_choose: "md5_G b c d = (b AND d) OR (c AND NOT d)"
  unfolding md5_F_def md5_G_def by (rule bit_word_eqI, auto simp: bit_simps)+

section \<open>Feeding in pieces\<close>

lemma hash_blocks_add:
  "hash_blocks block (m + n) data h = hash_blocks block n (drop (64 * m) data) (hash_blocks block m data h)"
  by (induction m arbitrary: data h) (simp_all add: ac_simps)

lemma hash_blocks_append:
  "64 * n \<le> length data \<Longrightarrow> hash_blocks block n (data @ x) h = hash_blocks block n data h"
  by (induction n arbitrary: data h) simp_all

lemma hash_blocks_one: "hash_blocks block 1 data h = block h (take 64 data)"
  by simp

definition bit_count :: "'h hash_ctx \<Rightarrow> nat" where
  "bit_count c = unat (Nh c) * 2 ^ 32 + unat (Nl c)"

lemma split_scaled: "8 * (x::nat) = x div k * (8 * k) + (8 * x) mod (8 * k)"
proof -
  have "(8 * x) div (8 * k) = x div k" by (rule div_mult_mult1) simp
  then show ?thesis using div_mult_mod_eq [of "8 * x" "8 * k"] by simp
qed

lemma two_32: "(2::nat) ^ 32 = 8 * 2 ^ 29"
  using power_add [of "2::nat" 3 29] by simp

lemma split_bits: "8 * (x::nat) = x div 2 ^ 29 * 2 ^ 32 + (8 * x) mod 2 ^ 32"
  unfolding two_32 by (rule split_scaled)

lemma mod_carry:
  assumes "l < N" "x < (N::nat)"
  shows "(l + x) mod N = (if l + x \<ge> N then l + x - N else l + x)"
proof (cases "l + x \<ge> N")
  case True
  then have "(l + x) mod N = (l + x - N) mod N" by (rule le_mod_geq)
  also have "\<dots> = l + x - N" using assms by simp
  finally show ?thesis using True by simp
qed simp

lemma mod_carry_less: "l < N \<Longrightarrow> x < (N::nat) \<Longrightarrow> (l + x) mod N < l \<longleftrightarrow> N \<le> l + x"
  by (simp add: mod_carry) linarith

lemma hash_count_bits:
  assumes "len < 2 ^ 32" "bit_count c + 8 * len < 2 ^ 64"
  shows "bit_count (hash_count len c) = bit_count c + 8 * len"
proof -
  let ?l = "unat (Nl c)" and ?h = "unat (Nh c)" and ?x = "(8 * len) mod 2 ^ 32"
  have w: "unat (push_bit 3 (of_nat len) :: u32) = ?x"
    by (simp add: push_bit_eq_mult unat_word_ariths unsigned_of_nat take_bit_eq_mod mod_mult_right_eq mult.commute)
  have l: "?l < 2 ^ 32" "?x < 2 ^ 32" using unsigned_less [of "Nl c", where ?'a = nat] by simp_all
  have nl: "unat (Nl c + push_bit 3 (of_nat len)) = (?l + ?x) mod 2 ^ 32"
    by (simp only: unat_word_ariths w) simp
  have carry: "Nl c + push_bit 3 (of_nat len) < Nl c \<longleftrightarrow> ?l + ?x \<ge> 2 ^ 32"
    unfolding word_less_nat_alt nl by (rule mod_carry_less [OF l])
  have d: "unat (of_nat (len div 2 ^ 29) :: u32) = len div 2 ^ 29"
    using assms(1) by (simp only: unsigned_of_nat) (simp add: take_bit_nat_eq_self less_mult_imp_div_less)
  let ?k = "if ?l + ?x \<ge> 2 ^ 32 then 1 else 0 :: nat"
  have tot: "?h * 2 ^ 32 + ?l + 8 * len = (?h + ?k + len div 2 ^ 29) * 2 ^ 32 + (?l + ?x) mod 2 ^ 32"
    using split_bits [of len] unfolding mod_carry [OF l] add_mult_distrib by simp
  then have "?h + ?k + len div 2 ^ 29 < 2 ^ 32"
    using assms(2) unfolding bit_count_def by simp
  then have "unat (Nh (hash_count len c)) = ?h + ?k + len div 2 ^ 29"
    unfolding hash_count_def Let_def carry by (auto simp: unat_word_ariths d [simplified])
  moreover have "unat (Nl (hash_count len c)) = (?l + ?x) mod 2 ^ 32"
    unfolding hash_count_def Let_def using nl by simp
  ultimately show ?thesis using tot by (simp add: bit_count_def)
qed


lemma hash_count_frame [simp]:
  "hstate (hash_count n c) = hstate c" "hdata (hash_count n c) = hdata c" "hnum (hash_count n c) = hnum c"
  by (simp_all add: hash_count_def Let_def)

text \<open>
  A context that has absorbed the message \<open>msg\<close>: the whole blocks are compressed, the rest
  waits in the buffer, and the bit count is right.
\<close>

definition absorbed :: "('h \<Rightarrow> u8 list \<Rightarrow> 'h) \<Rightarrow> 'h \<Rightarrow> u8 list \<Rightarrow> 'h hash_ctx \<Rightarrow> bool" where
  "absorbed block h0 msg c \<longleftrightarrow>
     hstate c = hash_blocks block (length msg div 64) msg h0
     \<and> hnum c = length msg mod 64 \<and> length (hdata c) = 64
     \<and> take (length msg mod 64) (hdata c) = drop (64 * (length msg div 64)) msg"

lemma hash_tail_absorbed:
  assumes "absorbed block h0 msg c" "hnum c = 0"
  shows "absorbed block h0 (msg @ data) (hash_tail block data c)"
proof -
  let ?m = "length msg div 64" and ?n = "length data div 64"
  have m: "64 * ?m = length msg" using assms by (auto simp: absorbed_def)
  have len: "length (msg @ data) div 64 = ?m + ?n" "length (msg @ data) mod 64 = length data mod 64"
  proof -
    have "(64 * k + x) div 64 = k + x div 64" "(64 * k + x) mod 64 = x mod 64" for k x :: nat by simp_all
    from this [of ?m "length data"] show "length (msg @ data) div 64 = ?m + ?n" "length (msg @ data) mod 64 = length data mod 64"
      unfolding length_append m by simp_all
  qed
  have "hash_blocks block (?m + ?n) (msg @ data) h0 = hash_blocks block ?n data (hash_blocks block ?m msg h0)"
    using m by (simp add: hash_blocks_add hash_blocks_append)
  moreover have "drop (64 * (?m + ?n)) (msg @ data) = drop (?n * 64) data" using m by (simp add: algebra_simps)
  moreover have "length (drop (?n * 64) data) = length data mod 64" by (simp add: minus_div_mult_eq_mod)
  moreover have "length data mod 64 < 64" by simp
  ultimately show ?thesis
    using assms m unfolding absorbed_def len hash_tail_def Let_def
    by (auto simp: copy_into_def)
qed

lemma fill_up: "l = 64 * m + n \<Longrightarrow> n < 64 \<Longrightarrow> l + (64 - n) = 64 * (m + (1::nat))"
  by simp

lemma update_absorbed:
  assumes "absorbed block h0 msg c"
  shows "absorbed block h0 (msg @ data) (HASH_UPDATE block data c)"
proof (cases "data = []")
  case True
  then show ?thesis using assms by (simp add: HASH_UPDATE_def)
next
  case False
  let ?c = "hash_count (length data) c" and ?n = "hnum c" and ?m = "length msg div 64"
  have c: "absorbed block h0 msg ?c" using assms by (simp add: absorbed_def)
  have n: "?n = length msg mod 64" "?n < 64" "length (hdata c) = 64" "take ?n (hdata c) = drop (64 * ?m) msg"
    using assms by (auto simp: absorbed_def)
  consider "?n = 0" | (fills) "?n \<noteq> 0" "length data + ?n \<ge> 64" | (waits) "?n \<noteq> 0" "length data + ?n < 64" by linarith
  then show ?thesis
  proof cases
    case 1
    then show ?thesis using hash_tail_absorbed [OF c] False by (simp add: HASH_UPDATE_def Let_def)
  next
    case fills
    let ?d = "take (64 - ?n) data" and ?r = "drop (64 - ?n) data"
    let ?p = "copy_into (hdata c) ?n ?d"
    let ?c1 = "?c\<lparr>hstate := block (hstate c) ?p, hnum := 0, hdata := replicate 64 0\<rparr>"
    have ld: "length ?d = 64 - ?n" using fills by simp
    have p: "?p = drop (64 * ?m) (msg @ ?d)" using ld n by (simp add: copy_into_def)
    have lm: "length msg = 64 * ?m + ?n" using n(1) by simp
    have len: "length (msg @ ?d) = 64 * (?m + 1)" unfolding length_append ld using fill_up [OF lm n(2)] .
    have "hash_blocks block (?m + 1) (msg @ ?d) h0 = block (hash_blocks block ?m (msg @ ?d) h0) (take 64 (drop (64 * ?m) (msg @ ?d)))"
      by (simp only: hash_blocks_add hash_blocks_one)
    also have "hash_blocks block ?m (msg @ ?d) h0 = hash_blocks block ?m msg h0" by (intro hash_blocks_append) simp
    also have "take 64 (drop (64 * ?m) (msg @ ?d)) = ?p"
    proof -
      have "length (drop (64 * ?m) (msg @ ?d)) = 64" unfolding length_drop len by simp
      then show ?thesis unfolding p by (intro take_all) simp
    qed
    finally have "absorbed block h0 (msg @ ?d) ?c1"
      using assms len unfolding absorbed_def by simp
    from hash_tail_absorbed [OF this, of ?r] show ?thesis
      using fills False by (auto simp: HASH_UPDATE_def Let_def)
  next
    case waits
    then have "(length msg + length data) div 64 = ?m" "(length msg + length data) mod 64 = ?n + length data"
    proof -
      have "(64 * k + x) div 64 = k" "(64 * k + x) mod 64 = x" if "x < 64" for k x :: nat using that by simp_all
      from this [of "?n + length data" ?m] waits
      show "(length msg + length data) div 64 = ?m" "(length msg + length data) mod 64 = ?n + length data"
        using n(1) mult_div_mod_eq [of 64 "length msg"] by (simp_all add: add.assoc [symmetric])
    qed
    then show ?thesis
      using assms waits False n hash_blocks_append [of ?m msg block data h0]
      by (auto simp: HASH_UPDATE_def Let_def absorbed_def copy_into_def minus_mult_div_eq_mod)
  qed
qed


lemma update_bits:
  assumes "length data < 2 ^ 32" "bit_count c + 8 * length data < 2 ^ 64"
  shows "bit_count (HASH_UPDATE block data c) = bit_count c + 8 * length data"
proof -
  have t: "bit_count (hash_tail block d k) = bit_count k" for d k
    by (simp add: hash_tail_def Let_def bit_count_def)
  show ?thesis using hash_count_bits [OF assms]
    by (simp add: HASH_UPDATE_def Let_def t) (simp add: bit_count_def)
qed

section \<open>The digest\<close>

text \<open>
  The interface that MD5 and SHA-1 provide, as their RFCs define it: the message followed by
  a one bit, zeros and the length in bits, compressed block by block.
\<close>

definition md_padding :: "(u32 \<Rightarrow> u32 \<Rightarrow> u8 list) \<Rightarrow> nat \<Rightarrow> u8 list" where
  "md_padding enc n = 0x80 # replicate (if n mod 64 < 56 then 55 - n mod 64 else 119 - n mod 64) 0
     @ enc (of_nat (8 * n)) (of_nat (8 * n div 2 ^ 32))"

definition md_digest :: "('h \<Rightarrow> u8 list \<Rightarrow> 'h) \<Rightarrow> (u32 \<Rightarrow> u32 \<Rightarrow> u8 list) \<Rightarrow> ('h \<Rightarrow> u8 list) \<Rightarrow> 'h \<Rightarrow> u8 list \<Rightarrow> u8 list" where
  "md_digest block enc mk h0 msg =
     (let m = msg @ md_padding enc (length msg) in mk (hash_blocks block (length m div 64) m h0))"

lemma last_block_short:
  assumes "n < 56" "length d = 64" "length e = 8"
  shows "copy_into (copy_into (d[n := 0x80]) (n + 1) (replicate (64 - 8 - (n + 1)) 0)) (64 - 8) e
       = take n d @ 0x80 # replicate (55 - n) 0 @ e"
proof -
  have "take (n + 1) (d[n := 0x80]) = take n d @ [0x80]" using assms by (simp add: take_Suc_conv_app_nth)
  moreover have "56 - n = Suc (55 - n)" using assms by simp
  ultimately show ?thesis using assms by (simp add: copy_into_def)
qed

lemma last_blocks_long:
  assumes "n < 64" "length d = 64" "length e = 8"
  shows "copy_into (d[n := 0x80]) (n + 1) (replicate (64 - (n + 1)) 0) = take n d @ 0x80 # replicate (63 - n) 0"
    "copy_into (copy_into p 0 (replicate (64 - 8 - 0) 0)) (64 - 8) e = replicate 56 0 @ e @ drop 64 p"
proof -
  have "take (n + 1) (d[n := 0x80]) = take n d @ [0x80]" using assms by (simp add: take_Suc_conv_app_nth)
  then show "copy_into (d[n := 0x80]) (n + 1) (replicate (64 - (n + 1)) 0) = take n d @ 0x80 # replicate (63 - n) 0"
    using assms by (simp add: copy_into_def)
  show "copy_into (copy_into p 0 (replicate (64 - 8 - 0) 0)) (64 - 8) e = replicate 56 0 @ e @ drop 64 p"
    using assms(3) by (simp add: copy_into_def)
qed

lemma take_length_append: "length xs = n \<Longrightarrow> take n (xs @ ys) = xs"
  and drop_length_append: "length xs = n \<Longrightarrow> drop n (xs @ ys) = ys"
  by auto

lemma padded_long:
  assumes "56 \<le> n" "n < 64" "length d = 64"
  shows "take 64 (take n d @ 0x80 # replicate (119 - n) 0 @ e) = take n d @ 0x80 # replicate (63 - n) (0::u8)"
    "drop 64 (take n d @ 0x80 # replicate (119 - n) 0 @ e) = replicate 56 (0::u8) @ e"
proof -
  have r: "replicate (119 - n) 0 = replicate (63 - n) 0 @ replicate 56 (0::u8)" using assms by (simp flip: replicate_add)
  have l: "length (take n d @ 0x80 # replicate (63 - n) 0) = 64" using assms by simp
  have e: "take n d @ 0x80 # replicate (119 - n) 0 @ e = (take n d @ 0x80 # replicate (63 - n) 0) @ replicate 56 0 @ e"
    unfolding r by simp
  show "take 64 (take n d @ 0x80 # replicate (119 - n) 0 @ e) = take n d @ 0x80 # replicate (63 - n) (0::u8)"
    "drop 64 (take n d @ 0x80 # replicate (119 - n) 0 @ e) = replicate 56 (0::u8) @ e"
    unfolding e using l by (rule take_length_append drop_length_append)+
qed

lemma bit_count_words:
  assumes "bit_count c = b" "b < 2 ^ 64"
  shows "Nl c = of_nat b" "Nh c = of_nat (b div 2 ^ 32)"
proof -
  have l: "unat (Nl c) < 2 ^ 32" using unsigned_less [of "Nl c", where ?'a = nat] by simp
  have d: "(h * N + l) div N = h" "(h * N + l) mod N = l" if "l < N" for h l N :: nat using that by simp_all
  have "b div 2 ^ 32 = unat (Nh c)" "b mod 2 ^ 32 = unat (Nl c)"
    using d [OF l] assms(1) unfolding bit_count_def by blast+
  then show "Nl c = of_nat b" "Nh c = of_nat (b div 2 ^ 32)"
    by (simp_all add: word_unat_eq_iff unsigned_of_nat take_bit_eq_mod)
qed

locale md32 =
  fixes block :: "'h \<Rightarrow> u8 list \<Rightarrow> 'h" and enc :: "u32 \<Rightarrow> u32 \<Rightarrow> u8 list" and mk :: "'h \<Rightarrow> u8 list" and h0 :: 'h
  assumes enc_length: "length (enc lo hi) = 8"
begin

lemma final_digest:
  assumes "absorbed block h0 msg c" "bit_count c = 8 * length msg" "8 * length msg < 2 ^ 64"
  shows "fst (HASH_FINAL block enc mk c) = md_digest block enc mk h0 msg"
proof -
  let ?n = "length msg mod 64" and ?m = "length msg div 64"
  let ?e = "enc (of_nat (8 * length msg)) (of_nat (8 * length msg div 2 ^ 32))"
  let ?w = "msg @ md_padding enc (length msg)"
  have c: "hstate c = hash_blocks block ?m msg h0" "hnum c = ?n" "length (hdata c) = 64" "take ?n (hdata c) = drop (64 * ?m) msg"
    using assms(1) by (auto simp: absorbed_def)
  have N: "Nl c = of_nat (8 * length msg)" "Nh c = of_nat (8 * length msg div 2 ^ 32)"
    using bit_count_words [OF assms(2,3)] by blast+
  have lm: "length msg = 64 * ?m + ?n" "?n < 64" by simp_all
  have hm: "hash_blocks block ?m ?w h0 = hash_blocks block ?m msg h0" by (intro hash_blocks_append) simp
  have rest: "drop (64 * ?m) ?w = take ?n (hdata c) @ md_padding enc (length msg)" using c(4) by simp
  show ?thesis
  proof (cases "?n < 56")
    case True
    have "length (md_padding enc (length msg)) = 64 - ?n" using True by (simp add: md_padding_def enc_length)
    then have "length ?w = 64 * (?m + 1)" unfolding length_append using fill_up [OF lm] by simp
    then have "md_digest block enc mk h0 msg = mk (hash_blocks block (?m + 1) ?w h0)"
      unfolding md_digest_def Let_def by simp
    also have "hash_blocks block (?m + 1) ?w h0 = block (hash_blocks block ?m msg h0) (take 64 (drop (64 * ?m) ?w))"
      by (simp only: hash_blocks_add hash_blocks_one hm)
    also have "take 64 (drop (64 * ?m) ?w) = take ?n (hdata c) @ 0x80 # replicate (55 - ?n) 0 @ ?e"
      unfolding rest using True c(3) by (simp add: md_padding_def enc_length)
    finally show ?thesis
      using last_block_short [OF True c(3) enc_length] True c(1,2) by (simp add: HASH_FINAL_def Let_def N)
  next
    case False
    have "length (md_padding enc (length msg)) = 64 + (64 - ?n)" using False lm(2) by (simp add: md_padding_def enc_length)
    then have "length ?w = 64 * (?m + 2)" unfolding length_append using fill_up [OF lm] by simp
    then have "md_digest block enc mk h0 msg = mk (hash_blocks block (?m + 1 + 1) ?w h0)"
      unfolding md_digest_def Let_def by simp
    also have "hash_blocks block (?m + 1 + 1) ?w h0
        = block (block (hash_blocks block ?m msg h0) (take 64 (drop (64 * ?m) ?w))) (take 64 (drop (64 * (?m + 1)) ?w))"
      by (simp only: hash_blocks_add hash_blocks_one hm)
    also have "take 64 (drop (64 * ?m) ?w) = take ?n (hdata c) @ 0x80 # replicate (63 - ?n) 0"
      unfolding rest unfolding md_padding_def if_not_P [OF False] by (rule padded_long(1) [OF _ lm(2) c(3)]) (use False in simp)
    also have "take 64 (drop (64 * (?m + 1)) ?w) = replicate 56 0 @ ?e"
    proof -
      have "drop (64 * (?m + 1)) ?w = drop 64 (drop (64 * ?m) ?w)" by (simp add: algebra_simps)
      also have "\<dots> = replicate 56 0 @ ?e"
        unfolding rest unfolding md_padding_def if_not_P [OF False] by (rule padded_long(2) [OF _ lm(2) c(3)]) (use False in simp)
      finally show ?thesis by (simp add: enc_length)
    qed
    finally show ?thesis
      using last_blocks_long [OF lm(2) c(3) enc_length] False c(1-3) by (simp add: HASH_FINAL_def Let_def N)
  qed
qed

lemma feed_absorbed:
  assumes "absorbed block h0 msg c" "bit_count c = 8 * length msg"
    and "\<forall>p\<in>set ps. length p < 2 ^ 32" "8 * length (msg @ concat ps) < 2 ^ 64"
  shows "absorbed block h0 (msg @ concat ps) (fold (HASH_UPDATE block) ps c)
     \<and> bit_count (fold (HASH_UPDATE block) ps c) = 8 * length (msg @ concat ps)"
  using assms
proof (induction ps arbitrary: msg c)
  case (Cons p ps)
  have "absorbed block h0 (msg @ p) (HASH_UPDATE block p c)" using Cons.prems(1) by (rule update_absorbed)
  moreover have "bit_count (HASH_UPDATE block p c) = 8 * length (msg @ p)"
    using update_bits [of p c block] Cons.prems by simp
  ultimately show ?case using Cons.IH [of "msg @ p" "HASH_UPDATE block p c"] Cons.prems(3,4) by simp
qed simp

lemma feed_digest:
  assumes "c = \<lparr>hstate = h0, Nl = 0, Nh = 0, hdata = replicate 64 0, hnum = 0\<rparr>"
    and "\<forall>p\<in>set ps. length p < 2 ^ 32" "length (concat ps) < 2 ^ 61"
  shows "fst (HASH_FINAL block enc mk (fold (HASH_UPDATE block) ps c)) = md_digest block enc mk h0 (concat ps)"
proof -
  have b: "8 * length (concat ps) < 2 ^ 64" using assms(3) by simp
  have "absorbed block h0 [] c" "bit_count c = 0" by (simp_all add: assms(1) absorbed_def bit_count_def)
  then have "absorbed block h0 (concat ps) (fold (HASH_UPDATE block) ps c)"
    "bit_count (fold (HASH_UPDATE block) ps c) = 8 * length (concat ps)"
    using feed_absorbed [of "[]" c ps] assms(2) b by simp_all
  then show ?thesis using b by (rule final_digest)
qed

end

definition MD5_iv :: md5_state where "MD5_iv = (0x67452301, 0xefcdab89, 0x98badcfe, 0x10325476)"

definition SHA1_iv :: sha1_state where "SHA1_iv = (0x67452301, 0xefcdab89, 0x98badcfe, 0x10325476, 0xc3d2e1f0)"

interpretation md5: md32 md5_block md5_enc md5_string MD5_iv
  by unfold_locales (simp add: md5_enc_def HOST_l2c_le_def)

interpretation sha1: md32 sha1_block sha1_enc sha1_string SHA1_iv for sha1_block
  by unfold_locales (simp add: sha1_enc_def HOST_l2c_be_def)

lemmas md5_feed = md5.feed_digest [of MD5_Init, folded MD5_Update_def MD5_Final_def]
lemmas sha1_feed = sha1.feed_digest [of SHA1_Init, folded SHA1_Update_def SHA1_Final_def]

text \<open>
  C38. A digest does not depend on how the message is cut: for any sequence of updates, of
  less than \<open>2 ^ 32\<close> bytes each and \<open>2 ^ 61\<close> in all, MD5 and SHA-1 (whatever its compression
  function computes) return the digest of the concatenation, padded with a one bit, zeros and
  its length in bits to whole blocks.
\<close>

theorem digest_of_pieces:
  assumes "\<forall>p\<in>set ps. length p < 2 ^ 32" "length (concat ps) < 2 ^ 61"
  shows "fst (MD5_Final (fold MD5_Update ps MD5_Init)) = md_digest md5_block md5_enc md5_string MD5_iv (concat ps)
     \<and> fst (SHA1_Final blk (fold (SHA1_Update blk) ps SHA1_Init)) = md_digest blk sha1_enc sha1_string SHA1_iv (concat ps)"
  using md5_feed [OF _ assms] sha1_feed [OF _ assms]
  by (simp add: MD5_Init_def SHA1_Init_def MD5_iv_def SHA1_iv_def)

theorem digest_of_pieces_witness:
  "fst (MD5_Final (fold MD5_Update [[1], replicate 70 2] MD5_Init)) = md_digest md5_block md5_enc md5_string MD5_iv (1 # replicate 70 2)"
  using digest_of_pieces [of "[[1], replicate 70 2]" "\<lambda>h _. h"] by simp

end
