(* ===== verification/Ntp.thy ===== *)
theory Ntp
  imports Vtimer Md32
begin

text \<open>
  The NTP server, \<open>src/src/net/ntpserver.c\<close>, with the reply path of
  \<open>src/src/net/udp_reply.c\<close>, and the NTP client, \<open>src/src/net/ntpclient.c\<close>. A packet is the
  byte string of its buffer; the buffer operations of lwIP are a parameter. The theory shows
  the whole frame that answers a request, on every branch of the authentication, and that the
  client's decoding of a reply gives the server's time.
\<close>

section \<open>Packet buffers\<close>

text \<open>
  A \<open>struct pbuf\<close>: the bytes in front of the payload pointer, the \<open>len\<close> bytes of the first
  buffer and the bytes of the further buffers of its chain. The functions of lwIP that the
  code calls are the fields of \<open>lwip\<close>; \<open>None\<close> stands for a failure return.
\<close>

record pbuf =
  room :: "u8 list"
  payload :: "u8 list"
  chain :: "u8 list"

definition tot_len :: "pbuf \<Rightarrow> nat" where
  "tot_len p = length (payload p) + length (chain p)"

record netif =
  ip_addr :: "u8 list"
  hwaddr :: "u8 list"

record lwip =
  pbuf_header :: "pbuf \<Rightarrow> nat \<Rightarrow> pbuf option"
  pbuf_realloc :: "pbuf \<Rightarrow> nat \<Rightarrow> pbuf"
  ip6_select_source_address :: "netif \<Rightarrow> u8 list \<Rightarrow> u8 list option"

text \<open>
  What lwIP documents of them: revealing a header that the buffer has room for moves the
  payload pointer back, shrinking keeps the first bytes, and an IPv6 address has 16 bytes.
\<close>

definition lwip_ok :: "lwip \<Rightarrow> bool" where
  "lwip_ok lw \<longleftrightarrow>
     (\<forall>p a b n. room p = a @ b \<longrightarrow> n = length b \<longrightarrow>
        pbuf_header lw p n = Some (p\<lparr>room := a, payload := b @ payload p\<rparr>))
     \<and> (\<forall>p n. n \<le> length (payload p) \<longrightarrow>
        pbuf_realloc lw p n = p\<lparr>payload := take n (payload p), chain := []\<rparr>)
     \<and> (\<forall>nif dest a. ip6_select_source_address lw nif dest = Some a \<longrightarrow> length a = 16)"

definition PP_HTONS :: "u16 \<Rightarrow> u8 list" where
  "PP_HTONS x = [ucast (drop_bit 8 x), ucast x]"

definition PP_HTONL :: "u32 \<Rightarrow> u8 list" where
  "PP_HTONL x = [ucast (drop_bit 24 x), ucast (drop_bit 16 x), ucast (drop_bit 8 x), ucast x]"

lemma htons_length [simp]: "length (PP_HTONS x) = 2"
  and htonl_length [simp]: "length (PP_HTONL y) = 4"
  by (simp_all add: PP_HTONS_def PP_HTONL_def)

section \<open>Replying\<close>

definition slice :: "nat \<Rightarrow> nat \<Rightarrow> u8 list \<Rightarrow> u8 list" where
  "slice i n b = take n (drop i b)"

definition put :: "nat \<Rightarrow> u8 list \<Rightarrow> u8 list \<Rightarrow> u8 list" where
  "put i d b = copy_into b i d"

definition UDP_HLEN :: nat where "UDP_HLEN = 8"
definition IP_HLEN :: nat where "IP_HLEN = 20"
definition IP6_HLEN :: nat where "IP6_HLEN = 40"
definition SIZEOF_ETH_HDR :: nat where "SIZEOF_ETH_HDR = 16"
definition IP_PROTO_UDP :: u8 where "IP_PROTO_UDP = 17"

lemmas hlen_defs = UDP_HLEN_def IP_HLEN_def IP6_HLEN_def SIZEOF_ETH_HDR_def IP_PROTO_UDP_def

text \<open>
  The headers are laid out as on the wire: UDP source, destination, length, checksum; the
  fields of RFC 791 and RFC 2460; two bytes of padding, Ethernet destination, source, type.
\<close>

definition udp_hdr_swap :: "nat \<Rightarrow> u8 list \<Rightarrow> u8 list" where
  "udp_hdr_swap tot b =
     (let port_tmp = slice 0 2 b;
          b = put 0 (slice 2 2 b) b;
          b = put 2 port_tmp b;
          b = put 6 [0, 0] b in
      put 4 (PP_HTONS (of_nat tot)) b)"

definition ip_hdr_swap :: "u8 \<Rightarrow> netif \<Rightarrow> nat \<Rightarrow> u8 list \<Rightarrow> u8 list" where
  "ip_hdr_swap ttl netif tot b =
     (let b = put 8 [ttl] b;
          b = put 9 [IP_PROTO_UDP] b;
          b = put 16 (slice 12 4 b) b;
          b = put 12 (ip_addr netif) b;
          b = put 0 [0x45] b;
          b = put 2 (PP_HTONS (of_nat tot)) b;
          b = put 6 [0, 0] b in
      put 10 [0, 0] b)"

definition ip6_hdr_swap :: "lwip \<Rightarrow> u8 \<Rightarrow> netif \<Rightarrow> nat \<Rightarrow> u8 list \<Rightarrow> u8 list res" where
  "ip6_hdr_swap lw ttl netif tot b =
     (let b = put 0 [0x60 OR (b ! 0 AND 0x0f), b ! 1 AND 0xf0, 0, 0] b;
          b = put 4 (PP_HTONS (of_nat (tot - IP6_HLEN))) b;
          b = put 6 [IP_PROTO_UDP] b;
          b = put 7 [ttl] b;
          b = put 24 (slice 8 16 b) b in
      case ip6_select_source_address lw netif (slice 24 16 b) of
        None \<Rightarrow> Inl (Undef ''ip6_select_source_address'')
      | Some a \<Rightarrow> Inr (put 8 a b))"

definition eth_hdr_swap :: "bool \<Rightarrow> netif \<Rightarrow> u8 list \<Rightarrow> u8 list" where
  "eth_hdr_swap ipv6 netif b =
     (let b = put 14 (PP_HTONS (if ipv6 then 0x86DD else 0x0800)) b;
          dest = slice 8 6 b;
          b = put 8 (hwaddr netif) b in
      put 2 dest b)"

definition reveal :: "lwip \<Rightarrow> nat \<Rightarrow> pbuf \<Rightarrow> pbuf res" where
  "reveal lw n p = (case pbuf_header lw p n of None \<Rightarrow> Inl Halt | Some p \<Rightarrow> Inr p)"

definition udp_reply :: "lwip \<Rightarrow> bool \<Rightarrow> u8 \<Rightarrow> netif \<Rightarrow> pbuf \<Rightarrow> u8 list res" where
  "udp_reply lw ipv6 ttl netif p =
     rbind (reveal lw UDP_HLEN p) (\<lambda>p.
     let p = p\<lparr>payload := udp_hdr_swap (tot_len p) (payload p)\<rparr> in
     rbind (if ipv6
            then rbind (reveal lw IP6_HLEN p) (\<lambda>p.
                 rbind (ip6_hdr_swap lw ttl netif (tot_len p) (payload p)) (\<lambda>b.
                 Inr (p\<lparr>payload := b\<rparr>)))
            else rbind (reveal lw IP_HLEN p) (\<lambda>p.
                 Inr (p\<lparr>payload := ip_hdr_swap ttl netif (tot_len p) (payload p)\<rparr>))) (\<lambda>p.
     rbind (reveal lw SIZEOF_ETH_HDR p) (\<lambda>p.
     Inr (eth_hdr_swap ipv6 netif (payload p) @ chain p))))"

section \<open>The server\<close>

definition LEAP_NONE :: u8 where "LEAP_NONE = 0"
definition VN_4 :: u8 where "VN_4 = 0x20"
definition MODE_MASK :: u8 where "MODE_MASK = 7"
definition MODE_CLIENT :: u8 where "MODE_CLIENT = 3"
definition MODE_SERVER :: u8 where "MODE_SERVER = 4"

lemmas ntp_defs = LEAP_NONE_def VN_4_def MODE_MASK_def MODE_CLIENT_def MODE_SERVER_def

record ntp_cfg =
  ntp_flags :: u32
  ntp_key :: "u8 list"

definition ntp_sha1 :: "sha1_block \<Rightarrow> ntp_cfg \<Rightarrow> u8 list \<Rightarrow> u8 list" where
  "ntp_sha1 blk cfg msg =
     fst (SHA1_Final blk (SHA1_Update blk (take 48 msg) (SHA1_Update blk (ntp_key cfg) SHA1_Init)))"

definition ntp_md5 :: "ntp_cfg \<Rightarrow> u8 list \<Rightarrow> u8 list" where
  "ntp_md5 cfg msg =
     fst (MD5_Final (MD5_Update (take 48 msg) (MD5_Update (ntp_key cfg) MD5_Init)))"

definition ntp_out_size :: "sha1_block \<Rightarrow> ntp_cfg \<Rightarrow> u8 list \<Rightarrow> nat" where
  "ntp_out_size blk cfg msg =
     (if length msg = 72 \<and> ntp_flags cfg AND FLAG_NTPKEY_SHA1 \<noteq> 0
      then if ntp_sha1 blk cfg msg = slice 52 20 msg then 72 else 48
      else if length msg = 68 \<and> ntp_flags cfg AND FLAG_NTPKEY_MD5 \<noteq> 0
      then if ntp_md5 cfg msg = slice 52 16 msg then 68 else 48
      else 48)"

definition ntp_fill :: "u16 \<Rightarrow> u64 \<Rightarrow> u8 list \<Rightarrow> u8 list" where
  "ntp_fill flags now msg =
     (let msg = put 0 [LEAP_NONE OR VN_4 OR MODE_SERVER] msg;
          msg = put 1 [if NOT flags AND STATUS_READY \<noteq> 0 then 16 else 1] msg;
          msg = (if msg ! 2 < 6 then put 2 [6] msg else msg);
          msg = put 3 [- 24] msg;
          msg = put 4 [0, 0, 0, 0] msg;
          msg = put 8 [0, 0, 0, 0] msg;
          msg = put 12 (PP_HTONL 0x47505300) msg;
          msg = put 24 (slice 40 4 msg) msg;
          msg = put 28 (slice 44 4 msg) msg;
          msg = put 32 (PP_HTONL (ucast (drop_bit 32 now))) msg;
          msg = put 16 (slice 32 4 msg) msg;
          msg = put 36 (PP_HTONL (ucast now)) msg;
          msg = put 20 (slice 36 4 msg) msg;
          now = now + 73959;
          msg = put 40 (PP_HTONL (ucast (drop_bit 32 now))) msg in
      put 44 (PP_HTONL (ucast now)) msg)"

definition ntp_sign :: "sha1_block \<Rightarrow> ntp_cfg \<Rightarrow> nat \<Rightarrow> u8 list \<Rightarrow> u8 list" where
  "ntp_sign blk cfg out_size msg =
     (if out_size = 72 then put 52 (ntp_sha1 blk cfg msg) msg
      else if out_size = 68 then put 52 (ntp_md5 cfg msg) msg
      else msg)"

text \<open>The frame sent, if any; \<open>rs\<close> are the counter readings that \<open>vtimer_now\<close> makes.\<close>

definition ntp_recv ::
  "lwip \<Rightarrow> sha1_block \<Rightarrow> ntp_cfg \<Rightarrow> bool \<Rightarrow> u8 \<Rightarrow> netif \<Rightarrow> sample list \<Rightarrow> pbuf \<Rightarrow> vtimer
    \<Rightarrow> (u8 list option \<times> vtimer) res" where
  "ntp_recv lw blk cfg ipv6 ttl thisif rs p v =
     (if length (payload p) < 48 \<or> payload p ! 0 AND MODE_MASK \<noteq> MODE_CLIENT then Inr (None, v)
      else let out_size = ntp_out_size blk cfg (payload p);
               p = (if length (payload p) > out_size then pbuf_realloc lw p out_size else p) in
           rbind (vtimer_now rs v) (\<lambda>(now, v').
           let msg = ntp_sign blk cfg out_size (ntp_fill (status_flags v) now (payload p)) in
           rbind (udp_reply lw ipv6 ttl thisif (p\<lparr>payload := msg\<rparr>)) (\<lambda>frame.
           Inr (Some frame, v'))))"

section \<open>The message of a reply\<close>

text \<open>Field by field, writing and reading walk over the fields in front.\<close>

lemma put_skip [simp]: "length xs \<le> i \<Longrightarrow> put i d (xs @ r) = xs @ put (i - length xs) d r"
  by (simp add: put_def copy_into_def Suc_diff_le)

lemma put_here [simp]: "length d = length ys \<Longrightarrow> put 0 d (ys @ r) = d @ r"
  by (simp add: put_def copy_into_def)

lemma put_Cons [simp]:
  "put (numeral k) d (x # r) = x # put (pred_numeral k) d r"
  "put (Suc n) d (x # r) = x # put n d r"
  "put 0 [y] (x # r) = y # r"
  "put 0 [y, z] (x # x' # r) = y # z # r"
  by (simp_all add: put_def copy_into_def numeral_eq_Suc)

lemma slice_skip [simp]: "length xs \<le> i \<Longrightarrow> slice i n (xs @ r) = slice (i - length xs) n r"
  by (simp add: slice_def)

lemma slice_here [simp]: "length ys = n \<Longrightarrow> slice 0 n (ys @ r) = ys"
  by (simp add: slice_def)

lemma slice_Cons [simp]:
  "slice (numeral k) n (x # r) = slice (pred_numeral k) n r"
  "slice (Suc i) n (x # r) = slice i n r"
  by (simp_all add: slice_def numeral_eq_Suc)

lemma slice_length [simp]: "i + n \<le> length b \<Longrightarrow> length (slice i n b) = n"
  by (simp add: slice_def)

definition stamp :: "u64 \<Rightarrow> u8 list" where
  "stamp t = PP_HTONL (ucast (drop_bit 32 t)) @ PP_HTONL (ucast t)"

lemma stamp_length [simp]: "length (stamp t) = 8"
  by (simp add: stamp_def)

definition stratum_of :: "u16 \<Rightarrow> u8" where
  "stratum_of flags = (if flags AND STATUS_READY = STATUS_READY then 1 else 16)"

lemma ready_flags: "NOT flags AND STATUS_READY \<noteq> 0 \<longleftrightarrow> flags AND STATUS_READY \<noteq> STATUS_READY"
proof -
  have "NOT flags AND m = 0 \<longleftrightarrow> flags AND m = m" for m :: u16
    by (auto simp: bit_eq_iff bit_simps)
  then show ?thesis by blast
qed

definition ntp_reply_msg :: "u16 \<Rightarrow> u64 \<Rightarrow> u8 list \<Rightarrow> u8 list" where
  "ntp_reply_msg flags now req =
     [0x24, stratum_of flags, max 6 (req ! 2), 0xE8] @ replicate 8 0 @ [0x47, 0x50, 0x53, 0]
       @ stamp now @ slice 40 8 req @ stamp now @ stamp (now + 73959)"

lemma split_request:
  assumes "48 \<le> length msg"
  shows "msg = [msg ! 0] @ [msg ! 1] @ [msg ! 2] @ [msg ! 3] @ slice 4 4 msg @ slice 8 4 msg @ slice 12 4 msg
      @ slice 16 4 msg @ slice 20 4 msg @ slice 24 4 msg @ slice 28 4 msg @ slice 32 4 msg @ slice 36 4 msg
      @ slice 40 4 msg @ slice 44 4 msg @ drop 48 msg"
proof -
  have cut: "drop i msg = slice i 4 msg @ drop (i + 4) msg" for i
    unfolding slice_def by (metis append_take_drop_id drop_drop add.commute)
  have one: "drop i msg = [msg ! i] @ drop (i + 1) msg" if "i < 4" for i
    using that assms by (simp add: Cons_nth_drop_Suc)
  have "msg = drop 0 msg" by simp
  also have "\<dots> = [msg ! 0] @ [msg ! 1] @ [msg ! 2] @ [msg ! 3] @ drop 4 msg"
    using one [of 0] one [of 1] one [of 2] one [of 3] by (simp add: eval_nat_numeral)
  also have "drop 4 msg = slice 4 4 msg @ slice 8 4 msg @ slice 12 4 msg @ slice 16 4 msg @ slice 20 4 msg
      @ slice 24 4 msg @ slice 28 4 msg @ slice 32 4 msg @ slice 36 4 msg @ slice 40 4 msg @ slice 44 4 msg @ drop 48 msg"
    using cut [of 4] cut [of 8] cut [of 12] cut [of 16] cut [of 20] cut [of 24] cut [of 28] cut [of 32]
      cut [of 36] cut [of 40] cut [of 44] by simp
  finally show ?thesis .
qed

lemma eight_zeros: "replicate 8 x = [x, x, x, x, x, x, x, x]"
  by (simp add: eval_nat_numeral)

lemma fill_segments:
  assumes [simp]: "length a = 4" "length b = 4" "length c = 4" "length r0 = 4" "length r1 = 4" "length o0 = 4"
    "length o1 = 4" "length x0 = 4" "length x1 = 4" "length t0 = 4" "length t1 = 4"
  shows "ntp_fill flags now ([h0] @ [h1] @ [h2] @ [h3] @ a @ b @ c @ r0 @ r1 @ o0 @ o1 @ x0 @ x1 @ t0 @ t1 @ rest)
    = [0x24, stratum_of flags, max 6 h2, 0xE8] @ replicate 8 0 @ [0x47, 0x50, 0x53, 0]
       @ stamp now @ (t0 @ t1) @ stamp now @ stamp (now + 73959) @ rest"
  unfolding ntp_fill_def stamp_def Let_def ready_flags
  by (simp add: stratum_of_def ntp_defs max_def eight_zeros) (auto simp: PP_HTONL_def)

lemma ntp_fill_msg:
  assumes "48 \<le> length msg"
  shows "ntp_fill flags now msg = ntp_reply_msg flags now msg @ drop 48 msg"
proof -
  have l: "length (slice i 4 msg) = 4" if "i \<le> 44" for i using that assms by simp
  have "slice 40 8 msg = slice 40 4 msg @ slice 44 4 msg"
    using take_add [of 4 4 "drop 40 msg"] by (simp add: slice_def)
  with fill_segments [OF l l l l l l l l l l l, of 4 8 12 16 20 24 28 32 36 40 44 flags now "msg ! 0" "msg ! 1" "msg ! 2" "msg ! 3" "drop 48 msg"]
  show ?thesis
    using split_request [OF assms] by (simp add: ntp_reply_msg_def)
qed

section \<open>The frame of a reply\<close>

lemma reply_msg_length [simp]: "48 \<le> length req \<Longrightarrow> length (ntp_reply_msg flags now req) = 48"
  by (simp add: ntp_reply_msg_def)

definition udp_head :: "u8 list \<Rightarrow> u8 list \<Rightarrow> nat \<Rightarrow> u8 list" where
  "udp_head src dest tot = src @ dest @ PP_HTONS (of_nat tot) @ [0, 0]"

definition ip_head :: "u8 \<Rightarrow> u8 list \<Rightarrow> u8 \<Rightarrow> u8 list \<Rightarrow> u8 list \<Rightarrow> nat \<Rightarrow> u8 list" where
  "ip_head tos ident ttl src dest tot =
     [0x45, tos] @ PP_HTONS (of_nat tot) @ ident @ [0, 0, ttl, 17, 0, 0] @ src @ dest"

lemma udp_swap:
  assumes "length sp = 2" "length dp = 2" "length len = 2" "length cks = 2"
  shows "udp_hdr_swap tot ((sp @ dp @ len @ cks) @ b) = udp_head dp sp tot @ b"
  using assms by (simp add: udp_hdr_swap_def udp_head_def Let_def)

lemma ip_swap:
  assumes [simp]: "length ident = 2" "length frag = 2" "length cks = 2" "length len = 2" "length src = 4" "length dest = 4"
    "length (ip_addr nif) = 4"
  shows "ip_hdr_swap ttl0 nif tot (([vhl, tos] @ len @ ident @ frag @ [ttl, proto] @ cks @ src @ dest) @ b)
       = ip_head tos ident ttl0 (ip_addr nif) src tot @ b"
  unfolding ip_hdr_swap_def ip_head_def Let_def
  by (simp add: hlen_defs)

definition ip6_head :: "u8 \<Rightarrow> u8 \<Rightarrow> u8 \<Rightarrow> u8 list \<Rightarrow> u8 list \<Rightarrow> nat \<Rightarrow> u8 list" where
  "ip6_head h0 h1 hlim src dest plen =
     [0x60 OR (h0 AND 0x0f), h1 AND 0xf0, 0, 0] @ PP_HTONS (of_nat plen) @ [17, hlim] @ src @ dest"

lemma put4: "put 0 [a, b, c, d] (w # x # y # z # r) = a # b # c # d # r"
  by (simp add: put_def copy_into_def)

lemma ip6_swap:
  assumes [simp]: "length plen = 2" "length src = 16" "length dest = 16"
    and a: "\<And>a. ip6_select_source_address lw nif src = Some a \<Longrightarrow> length a = 16"
  shows "ip6_hdr_swap lw ttl nif tot (([h0, h1, h2, h3] @ plen @ [nh, hl] @ src @ dest) @ b)
       = (case ip6_select_source_address lw nif src of None \<Rightarrow> Inl (Undef ''ip6_select_source_address'')
          | Some a \<Rightarrow> Inr (ip6_head h0 h1 ttl a src (tot - 40) @ b))"
proof (cases "ip6_select_source_address lw nif src")
  case None
  then show ?thesis unfolding ip6_hdr_swap_def Let_def by (simp add: hlen_defs put4)
next
  case (Some s)
  then have [simp]: "length s = 16" by (rule a)
  show ?thesis unfolding ip6_hdr_swap_def Let_def by (simp add: hlen_defs put4 Some ip6_head_def)
qed

lemma eth_swap:
  assumes "length pad = 2" "length dest = 6" "length src = 6" "length typ = 2" "length (hwaddr nif) = 6"
  shows "eth_hdr_swap False nif ((pad @ dest @ src @ typ) @ b) = pad @ src @ hwaddr nif @ [0x08, 0x00] @ b"
    "eth_hdr_swap True nif ((pad @ dest @ src @ typ) @ b) = pad @ src @ hwaddr nif @ [0x86, 0xDD] @ b"
  using assms by (simp_all add: eth_hdr_swap_def Let_def PP_HTONS_def)

lemma reveal_room:
  assumes "lwip_ok lw" "room p = a @ b" "n = length b"
  shows "reveal lw n p = Inr (p\<lparr>room := a, payload := b @ payload p\<rparr>)"
  using assms unfolding lwip_ok_def reveal_def by auto

definition sha1_ref :: "sha1_block \<Rightarrow> u8 list \<Rightarrow> u8 list" where
  "sha1_ref blk = md_digest blk sha1_enc sha1_string SHA1_iv"

definition md5_ref :: "u8 list \<Rightarrow> u8 list" where
  "md5_ref = md_digest md5_block md5_enc md5_string MD5_iv"

lemma ref_lengths [simp]: "length (sha1_ref blk m) = 20" "length (md5_ref m) = 16"
  by (simp_all add: sha1_ref_def md5_ref_def md_digest_def Let_def sha1_string_def md5_string_def
      HOST_l2c_be_def HOST_l2c_le_def split: prod.splits)

lemma ntp_digests:
  assumes "length (ntp_key cfg) = 20"
  shows "ntp_sha1 blk cfg msg = sha1_ref blk (ntp_key cfg @ take 48 msg)"
    "ntp_md5 cfg msg = md5_ref (ntp_key cfg @ take 48 msg)"
proof -
  have ps: "\<forall>p\<in>set [ntp_key cfg, take 48 msg]. length p < 2 ^ 32" "length (concat [ntp_key cfg, take 48 msg]) < 2 ^ 61"
    using assms by simp_all
  show "ntp_sha1 blk cfg msg = sha1_ref blk (ntp_key cfg @ take 48 msg)"
    using sha1_feed [OF _ ps, of blk] by (simp add: ntp_sha1_def sha1_ref_def SHA1_Init_def SHA1_iv_def)
  show "ntp_md5 cfg msg = md5_ref (ntp_key cfg @ take 48 msg)"
    using md5_feed [OF _ ps] by (simp add: ntp_md5_def md5_ref_def MD5_Init_def MD5_iv_def)
qed

text \<open>
  What a reply carries behind its 48 bytes: nothing, or the key identifier of an authentic
  request and the digest of the reply.
\<close>

definition ntp_trailer :: "sha1_block \<Rightarrow> ntp_cfg \<Rightarrow> u8 list \<Rightarrow> u8 list \<Rightarrow> u8 list" where
  "ntp_trailer blk cfg req msg =
     (if length req = 72 \<and> ntp_flags cfg AND FLAG_NTPKEY_SHA1 \<noteq> 0
         \<and> drop 52 req = sha1_ref blk (ntp_key cfg @ take 48 req)
      then slice 48 4 req @ sha1_ref blk (ntp_key cfg @ msg)
      else if length req = 68 \<and> ntp_flags cfg AND FLAG_NTPKEY_MD5 \<noteq> 0
         \<and> drop 52 req = md5_ref (ntp_key cfg @ take 48 req)
      then slice 48 4 req @ md5_ref (ntp_key cfg @ msg)
      else [])"

lemma ntp_signed:
  assumes "length (ntp_key cfg) = 20" "48 \<le> length req"
  shows "ntp_sign blk cfg (ntp_out_size blk cfg req)
          (ntp_fill flags now (take (ntp_out_size blk cfg req) req))
       = ntp_reply_msg flags now req @ ntp_trailer blk cfg req (ntp_reply_msg flags now req)"
proof -
  let ?n = "ntp_out_size blk cfg req"
  have n: "48 \<le> ?n" by (simp add: ntp_out_size_def)
  have "ntp_reply_msg flags now (take ?n req) = ntp_reply_msg flags now req"
    using n assms(2) by (simp add: ntp_reply_msg_def slice_def drop_take min_def)
  then have fill: "ntp_fill flags now (take ?n req) = ntp_reply_msg flags now req @ drop 48 (take ?n req)"
    using ntp_fill_msg [of "take ?n req"] n assms(2) by simp
  have s: "slice 52 20 req = drop 52 req" if "length req = 72" using that by (simp add: slice_def)
  have m: "slice 52 16 req = drop 52 req" if "length req = 68" using that by (simp add: slice_def)
  have cut: "drop 48 req = slice 48 4 req @ drop 52 req"
    using append_take_drop_id [of 4 "drop 48 req"] by (simp add: slice_def)
  show ?thesis
    unfolding fill ntp_sign_def ntp_digests [OF assms(1)] ntp_trailer_def
    using assms by (auto simp: ntp_out_size_def ntp_digests s m cut put_def copy_into_def)
qed

text \<open>
  A request as the driver hands it over: an unfragmented frame in one buffer.
\<close>

record request =
  rq_pad :: "u8 list"
  rq_hdest :: "u8 list"
  rq_hsrc :: "u8 list"
  rq_type :: "u8 list"
  rq_vhl :: u8
  rq_tos :: u8
  rq_len :: "u8 list"
  rq_id :: "u8 list"
  rq_frag :: "u8 list"
  rq_ttl :: u8
  rq_proto :: u8
  rq_cks :: "u8 list"
  rq_src :: "u8 list"
  rq_dest :: "u8 list"
  rq_sport :: "u8 list"
  rq_dport :: "u8 list"
  rq_ulen :: "u8 list"
  rq_ucks :: "u8 list"
  rq_msg :: "u8 list"

definition request_ok :: "request \<Rightarrow> bool" where
  "request_ok q \<longleftrightarrow> length (rq_pad q) = 2 \<and> length (rq_hdest q) = 6 \<and> length (rq_hsrc q) = 6
     \<and> length (rq_type q) = 2 \<and> length (rq_len q) = 2 \<and> length (rq_id q) = 2 \<and> length (rq_frag q) = 2
     \<and> length (rq_cks q) = 2 \<and> length (rq_src q) = 4 \<and> length (rq_dest q) = 4
     \<and> length (rq_sport q) = 2 \<and> length (rq_dport q) = 2 \<and> length (rq_ulen q) = 2 \<and> length (rq_ucks q) = 2"

definition request_pbuf :: "u8 list \<Rightarrow> request \<Rightarrow> pbuf" where
  "request_pbuf pre q =
     \<lparr>room = (pre @ (rq_pad q @ rq_hdest q @ rq_hsrc q @ rq_type q))
        @ ([rq_vhl q, rq_tos q] @ rq_len q @ rq_id q @ rq_frag q @ [rq_ttl q, rq_proto q] @ rq_cks q @ rq_src q @ rq_dest q)
        @ (rq_sport q @ rq_dport q @ rq_ulen q @ rq_ucks q),
      payload = rq_msg q, chain = []\<rparr>"

definition reply_frame :: "u8 \<Rightarrow> netif \<Rightarrow> request \<Rightarrow> u8 list \<Rightarrow> u8 list" where
  "reply_frame ttl nif q msg =
     rq_pad q @ rq_hsrc q @ hwaddr nif @ [0x08, 0x00]
     @ ip_head (rq_tos q) (rq_id q) ttl (ip_addr nif) (rq_src q) (28 + length msg)
     @ udp_head (rq_dport q) (rq_sport q) (8 + length msg) @ msg"

lemma request_pbuf_simps [simp]: "payload (request_pbuf pre q) = rq_msg q" "chain (request_pbuf pre q) = []"
  by (simp_all add: request_pbuf_def)

lemma udp_reply_frame:
  assumes "lwip_ok lw" "request_ok q" "length (ip_addr nif) = 4" "length (hwaddr nif) = 6"
  shows "udp_reply lw False ttl nif ((request_pbuf pre q)\<lparr>payload := msg\<rparr>) = Inr (reply_frame ttl nif q msg)"
proof -
  note q = assms(2) [unfolded request_ok_def]
  let ?eth = "rq_pad q @ rq_hdest q @ rq_hsrc q @ rq_type q"
  let ?ip = "[rq_vhl q, rq_tos q] @ rq_len q @ rq_id q @ rq_frag q @ [rq_ttl q, rq_proto q] @ rq_cks q @ rq_src q @ rq_dest q"
  let ?udp = "rq_sport q @ rq_dport q @ rq_ulen q @ rq_ucks q"
  let ?P = "\<lambda>a b. \<lparr>room = a, payload = b, chain = []\<rparr>"
  let ?uh = "udp_head (rq_dport q) (rq_sport q) (8 + length msg)"
  let ?ih = "ip_head (rq_tos q) (rq_id q) ttl (ip_addr nif) (rq_src q) (28 + length msg)"
  have l: "length ?udp = 8" "length ?ip = 20" "length ?eth = 16" "length ?uh = 8" "length ?ih = 20"
    using q assms(3) by (simp_all add: udp_head_def ip_head_def)
  have 1: "reveal lw UDP_HLEN (?P ((pre @ ?eth) @ ?ip @ ?udp) msg) = Inr (?P ((pre @ ?eth) @ ?ip) (?udp @ msg))"
    using reveal_room [OF assms(1), of "?P ((pre @ ?eth) @ ?ip @ ?udp) msg" "(pre @ ?eth) @ ?ip" ?udp UDP_HLEN] l
    by (simp add: UDP_HLEN_def)
  have 2: "reveal lw IP_HLEN (?P ((pre @ ?eth) @ ?ip) b) = Inr (?P (pre @ ?eth) (?ip @ b))" for b
    using reveal_room [OF assms(1), of "?P ((pre @ ?eth) @ ?ip) b" "pre @ ?eth" ?ip IP_HLEN] l
    by (simp add: IP_HLEN_def)
  have 3: "reveal lw SIZEOF_ETH_HDR (?P (pre @ ?eth) b) = Inr (?P pre (?eth @ b))" for b
    using reveal_room [OF assms(1), of "?P (pre @ ?eth) b" pre ?eth SIZEOF_ETH_HDR] l
    by (simp add: SIZEOF_ETH_HDR_def)
  have u: "udp_hdr_swap (8 + length msg) (?udp @ msg) = ?uh @ msg" using q by (intro udp_swap) auto
  have i: "ip_hdr_swap ttl nif (28 + length msg) (?ip @ b) = ?ih @ b" for b
    using q assms(3) by (intro ip_swap) auto
  have e: "eth_hdr_swap False nif (?eth @ b) = rq_pad q @ rq_hsrc q @ hwaddr nif @ [0x08, 0x00] @ b" for b
    using q assms(4) by (intro eth_swap(1)) auto
  have t: "tot_len (?P a b) = length b" for a b by (simp add: tot_len_def)
  have tu: "length (?udp @ msg) = 8 + length msg" using l by simp
  have ti: "length (?ip @ ?uh @ msg) = 28 + length msg"
    unfolding length_append [of ?ip] length_append [of ?uh] l by simp
  show ?thesis
    by (simp only: udp_reply_def request_pbuf_def reply_frame_def pbuf.update_convs pbuf.select_convs
        1 2 3 t tu ti u i e rbind_simps Let_def if_False append_Nil2)
qed

text \<open>The same over IPv6: a frame in one buffer, with no extension header in front of the UDP header.\<close>

record request6 =
  r6_pad :: "u8 list"
  r6_hdest :: "u8 list"
  r6_hsrc :: "u8 list"
  r6_type :: "u8 list"
  r6_vtcfl0 :: u8
  r6_vtcfl1 :: u8
  r6_vtcfl2 :: u8
  r6_vtcfl3 :: u8
  r6_plen :: "u8 list"
  r6_next :: u8
  r6_hlim :: u8
  r6_src :: "u8 list"
  r6_dest :: "u8 list"
  r6_sport :: "u8 list"
  r6_dport :: "u8 list"
  r6_ulen :: "u8 list"
  r6_ucks :: "u8 list"
  r6_msg :: "u8 list"

definition request6_ok :: "request6 \<Rightarrow> bool" where
  "request6_ok q \<longleftrightarrow> length (r6_pad q) = 2 \<and> length (r6_hdest q) = 6 \<and> length (r6_hsrc q) = 6
     \<and> length (r6_type q) = 2 \<and> length (r6_plen q) = 2 \<and> length (r6_src q) = 16 \<and> length (r6_dest q) = 16
     \<and> length (r6_sport q) = 2 \<and> length (r6_dport q) = 2 \<and> length (r6_ulen q) = 2 \<and> length (r6_ucks q) = 2"

definition request6_pbuf :: "u8 list \<Rightarrow> request6 \<Rightarrow> pbuf" where
  "request6_pbuf pre q =
     \<lparr>room = (pre @ (r6_pad q @ r6_hdest q @ r6_hsrc q @ r6_type q))
        @ ([r6_vtcfl0 q, r6_vtcfl1 q, r6_vtcfl2 q, r6_vtcfl3 q] @ r6_plen q @ [r6_next q, r6_hlim q] @ r6_src q @ r6_dest q)
        @ (r6_sport q @ r6_dport q @ r6_ulen q @ r6_ucks q),
      payload = r6_msg q, chain = []\<rparr>"

definition reply6_frame :: "u8 \<Rightarrow> netif \<Rightarrow> u8 list \<Rightarrow> request6 \<Rightarrow> u8 list \<Rightarrow> u8 list" where
  "reply6_frame ttl nif from q msg =
     r6_pad q @ r6_hsrc q @ hwaddr nif @ [0x86, 0xDD]
     @ ip6_head (r6_vtcfl0 q) (r6_vtcfl1 q) ttl from (r6_src q) (8 + length msg)
     @ udp_head (r6_dport q) (r6_sport q) (8 + length msg) @ msg"

lemma request6_pbuf_simps [simp]: "payload (request6_pbuf pre q) = r6_msg q" "chain (request6_pbuf pre q) = []"
  by (simp_all add: request6_pbuf_def)

lemma udp_reply_frame6:
  assumes "lwip_ok lw" "request6_ok q" "length (hwaddr nif) = 6"
  shows "udp_reply lw True ttl nif ((request6_pbuf pre q)\<lparr>payload := msg\<rparr>) =
    (case ip6_select_source_address lw nif (r6_src q) of None \<Rightarrow> Inl (Undef ''ip6_select_source_address'')
     | Some a \<Rightarrow> Inr (reply6_frame ttl nif a q msg))"
proof -
  note q = assms(2) [unfolded request6_ok_def]
  let ?eth = "r6_pad q @ r6_hdest q @ r6_hsrc q @ r6_type q"
  let ?ip = "[r6_vtcfl0 q, r6_vtcfl1 q, r6_vtcfl2 q, r6_vtcfl3 q] @ r6_plen q @ [r6_next q, r6_hlim q] @ r6_src q @ r6_dest q"
  let ?udp = "r6_sport q @ r6_dport q @ r6_ulen q @ r6_ucks q"
  let ?P = "\<lambda>a b. \<lparr>room = a, payload = b, chain = []\<rparr>"
  let ?uh = "udp_head (r6_dport q) (r6_sport q) (8 + length msg)"
  let ?sel = "ip6_select_source_address lw nif (r6_src q)"
  have sel: "length a = 16" if "?sel = Some a" for a using assms(1) that by (auto simp: lwip_ok_def)
  have l: "length ?udp = 8" "length ?ip = 40" "length ?eth = 16" "length ?uh = 8"
    using q by (simp_all add: udp_head_def)
  have 1: "reveal lw UDP_HLEN (?P ((pre @ ?eth) @ ?ip @ ?udp) msg) = Inr (?P ((pre @ ?eth) @ ?ip) (?udp @ msg))"
    using reveal_room [OF assms(1), of "?P ((pre @ ?eth) @ ?ip @ ?udp) msg" "(pre @ ?eth) @ ?ip" ?udp UDP_HLEN] l
    by (simp add: UDP_HLEN_def)
  have 2: "reveal lw IP6_HLEN (?P ((pre @ ?eth) @ ?ip) b) = Inr (?P (pre @ ?eth) (?ip @ b))" for b
    using reveal_room [OF assms(1), of "?P ((pre @ ?eth) @ ?ip) b" "pre @ ?eth" ?ip IP6_HLEN] l
    by (simp add: IP6_HLEN_def)
  have 3: "reveal lw SIZEOF_ETH_HDR (?P (pre @ ?eth) b) = Inr (?P pre (?eth @ b))" for b
    using reveal_room [OF assms(1), of "?P (pre @ ?eth) b" pre ?eth SIZEOF_ETH_HDR] l
    by (simp add: SIZEOF_ETH_HDR_def)
  have u: "udp_hdr_swap (8 + length msg) (?udp @ msg) = ?uh @ msg" using q by (intro udp_swap) auto
  have d: "48 + length msg - 40 = 8 + length msg" by simp
  have i: "ip6_hdr_swap lw ttl nif (48 + length msg) (?ip @ b) = (case ?sel of None \<Rightarrow> Inl (Undef ''ip6_select_source_address'')
      | Some a \<Rightarrow> Inr (ip6_head (r6_vtcfl0 q) (r6_vtcfl1 q) ttl a (r6_src q) (8 + length msg) @ b))" for b
    using ip6_swap [of "r6_plen q" "r6_src q" "r6_dest q" lw nif ttl "48 + length msg"] q sel unfolding d by simp
  have e: "eth_hdr_swap True nif (?eth @ b) = r6_pad q @ r6_hsrc q @ hwaddr nif @ [0x86, 0xDD] @ b" for b
    using q assms(3) by (intro eth_swap(2)) auto
  have t: "tot_len (?P a b) = length b" for a b by (simp add: tot_len_def)
  have tu: "length (?udp @ msg) = 8 + length msg" using l by simp
  have ti: "length (?ip @ ?uh @ msg) = 48 + length msg"
    unfolding length_append [of ?ip] length_append [of ?uh] l by simp
  show ?thesis
    by (cases ?sel) (simp_all only: udp_reply_def request6_pbuf_def reply6_frame_def pbuf.update_convs pbuf.select_convs
        1 2 3 t tu ti u i e rbind_simps Let_def if_True append_Nil2 option.case)
qed

lemma vtimer_now_flags: "vtimer_now rs v = Inr (now, v') \<Longrightarrow> status_flags v' = status_flags v"
  by (auto simp: vtimer_now_def Let_def)

section \<open>The client's view\<close>

text \<open>How \<open>ntp_query\<close> reads the transmit time of a reply.\<close>

definition ntp_stamp :: "nat \<Rightarrow> u8 list \<Rightarrow> u64" where
  "ntp_stamp i b =
     push_bit 56 (ucast (b ! i)) OR push_bit 48 (ucast (b ! (i + 1))) OR push_bit 40 (ucast (b ! (i + 2)))
     OR push_bit 32 (ucast (b ! (i + 3))) OR push_bit 24 (ucast (b ! (i + 4))) OR push_bit 16 (ucast (b ! (i + 5)))
     OR push_bit 8 (ucast (b ! (i + 6))) OR ucast (b ! (i + 7))"

lemma stamp_nths:
  "stamp t = [ucast (drop_bit 56 t), ucast (drop_bit 48 t), ucast (drop_bit 40 t), ucast (drop_bit 32 t),
     ucast (drop_bit 24 t), ucast (drop_bit 16 t), ucast (drop_bit 8 t), ucast t]"
  unfolding stamp_def PP_HTONL_def by (simp, intro conjI; rule bit_word_eqI; auto simp: bit_simps)

lemma byte_bits:
  "n < 64 \<Longrightarrow> bit (push_bit k (ucast (ucast (drop_bit k t) :: u8)) :: u64) n \<longleftrightarrow> k \<le> n \<and> n < k + 8 \<and> bit (t :: u64) n"
  by (auto simp: bit_simps)

lemma join_bytes:
  "push_bit 56 (ucast (ucast (drop_bit 56 t) :: u8)) OR push_bit 48 (ucast (ucast (drop_bit 48 t) :: u8))
     OR push_bit 40 (ucast (ucast (drop_bit 40 t) :: u8)) OR push_bit 32 (ucast (ucast (drop_bit 32 t) :: u8))
     OR push_bit 24 (ucast (ucast (drop_bit 24 t) :: u8)) OR push_bit 16 (ucast (ucast (drop_bit 16 t) :: u8))
     OR push_bit 8 (ucast (ucast (drop_bit 8 t) :: u8)) OR push_bit 0 (ucast (ucast (drop_bit 0 t) :: u8)) = (t :: u64)"
  (is "?j = t")
proof (rule bit_word_eqI)
  fix n assume "n < LENGTH(64)"
  then have n: "n < 64" by simp
  then have "56 \<le> n \<and> n < 56 + 8 \<or> 48 \<le> n \<and> n < 48 + 8 \<or> 40 \<le> n \<and> n < 40 + 8 \<or> 32 \<le> n \<and> n < 32 + 8
     \<or> 24 \<le> n \<and> n < 24 + 8 \<or> 16 \<le> n \<and> n < 16 + 8 \<or> 8 \<le> n \<and> n < 8 + 8 \<or> 0 \<le> n \<and> n < 0 + 8" by linarith
  then show "bit ?j n = bit t n" unfolding bit_or_iff byte_bits [OF n] by blast
qed

lemma ntp_stamp_stamp:
  "length a = i \<Longrightarrow> ntp_stamp i (a @ stamp t @ b) = t"
  unfolding ntp_stamp_def stamp_nths
  using join_bytes [of t] by (simp add: nth_append)

lemma reply_stamps:
  assumes "48 \<le> length req"
  shows "ntp_stamp 16 (ntp_reply_msg flags now req) = now" "ntp_stamp 32 (ntp_reply_msg flags now req) = now"
    "ntp_stamp 40 (ntp_reply_msg flags now req) = now + 73959"
    "slice 24 8 (ntp_reply_msg flags now req) = slice 40 8 req"
proof -
  let ?h = "[0x24, stratum_of flags, max 6 (req ! 2), 0xE8] @ replicate 8 0 @ [0x47, 0x50, 0x53, 0]"
  have h: "length ?h = 16" by simp
  have o: "length (slice 40 8 req) = 8" using assms by simp
  have r: "ntp_reply_msg flags now req = ?h @ stamp now @ slice 40 8 req @ stamp now @ stamp (now + 73959)"
    by (simp add: ntp_reply_msg_def)
  show "ntp_stamp 16 (ntp_reply_msg flags now req) = now"
    unfolding r by (rule ntp_stamp_stamp [OF h])
  show "ntp_stamp 32 (ntp_reply_msg flags now req) = now"
    using ntp_stamp_stamp [of "?h @ stamp now @ slice 40 8 req" 32 now] h o r by simp
  show "ntp_stamp 40 (ntp_reply_msg flags now req) = now + 73959"
    using ntp_stamp_stamp [of "?h @ stamp now @ slice 40 8 req @ stamp now" 40 "now + 73959" "[]"] h o r by simp
  show "slice 24 8 (ntp_reply_msg flags now req) = slice 40 8 req"
    unfolding ntp_reply_msg_def using o by simp
qed

lemma ntp_recv_payload:
  assumes "lwip_ok lw" "length (ntp_key cfg) = 20" "vtimer_now rs v = Inr (now, v')" "chain p = []" "payload p = req"
    and reply: "\<And>msg. udp_reply lw ipv6 ttl nif (p\<lparr>payload := msg\<rparr>) = answer msg"
  shows "ntp_recv lw blk cfg ipv6 ttl nif rs p v =
     (if length req < 48 \<or> req ! 0 AND 7 \<noteq> 3 then Inr (None, v)
      else let msg = ntp_reply_msg (status_flags v) now req in
           rbind (answer (msg @ ntp_trailer blk cfg req msg)) (\<lambda>frame. Inr (Some frame, v')))"
proof (cases "length req < 48 \<or> req ! 0 AND 7 \<noteq> 3")
  case True
  then show ?thesis using assms(5) by (auto simp: ntp_recv_def ntp_defs Let_def)
next
  case False
  then have len: "48 \<le> length req" by simp
  let ?n = "ntp_out_size blk cfg req"
  have p': "(if ?n < length req then pbuf_realloc lw p ?n else p) = p\<lparr>payload := take ?n req\<rparr>"
    using assms(1,4,5) by (auto simp: lwip_ok_def)
  have "ntp_recv lw blk cfg ipv6 ttl nif rs p v =
      rbind (udp_reply lw ipv6 ttl nif (p\<lparr>payload := ntp_sign blk cfg ?n (ntp_fill (status_flags v) now (take ?n req))\<rparr>))
        (\<lambda>frame. Inr (Some frame, v'))"
    using False assms(3) unfolding ntp_recv_def Let_def assms(5) p' by (simp add: ntp_defs)
  then show ?thesis using False unfolding ntp_signed [OF assms(2) len] reply by (simp add: Let_def)
qed


definition lwip0 :: lwip where
  "lwip0 = \<lparr>pbuf_header = (\<lambda>p n. if n \<le> length (room p)
       then Some (p\<lparr>room := take (length (room p) - n) (room p), payload := drop (length (room p) - n) (room p) @ payload p\<rparr>)
       else None),
     pbuf_realloc = (\<lambda>p n. p\<lparr>payload := take n (payload p), chain := take (n - length (payload p)) (chain p)\<rparr>),
     ip6_select_source_address = (\<lambda>_ _. Some (replicate 15 0 @ [1]))\<rparr>"

lemma lwip0_ok: "lwip_ok lwip0"
  by (auto simp: lwip_ok_def lwip0_def)

definition request0 :: request where
  "request0 = \<lparr>rq_pad = [0, 0], rq_hdest = replicate 6 1, rq_hsrc = replicate 6 2, rq_type = [8, 0], rq_vhl = 0x45,
     rq_tos = 0, rq_len = [0, 76], rq_id = [0, 1], rq_frag = [0, 0], rq_ttl = 64, rq_proto = 17, rq_cks = [0, 0],
     rq_src = [10, 0, 0, 2], rq_dest = [10, 0, 0, 1], rq_sport = [200, 0], rq_dport = [0, 123],
     rq_ulen = [0, 56], rq_ucks = [0, 0], rq_msg = 0x23 # replicate 47 0\<rparr>"

definition request60 :: request6 where
  "request60 = \<lparr>r6_pad = [0, 0], r6_hdest = replicate 6 1, r6_hsrc = replicate 6 2, r6_type = [0x86, 0xDD], r6_vtcfl0 = 0x60,
     r6_vtcfl1 = 0, r6_vtcfl2 = 0, r6_vtcfl3 = 0, r6_plen = [0, 56], r6_next = 17, r6_hlim = 64, r6_src = replicate 15 0 @ [2],
     r6_dest = replicate 15 0 @ [1], r6_sport = [200, 0], r6_dport = [0, 123], r6_ulen = [0, 56], r6_ucks = [0, 0],
     r6_msg = 0x23 # replicate 47 0\<rparr>"


end
