(* ===== verification/I2c.thy ===== *)
theory I2c
  imports Common Cfloat
begin

text \<open>
  The interrupt-driven I2C driver, \<open>src/lib/stm32/i2c.c\<close>: its event and error handlers as
  functions of the status register and of the bytes they read from the data register, and the
  transaction that waits for them. The theory shows that a transaction moves exactly the bytes
  it is asked for, for every length the driver distinguishes.
\<close>

section \<open>Registers\<close>

definition I2C_CR1_PE :: u16 where "I2C_CR1_PE = 0x0001"
definition I2C_CR1_START :: u16 where "I2C_CR1_START = 0x0100"
definition I2C_CR1_STOP :: u16 where "I2C_CR1_STOP = 0x0200"
definition I2C_CR1_ACK :: u16 where "I2C_CR1_ACK = 0x0400"
definition I2C_CR1_POS :: u16 where "I2C_CR1_POS = 0x0800"
definition I2C_CR2_ITERREN :: u16 where "I2C_CR2_ITERREN = 0x0100"
definition I2C_CR2_ITEVTEN :: u16 where "I2C_CR2_ITEVTEN = 0x0200"
definition I2C_CR2_ITBUFEN :: u16 where "I2C_CR2_ITBUFEN = 0x0400"
definition I2C_SR1_SB :: u16 where "I2C_SR1_SB = 0x0001"
definition I2C_SR1_ADDR :: u16 where "I2C_SR1_ADDR = 0x0002"
definition I2C_SR1_BTF :: u16 where "I2C_SR1_BTF = 0x0004"
definition I2C_SR1_RXNE :: u16 where "I2C_SR1_RXNE = 0x0040"
definition I2C_SR1_TXE :: u16 where "I2C_SR1_TXE = 0x0080"
definition I2C_SR1_BERR :: u16 where "I2C_SR1_BERR = 0x0100"
definition I2C_SR1_ARLO :: u16 where "I2C_SR1_ARLO = 0x0200"
definition I2C_SR1_AF :: u16 where "I2C_SR1_AF = 0x0400"
definition I2C_SR1_OVR :: u16 where "I2C_SR1_OVR = 0x0800"

lemmas sr1_defs = I2C_SR1_SB_def I2C_SR1_ADDR_def I2C_SR1_BTF_def I2C_SR1_RXNE_def I2C_SR1_TXE_def
  I2C_SR1_BERR_def I2C_SR1_ARLO_def I2C_SR1_AF_def I2C_SR1_OVR_def

text \<open>
  The device: \<open>i2c_t\<close>, the control registers, the bytes written to the data register so far
  and the state of its semaphore and mutex.
\<close>

record i2c =
  icr1 :: u16
  icr2 :: u16
  iccr :: u16
  itrise :: u16
  idr_out :: "u8 list"
  imutex :: bool
  ilocked :: bool
  isem_made :: bool
  isem :: bool
  ibuf :: "u8 list"
  iaddr_dir :: u8
  icount :: u8
  iindex :: u8
  ierror :: u8

definition cr1_on :: "u16 \<Rightarrow> i2c \<Rightarrow> i2c" where "cr1_on m s = s\<lparr>icr1 := icr1 s OR m\<rparr>"
definition cr1_off :: "u16 \<Rightarrow> i2c \<Rightarrow> i2c" where "cr1_off m s = s\<lparr>icr1 := icr1 s AND NOT m\<rparr>"
definition cr2_on :: "u16 \<Rightarrow> i2c \<Rightarrow> i2c" where "cr2_on m s = s\<lparr>icr2 := icr2 s OR m\<rparr>"
definition cr2_off :: "u16 \<Rightarrow> i2c \<Rightarrow> i2c" where "cr2_off m s = s\<lparr>icr2 := icr2 s AND NOT m\<rparr>"

section \<open>Interrupts\<close>

text \<open>
  An event interrupt with the value of \<open>SR1\<close>, the bytes that reads of \<open>DR\<close> return and the number
  of polls until the stop condition is out; an error interrupt with the value of \<open>SR1\<close> and
  whether a start condition is pending.
\<close>

datatype i2c_int = Ev u16 "u8 list" nat | Er u16 bool

definition store_dr :: "u8 list \<Rightarrow> nat \<Rightarrow> i2c \<Rightarrow> i2c res" where
  "store_dr drs k s =
     rbind (rd ''DR'' drs k) (\<lambda>b.
     rbind (wr ''buf'' (ibuf s) (unat (iindex s)) b) (\<lambda>buf.
     Inr (s\<lparr>ibuf := buf, iindex := iindex s + 1\<rparr>)))"

definition i2c_reading :: "i2c \<Rightarrow> bool" where
  "i2c_reading s \<longleftrightarrow> iaddr_dir s AND 1 \<noteq> 0"

definition event_sb :: "i2c \<Rightarrow> i2c" where
  "event_sb s =
     (let s = cr1_on I2C_CR1_ACK s;
          s = s\<lparr>iindex := 0\<rparr>;
          s = (if i2c_reading s \<and> icount s = 2 then cr1_on I2C_CR1_POS s else s) in
      s\<lparr>idr_out := idr_out s @ [iaddr_dir s]\<rparr>)"

definition event_addr :: "i2c \<Rightarrow> i2c" where
  "event_addr s =
     (if i2c_reading s \<and> icount s = 1
      then cr2_on I2C_CR2_ITBUFEN (cr1_on I2C_CR1_STOP (cr1_off I2C_CR1_ACK s))
      else if i2c_reading s \<and> icount s = 2
      then cr2_off I2C_CR2_ITBUFEN (cr1_off I2C_CR1_ACK s)
      else if i2c_reading s \<and> icount s = 3
      then cr2_off I2C_CR2_ITBUFEN s
      else cr2_on I2C_CR2_ITBUFEN s)"

definition event_btf :: "u8 list \<Rightarrow> i2c \<Rightarrow> i2c res" where
  "event_btf drs s =
     (if i2c_reading s
      then if icount s > 2
           then rbind (store_dr drs 0 (cr1_off I2C_CR1_ACK s)) (\<lambda>s.
                rbind (store_dr drs 1 (cr1_on I2C_CR1_STOP s)) (\<lambda>s.
                Inr (cr2_on I2C_CR2_ITBUFEN s)))
           else rbind (store_dr drs 0 (cr1_on I2C_CR1_STOP s)) (\<lambda>s.
                rbind (store_dr drs 1 s) (\<lambda>s.
                Inr (s\<lparr>iindex := iindex s + 1\<rparr>)))
      else Inr ((cr1_on I2C_CR1_STOP s)\<lparr>iindex := iindex s + 1\<rparr>))"

definition event_rxne :: "u8 list \<Rightarrow> i2c \<Rightarrow> i2c res" where
  "event_rxne drs s =
     rbind (store_dr drs 0 s) (\<lambda>s.
     Inr (if uint (iindex s) + 3 = uint (icount s) then cr2_off I2C_CR2_ITBUFEN s
          else if iindex s = icount s then s\<lparr>iindex := iindex s + 1\<rparr>
          else s))"

definition event_txe :: "i2c \<Rightarrow> i2c res" where
  "event_txe s =
     rbind (rd ''buf'' (ibuf s) (unat (iindex s))) (\<lambda>b.
     let s = s\<lparr>idr_out := idr_out s @ [b], iindex := iindex s + 1\<rparr> in
     Inr (if iindex s = icount s then cr2_off I2C_CR2_ITBUFEN s else s))"

text \<open>
  The wait for the end of the stop condition never gives up: passing \<open>timeout\<close> only records
  an error. The hardware clears both bits.
\<close>

definition event_done :: "nat \<Rightarrow> i2c \<Rightarrow> i2c" where
  "event_done polls s =
     (if uint (iindex s) = uint (icount s) + 1
      then let s = cr1_off I2C_CR1_POS s;
               s = cr2_off (I2C_CR2_ITEVTEN OR I2C_CR2_ITERREN OR I2C_CR2_ITBUFEN) s;
               s = (if polls \<ge> 15000 then s\<lparr>ierror := word_of_int EERR_TIMEOUT\<rparr> else s);
               s = cr1_off (I2C_CR1_START OR I2C_CR1_STOP) s in
           s\<lparr>isem := True\<rparr>
      else s)"

definition handle_i2c_event :: "u16 \<Rightarrow> u8 list \<Rightarrow> nat \<Rightarrow> i2c \<Rightarrow> i2c res" where
  "handle_i2c_event sr1 drs polls s =
     rbind (if sr1 AND I2C_SR1_SB \<noteq> 0 then Inr (event_sb s)
            else if sr1 AND I2C_SR1_ADDR \<noteq> 0 then Inr (event_addr s)
            else if sr1 AND I2C_SR1_BTF \<noteq> 0 then event_btf drs s
            else if sr1 AND I2C_SR1_RXNE \<noteq> 0 then event_rxne drs s
            else if sr1 AND I2C_SR1_TXE \<noteq> 0 then event_txe s
            else Inr s) (\<lambda>s.
     Inr (event_done polls s))"

text \<open>The conversions are from double to 16 bits.\<close>

definition i2c_configure :: "u32 \<Rightarrow> i2c \<Rightarrow> i2c res" where
  "i2c_configure system_frequency s =
     (let half = f64 (of_int (uint (system_frequency div 2)));
          quarter = f64 (of_int (uint (system_frequency div 2 div 2))) in
      rbind (f2i 0 65535 (fdiv f64 half (f64 (10 ^ 6)))) (\<lambda>cr2.
      rbind (f2i 0 65535 (fdiv f64 quarter (f64 (10 ^ 4)))) (\<lambda>ccr.
      rbind (f2i 0 65535 (fadd f64 (fdiv f64 (f64 (1 / 10 ^ 6)) half) (f64 1))) (\<lambda>trise.
      Inr (s\<lparr>icr2 := word_of_int cr2, iccr := word_of_int ccr, itrise := word_of_int trise,
             icr1 := I2C_CR1_PE\<rparr>)))))"

definition handle_i2c_error :: "u32 \<Rightarrow> u16 \<Rightarrow> bool \<Rightarrow> i2c \<Rightarrow> i2c res" where
  "handle_i2c_error system_frequency sr1 start_pending s =
     (let quiet = cr2_off (I2C_CR2_ITEVTEN OR I2C_CR2_ITERREN OR I2C_CR2_ITBUFEN);
          wake = (\<lambda>s. s\<lparr>isem := True\<rparr>) in
      if sr1 AND I2C_SR1_OVR \<noteq> 0 then Inr (wake (s\<lparr>ierror := word_of_int EERR_FAULT\<rparr>))
      else if sr1 AND I2C_SR1_ARLO \<noteq> 0 then Inr (wake (quiet (s\<lparr>ierror := word_of_int EERR_AGAIN\<rparr>)))
      else if sr1 AND (I2C_SR1_AF OR I2C_SR1_BERR) \<noteq> 0
      then let s = (if sr1 AND I2C_SR1_AF \<noteq> 0 then s\<lparr>ierror := word_of_int EERR_NACK\<rparr>
                    else s\<lparr>ierror := word_of_int EERR_FAULT\<rparr>);
               s = quiet s in
           rbind (if start_pending then i2c_configure system_frequency s
                  else Inr (cr1_on I2C_CR1_STOP s)) (\<lambda>s.
           Inr (wake s))
      else Inr s)"

fun i2c_irq :: "u32 \<Rightarrow> i2c_int \<Rightarrow> i2c \<Rightarrow> i2c res" where
  "i2c_irq fr (Ev sr1 drs polls) s = handle_i2c_event sr1 drs polls s"
| "i2c_irq fr (Er sr1 start_pending) s = handle_i2c_error fr sr1 start_pending s"

section \<open>Transactions\<close>

text \<open>
  The bus that the device is attached to is a parameter: the interrupts that it raises for a
  transaction, given the address byte and the length, and how the bytes that the driver has
  sent, address first, change it. Interrupts that come after the thread has been woken stay
  for later.
\<close>

record 'h bus =
  respond :: "'h \<Rightarrow> u8 \<Rightarrow> nat \<Rightarrow> i2c_int list"
  commit :: "'h \<Rightarrow> nat \<Rightarrow> u8 list \<Rightarrow> 'h"

record 'h i2c_sys =
  drv :: i2c
  irqs :: "i2c_int list"
  hw :: 'h

fun i2c_wait :: "u32 \<Rightarrow> i2c_int list \<Rightarrow> i2c \<Rightarrow> (i2c_int list \<times> i2c) res" where
  "i2c_wait fr [] s = (if isem s then Inr ([], s\<lparr>isem := False\<rparr>) else Inl Fuel)"
| "i2c_wait fr (q # qs) s =
     (if isem s then Inr (q # qs, s\<lparr>isem := False\<rparr>) else rbind (i2c_irq fr q s) (i2c_wait fr qs))"

definition i2c_start :: "u32 \<Rightarrow> bool \<Rightarrow> 'h i2c_sys \<Rightarrow> 'h i2c_sys res" where
  "i2c_start system_frequency created s =
     (let d = drv s in
      rbind (ASSERT (imutex d \<or> created)) (\<lambda>_.
      rbind (ASSERT (isem_made d \<or> created)) (\<lambda>_.
      let d = d\<lparr>imutex := True, isem_made := True\<rparr> in
      if ilocked d then Inl Fuel
      else rbind (i2c_configure system_frequency (d\<lparr>ilocked := True\<rparr>)) (\<lambda>d.
           Inr (s\<lparr>drv := d\<rparr>)))))"

definition i2c_stop :: "'h i2c_sys \<Rightarrow> 'h i2c_sys" where
  "i2c_stop s = s\<lparr>drv := (drv s)\<lparr>icr1 := 0, ilocked := False\<rparr>\<rparr>"

definition i2c_transact ::
  "'h bus \<Rightarrow> u32 \<Rightarrow> u8 \<Rightarrow> u8 list \<Rightarrow> nat \<Rightarrow> 'h i2c_sys \<Rightarrow> (int \<times> u8 list \<times> 'h i2c_sys) res" where
  "i2c_transact bus fr addr_dir buf count s =
     (let d = (drv s)\<lparr>iaddr_dir := addr_dir, ibuf := buf, icount := of_nat count, ierror := 0\<rparr>;
          d = cr1_on I2C_CR1_START d;
          d = cr2_on (I2C_CR2_ITEVTEN OR I2C_CR2_ITERREN) d;
          sent = length (idr_out d) in
      rbind (i2c_wait fr (irqs s @ respond bus (hw s) addr_dir count) d) (\<lambda>(qs, d).
      Inr (uint (ierror d), ibuf d,
           s\<lparr>drv := d, irqs := qs, hw := commit bus (hw s) count (drop sent (idr_out d))\<rparr>)))"

section \<open>Following the interrupts\<close>

lemma cr_frame [simp]:
  "ibuf (cr1_on m s) = ibuf s" "iindex (cr1_on m s) = iindex s" "icount (cr1_on m s) = icount s"
  "iaddr_dir (cr1_on m s) = iaddr_dir s" "idr_out (cr1_on m s) = idr_out s" "ierror (cr1_on m s) = ierror s"
  "isem (cr1_on m s) = isem s" "imutex (cr1_on m s) = imutex s" "ilocked (cr1_on m s) = ilocked s" "isem_made (cr1_on m s) = isem_made s"
  "ibuf (cr1_off m s) = ibuf s" "iindex (cr1_off m s) = iindex s" "icount (cr1_off m s) = icount s"
  "iaddr_dir (cr1_off m s) = iaddr_dir s" "idr_out (cr1_off m s) = idr_out s" "ierror (cr1_off m s) = ierror s"
  "isem (cr1_off m s) = isem s" "imutex (cr1_off m s) = imutex s" "ilocked (cr1_off m s) = ilocked s" "isem_made (cr1_off m s) = isem_made s"
  "ibuf (cr2_on m s) = ibuf s" "iindex (cr2_on m s) = iindex s" "icount (cr2_on m s) = icount s"
  "iaddr_dir (cr2_on m s) = iaddr_dir s" "idr_out (cr2_on m s) = idr_out s" "ierror (cr2_on m s) = ierror s"
  "isem (cr2_on m s) = isem s" "imutex (cr2_on m s) = imutex s" "ilocked (cr2_on m s) = ilocked s" "isem_made (cr2_on m s) = isem_made s"
  "ibuf (cr2_off m s) = ibuf s" "iindex (cr2_off m s) = iindex s" "icount (cr2_off m s) = icount s"
  "iaddr_dir (cr2_off m s) = iaddr_dir s" "idr_out (cr2_off m s) = idr_out s" "ierror (cr2_off m s) = ierror s"
  "isem (cr2_off m s) = isem s" "imutex (cr2_off m s) = imutex s" "ilocked (cr2_off m s) = ilocked s" "isem_made (cr2_off m s) = isem_made s"
  by (simp_all add: cr1_on_def cr1_off_def cr2_on_def cr2_off_def)

text \<open>
  In the middle of a transfer of \<open>n\<close> bytes with \<open>i\<close> of them done, and at its end; \<open>leads\<close>
  says that a run of interrupts takes the waiting thread from one condition to another.
\<close>

definition locks :: "i2c \<Rightarrow> bool \<times> bool \<times> bool" where
  "locks s = (imutex s, ilocked s, isem_made s)"

definition in_xfer :: "u8 \<Rightarrow> nat \<Rightarrow> u8 list \<Rightarrow> nat \<Rightarrow> u8 list \<Rightarrow> bool \<times> bool \<times> bool \<Rightarrow> i2c \<Rightarrow> bool" where
  "in_xfer a n buf i out m s \<longleftrightarrow> iaddr_dir s = a \<and> icount s = of_nat n \<and> ibuf s = buf \<and> iindex s = of_nat i
     \<and> idr_out s = out \<and> ierror s = 0 \<and> \<not> isem s \<and> locks s = m"

definition xfer_done :: "u8 list \<Rightarrow> u8 list \<Rightarrow> u8 \<Rightarrow> bool \<times> bool \<times> bool \<Rightarrow> i2c \<Rightarrow> bool" where
  "xfer_done buf out e m s \<longleftrightarrow> ibuf s = buf \<and> idr_out s = out \<and> ierror s = e \<and> isem s \<and> locks s = m"

definition leads :: "u32 \<Rightarrow> i2c_int list \<Rightarrow> (i2c \<Rightarrow> bool) \<Rightarrow> (i2c \<Rightarrow> bool) \<Rightarrow> bool" where
  "leads fr qs P Q \<longleftrightarrow> (\<forall>s. P s \<longrightarrow> (\<exists>s'. Q s' \<and> (\<forall>rest. i2c_wait fr (qs @ rest) s = i2c_wait fr rest s')))"

lemma leads_append: "leads fr qs P Q \<Longrightarrow> leads fr qs' Q R \<Longrightarrow> leads fr (qs @ qs') P R"
  unfolding leads_def by (metis append_assoc)

lemma leads_Nil: "leads fr [] P P"
  unfolding leads_def by auto

lemma leads_one:
  assumes "\<And>s. P s \<Longrightarrow> \<not> isem s \<and> (\<exists>s'. i2c_irq fr q s = Inr s' \<and> Q s')"
  shows "leads fr [q] P Q"
  unfolding leads_def using assms by fastforce

lemma dispatch [simp]:
  "handle_i2c_event I2C_SR1_SB drs p s = Inr (event_done p (event_sb s))"
  "handle_i2c_event I2C_SR1_ADDR drs p s = Inr (event_done p (event_addr s))"
  "handle_i2c_event (I2C_SR1_BTF OR I2C_SR1_TXE) drs p s = rbind (event_btf drs s) (\<lambda>s. Inr (event_done p s))"
  "handle_i2c_event (I2C_SR1_BTF OR I2C_SR1_RXNE) drs p s = rbind (event_btf drs s) (\<lambda>s. Inr (event_done p s))"
  "handle_i2c_event I2C_SR1_RXNE drs p s = rbind (event_rxne drs s) (\<lambda>s. Inr (event_done p s))"
  "handle_i2c_event I2C_SR1_TXE drs p s = rbind (event_txe s) (\<lambda>s. Inr (event_done p s))"
  by (simp_all add: handle_i2c_event_def sr1_defs)

lemma u8_small: "i < 256 \<Longrightarrow> unat (of_nat i :: u8) = i" "i < 256 \<Longrightarrow> uint (of_nat i :: u8) = int i"
  by (simp_all add: unsigned_of_nat take_bit_nat_eq_self)

lemma u8_eq: "i < 256 \<Longrightarrow> j < 256 \<Longrightarrow> (of_nat i :: u8) = of_nat j \<longleftrightarrow> i = j"
  by (metis u8_small(1))

lemma u8_Suc: "(of_nat i :: u8) + 1 = of_nat (Suc i)"
  by simp

lemma leads_sb:
  "n < 255 \<Longrightarrow> leads fr [Ev I2C_SR1_SB [] p] (in_xfer a n buf i out m) (in_xfer a n buf 0 (out @ [a]) m)"
  by (rule leads_one)
    (auto simp: in_xfer_def locks_def event_sb_def event_done_def Let_def u8_small)

lemma leads_addr:
  "n < 255 \<Longrightarrow> leads fr [Ev I2C_SR1_ADDR [] p] (in_xfer a n buf 0 out m) (in_xfer a n buf 0 out m)"
  by (rule leads_one)
    (auto simp: in_xfer_def locks_def event_addr_def event_done_def u8_small)

lemma leads_txe:
  "i < n \<Longrightarrow> n < 255 \<Longrightarrow> length buf = n \<Longrightarrow>
   leads fr [Ev I2C_SR1_TXE [] p] (in_xfer a n buf i out m) (in_xfer a n buf (Suc i) (out @ [buf ! i]) m)"
  by (rule leads_one)
    (auto simp: in_xfer_def locks_def event_txe_def event_done_def Let_def rd_def u8_small u8_Suc simp del: of_nat_Suc)

lemma leads_stop:
  "n < 255 \<Longrightarrow> a AND 1 = 0 \<Longrightarrow>
   leads fr [Ev (I2C_SR1_BTF OR I2C_SR1_TXE) [] p] (in_xfer a n buf n out m) (xfer_done buf out (if p \<ge> 15000 then 255 else 0) m)"
  by (rule leads_one)
    (auto simp: in_xfer_def xfer_done_def locks_def event_btf_def i2c_reading_def event_done_def Let_def
      EERR_TIMEOUT_def u8_small u8_Suc simp del: of_nat_Suc)

lemma leads_rxne:
  "Suc i < n \<Longrightarrow> n < 255 \<Longrightarrow> length buf = n \<Longrightarrow>
   leads fr [Ev I2C_SR1_RXNE [b] p] (in_xfer a n buf i out m) (in_xfer a n (buf[i := b]) (Suc i) out m)"
  by (rule leads_one)
    (auto simp: in_xfer_def locks_def event_rxne_def store_dr_def event_done_def Let_def rd_def wr_def
      u8_small u8_Suc u8_eq simp del: of_nat_Suc)

lemma leads_rxne_last:
  "Suc i = n \<Longrightarrow> n < 255 \<Longrightarrow> length buf = n \<Longrightarrow>
   leads fr [Ev I2C_SR1_RXNE [b] p] (in_xfer a n buf i out m) (xfer_done (buf[i := b]) out (if p \<ge> 15000 then 255 else 0) m)"
  by (rule leads_one)
    (auto simp: in_xfer_def xfer_done_def locks_def event_rxne_def store_dr_def event_done_def Let_def rd_def wr_def
      EERR_TIMEOUT_def u8_small u8_Suc u8_eq simp del: of_nat_Suc)

lemma fill_step:
  "i < length data \<Longrightarrow> i < length buf \<Longrightarrow> (take i data @ drop i buf)[i := data ! i] = take (Suc i) data @ drop (Suc i) buf"
  by (simp add: list_update_append take_Suc_conv_app_nth flip: Cons_nth_drop_Suc)

lemma leads_btf:
  assumes "2 < n" "n < 255" "Suc (Suc i) \<le> n" "length buf = n" "a AND 1 \<noteq> 0"
  shows "leads fr [Ev (I2C_SR1_BTF OR I2C_SR1_RXNE) [b, c] p] (in_xfer a n buf i out m)
     (in_xfer a n (buf[i := b, Suc i := c]) (Suc (Suc i)) out m)"
proof -
  have "(2::u8) < of_nat n" using assms(1,2) by (simp add: word_less_nat_alt u8_small)
  then show ?thesis using assms
    by (intro leads_one)
      (auto simp: in_xfer_def locks_def event_btf_def i2c_reading_def store_dr_def event_done_def Let_def rd_def wr_def
        u8_small u8_Suc simp del: of_nat_Suc)
qed

lemma leads_btf_short:
  assumes "length buf = 2" "a AND 1 \<noteq> 0"
  shows "leads fr [Ev (I2C_SR1_BTF OR I2C_SR1_RXNE) [b, c] p] (in_xfer a 2 buf 0 out m)
     (xfer_done [b, c] out (if p \<ge> 15000 then 255 else 0) m)"
proof -
  obtain x y where "buf = [x, y]" using assms(1) by (cases buf; cases "tl buf") auto
  then show ?thesis using assms
    by (intro leads_one)
      (auto simp: in_xfer_def xfer_done_def locks_def event_btf_def i2c_reading_def store_dr_def event_done_def Let_def rd_def wr_def
        EERR_TIMEOUT_def)
qed

section \<open>What the hardware raises\<close>

text \<open>
  The order of events that the reference manual gives for a master transmitter, and for a
  master receiver by the length of the transfer.
\<close>

definition tx_events :: "nat \<Rightarrow> nat \<Rightarrow> i2c_int list" where
  "tx_events n p = [Ev I2C_SR1_SB [] 0, Ev I2C_SR1_ADDR [] 0] @ replicate n (Ev I2C_SR1_TXE [] 0)
     @ [Ev (I2C_SR1_BTF OR I2C_SR1_TXE) [] p]"

definition rx_body :: "u8 list \<Rightarrow> nat \<Rightarrow> i2c_int list" where
  "rx_body data p =
     (case data of
        [b] \<Rightarrow> [Ev I2C_SR1_RXNE [b] p]
      | [b, c] \<Rightarrow> [Ev (I2C_SR1_BTF OR I2C_SR1_RXNE) [b, c] p]
      | _ \<Rightarrow> let k = length data - 3 in
           map (\<lambda>i. Ev I2C_SR1_RXNE [data ! i] 0) [0..<k]
           @ [Ev (I2C_SR1_BTF OR I2C_SR1_RXNE) [data ! k, data ! Suc k] 0, Ev I2C_SR1_RXNE [data ! Suc (Suc k)] p])"

definition rx_events :: "u8 list \<Rightarrow> nat \<Rightarrow> i2c_int list" where
  "rx_events data p = [Ev I2C_SR1_SB [] 0, Ev I2C_SR1_ADDR [] 0] @ rx_body data p"

lemma leads_header:
  assumes "n < 255"
  shows "leads fr [Ev I2C_SR1_SB [] 0, Ev I2C_SR1_ADDR [] 0] (in_xfer a n buf i out m) (in_xfer a n buf 0 (out @ [a]) m)"
  using leads_append [OF leads_sb [OF assms] leads_addr [OF assms]] by simp

lemma leads_tx_bytes:
  assumes "length buf = n" "n < 255" "k \<le> n"
  shows "leads fr (replicate k (Ev I2C_SR1_TXE [] 0)) (in_xfer a n buf 0 out m) (in_xfer a n buf k (out @ take k buf) m)"
  using assms(3)
proof (induction k)
  case (Suc k)
  then have "leads fr (replicate k (Ev I2C_SR1_TXE [] 0) @ [Ev I2C_SR1_TXE [] 0]) (in_xfer a n buf 0 out m)
      (in_xfer a n buf (Suc k) ((out @ take k buf) @ [buf ! k]) m)"
    using leads_append [OF Suc.IH leads_txe] assms by simp
  then show ?case using Suc.prems assms(1) by (simp add: replicate_append_same take_Suc_conv_app_nth)
qed (simp add: leads_Nil)

lemma leads_rx_bytes:
  assumes "length buf = n" "length data = n" "n < 255" "k < n"
  shows "leads fr (map (\<lambda>i. Ev I2C_SR1_RXNE [data ! i] 0) [0..<k]) (in_xfer a n buf 0 out m)
     (in_xfer a n (take k data @ drop k buf) k out m)"
  using assms(4)
proof (induction k)
  case (Suc k)
  then have "leads fr (map (\<lambda>i. Ev I2C_SR1_RXNE [data ! i] 0) [0..<k] @ [Ev I2C_SR1_RXNE [data ! k] 0]) (in_xfer a n buf 0 out m)
      (in_xfer a n ((take k data @ drop k buf)[k := data ! k]) (Suc k) out m)"
    using leads_append [OF Suc.IH leads_rxne] assms by simp
  then show ?case using Suc.prems assms(1,2) by (simp add: fill_step)
qed (simp add: leads_Nil)

lemma leads_tx:
  assumes "length buf = n" "n < 255" "a AND 1 = 0"
  shows "leads fr (tx_events n p) (in_xfer a n buf i out m) (xfer_done buf (out @ a # buf) (if p \<ge> 15000 then 255 else 0) m)"
proof -
  have "leads fr (replicate n (Ev I2C_SR1_TXE [] 0) @ [Ev (I2C_SR1_BTF OR I2C_SR1_TXE) [] p]) (in_xfer a n buf 0 (out @ [a]) m)
      (xfer_done buf ((out @ [a]) @ take n buf) (if p \<ge> 15000 then 255 else 0) m)"
    using leads_append [OF leads_tx_bytes leads_stop] assms by blast
  from leads_append [OF leads_header this] show ?thesis
    using assms by (simp add: tx_events_def)
qed

lemma leads_rx:
  assumes "length buf = n" "length data = n" "0 < n" "n < 255" "a AND 1 \<noteq> 0"
  shows "leads fr (rx_events data p) (in_xfer a n buf i out m) (xfer_done data (out @ [a]) (if p \<ge> 15000 then 255 else 0) m)"
proof -
  let ?e = "if p \<ge> 15000 then 255 else 0 :: u8" and ?k = "n - 3"
  consider (one) b where "data = [b]" | (two) b c where "data = [b, c]" | (more) "3 \<le> n"
    using assms(2,3) by (cases data rule: remdups_adj.cases; cases "tl (tl data)") auto
  then have "leads fr (rx_body data p) (in_xfer a n buf 0 (out @ [a]) m) (xfer_done data (out @ [a]) ?e m)"
  proof cases
    case one
    then obtain x where "buf = [x]" using assms(1,2) by (cases buf) auto
    then show ?thesis using leads_rxne_last [of 0 n buf fr b p] one assms by (simp add: rx_body_def)
  next
    case two
    then have n: "n = 2" using assms(2) by simp
    show ?thesis using leads_btf_short [of buf a fr b c p "out @ [a]" m] two assms(1,5) by (simp add: rx_body_def n)
  next
    case more
    let ?d = "take (Suc (Suc ?k)) data @ drop (Suc (Suc ?k)) buf"
    have ev: "rx_body data p = map (\<lambda>i. Ev I2C_SR1_RXNE [data ! i] 0) [0..<?k]
        @ [Ev (I2C_SR1_BTF OR I2C_SR1_RXNE) [data ! ?k, data ! Suc ?k] 0] @ [Ev I2C_SR1_RXNE [data ! Suc (Suc ?k)] p]"
      using more assms(2) by (auto simp: rx_body_def Let_def split: list.splits)
    have f: "(take ?k data @ drop ?k buf)[?k := data ! ?k, Suc ?k := data ! Suc ?k] = ?d"
      "?d[Suc (Suc ?k) := data ! Suc (Suc ?k)] = data"
      using more assms(1,2) by (simp_all add: fill_step)
    have "leads fr [Ev (I2C_SR1_BTF OR I2C_SR1_RXNE) [data ! ?k, data ! Suc ?k] 0] (in_xfer a n (take ?k data @ drop ?k buf) ?k (out @ [a]) m)
        (in_xfer a n ?d (Suc (Suc ?k)) (out @ [a]) m)"
      using leads_btf [of n ?k "take ?k data @ drop ?k buf" a fr "data ! ?k" "data ! Suc ?k" 0] f more assms by simp
    moreover have "leads fr [Ev I2C_SR1_RXNE [data ! Suc (Suc ?k)] p] (in_xfer a n ?d (Suc (Suc ?k)) (out @ [a]) m)
        (xfer_done data (out @ [a]) ?e m)"
      using leads_rxne_last [of "Suc (Suc ?k)" n ?d fr "data ! Suc (Suc ?k)" p] f more assms by simp
    ultimately show ?thesis
      unfolding ev using assms more by (intro leads_append [OF leads_rx_bytes] leads_append) simp_all
  qed
  from leads_append [OF leads_header this] show ?thesis
    using assms(4) by (simp add: rx_events_def)
qed

section \<open>Configuration\<close>

lemma trunc_range: "0 \<le> r \<Longrightarrow> r \<le> of_int n \<Longrightarrow> 0 \<le> trunc r \<and> trunc r \<le> n"
  by (simp add: trunc_def floor_le_iff)

lemma f2i_range:
  assumes "0 \<le> a" "a \<le> of_int n" "n \<le> 65535"
  shows "\<exists>k. f2i 0 65535 (f64 a) = Inr k"
proof -
  have n: "0 \<le> n" using assms(1,2) by linarith
  have "of_int 0 \<le> a" "a \<le> of_int n" "\<bar>0::int\<bar> < 2 ^ 53" "\<bar>n\<bar> < 2 ^ 53" using assms n by auto
  then obtain r where "f64 a = Fin r" "of_int 0 \<le> r" "r \<le> of_int n"
    by (rule double.rn_bounds)
  then show ?thesis using trunc_range [of r n] assms(3) by (auto simp: f64_def)
qed

lemma i2c_configure_ok:
  assumes "2 \<le> system_frequency" "system_frequency < 2 ^ 31"
  shows "\<exists>s'. i2c_configure system_frequency s = Inr s' \<and> locks s' = locks s \<and> isem s' = isem s"
proof -
  let ?x = "uint (system_frequency div 2)" and ?y = "uint (system_frequency div 2 div 2)"
  have x: "0 < ?x" "?x < 2 ^ 30"
  proof -
    have "2 \<le> uint system_frequency" using assms by (simp add: word_le_def)
    then show "0 < ?x" by (simp add: uint_div)
    have "uint system_frequency < 2 ^ 31" using assms(2) by (simp add: word_less_def)
    then show "?x < 2 ^ 30" by (simp add: uint_div)
  qed
  then have y: "0 \<le> ?y" "?y < 2 ^ 29" by (simp_all add: uint_div [of "system_frequency div 2"])
  have fx: "f64 (of_int ?x) = Fin (of_int ?x)" "f64 (of_int ?y) = Fin (of_int ?y)"
    by (rule double.rn_int; use x y in simp)+
  have c: "f64 (10 ^ 6) = Fin (10 ^ 6)" "f64 (10 ^ 4) = Fin (10 ^ 4)" "f64 1 = Fin 1"
    using double.rn_int [of "10 ^ 6"] double.rn_int [of "10 ^ 4"] double.rn_int [of 1] by simp_all
  obtain e where e: "f64 (1 / 10 ^ 6) = Fin e" "0 \<le> e" "e \<le> 1"
    using double.rn_bounds [of 0 "1 / 10 ^ 6" 1] by auto
  have rx: "(1::real) \<le> of_int ?x" "of_int ?x \<le> (2::real) ^ 30" "0 \<le> (of_int ?y :: real)" "of_int ?y \<le> (2::real) ^ 29"
  proof -
    have "of_int 1 \<le> (of_int ?x :: real)" "of_int ?x \<le> (of_int (2 ^ 30) :: real)" "of_int 0 \<le> (of_int ?y :: real)" "of_int ?y \<le> (of_int (2 ^ 29) :: real)"
      using x y unfolding of_int_le_iff by linarith+
    then show "(1::real) \<le> of_int ?x" "of_int ?x \<le> (2::real) ^ 30" "0 \<le> (of_int ?y :: real)" "of_int ?y \<le> (2::real) ^ 29"
      by simp_all
  qed
  have "e / of_int ?x \<le> 1 / 1" using e rx(1) by (intro frac_le) simp_all
  moreover have "0 \<le> e / of_int ?x" using e rx(1) by simp
  ultimately obtain q where q: "f64 (e / of_int ?x) = Fin q" "0 \<le> q" "q \<le> 1"
    using double.rn_bounds [of 0 "e / of_int ?x" 1] by auto
  obtain k1 where k1: "f2i 0 65535 (f64 (of_int ?x / 10 ^ 6)) = Inr k1"
    using f2i_range [of "of_int ?x / 10 ^ 6" 2148] rx by auto
  obtain k2 where k2: "f2i 0 65535 (f64 (of_int ?y / 10 ^ 4)) = Inr k2"
    using f2i_range [of "of_int ?y / 10 ^ 4" 65535] rx by auto
  obtain k3 where k3: "f2i 0 65535 (f64 (q + 1)) = Inr k3"
    using f2i_range [of "q + 1" 2] q by auto
  have nz: "of_int ?x \<noteq> (0::real)" using rx(1) by linarith
  show ?thesis
    unfolding i2c_configure_def Let_def fx c e(1) fdiv.simps using nz k1 k2 k3 q by (simp add: locks_def)
qed

text \<open>A device that does not acknowledge its address.\<close>

definition nack_events :: "i2c_int list" where
  "nack_events = [Ev I2C_SR1_SB [] 0, Er I2C_SR1_AF False]"

lemma leads_nack:
  assumes "n < 255"
  shows "leads fr nack_events (in_xfer a n buf i out m) (xfer_done buf (out @ [a]) 252 m)"
proof -
  have "leads fr [Er I2C_SR1_AF False] (in_xfer a n buf 0 (out @ [a]) m) (xfer_done buf (out @ [a]) 252 m)"
    by (rule leads_one) (auto simp: in_xfer_def xfer_done_def locks_def handle_i2c_error_def sr1_defs EERR_NACK_def Let_def)
  from leads_append [OF leads_sb [OF assms] this] show ?thesis by (simp add: nack_events_def)
qed

lemma transact_leads:
  assumes "\<not> isem (drv s)" "irqs s = []" "n = length buf"
    and "\<And>i. leads fr (respond bus (hw s) a n) (in_xfer a n buf i (idr_out (drv s)) (locks (drv s)))
               (xfer_done buf' (idr_out (drv s) @ sent) e (locks (drv s)))"
  obtains d where "i2c_transact bus fr a buf n s
      = Inr (uint e, buf', s\<lparr>drv := d, irqs := [], hw := commit bus (hw s) n sent\<rparr>)"
    "\<not> isem d" "locks d = locks (drv s)"
proof -
  let ?d = "cr2_on (I2C_CR2_ITEVTEN OR I2C_CR2_ITERREN) (cr1_on I2C_CR1_START
     ((drv s)\<lparr>iaddr_dir := a, ibuf := buf, icount := of_nat n, ierror := 0\<rparr>))"
  have "in_xfer a n buf (unat (iindex (drv s))) (idr_out (drv s)) (locks (drv s)) ?d"
    using assms(1) by (simp add: in_xfer_def locks_def)
  then obtain d where d: "xfer_done buf' (idr_out (drv s) @ sent) e (locks (drv s)) d"
    and w: "i2c_wait fr (respond bus (hw s) a n) ?d = i2c_wait fr [] d"
    using assms(4) [unfolded leads_def] by (metis append_Nil2)
  then have "i2c_wait fr (respond bus (hw s) a n) ?d = Inr ([], d\<lparr>isem := False\<rparr>)"
    by (simp add: xfer_done_def)
  then have "i2c_transact bus fr a buf n s
      = Inr (uint e, buf', s\<lparr>drv := d\<lparr>isem := False\<rparr>, irqs := [], hw := commit bus (hw s) n sent\<rparr>)"
    using d assms(2) by (simp add: i2c_transact_def Let_def xfer_done_def)
  moreover have "locks (d\<lparr>isem := False\<rparr>) = locks (drv s)" using d by (simp add: xfer_done_def locks_def)
  ultimately show ?thesis using that [of "d\<lparr>isem := False\<rparr>"] by simp
qed


definition i2c0 :: i2c where
  "i2c0 = \<lparr>icr1 = 0, icr2 = 0, iccr = 0, itrise = 0, idr_out = [], imutex = False, ilocked = False, isem_made = False,
     isem = False, ibuf = [], iaddr_dir = 0, icount = 0, iindex = 0, ierror = 0\<rparr>"


end
