(* ===== verification/Eeprom.thy ===== *)
theory Eeprom
  imports I2c Vtimer
begin

text \<open>
  The configuration store, \<open>src/src/eeprom.c\<close>: transactions with retries, page writes that are
  read back, and the configuration record with its checksum. The theory shows what survives a
  write to a chip that is busy for a while after each page.
\<close>

section \<open>The code\<close>

definition EEPROM_ADDR :: u8 where "EEPROM_ADDR = 0x50"
definition EEPROM_PAGE_SIZE :: nat where "EEPROM_PAGE_SIZE = 8"
definition EEPROM_PAGES :: nat where "EEPROM_PAGES = 16"
definition EEPROM_SIZE :: nat where "EEPROM_SIZE = EEPROM_PAGES * EEPROM_PAGE_SIZE"
definition EEPROM_CFG_OFFSET :: nat where "EEPROM_CFG_OFFSET = 8"
definition CFG_SIZE :: nat where "CFG_SIZE = 120"

lemmas eeprom_defs = EEPROM_PAGE_SIZE_def EEPROM_PAGES_def EEPROM_SIZE_def EEPROM_CFG_OFFSET_def CFG_SIZE_def

text \<open>
  The loop of \<open>eeprom_do\<close> goes round without counting when the bus arbitration was lost, so it
  gets fuel; \<open>status\<close> is the last result.
\<close>

fun eeprom_do_loop ::
  "'h bus \<Rightarrow> u32 \<Rightarrow> nat \<Rightarrow> nat \<Rightarrow> int \<Rightarrow> u8 list \<Rightarrow> u8 list \<Rightarrow> 'h i2c_sys \<Rightarrow> (int \<times> u8 list \<times> 'h i2c_sys) res" where
  "eeprom_do_loop bus fr 0 retries status txbuf rxbuf s =
     (if retries = 0 then Inr (status, rxbuf, s) else Inl Fuel)"
| "eeprom_do_loop bus fr (Suc fuel) retries status txbuf rxbuf s =
     (if retries = 0 then Inr (status, rxbuf, s)
      else rbind (i2c_transact bus fr (push_bit 1 EEPROM_ADDR) txbuf (length txbuf) s) (\<lambda>(status, _, s).
           if status = EERR_AGAIN then eeprom_do_loop bus fr fuel retries status txbuf rxbuf s
           else if status \<noteq> EERR_OK then eeprom_do_loop bus fr fuel (retries - 1) status txbuf rxbuf s
           else if length rxbuf = 0 then Inr (status, rxbuf, s)
           else rbind (i2c_transact bus fr (push_bit 1 EEPROM_ADDR OR 1) rxbuf (length rxbuf) s) (\<lambda>(status, rxbuf, s).
                if status \<noteq> EERR_OK then eeprom_do_loop bus fr fuel (retries - 1) status txbuf rxbuf s
                else Inr (status, rxbuf, s))))"

definition eeprom_do ::
  "'h bus \<Rightarrow> u32 \<Rightarrow> u8 list \<Rightarrow> u8 list \<Rightarrow> 'h i2c_sys \<Rightarrow> (int \<times> u8 list \<times> 'h i2c_sys) res" where
  "eeprom_do bus fr txbuf rxbuf s = eeprom_do_loop bus fr 5 5 0 txbuf rxbuf s"

definition eeprom_read ::
  "'h bus \<Rightarrow> u32 \<Rightarrow> bool \<Rightarrow> u8 \<Rightarrow> u8 list \<Rightarrow> 'h i2c_sys \<Rightarrow> (int \<times> u8 list \<times> 'h i2c_sys) res" where
  "eeprom_read bus fr created addr buf s =
     rbind (i2c_start fr created s) (\<lambda>s.
     rbind (eeprom_do bus fr [addr] buf s) (\<lambda>(status, buf, s).
     Inr (status, buf, i2c_stop s)))"

text \<open>
  The read-back loop of \<open>eeprom_write_page\<close>; the list holds the readings of the tick counter.
\<close>

fun eeprom_readback ::
  "'h bus \<Rightarrow> u32 \<Rightarrow> u8 \<Rightarrow> u32 \<Rightarrow> u8 list \<Rightarrow> u32 list \<Rightarrow> 'h i2c_sys \<Rightarrow> (int \<times> u8 list \<times> u32 list \<times> 'h i2c_sys) res" where
  "eeprom_readback bus fr addr start tmp [] s = Inl Fuel"
| "eeprom_readback bus fr addr start tmp (t # ts) s =
     (if t - start > pdMS_TO_TICKS 250 then Inr (EERR_TIMEOUT, tmp, ts, s)
      else rbind (eeprom_do bus fr [addr] (take EEPROM_PAGE_SIZE tmp) s) (\<lambda>(status, b, s).
           let tmp = copy_into tmp 0 b in
           if status = EERR_OK then Inr (status, tmp, ts, s)
           else if status \<noteq> EERR_NACK then Inr (status, tmp, ts, s)
           else eeprom_readback bus fr addr start tmp ts s))"

fun eeprom_tries ::
  "'h bus \<Rightarrow> u32 \<Rightarrow> u8 \<Rightarrow> u8 list \<Rightarrow> nat \<Rightarrow> u8 list \<Rightarrow> u32 list \<Rightarrow> 'h i2c_sys \<Rightarrow> (int \<times> u32 list \<times> 'h i2c_sys) res" where
  "eeprom_tries bus fr addr buf 0 tmp ts s = Inr (EERR_FAULT, ts, s)"
| "eeprom_tries bus fr addr buf (Suc i) tmp ts s =
     rbind (eeprom_do bus fr tmp [] s) (\<lambda>(status, _, s).
     if status \<noteq> EERR_OK then Inr (status, ts, s)
     else case ts of [] \<Rightarrow> Inl Fuel
          | start # ts \<Rightarrow>
             rbind (eeprom_readback bus fr addr start tmp ts s) (\<lambda>(status, tmp, ts, s).
             if status \<noteq> EERR_OK then Inr (status, ts, s)
             else if take EEPROM_PAGE_SIZE tmp = take EEPROM_PAGE_SIZE buf then Inr (EERR_OK, ts, s)
             else eeprom_tries bus fr addr buf i tmp ts s))"

definition eeprom_write_page ::
  "'h bus \<Rightarrow> u32 \<Rightarrow> bool \<Rightarrow> u8 \<Rightarrow> u8 list \<Rightarrow> u32 list \<Rightarrow> 'h i2c_sys \<Rightarrow> (int \<times> u32 list \<times> 'h i2c_sys) res" where
  "eeprom_write_page bus fr created addr buf ts s =
     (let tmp = addr # take EEPROM_PAGE_SIZE buf in
      rbind (i2c_start fr created s) (\<lambda>s.
      rbind (eeprom_tries bus fr addr buf 3 tmp ts s) (\<lambda>(status, ts, s).
      Inr (status, ts, i2c_stop s))))"

text \<open>The configuration is the byte string of \<open>cfg\<close>, the last two bytes its checksum.\<close>

fun eeprom_read_pages ::
  "'h bus \<Rightarrow> u32 \<Rightarrow> nat list \<Rightarrow> u8 list \<Rightarrow> u8 list \<Rightarrow> 'h i2c_sys \<Rightarrow> (int \<times> u8 list \<times> u8 list \<times> 'h i2c_sys) res" where
  "eeprom_read_pages bus fr [] snum cfg s = Inr (EERR_OK, snum, cfg, s)"
| "eeprom_read_pages bus fr (i # is) snum cfg s =
     rbind (eeprom_do bus fr [of_nat i]
              (if i = 0 then snum else take EEPROM_PAGE_SIZE (drop (i - EEPROM_CFG_OFFSET) cfg)) s) (\<lambda>(status, b, s).
     let (snum, cfg) = (if i = 0 then (b, cfg) else (snum, copy_into cfg (i - EEPROM_CFG_OFFSET) b)) in
     if status \<noteq> EERR_OK then Inr (status, snum, cfg, s)
     else eeprom_read_pages bus fr is snum cfg s)"

definition cfg_crc :: "u8 list \<Rightarrow> u16" where
  "cfg_crc cfg = ucast (cfg ! 118) OR push_bit 8 (ucast (cfg ! 119))"

definition eeprom_read_cfg ::
  "(u8 list \<Rightarrow> u16) \<Rightarrow> 'h bus \<Rightarrow> u32 \<Rightarrow> bool \<Rightarrow> u8 list \<Rightarrow> u8 list \<Rightarrow> 'h i2c_sys \<Rightarrow> (int \<times> u8 list \<times> u8 list \<times> 'h i2c_sys) res" where
  "eeprom_read_cfg inet_chksum bus fr created snum cfg s =
     rbind (i2c_start fr created s) (\<lambda>s.
     rbind (eeprom_read_pages bus fr (map (\<lambda>k. k * EEPROM_PAGE_SIZE) [0..<EEPROM_PAGES]) snum cfg s) (\<lambda>(status, snum, cfg, s).
     let s = i2c_stop s in
     if status \<noteq> EERR_OK then Inr (status, snum, cfg, s)
     else if inet_chksum (take (CFG_SIZE - 2) cfg) \<noteq> cfg_crc cfg then Inr (EERR_CRCFAIL, snum, cfg, s)
     else Inr (EERR_OK, snum, cfg, s)))"

fun eeprom_write_pages ::
  "'h bus \<Rightarrow> u32 \<Rightarrow> bool \<Rightarrow> nat list \<Rightarrow> u8 list \<Rightarrow> u32 list \<Rightarrow> 'h i2c_sys \<Rightarrow> (int \<times> u32 list \<times> 'h i2c_sys) res" where
  "eeprom_write_pages bus fr created [] cfg ts s = Inr (EERR_OK, ts, s)"
| "eeprom_write_pages bus fr created (a # as) cfg ts s =
     rbind (eeprom_write_page bus fr created (of_nat a) (drop (a - EEPROM_CFG_OFFSET) cfg) ts s) (\<lambda>(status, ts, s).
     if status \<noteq> EERR_OK then Inr (status, ts, s)
     else eeprom_write_pages bus fr created as cfg ts s)"

definition set_crc :: "u16 \<Rightarrow> u8 list \<Rightarrow> u8 list" where
  "set_crc crc cfg = copy_into cfg (CFG_SIZE - 2) [ucast crc, ucast (drop_bit 8 crc)]"

definition eeprom_write_cfg ::
  "(u8 list \<Rightarrow> u16) \<Rightarrow> 'h bus \<Rightarrow> u32 \<Rightarrow> bool \<Rightarrow> u8 list \<Rightarrow> u32 list \<Rightarrow> 'h i2c_sys \<Rightarrow> (int \<times> u8 list \<times> u32 list \<times> 'h i2c_sys) res" where
  "eeprom_write_cfg inet_chksum bus fr created cfg ts s =
     (let cfg = set_crc (inet_chksum (take (CFG_SIZE - 2) cfg)) cfg in
      rbind (eeprom_write_pages bus fr created (map (\<lambda>k. k * EEPROM_PAGE_SIZE) [1..<EEPROM_PAGES]) cfg ts s) (\<lambda>(status, ts, s).
      Inr (status, cfg, ts, s)))"

section \<open>A chip\<close>

text \<open>
  The chip that the driver talks to: it answers at its address, keeps an address pointer,
  stores up to a page per write, within the page, and does not acknowledge while it programs; here
  it misses \<open>ccycle\<close> transactions after a write.
\<close>

record chip =
  cmem :: "u8 \<Rightarrow> u8"
  cptr :: u8
  cbusy :: nat
  ccycle :: nat

definition chip_store :: "u8 \<Rightarrow> u8 list \<Rightarrow> (u8 \<Rightarrow> u8) \<Rightarrow> u8 \<Rightarrow> u8" where
  "chip_store p d m = (\<lambda>x. if x AND 0xF8 = p AND 0xF8 \<and> unat ((x - p) AND 7) < length d
     then d ! unat ((x - p) AND 7) else m x)"

definition chip_read :: "(u8 \<Rightarrow> u8) \<Rightarrow> u8 \<Rightarrow> nat \<Rightarrow> u8 list" where
  "chip_read m p n = map (\<lambda>i. m (p + of_nat i)) [0..<n]"

definition chip_respond :: "chip \<Rightarrow> u8 \<Rightarrow> nat \<Rightarrow> i2c_int list" where
  "chip_respond c a n =
     (if a AND 0xFE \<noteq> 0xA0 \<or> cbusy c > 0 then nack_events
      else if a AND 1 = 0 then tx_events n 0 else rx_events (chip_read (cmem c) (cptr c) n) 0)"

definition chip_commit :: "chip \<Rightarrow> nat \<Rightarrow> u8 list \<Rightarrow> chip" where
  "chip_commit c n sent =
     (if cbusy c > 0 then c\<lparr>cbusy := cbusy c - 1\<rparr>
      else case sent of
        a # p # d \<Rightarrow> c\<lparr>cmem := chip_store p d (cmem c), cptr := p + of_nat (length d),
                     cbusy := if d = [] then 0 else ccycle c\<rparr>
      | _ \<Rightarrow> c\<lparr>cptr := cptr c + of_nat n\<rparr>)"

definition chip_bus :: "chip bus" where
  "chip_bus = \<lparr>respond = chip_respond, commit = chip_commit\<rparr>"

lemma chip_bus_simps [simp]: "respond chip_bus = chip_respond" "commit chip_bus = chip_commit"
  by (simp_all add: chip_bus_def)

lemma chip_read_length [simp]: "length (chip_read m p n) = n"
  by (simp add: chip_read_def)

definition at_rest :: "chip i2c_sys \<Rightarrow> chip \<Rightarrow> bool \<times> bool \<times> bool \<Rightarrow> bool" where
  "at_rest s c m \<longleftrightarrow> \<not> isem (drv s) \<and> irqs s = [] \<and> hw s = c \<and> locks (drv s) = m"

abbreviation wr_addr :: u8 where "wr_addr \<equiv> push_bit 1 EEPROM_ADDR"
abbreviation rd_addr :: u8 where "rd_addr \<equiv> push_bit 1 EEPROM_ADDR OR 1"

lemma addr_bits [simp]: "EEPROM_ADDR * 2 = 0xA0" "0xA0 OR 1 = (0xA1 :: u8)"
  by (simp_all add: EEPROM_ADDR_def)

lemma transact_busy:
  assumes "at_rest s c m" "0 < cbusy c" "0 < length buf" "length buf < 255"
  shows "\<exists>s'. i2c_transact chip_bus fr a buf (length buf) s = Inr (252, buf, s') \<and> at_rest s' (c\<lparr>cbusy := cbusy c - 1\<rparr>) m"
proof -
  have r: "respond chip_bus (hw s) a (length buf) = nack_events" using assms by (simp add: chip_respond_def at_rest_def)
  have L: "leads fr (respond chip_bus (hw s) a (length buf)) (in_xfer a (length buf) buf i (idr_out (drv s)) (locks (drv s)))
      (xfer_done buf (idr_out (drv s) @ [a]) 252 (locks (drv s)))" for i
    unfolding r using assms(4) by (rule leads_nack)
  show ?thesis
    by (rule transact_leads [OF _ _ refl L]) (use assms in \<open>auto simp: at_rest_def chip_commit_def\<close>)
qed

lemma transact_write:
  assumes "at_rest s c m" "cbusy c = 0" "length d < 254"
  shows "\<exists>s'. i2c_transact chip_bus fr 0xA0 (p # d) (length (p # d)) s = Inr (0, p # d, s')
     \<and> at_rest s' (c\<lparr>cmem := chip_store p d (cmem c), cptr := p + of_nat (length d), cbusy := if d = [] then 0 else ccycle c\<rparr>) m"
proof -
  let ?b = "p # d"
  have r: "respond chip_bus (hw s) 0xA0 (length ?b) = tx_events (length ?b) 0"
    using assms by (simp add: chip_respond_def at_rest_def)
  have L: "leads fr (respond chip_bus (hw s) 0xA0 (length ?b)) (in_xfer 0xA0 (length ?b) ?b i (idr_out (drv s)) (locks (drv s)))
      (xfer_done ?b (idr_out (drv s) @ 0xA0 # ?b) 0 (locks (drv s)))" for i
    using leads_tx [OF refl, of ?b "0xA0" fr 0 i] assms(3) unfolding r by simp
  show ?thesis
    by (rule transact_leads [OF _ _ refl L]) (use assms in \<open>auto simp: at_rest_def chip_commit_def\<close>)
qed

lemma transact_read:
  assumes "at_rest s c m" "cbusy c = 0" "0 < length buf" "length buf < 255"
  shows "\<exists>s'. i2c_transact chip_bus fr 0xA1 buf (length buf) s = Inr (0, chip_read (cmem c) (cptr c) (length buf), s')
     \<and> at_rest s' (c\<lparr>cptr := cptr c + of_nat (length buf)\<rparr>) m"
proof -
  let ?d = "chip_read (cmem c) (cptr c) (length buf)"
  have r: "respond chip_bus (hw s) 0xA1 (length buf) = rx_events ?d 0"
    using assms by (simp add: chip_respond_def at_rest_def)
  have L: "leads fr (respond chip_bus (hw s) 0xA1 (length buf)) (in_xfer 0xA1 (length buf) buf i (idr_out (drv s)) (locks (drv s)))
      (xfer_done ?d (idr_out (drv s) @ [0xA1]) 0 (locks (drv s)))" for i
    using leads_rx [OF refl, of ?d buf "0xA1" fr 0 i] assms(3,4) unfolding r by simp
  show ?thesis
    by (rule transact_leads [OF _ _ refl L]) (use assms in \<open>auto simp: at_rest_def chip_commit_def\<close>)
qed

section \<open>Transactions with retries\<close>

lemma chip_store_Nil [simp]: "chip_store p [] m = m"
  by (simp add: chip_store_def)

declare eerr_defs [simp]

lemma do_loop_busy:
  assumes "at_rest s c m" "0 < r" "0 < cbusy c" "0 < length tx" "length tx < 255"
  shows "\<exists>s'. eeprom_do_loop chip_bus fr (Suc fuel) r st0 tx rx s = eeprom_do_loop chip_bus fr fuel (r - 1) 252 tx rx s'
     \<and> at_rest s' (c\<lparr>cbusy := cbusy c - 1\<rparr>) m"
  using transact_busy [OF assms(1,3-5), of fr "0xA0"] assms(2) by auto

lemma do_loop_read:
  assumes "at_rest s c m" "r \<le> fuel" "cbusy c < r" "0 < length rx" "length rx < 255"
  shows "\<exists>s'. eeprom_do_loop chip_bus fr fuel r st0 [p] rx s = Inr (0, chip_read (cmem c) p (length rx), s')
     \<and> at_rest s' (c\<lparr>cbusy := 0, cptr := p + of_nat (length rx)\<rparr>) m"
  using assms
proof (induction fuel arbitrary: r st0 s c)
  case (Suc fuel)
  show ?case
  proof (cases "cbusy c = 0")
    case True
    from transact_write [OF Suc.prems(1) True, of "[]" fr p] obtain s1 where
      1: "i2c_transact chip_bus fr 0xA0 [p] (Suc 0) s = Inr (0, [p], s1)" "at_rest s1 (c\<lparr>cptr := p, cbusy := 0\<rparr>) m"
      by auto
    from transact_read [OF 1(2) _ Suc.prems(4,5), of fr] obtain s2 where
      2: "i2c_transact chip_bus fr 0xA1 rx (length rx) s1 = Inr (0, chip_read (cmem c) p (length rx), s2)"
        "at_rest s2 (c\<lparr>cbusy := 0, cptr := p + of_nat (length rx)\<rparr>) m"
      by auto
    show ?thesis using Suc.prems 1(1) 2 by auto
  next
    case False
    with do_loop_busy [OF Suc.prems(1), of r "[p]" fr fuel st0 rx] Suc.prems(3) obtain s1 where
      1: "eeprom_do_loop chip_bus fr (Suc fuel) r st0 [p] rx s = eeprom_do_loop chip_bus fr fuel (r - 1) 252 [p] rx s1"
        "at_rest s1 (c\<lparr>cbusy := cbusy c - 1\<rparr>) m"
      by auto
    have "r - 1 \<le> fuel" "cbusy c - 1 < r - 1" using False Suc.prems(2,3) by auto
    then show ?thesis unfolding 1(1) using Suc.IH [OF 1(2)] Suc.prems(4,5) by simp
  qed
qed simp

lemma do_loop_gives_up:
  assumes "at_rest s c m" "r \<le> fuel" "r \<le> cbusy c" "0 < length tx" "length tx < 255" "r = 0 \<Longrightarrow> st0 = 252"
  shows "\<exists>s'. eeprom_do_loop chip_bus fr fuel r st0 tx rx s = Inr (252, rx, s') \<and> at_rest s' (c\<lparr>cbusy := cbusy c - r\<rparr>) m"
  using assms
proof (induction fuel arbitrary: r st0 s c)
  case (Suc fuel)
  show ?case
  proof (cases "r = 0")
    case False
    with do_loop_busy [OF Suc.prems(1) _ _ Suc.prems(4,5), of r fr fuel st0 rx] Suc.prems(3) obtain s1 where
      1: "eeprom_do_loop chip_bus fr (Suc fuel) r st0 tx rx s = eeprom_do_loop chip_bus fr fuel (r - 1) 252 tx rx s1"
        "at_rest s1 (c\<lparr>cbusy := cbusy c - 1\<rparr>) m"
      by auto
    have "r - 1 \<le> fuel" "r - 1 \<le> cbusy c - 1" "cbusy c - 1 - (r - 1) = cbusy c - r" using False Suc.prems(2,3) by auto
    then show ?thesis unfolding 1(1) using Suc.IH [OF 1(2), of "r - 1" 252] Suc.prems(4,5) by simp
  qed (use Suc.prems in auto)
qed auto

lemma do_read:
  assumes "at_rest s c m" "cbusy c \<le> 4" "0 < length rx" "length rx < 255"
  shows "\<exists>s'. eeprom_do chip_bus fr [p] rx s = Inr (0, chip_read (cmem c) p (length rx), s')
     \<and> at_rest s' (c\<lparr>cbusy := 0, cptr := p + of_nat (length rx)\<rparr>) m"
  unfolding eeprom_do_def using assms by (intro do_loop_read) auto

lemma do_read_busy:
  assumes "at_rest s c m" "4 < cbusy c"
  shows "\<exists>s'. eeprom_do chip_bus fr [p] rx s = Inr (252, rx, s') \<and> at_rest s' (c\<lparr>cbusy := cbusy c - 5\<rparr>) m"
  unfolding eeprom_do_def using assms by (intro do_loop_gives_up) auto

lemma do_write:
  assumes "at_rest s c m" "cbusy c = 0" "length d < 254" "d \<noteq> []"
  shows "\<exists>s'. eeprom_do chip_bus fr (p # d) [] s = Inr (0, [], s')
     \<and> at_rest s' (c\<lparr>cmem := chip_store p d (cmem c), cptr := p + of_nat (length d), cbusy := ccycle c\<rparr>) m"
  using transact_write [OF assms(1-3), of fr p] assms(4)
  unfolding eeprom_do_def by (auto simp: eval_nat_numeral)

section \<open>Pages\<close>

lemma start_at_rest:
  assumes "at_rest s c (mx, False, sm)" "mx \<and> sm \<or> created" "2 \<le> fr" "fr < 2 ^ 31"
  shows "\<exists>s'. i2c_start fr created s = Inr s' \<and> at_rest s' c (True, True, True)"
proof -
  let ?d = "(drv s)\<lparr>imutex := True, isem_made := True, ilocked := True\<rparr>"
  obtain d where "i2c_configure fr ?d = Inr d" "locks d = locks ?d" "isem d = isem ?d"
    using i2c_configure_ok [OF assms(3,4)] by blast
  then show ?thesis using assms(1,2)
    by (auto simp: i2c_start_def Let_def at_rest_def locks_def ASSERT_def)
qed

lemma stop_at_rest: "at_rest s c (a, l, b) \<Longrightarrow> at_rest (i2c_stop s) c (a, False, b)"
  by (simp add: at_rest_def locks_def i2c_stop_def)

lemma less_8: "i < 8 \<longleftrightarrow> i \<in> {0, 1, 2, 3, 4, 5, 6, 7 :: nat}"
  by auto

lemma in_page:
  assumes "p AND 7 = (0 :: u8)" "i < 8"
  shows "(p + of_nat i) AND 0xF8 = p AND 0xF8" "unat ((of_nat i :: u8) AND 7) = i"
proof -
  let ?i = "of_nat i :: u8"
  have i: "?i AND 7 = ?i" "?i AND 0xF8 = 0" using assms(2) unfolding less_8 by auto
  have "p AND ?i = p AND (?i AND 7)" by (simp add: i)
  also have "\<dots> = ?i AND (p AND 7)" by (simp add: ac_simps)
  finally have "p AND ?i = 0" using assms(1) by simp
  then have "p + ?i = p OR ?i" using word_plus_and_or [of p ?i] by simp
  then show "(p + ?i) AND 0xF8 = p AND 0xF8" using i(2) by (simp add: bit.conj_disj_distrib2)
  show "unat (?i AND 7) = i" using i(1) assms(2) by (simp add: u8_small)
qed

lemma store_in_page:
  "p AND 7 = 0 \<Longrightarrow> i < 8 \<Longrightarrow> length d = 8 \<Longrightarrow> chip_store p d m (p + of_nat i) = d ! i"
  by (simp add: chip_store_def in_page)

lemma store_off_page: "x AND 0xF8 \<noteq> p AND 0xF8 \<Longrightarrow> chip_store p d m x = m x"
  by (simp add: chip_store_def)

lemma store_read: "p AND 7 = 0 \<Longrightarrow> length d = 8 \<Longrightarrow> chip_read (chip_store p d m) p 8 = d"
  by (rule nth_equalityI) (simp_all add: chip_read_def store_in_page)

text \<open>What a page write does to the chip, by the number of transactions it stays busy.\<close>

lemma tries_result:
  assumes "at_rest s c m" "cbusy c = 0" "p AND 7 = 0" "8 \<le> length buf" "t1 - t0 \<le> pdMS_TO_TICKS 250"
  shows "\<exists>s'. eeprom_tries chip_bus fr p buf (Suc i) (p # take 8 buf) (t0 # t1 # ts) s
       = Inr (if ccycle c \<le> 4 then EERR_OK else 252, ts, s')
     \<and> at_rest s' (c\<lparr>cmem := chip_store p (take 8 buf) (cmem c), cptr := p + 8, cbusy := ccycle c - 5\<rparr>) m"
proof -
  let ?d = "take 8 buf"
  have d: "length ?d = 8" "?d \<noteq> []" using assms(4) by auto
  let ?c = "c\<lparr>cmem := chip_store p ?d (cmem c), cptr := p + 8, cbusy := ccycle c\<rparr>"
  obtain s1 where 1: "eeprom_do chip_bus fr (p # ?d) [] s = Inr (0, [], s1)" "at_rest s1 ?c m"
    using do_write [OF assms(1,2), of ?d fr p] d by auto
  let ?rx = "take 8 (p # ?d)"
  have rx: "length ?rx = 8" using d by simp
  have t: "\<not> t1 - t0 > pdMS_TO_TICKS 250" using assms(5) by simp
  show ?thesis
  proof (cases "ccycle c \<le> 4")
    case True
    have c: "?c\<lparr>cbusy := 0, cptr := p + of_nat (length ?rx)\<rparr> = ?c\<lparr>cbusy := 0\<rparr>" using rx by simp
    have r: "chip_read (cmem ?c) p (length ?rx) = ?d" using rx store_read [OF assms(3) d(1)] by simp
    have "cbusy ?c \<le> 4" "0 < length ?rx" "length ?rx < 255" using True rx by simp_all
    from do_read [OF 1(2) this, of fr p] obtain s2 where
      2: "eeprom_do chip_bus fr [p] ?rx s1 = Inr (0, ?d, s2)" "at_rest s2 (?c\<lparr>cbusy := 0\<rparr>) m"
      unfolding c r by blast
    have "take 8 (copy_into (p # ?d) 0 ?d) = ?d" using d by (simp add: copy_into_def)
    then show ?thesis using 1(1) 2 t True by (simp add: EEPROM_PAGE_SIZE_def Let_def)
  next
    case False
    then obtain s2 where 2: "eeprom_do chip_bus fr [p] ?rx s1 = Inr (252, ?rx, s2)" "at_rest s2 (?c\<lparr>cbusy := ccycle c - 5\<rparr>) m"
      using do_read_busy [OF 1(2), of fr p ?rx] by auto
    then show ?thesis using 1(1) t False by (simp add: EEPROM_PAGE_SIZE_def Let_def)
  qed
qed

lemma write_page_result:
  assumes "at_rest s c (mx, False, sm)" "mx \<and> sm \<or> created" "2 \<le> fr" "fr < 2 ^ 31"
    and "cbusy c = 0" "p AND 7 = 0" "8 \<le> length buf" "t1 - t0 \<le> pdMS_TO_TICKS 250"
  shows "\<exists>s'. eeprom_write_page chip_bus fr created p buf (t0 # t1 # ts) s
       = Inr (if ccycle c \<le> 4 then EERR_OK else 252, ts, s')
     \<and> at_rest s' (c\<lparr>cmem := chip_store p (take 8 buf) (cmem c), cptr := p + 8, cbusy := ccycle c - 5\<rparr>) (True, False, True)"
proof -
  obtain s1 where 1: "i2c_start fr created s = Inr s1" "at_rest s1 c (True, True, True)"
    using start_at_rest [OF assms(1-4)] by blast
  show ?thesis
    using tries_result [OF 1(2) assms(5-8), of fr 2 ts] 1(1) stop_at_rest
    by (fastforce simp: eeprom_write_page_def EEPROM_PAGE_SIZE_def Let_def eval_nat_numeral simp del: eeprom_tries.simps)
qed

lemma page_aligned: "(of_nat (k * 8) :: u8) AND 7 = 0"
proof -
  have "(of_nat (k * 8) :: u8) = push_bit 3 (of_nat k)" by (simp add: push_bit_eq_mult)
  moreover have "(7 :: u8) = mask 3" by (simp add: mask_eq_exp_minus_1)
  moreover have "push_bit 3 (of_nat k :: u8) AND mask 3 = 0"
    by (rule bit_word_eqI) (simp add: bit_simps)
  ultimately show ?thesis by (simp only:)
qed

lemma aligned_keep: "p AND 7 = (0 :: u8) \<Longrightarrow> p AND 0xF8 = p"
proof -
  assume "p AND 7 = 0"
  moreover have "(0xF8 :: u8) = NOT 7" by simp
  ultimately show ?thesis by (simp only: bit_eq_iff [of "p AND 7"] bit_eq_iff [of "p AND NOT 7"] bit_simps) auto
qed

lemma store_page_at:
  assumes "k < 32" "length d = 8"
  shows "chip_store (of_nat (k * 8)) d m x = (if unat x div 8 = k then d ! (unat x mod 8) else m x)"
proof -
  let ?j = "unat x div 8" and ?i = "unat x mod 8"
  have x: "x = of_nat (?j * 8) + of_nat ?i"
    unfolding of_nat_add [symmetric] div_mult_mod_eq by simp
  have j: "?j < 32" using unsigned_less [of x, where ?'a = nat] by simp
  show ?thesis
  proof (cases "?j = k")
    case True
    then show ?thesis using store_in_page [OF page_aligned _ assms(2), of ?i k m] x by simp
  next
    case False
    have "x AND 0xF8 = of_nat (?j * 8)"
      by (subst x) (simp only: in_page(1) [OF page_aligned] mod_less_divisor aligned_keep [OF page_aligned] zero_less_numeral)
    moreover have "of_nat (?j * 8) \<noteq> (of_nat (k * 8) :: u8)"
      using False j assms(1) u8_eq [of "?j * 8" "k * 8"] by simp
    ultimately show ?thesis
      using False store_off_page [of x "of_nat (k * 8)"] aligned_keep [OF page_aligned, of k] by simp
  qed
qed

section \<open>The configuration\<close>

definition tick_pairs :: "(u32 \<times> u32) list \<Rightarrow> u32 list" where
  "tick_pairs ps = concat (map (\<lambda>(a, b). [a, b]) ps)"

lemma write_pages_result:
  assumes "at_rest s c (mx, False, sm)" "mx \<and> sm \<or> created" "2 \<le> fr" "fr < 2 ^ 31"
    and "cbusy c = 0" "ccycle c \<le> 4" "length cfg = 120" "1 \<le> j" "j \<le> 16" "length ps = 16 - j"
    and "\<forall>(a, b)\<in>set ps. b - a \<le> pdMS_TO_TICKS 250"
  shows "\<exists>s' c' mx' sm'. eeprom_write_pages chip_bus fr created (map (\<lambda>k. k * 8) [j..<16]) cfg (tick_pairs ps) s = Inr (EERR_OK, [], s')
     \<and> at_rest s' c' (mx', False, sm') \<and> (mx' \<and> sm' \<or> created) \<and> cbusy c' = 0 \<and> ccycle c' = ccycle c
     \<and> cmem c' = (\<lambda>x. if j \<le> unat x div 8 \<and> unat x < 128 then cfg ! (unat x - 8) else cmem c x)"
  using assms
proof (induction "16 - j" arbitrary: j ps s c mx sm)
  case 0
  then have "j = 16" "ps = []" by auto
  moreover have "\<not> (16 \<le> unat x div 8 \<and> unat x < 128)" for x :: u8 by auto
  ultimately show ?case using 0
    by (intro exI [of _ s] exI [of _ c] exI [of _ mx] exI [of _ sm]) (auto simp: tick_pairs_def fun_eq_iff)
next
  case (Suc n)
  then have j: "1 \<le> j" "j < 16" "[j..<16] = j # [Suc j..<16]" by (auto simp: upt_rec)
  then obtain a b qs where ps: "ps = (a, b) # qs" using Suc.prems(10) by (cases ps) auto
  let ?p = "of_nat (j * 8) :: u8" and ?d = "take 8 (drop (j * 8 - 8) cfg)"
  let ?c = "c\<lparr>cmem := chip_store ?p ?d (cmem c), cptr := ?p + 8, cbusy := ccycle c - 5\<rparr>"
  have len: "8 \<le> length (drop (j * 8 - 8) cfg)" using j Suc.prems(7) by simp
  have "b - a \<le> pdMS_TO_TICKS 250" using Suc.prems(11) ps by simp
  from write_page_result [OF Suc.prems(1-5) page_aligned len this, of j "tick_pairs qs"] Suc.prems(6)
  obtain s1 where 1: "eeprom_write_page chip_bus fr created ?p (drop (j * 8 - 8) cfg) (a # b # tick_pairs qs) s
      = Inr (EERR_OK, tick_pairs qs, s1)" "at_rest s1 ?c (True, False, True)" by auto
  have ih: "n = 16 - Suc j" "True \<and> True \<or> created" "cbusy ?c = 0" "ccycle ?c \<le> 4" "1 \<le> Suc j" "Suc j \<le> 16" "length qs = 16 - Suc j"
    "\<forall>(a, b)\<in>set qs. b - a \<le> pdMS_TO_TICKS 250"
    using Suc.hyps(2) Suc.prems ps j by auto
  from Suc.hyps(1) [OF ih(1) 1(2) ih(2) Suc.prems(3,4) ih(3,4) Suc.prems(7) ih(5-8)] obtain s2 c2 mx2 sm2 where
    2: "eeprom_write_pages chip_bus fr created (map (\<lambda>k. k * 8) [Suc j..<16]) cfg (tick_pairs qs) s1 = Inr (EERR_OK, [], s2)"
      "at_rest s2 c2 (mx2, False, sm2)" "mx2 \<and> sm2 \<or> created" "cbusy c2 = 0" "ccycle c2 = ccycle ?c"
      "cmem c2 = (\<lambda>x. if Suc j \<le> unat x div 8 \<and> unat x < 128 then cfg ! (unat x - 8) else cmem ?c x)"
    by blast
  have d: "length ?d = 8" using len by simp
  have "cmem c2 x = (if j \<le> unat x div 8 \<and> unat x < 128 then cfg ! (unat x - 8) else cmem c x)" for x
  proof (cases "unat x div 8 = j")
    case True
    then have "unat x = j * 8 + unat x mod 8" "unat x < 128" using j(2) by auto
    moreover have "?d ! (unat x mod 8) = cfg ! (j * 8 - 8 + unat x mod 8)" using len by simp
    ultimately show ?thesis using True j 2(6) store_page_at [OF _ d, of j "cmem c" x] by (simp add: fun_eq_iff)
  next
    case False
    then show ?thesis using j 2(6) store_page_at [OF _ d, of j "cmem c" x] by (auto simp: fun_eq_iff)
  qed
  then have mem: "cmem c2 = (\<lambda>x. if j \<le> unat x div 8 \<and> unat x < 128 then cfg ! (unat x - 8) else cmem c x)" by (rule ext)
  have "eeprom_write_pages chip_bus fr created (map (\<lambda>k. k * 8) [j..<16]) cfg (tick_pairs ps) s = Inr (EERR_OK, [], s2)"
    using 1(1) 2(1) unfolding j(3) ps tick_pairs_def by (simp add: EEPROM_CFG_OFFSET_def)
  moreover have "ccycle c2 = ccycle c" using 2(5) by simp
  ultimately show ?case using 2(2-4) mem by blast
qed

text \<open>Reading the pages back assembles the memory contents.\<close>

lemma chip_read_part:
  assumes "n + 8 \<le> N"
  shows "chip_read m (b + of_nat n) 8 = take 8 (drop n (chip_read m b N))"
  by (rule nth_equalityI) (use assms in \<open>simp_all add: chip_read_def add.assoc\<close>)

lemma fill_part:
  assumes "length T = N" "length B = N" "n + 8 \<le> N"
  shows "copy_into (take n T @ drop n B) n (take 8 (drop n T)) = take (n + 8) T @ drop (n + 8) B"
  using assms by (simp add: copy_into_def take_add add.commute)

lemma read_pages_result:
  assumes "at_rest s c m" "cbusy c = 0" "length B = 120" "1 \<le> j" "j \<le> 16"
  shows "\<exists>s' c'. eeprom_read_pages chip_bus fr (map (\<lambda>k. k * 8) [j..<16]) snum
        (take (j * 8 - 8) (chip_read (cmem c) 8 120) @ drop (j * 8 - 8) B) s
       = Inr (EERR_OK, snum, chip_read (cmem c) 8 120, s') \<and> at_rest s' c' m"
  using assms
proof (induction "16 - j" arbitrary: j s c)
  case 0
  then show ?case by auto
next
  case (Suc n)
  then have j: "1 \<le> j" "j < 16" "[j..<16] = j # [Suc j..<16]" by (auto simp: upt_rec)
  let ?n = "j * 8 - 8" and ?T = "chip_read (cmem c) 8 120"
  let ?B = "take ?n ?T @ drop ?n B"
  let ?r = "take 8 (drop ?n ?B)"
  have n: "?n + 8 \<le> 120" "?n + 8 = Suc j * 8 - 8" using j by simp_all
  have p: "(of_nat (j * 8) :: u8) = 8 + of_nat ?n"
  proof -
    have "of_nat (j * 8) = (of_nat (8 + ?n) :: u8)" using j(1) by simp
    then show ?thesis by (simp only: of_nat_add of_nat_numeral)
  qed
  have r: "length ?r = 8" using n Suc.prems(3) by simp
  have "cbusy c \<le> 4" "0 < length ?r" "length ?r < 255" using Suc.prems(2) r by simp_all
  from do_read [OF Suc.prems(1) this, of fr "of_nat (j * 8)"]
  obtain s1 where 0: "eeprom_do chip_bus fr [of_nat (j * 8)] ?r s = Inr (0, chip_read (cmem c) (of_nat (j * 8)) 8, s1)"
      "at_rest s1 (c\<lparr>cbusy := 0, cptr := of_nat (j * 8) + of_nat 8\<rparr>) m"
    unfolding r by blast
  have "chip_read (cmem c) (of_nat (j * 8)) 8 = take 8 (drop ?n ?T)"
    unfolding p by (rule chip_read_part [OF n(1)])
  with 0 have 1: "eeprom_do chip_bus fr [of_nat (j * 8)] ?r s = Inr (0, take 8 (drop ?n ?T), s1)"
      "at_rest s1 (c\<lparr>cbusy := 0, cptr := of_nat (j * 8) + 8\<rparr>) m"
    by simp_all
  have f: "copy_into ?B ?n (take 8 (drop ?n ?T)) = take (Suc j * 8 - 8) ?T @ drop (Suc j * 8 - 8) B"
    using fill_part [of ?T 120 B ?n] Suc.prems(3) n by simp
  have ih: "n = 16 - Suc j" "cbusy (c\<lparr>cbusy := 0, cptr := of_nat (j * 8) + 8\<rparr>) = 0" "1 \<le> Suc j" "Suc j \<le> 16"
    using Suc.hyps(2) j by auto
  let ?rest = "eeprom_read_pages chip_bus fr (map (\<lambda>k. k * 8) [Suc j..<16]) snum"
  have "eeprom_read_pages chip_bus fr (map (\<lambda>k. k * 8) [j..<16]) snum ?B s
      = ?rest (copy_into ?B ?n (take 8 (drop ?n ?T))) s1"
    unfolding j(3) using 1(1) j(1) by (simp add: eeprom_defs Let_def del: take_append drop_append)
  then show ?case
    unfolding f using Suc.hyps(1) [OF ih(1) 1(2) ih(2) Suc.prems(3) ih(3,4)] by simp
qed

lemma set_crc_parts:
  assumes "length cfg = 120"
  shows "length (set_crc k cfg) = 120" "take 118 (set_crc k cfg) = take 118 cfg" "cfg_crc (set_crc k cfg) = k"
proof -
  have "set_crc k cfg = take 118 cfg @ [ucast k, ucast (drop_bit 8 k)]"
    using assms by (simp add: set_crc_def copy_into_def CFG_SIZE_def)
  then show "length (set_crc k cfg) = 120" "take 118 (set_crc k cfg) = take 118 cfg" "cfg_crc (set_crc k cfg) = k"
    using assms by (simp_all add: cfg_crc_def nth_append) (rule bit_word_eqI, auto simp: bit_simps)
qed

lemma chip_read_cfg:
  assumes "length cfg = 120" "m = (\<lambda>x. if 1 \<le> unat x div 8 \<and> unat x < 128 then cfg ! (unat x - 8) else m0 x)"
  shows "chip_read m 8 120 = cfg"
proof (rule nth_equalityI)
  show "length (chip_read m 8 120) = length cfg" using assms(1) by simp
  fix i assume "i < length (chip_read m 8 120)"
  then have i: "i < 120" by simp
  have "(8 + of_nat i :: u8) = of_nat (8 + i)" by simp
  then have u: "unat (8 + of_nat i :: u8) = 8 + i" using i u8_small(1) [of "8 + i"] by (simp del: of_nat_add)
  then show "chip_read m 8 120 ! i = cfg ! i"
    using i by (simp add: chip_read_def assms(2) u)
qed

lemma read_cfg_result:
  assumes "at_rest s c (mx, False, sm)" "mx \<and> sm \<or> created" "2 \<le> fr" "fr < 2 ^ 31" "cbusy c = 0"
    and "length snum = 8" "length B = 120" "chip_read (cmem c) 8 120 = cfg" "chk (take 118 cfg) = cfg_crc cfg"
  shows "\<exists>s'. eeprom_read_cfg chk chip_bus fr created snum B s = Inr (EERR_OK, chip_read (cmem c) 0 8, cfg, s')"
proof -
  obtain s1 where 1: "i2c_start fr created s = Inr s1" "at_rest s1 c (True, True, True)"
    using start_at_rest [OF assms(1-4)] by blast
  have "cbusy c \<le> 4" "0 < length snum" "length snum < 255" using assms(5,6) by simp_all
  from do_read [OF 1(2) this, of fr 0] obtain s2 where
    2: "eeprom_do chip_bus fr [0] snum s1 = Inr (0, chip_read (cmem c) 0 8, s2)"
      "at_rest s2 (c\<lparr>cbusy := 0, cptr := 0 + of_nat 8\<rparr>) (True, True, True)"
    unfolding assms(6) by blast
  have B: "take (1 * 8 - 8) (chip_read (cmem (c\<lparr>cbusy := 0, cptr := 0 + of_nat 8\<rparr>)) 8 120) @ drop (1 * 8 - 8) B = B" by simp
  have T: "chip_read (cmem (c\<lparr>cbusy := 0, cptr := 0 + of_nat 8\<rparr>)) 8 120 = cfg" using assms(8) by simp
  obtain s3 where 3: "eeprom_read_pages chip_bus fr (map (\<lambda>k. k * 8) [1..<16]) (chip_read (cmem c) 0 8) B s2
      = Inr (EERR_OK, chip_read (cmem c) 0 8, cfg, s3)"
    using read_pages_result [OF 2(2) _ assms(7), of 1 fr "chip_read (cmem c) 0 8"] unfolding B T by auto
  have "[0..<16] = 0 # [1..<16::nat]" by (simp add: upt_rec)
  then have "eeprom_read_pages chip_bus fr (map (\<lambda>k. k * 8) [0..<16]) snum B s1
      = Inr (EERR_OK, chip_read (cmem c) 0 8, cfg, s3)"
    using 2(1) 3 by simp
  then show ?thesis using 1(1) assms(9)
    unfolding eeprom_read_cfg_def eeprom_defs by simp
qed

text \<open>
  C13. The configuration survives: written with \<open>eeprom_write_cfg\<close> to an idle chip that
  needs at most four polls to program a page, with the read-back within its 250 ms, it is
  stored with its checksum behind the serial number, which is not touched, nor is the rest of
  the chip; and \<open>eeprom_read_cfg\<close> then succeeds and returns exactly the configuration that
  was written, whatever the buffers held before.
\<close>

theorem cfg_roundtrip:
  assumes "at_rest s c (mx, False, sm)" "mx \<and> sm \<or> created" "2 \<le> fr" "fr < 2 ^ 31"
    and "cbusy c = 0" "ccycle c \<le> 4" "length cfg = 120" "length ps = 15"
    and "\<forall>(a, b)\<in>set ps. b - a \<le> pdMS_TO_TICKS 250" "length snum = 8" "length B = 120"
  shows "\<exists>cfg' s' s''. cfg' = set_crc (chk (take 118 cfg)) cfg
     \<and> eeprom_write_cfg chk chip_bus fr created cfg (tick_pairs ps) s = Inr (EERR_OK, cfg', [], s')
     \<and> (\<forall>x. cmem (hw s') x = (if 8 \<le> unat x \<and> unat x < 128 then cfg' ! (unat x - 8) else cmem c x))
     \<and> eeprom_read_cfg chk chip_bus fr created snum B s' = Inr (EERR_OK, chip_read (cmem c) 0 8, cfg', s'')"
proof -
  let ?cfg = "set_crc (chk (take 118 cfg)) cfg"
  note cfg = set_crc_parts [OF assms(7), of "chk (take 118 cfg)"]
  obtain s1 c1 mx1 sm1 where 1:
    "eeprom_write_pages chip_bus fr created (map (\<lambda>k. k * 8) [1..<16]) ?cfg (tick_pairs ps) s = Inr (EERR_OK, [], s1)"
    "at_rest s1 c1 (mx1, False, sm1)" "mx1 \<and> sm1 \<or> created" "cbusy c1 = 0"
    "cmem c1 = (\<lambda>x. if 1 \<le> unat x div 8 \<and> unat x < 128 then ?cfg ! (unat x - 8) else cmem c x)"
    using write_pages_result [OF assms(1-6) cfg(1), of 1 ps] assms(8,9) by auto
  have w: "eeprom_write_cfg chk chip_bus fr created cfg (tick_pairs ps) s = Inr (EERR_OK, ?cfg, [], s1)"
    using 1(1) unfolding eeprom_write_cfg_def Let_def eeprom_defs by simp
  have m: "cmem (hw s1) x = (if 8 \<le> unat x \<and> unat x < 128 then ?cfg ! (unat x - 8) else cmem c x)" for x
  proof -
    have "1 \<le> unat x div 8 \<longleftrightarrow> 8 \<le> unat x" by auto
    then show ?thesis using 1(2,5) by (simp add: at_rest_def fun_eq_iff)
  qed
  have "chip_read (cmem c1) 0 8 = chip_read (cmem c) 0 8"
    by (rule nth_equalityI) (simp_all add: chip_read_def 1(5) u8_small)
  then show ?thesis
    using w m read_cfg_result [OF 1(2,3) assms(3,4) 1(4) assms(10,11) chip_read_cfg [OF cfg(1) 1(5)], of chk] cfg(2,3) by auto
qed

definition chip0 :: chip where
  "chip0 = \<lparr>cmem = (\<lambda>_. 0xFF), cptr = 0, cbusy = 0, ccycle = 3\<rparr>"

definition sys0 :: "chip \<Rightarrow> chip i2c_sys" where
  "sys0 c = \<lparr>drv = i2c0, irqs = [], hw = c\<rparr>"

lemma sys0_at_rest: "at_rest (sys0 c) c (False, False, False)"
  by (simp add: at_rest_def sys0_def i2c0_def locks_def)

theorem cfg_roundtrip_witness:
  "\<exists>cfg' s' s''. cfg' = replicate 118 7 @ [0x34, 0x12]
     \<and> eeprom_write_cfg (\<lambda>_. 0x1234) chip_bus 72000000 True (replicate 120 7) (tick_pairs (replicate 15 (10, 12))) (sys0 chip0)
         = Inr (EERR_OK, cfg', [], s')
     \<and> eeprom_read_cfg (\<lambda>_. 0x1234) chip_bus 72000000 True (replicate 8 0) (replicate 120 0) s'
         = Inr (EERR_OK, chip_read (cmem chip0) 0 8, cfg', s'')"
proof -
  have "set_crc 0x1234 (replicate 120 7) = replicate 118 7 @ [0x34, 0x12]"
    by (simp add: set_crc_def copy_into_def CFG_SIZE_def)
  then show ?thesis
    using cfg_roundtrip [OF sys0_at_rest, of True 72000000 chip0 "replicate 120 7" "replicate 15 (10, 12)" "replicate 8 0"
        "replicate 120 0" "\<lambda>_. 0x1234"]
    by (simp add: chip0_def pdMS_TO_TICKS_def) blast
qed

text \<open>
  C40. The patience of a page write: the write is read back at once, and a chip that is still
  programming is polled five times. \<open>eeprom_write_page\<close> reports success exactly when the chip
  acknowledges within four more transactions; a slower chip gives the error 252 although
  the page has been stored. The comparison with \<open>EERR_NACK\<close> that should keep the loop
  polling for 250 ms never holds, because the driver returns the error as an unsigned byte.
\<close>

theorem page_write_patience:
  assumes "at_rest s c (mx, False, sm)" "mx \<and> sm \<or> created" "2 \<le> fr" "fr < 2 ^ 31"
    and "cbusy c = 0" "p AND 7 = 0" "8 \<le> length buf" "t1 - t0 \<le> pdMS_TO_TICKS 250"
  shows "\<exists>s'. eeprom_write_page chip_bus fr created p buf (t0 # t1 # ts) s
       = Inr (if ccycle c \<le> 4 then EERR_OK else EERR_NACK + 256, ts, s')
     \<and> chip_read (cmem (hw s')) p 8 = take 8 buf
     \<and> (\<forall>x. x AND 0xF8 \<noteq> p \<longrightarrow> cmem (hw s') x = cmem c x) \<and> \<not> ilocked (drv s')"
proof -
  obtain s' where s': "eeprom_write_page chip_bus fr created p buf (t0 # t1 # ts) s
      = Inr (if ccycle c \<le> 4 then EERR_OK else 252, ts, s')"
    "at_rest s' (c\<lparr>cmem := chip_store p (take 8 buf) (cmem c), cptr := p + 8, cbusy := ccycle c - 5\<rparr>) (True, False, True)"
    using write_page_result [OF assms] by blast
  moreover have "hw s' = c\<lparr>cmem := chip_store p (take 8 buf) (cmem c), cptr := p + 8, cbusy := ccycle c - 5\<rparr>" "\<not> ilocked (drv s')"
    using s'(2) by (simp_all add: at_rest_def locks_def)
  moreover have "chip_read (chip_store p (take 8 buf) (cmem c)) p 8 = take 8 buf"
    using assms(6,7) by (intro store_read) simp_all
  moreover have "x AND 0xF8 \<noteq> p \<longrightarrow> chip_store p (take 8 buf) (cmem c) x = cmem c x" for x
    using store_off_page aligned_keep [OF assms(6)] by simp
  ultimately show ?thesis by simp
qed

theorem page_write_patience_witness:
  "\<exists>s'. eeprom_write_page chip_bus 72000000 True 16 [1, 2, 3, 4, 5, 6, 7, 8] [10, 12] (sys0 (chip0\<lparr>ccycle := 9\<rparr>)) = Inr (252, [], s')
     \<and> chip_read (cmem (hw s')) 16 8 = [1, 2, 3, 4, 5, 6, 7, 8]"
  using page_write_patience [OF sys0_at_rest, of True 72000000 "chip0\<lparr>ccycle := 9\<rparr>" 16 "[1, 2, 3, 4, 5, 6, 7, 8]" 12 10 "[]"]
  by (auto simp: chip0_def pdMS_TO_TICKS_def)

end
