(* ===== verification/EthMac.thy ===== *)
theory EthMac
  imports Common
begin

text \<open>
  The Ethernet driver, \<open>src/lib/stm32/eth_mac.c\<close>, with \<open>ethernetif_input\<close> of
  \<open>src/src/net/tcpip.c\<close>: the rings of transmit and receive descriptors that the driver shares with
  the DMA of the controller, and the link state that it reads from the PHY. The theory shows
  that each ring is a queue: frames leave and arrive once and in order.
\<close>

section \<open>State\<close>

definition MFL_INIT :: u8 where "MFL_INIT = 1"
definition MFL_RUN :: u8 where "MFL_RUN = 2"
definition MFL_LINK :: u8 where "MFL_LINK = 4"

definition RDES0_OWN :: u32 where "RDES0_OWN = 0x80000000"
definition RDES0_AFM :: u32 where "RDES0_AFM = 0x40000000"
definition RDES0_FL_MASK :: u32 where "RDES0_FL_MASK = 0x3FFF0000"
definition RDES0_ES :: u32 where "RDES0_ES = 0x00008000"
definition RDES0_FS :: u32 where "RDES0_FS = 0x00000200"
definition RDES0_LS :: u32 where "RDES0_LS = 0x00000100"
definition RDES0_IPHCE :: u32 where "RDES0_IPHCE = 0x00000080"
definition RDES0_FT :: u32 where "RDES0_FT = 0x00000020"
definition RDES0_PCE :: u32 where "RDES0_PCE = 0x00000001"

definition TDES0_OWN :: u32 where "TDES0_OWN = 0x80000000"
definition TDES0_IC :: u32 where "TDES0_IC = 0x40000000"
definition TDES0_LS :: u32 where "TDES0_LS = 0x20000000"
definition TDES0_FS :: u32 where "TDES0_FS = 0x10000000"
definition TDES0_CIC :: "u32 \<Rightarrow> u32" where "TDES0_CIC n = push_bit 22 n"
definition TDES0_TCH :: u32 where "TDES0_TCH = 0x00100000"

definition MAC_BUF_SIZE :: u32 where "MAC_BUF_SIZE = 1522"
definition RDES1_RCH :: u32 where "RDES1_RCH = 0x00004000"

text \<open>
  Descriptors; a packet buffer is a number, a data pointer the bytes it points to. Each
  descriptor's successor is the next of four, and the last one's is the first.
\<close>

record tdes =
  td0 :: u32
  td1 :: u32
  tbuf :: "u8 list"
  tpbuf :: "nat option"

record rdes =
  rd0 :: u32
  rd1 :: u32
  rbuf :: "u8 list"
  rsize :: u32
  roffset :: u32

text \<open>The registers of the controller that the driver writes, and two of the clock controller.\<close>

datatype ethreg = MACCR | MACFFR | MACFCR | MACVLANTR | MACA0HR | MACA0LR | MACA1HR | MACA1LR | MACA2HR | MACA2LR
  | MACA3HR | MACA3LR | MACHTHR | MACHTLR | MACMIIAR | MACMIIDR | DMABMR | DMARDLAR | DMATDLAR | DMASR | DMAIER
  | DMAOMR | DMATPDR | DMARPDR | AHBRSTR | AHBENR

text \<open>
  \<open>outs\<close> records the writes to registers, \<open>freed\<close> and \<open>held\<close> the calls of \<open>pbuf_free\<close> and
  \<open>pbuf_ref\<close>, \<open>posted\<close> the messages in \<open>tcpip_queue\<close>; \<open>hw_tx\<close>, \<open>hw_rx\<close> and \<open>wire\<close> are the
  controller's positions in the rings and the segments it has sent, with their first and last marks.
\<close>

record mac =
  mac_flags :: u8
  tx_sem :: bool
  eth_irq :: bool
  outs :: "(ethreg \<times> u32) list"
  tx_descs :: "tdes list"
  tx_ptr :: nat
  tx_active :: "nat option"
  rx_descs :: "rdes list"
  rx_ptr :: nat
  held :: "nat list"
  freed :: "nat list"
  queue_full :: u32
  posted :: nat
  hw_tx :: nat
  hw_rx :: nat
  wire :: "(bool \<times> bool \<times> u8 list) list"

definition ring_next :: "nat \<Rightarrow> nat" where "ring_next i = (i + 1) mod 4"

definition out :: "ethreg \<Rightarrow> u32 \<Rightarrow> mac \<Rightarrow> mac" where "out r v s = s\<lparr>outs := outs s @ [(r, v)]\<rparr>"

definition owned :: "u32 \<Rightarrow> bool" where "owned d \<longleftrightarrow> d AND 0x80000000 \<noteq> 0"

section \<open>The controller\<close>

text \<open>
  The DMA sends the descriptor it is at when it owns it, and hands it back; a frame that
  arrives goes to the receive descriptor it is at when it owns that one, and is lost otherwise.
\<close>

definition dma_tx :: "mac \<Rightarrow> mac" where
  "dma_tx s =
     (let d = tx_descs s ! hw_tx s in
      if owned (td0 d)
      then s\<lparr>tx_descs := (tx_descs s)[hw_tx s := d\<lparr>td0 := td0 d AND NOT TDES0_OWN\<rparr>],
             wire := wire s @ [(td0 d AND TDES0_FS \<noteq> 0, td0 d AND TDES0_LS \<noteq> 0, take (unat (td1 d)) (tbuf d))],
             hw_tx := ring_next (hw_tx s)\<rparr>
      else s)"

definition dma_rx :: "u32 \<Rightarrow> u8 list \<Rightarrow> mac \<Rightarrow> mac" where
  "dma_rx status data s =
     (let d = rx_descs s ! hw_rx s in
      if owned (rd0 d)
      then s\<lparr>rx_descs := (rx_descs s)[hw_rx s := d\<lparr>rd0 := status, rbuf := copy_into (rbuf d) 0 data\<rparr>],
             hw_rx := ring_next (hw_rx s)\<rparr>
      else s)"

section \<open>Transmission\<close>

fun housekeeping_loop :: "nat \<Rightarrow> mac \<Rightarrow> mac res" where
  "housekeeping_loop 0 s = Inl Fuel"
| "housekeeping_loop (Suc n) s =
     (case tx_active s of
        None \<Rightarrow> Inr s
      | Some i \<Rightarrow>
          let d = tx_descs s ! i in
          if owned (td0 d) then Inr s
          else let s = (case tpbuf d of None \<Rightarrow> s | Some p \<Rightarrow> s\<lparr>freed := freed s @ [p]\<rparr>);
                   i = ring_next i in
               housekeeping_loop n (s\<lparr>tx_active := if i = tx_ptr s then None else Some i\<rparr>))"

definition maczero_housekeeping :: "mac \<Rightarrow> mac res" where
  "maczero_housekeeping s = housekeeping_loop 5 s"

text \<open>
  The waiting loop; each element of the list is one round, with the tick counter it
  reads and the number of descriptors that the DMA has finished since the last.
\<close>

fun tx_wait :: "u32 \<Rightarrow> u32 \<Rightarrow> nat \<Rightarrow> (u32 \<times> nat) list \<Rightarrow> mac \<Rightarrow> (bool \<times> (u32 \<times> nat) list \<times> mac) res" where
  "tx_wait start timeout i [] s = Inl Fuel"
| "tx_wait start timeout i ((t, n) # env) s =
     (let s = (dma_tx ^^ n) s in
      if mac_flags s AND MFL_LINK = 0 \<or> timeout \<noteq> 0 \<and> t - start \<ge> timeout then Inr (False, env, s)
      else rbind (maczero_housekeeping s) (\<lambda>s.
           if \<not> owned (td0 (tx_descs s ! i)) then Inr (True, env, s\<lparr>tx_ptr := ring_next i\<rparr>)
           else tx_wait start timeout i env (s\<lparr>tx_sem := False\<rparr>)))"

definition tx_fill :: "nat \<Rightarrow> nat \<Rightarrow> bool \<Rightarrow> bool \<Rightarrow> u8 list \<Rightarrow> mac \<Rightarrow> mac" where
  "tx_fill i p first final q s =
     (let d0 = TDES0_CIC 3 OR TDES0_IC OR TDES0_TCH;
          pb = (if first then Some p else None);
          d0 = (if first then d0 else d0 OR TDES0_OWN);
          d0 = (if final then d0 OR TDES0_LS else d0) in
      s\<lparr>tx_descs := (tx_descs s)[i := \<lparr>td0 = d0, td1 = of_nat (length q), tbuf = q, tpbuf = pb\<rparr>]\<rparr>)"

fun tx_segments ::
  "u32 \<Rightarrow> u32 \<Rightarrow> nat \<Rightarrow> nat \<Rightarrow> bool \<Rightarrow> u8 list list \<Rightarrow> (u32 \<times> nat) list \<Rightarrow> mac \<Rightarrow> (bool \<times> (u32 \<times> nat) list \<times> mac) res" where
  "tx_segments start timeout i p first [] env s = Inr (True, env, s)"
| "tx_segments start timeout i p first (q # qs) env s =
     rbind (tx_wait start timeout i env s) (\<lambda>(ok, env, s).
     if \<not> ok then Inr (False, env, s)
     else tx_segments start timeout i p False qs env (tx_fill i p first (qs = []) q s))"

text \<open>
  \<open>tdes\<close>, the descriptor being filled, is set once, before the loop over the chain of buffers.
\<close>

definition maczero_transmit ::
  "u32 \<Rightarrow> u32 \<Rightarrow> nat \<Rightarrow> u8 list list \<Rightarrow> (u32 \<times> nat) list \<Rightarrow> mac \<Rightarrow> (bool \<times> (u32 \<times> nat) list \<times> mac) res" where
  "maczero_transmit start timeout p segs env s =
     (let tdes = tx_ptr s in
      rbind (tx_segments start timeout tdes p True segs env s) (\<lambda>(ok, env, s).
      if \<not> ok then Inr (False, env, s)
      else let d = tx_descs s ! tdes;
               s = s\<lparr>tx_descs := (tx_descs s)[tdes := d\<lparr>td0 := td0 d OR (TDES0_OWN OR TDES0_FS)\<rparr>]\<rparr>;
               s = out DMATPDR 0 s;
               s = s\<lparr>held := held s @ [p]\<rparr>;
               s = (if tx_active s = None then s\<lparr>tx_active := Some tdes\<rparr> else s) in
           Inr (True, env, s)))"

section \<open>The PHY, start and stop\<close>

definition MII_BMCR :: u32 where "MII_BMCR = 0"
definition MII_BMSR :: u32 where "MII_BMSR = 1"
definition MII_LPA :: u32 where "MII_LPA = 5"
definition BMCR_FULLDPLX :: u32 where "BMCR_FULLDPLX = 0x0100"
definition BMCR_PDOWN :: u32 where "BMCR_PDOWN = 0x0800"
definition BMCR_ANENABLE :: u32 where "BMCR_ANENABLE = 0x1000"
definition BMCR_SPEED100 :: u32 where "BMCR_SPEED100 = 0x2000"
definition BMCR_RESET :: u32 where "BMCR_RESET = 0x8000"
definition BMSR_LSTATUS :: u32 where "BMSR_LSTATUS = 0x0004"
definition BMSR_RFAULT :: u32 where "BMSR_RFAULT = 0x0010"
definition BMSR_ANEGCOMPLETE :: u32 where "BMSR_ANEGCOMPLETE = 0x0020"
definition LPA_10FULL :: u32 where "LPA_10FULL = 0x0040"
definition LPA_100HALF :: u32 where "LPA_100HALF = 0x0080"
definition LPA_100FULL :: u32 where "LPA_100FULL = 0x0100"
definition LPA_100BASE4 :: u32 where "LPA_100BASE4 = 0x0200"
definition MACMIIAR_MW :: u32 where "MACMIIAR_MW = 2"
definition MACMIIAR_MB :: u32 where "MACMIIAR_MB = 1"
definition MACCR_FES :: u32 where "MACCR_FES = 0x4000"
definition MACCR_DM :: u32 where "MACCR_DM = 0x0800"
definition MACCR_IPCO :: u32 where "MACCR_IPCO = 0x0400"
definition MACCR_TE :: u32 where "MACCR_TE = 8"
definition MACCR_RE :: u32 where "MACCR_RE = 4"
definition BOARD_PHY_ADDRESS :: u32 where "BOARD_PHY_ADDRESS = 0"
definition ETHMAC_ENABLES :: u32 where "ETHMAC_ENABLES = 0x00004000 OR 0x00008000 OR 0x00010000"

lemmas mii_defs = MII_BMCR_def MII_BMSR_def MII_LPA_def BMCR_FULLDPLX_def BMCR_PDOWN_def BMCR_ANENABLE_def
  BMCR_SPEED100_def BMCR_RESET_def BMSR_LSTATUS_def BMSR_RFAULT_def BMSR_ANEGCOMPLETE_def LPA_10FULL_def
  LPA_100HALF_def LPA_100FULL_def LPA_100BASE4_def MACMIIAR_MW_def MACMIIAR_MB_def MACCR_FES_def MACCR_DM_def
  MACCR_IPCO_def MACCR_TE_def MACCR_RE_def BOARD_PHY_ADDRESS_def ETHMAC_ENABLES_def

text \<open>
  \<open>ins\<close> are the values that the registers give, in the order in which they are read.
\<close>

fun rdreg :: "u32 list \<Rightarrow> (u32 \<times> u32 list) res" where
  "rdreg [] = Inl Fuel"
| "rdreg (v # ins) = Inr (v, ins)"

fun busy_wait :: "u32 \<Rightarrow> u32 list \<Rightarrow> u32 list res" where
  "busy_wait m [] = Inl Fuel"
| "busy_wait m (v # ins) = (if v AND m \<noteq> 0 then busy_wait m ins else Inr ins)"

definition smi_write :: "u32 \<Rightarrow> u32 \<Rightarrow> u32 list \<Rightarrow> mac \<Rightarrow> (u32 list \<times> mac) res" where
  "smi_write reg v ins s =
     (let s = out MACMIIDR v s;
          s = out MACMIIAR (BOARD_PHY_ADDRESS OR push_bit 6 reg OR 0 OR MACMIIAR_MW OR MACMIIAR_MB) s in
      rbind (busy_wait MACMIIAR_MB ins) (\<lambda>ins. Inr (ins, s)))"

definition smi_read :: "u32 \<Rightarrow> u32 list \<Rightarrow> mac \<Rightarrow> (u32 \<times> u32 list \<times> mac) res" where
  "smi_read reg ins s =
     (let s = out MACMIIAR (BOARD_PHY_ADDRESS OR push_bit 6 reg OR 0 OR MACMIIAR_MB) s in
      rbind (busy_wait MACMIIAR_MB ins) (\<lambda>ins.
      rbind (rdreg ins) (\<lambda>(v, ins). Inr (v, ins, s))))"

definition with_bit :: "bool \<Rightarrow> u32 \<Rightarrow> u32 \<Rightarrow> u32" where
  "with_bit b m v = (if b then v OR m else v AND NOT m)"

definition smi_poll_link_status :: "u32 list \<Rightarrow> mac \<Rightarrow> (bool \<times> u32 list \<times> mac) res" where
  "smi_poll_link_status ins s =
     rbind (rdreg ins) (\<lambda>(maccr, ins).
     if mac_flags s AND MFL_RUN = 0 then Inr (False, ins, s)
     else
     rbind (smi_read MII_BMSR ins s) (\<lambda>(_, ins, s).
     rbind (smi_read MII_BMSR ins s) (\<lambda>(bmsr, ins, s).
     rbind (smi_read MII_BMCR ins s) (\<lambda>(bmcr, ins, s).
     rbind (smi_read MII_LPA ins s) (\<lambda>(lpa, ins, s).
     if bmcr AND BMCR_ANENABLE \<noteq> 0
     then (if bmsr AND (BMSR_LSTATUS OR BMSR_RFAULT OR BMSR_ANEGCOMPLETE) \<noteq> BMSR_LSTATUS OR BMSR_ANEGCOMPLETE
           then Inr (False, ins, s\<lparr>mac_flags := mac_flags s AND NOT MFL_LINK\<rparr>)
           else let maccr = with_bit (lpa AND (LPA_100HALF OR LPA_100FULL OR LPA_100BASE4) \<noteq> 0) MACCR_FES maccr;
                    maccr = with_bit (lpa AND (LPA_10FULL OR LPA_100FULL) \<noteq> 0) MACCR_DM maccr;
                    s = out MACCR maccr s in
                Inr (True, ins, s\<lparr>mac_flags := mac_flags s OR MFL_LINK\<rparr>))
     else (if bmsr AND BMSR_LSTATUS = 0
           then Inr (False, ins, s\<lparr>mac_flags := mac_flags s AND NOT MFL_LINK\<rparr>)
           else let maccr = with_bit (bmcr AND BMCR_SPEED100 \<noteq> 0) MACCR_FES maccr;
                    maccr = with_bit (bmcr AND BMCR_FULLDPLX \<noteq> 0) MACCR_DM maccr;
                    s = out MACCR maccr s in
                Inr (True, ins, s\<lparr>mac_flags := mac_flags s OR MFL_LINK\<rparr>)))))))"

definition SMI_DESCRIBE_SIZE :: nat where "SMI_DESCRIBE_SIZE = 17"

definition smi_describe_link :: "u32 list \<Rightarrow> mac \<Rightarrow> (string \<times> u32 list \<times> mac) res" where
  "smi_describe_link ins s =
     (if mac_flags s AND MFL_RUN = 0 then Inr (''Down'', ins, s)
      else
      rbind (smi_read MII_BMSR ins s) (\<lambda>(bmsr, ins, s).
      rbind (smi_read MII_BMCR ins s) (\<lambda>(bmcr, ins, s).
      rbind (smi_read MII_LPA ins s) (\<lambda>(lpa, ins, s).
      let buf =
        (if bmcr AND BMCR_ANENABLE \<noteq> 0
         then (if bmsr AND (BMSR_LSTATUS OR BMSR_RFAULT OR BMSR_ANEGCOMPLETE) \<noteq> BMSR_LSTATUS OR BMSR_ANEGCOMPLETE
               then ''Down''
               else ''Auto '' @ (if lpa AND (LPA_100HALF OR LPA_100FULL OR LPA_100BASE4) \<noteq> 0 then ''100M '' else ''10M '')
                 @ (if lpa AND (LPA_10FULL OR LPA_100FULL) \<noteq> 0 then ''Full'' else ''Half''))
         else (if bmsr AND BMSR_LSTATUS = 0 then ''Down''
               else ''Manual '' @ (if bmcr AND BMCR_SPEED100 \<noteq> 0 then ''100M '' else ''10M '')
                 @ (if bmcr AND BMCR_FULLDPLX \<noteq> 0 then ''Full'' else ''Half''))) in
      rbind (ASSERT (length buf < SMI_DESCRIBE_SIZE)) (\<lambda>_. Inr (buf, ins, s))))))"

definition mac_set_hwaddr :: "u8 list \<Rightarrow> mac \<Rightarrow> mac res" where
  "mac_set_hwaddr hwaddr s =
     (if mac_flags s AND MFL_RUN = 0 then Inr s
      else
      rbind (rd ''hwaddr'' hwaddr 5) (\<lambda>h5. rbind (rd ''hwaddr'' hwaddr 4) (\<lambda>h4.
      rbind (rd ''hwaddr'' hwaddr 3) (\<lambda>h3. rbind (rd ''hwaddr'' hwaddr 2) (\<lambda>h2.
      rbind (rd ''hwaddr'' hwaddr 1) (\<lambda>h1. rbind (rd ''hwaddr'' hwaddr 0) (\<lambda>h0.
      Inr (out MACA0LR (push_bit 24 (ucast h3) OR push_bit 16 (ucast h2) OR push_bit 8 (ucast h1) OR ucast h0)
          (out MACA0HR (push_bit 8 (ucast h5) OR ucast h4) s)))))))))"

text \<open>
  \<open>mac_start\<close>; \<open>sem\<close> is whether the semaphore could be created, \<open>rxa\<close> and \<open>txa\<close> the addresses of the
  rings, at whose heads the controller starts.
\<close>

definition rx_rings :: "mac \<Rightarrow> mac" where
  "rx_rings s = s\<lparr>rx_descs := map (\<lambda>d. d\<lparr>rd0 := RDES0_OWN, rd1 := RDES1_RCH OR MAC_BUF_SIZE\<rparr>) (rx_descs s), rx_ptr := 0, hw_rx := 0\<rparr>"

definition tx_rings :: "mac \<Rightarrow> mac" where
  "tx_rings s = s\<lparr>tx_descs := map (\<lambda>d. d\<lparr>td0 := TDES0_TCH, td1 := 0, tbuf := []\<rparr>) (tx_descs s), tx_ptr := 0, tx_active := None, hw_tx := 0\<rparr>"

definition mac_config :: "mac \<Rightarrow> mac" where
  "mac_config s = fold (\<lambda>(r, v). out r v)
     [(MACFFR, 0x10), (MACFCR, 0), (MACVLANTR, 0),
      (MACA0HR, 0x0000FFFF), (MACA0LR, 0xFFFFFFFF), (MACA1HR, 0x0000FFFF), (MACA1LR, 0xFFFFFFFF),
      (MACA2HR, 0x0000FFFF), (MACA2LR, 0xFFFFFFFF), (MACA3HR, 0x0000FFFF), (MACA3LR, 0xFFFFFFFF),
      (MACHTHR, 0), (MACHTLR, 0), (MACCR, MACCR_IPCO OR MACCR_RE OR MACCR_TE OR MACCR_FES OR MACCR_DM)] s"

fun phy_reset_wait :: "nat \<Rightarrow> u32 list \<Rightarrow> mac \<Rightarrow> (u32 list \<times> mac) res" where
  "phy_reset_wait 0 ins s = Inl Fuel"
| "phy_reset_wait (Suc n) ins s =
     rbind (smi_read MII_BMCR ins s) (\<lambda>(v, ins, s).
     if v AND BMCR_RESET \<noteq> 0 then phy_reset_wait n ins s else Inr (ins, s))"

definition dma_config :: "u32 list \<Rightarrow> mac \<Rightarrow> (u32 list \<times> mac) res" where
  "dma_config ins s =
     rbind (rdreg ins) (\<lambda>(dmasr, ins).
     let s = out DMASR dmasr s;
         s = out DMAIER (0x00010000 OR 0x00000040 OR 0x00000001) s;
         s = out DMABMR (0x02000000 OR 0x00020000 OR 0x00000100) s;
         s = out DMAOMR 0x00100000 s in
     rbind (busy_wait 0x00100000 ins) (\<lambda>ins.
     Inr (ins, out DMAOMR (0x04000000 OR 0x02000000 OR 0x00200000 OR 0x00002000 OR 0x00000002) s)))"

definition mac_start :: "bool \<Rightarrow> u32 \<Rightarrow> u32 \<Rightarrow> u32 list \<Rightarrow> mac \<Rightarrow> (u32 list \<times> mac) res" where
  "mac_start sem rxa txa ins s =
     (if mac_flags s AND MFL_RUN \<noteq> 0 then Inl Halt
      else
      rbind (if mac_flags s AND MFL_INIT = 0
             then rbind (ASSERT sem) (\<lambda>_. Inr (s\<lparr>mac_flags := mac_flags s OR MFL_INIT, tx_sem := False\<rparr>))
             else Inr s) (\<lambda>s.
      rbind (rdreg ins) (\<lambda>(v, ins). let s = out AHBRSTR (v OR 0x4000) s in
      rbind (rdreg ins) (\<lambda>(v, ins). let s = out AHBRSTR (v AND NOT 0x4000) s in
      rbind (rdreg ins) (\<lambda>(v, ins). let s = out AHBENR (v OR ETHMAC_ENABLES) s; s = tx_rings (rx_rings s) in
      rbind (rdreg ins) (\<lambda>(v, ins). let s = out DMABMR (v OR 1) s in
      rbind (busy_wait 1 ins) (\<lambda>ins.
      let s = mac_config (out DMATDLAR txa (out DMARDLAR rxa s)) in
      rbind (smi_write MII_BMCR BMCR_RESET ins s) (\<lambda>(ins, s).
      rbind (phy_reset_wait (length ins) ins s) (\<lambda>(ins, s).
      rbind (dma_config ins s) (\<lambda>(ins, s).
      Inr (ins, s\<lparr>mac_flags := mac_flags s OR MFL_RUN, eth_irq := True\<rparr>)))))))))))"

definition mac_stop :: "u32 list \<Rightarrow> mac \<Rightarrow> (u32 list \<times> mac) res" where
  "mac_stop ins s =
     (if mac_flags s AND MFL_RUN = 0 then Inr (ins, s)
      else let s = s\<lparr>eth_irq := False\<rparr> in
      rbind (smi_read MII_BMCR ins s) (\<lambda>(v, ins, s).
      rbind (smi_write MII_BMCR (v OR BMCR_PDOWN) ins s) (\<lambda>(ins, s).
      rbind (rdreg ins) (\<lambda>(v, ins).
      let s = out AHBENR (v AND NOT ETHMAC_ENABLES) s in
      Inr (ins, s\<lparr>mac_flags := mac_flags s AND NOT (MFL_RUN OR MFL_LINK)\<rparr>)))))"

text \<open>\<open>room\<close> is what \<open>xQueueSendFromISR\<close> returns for \<open>tcpip_queue\<close>.\<close>

definition ETH_IRQHandler :: "u32 \<Rightarrow> bool \<Rightarrow> mac \<Rightarrow> mac" where
  "ETH_IRQHandler dmasr room s =
     (let s = out DMASR dmasr s;
          s = (if dmasr AND 0x00000040 \<noteq> 0
               then (if room then s\<lparr>posted := posted s + 1\<rparr> else s\<lparr>queue_full := queue_full s + 1\<rparr>) else s) in
      if dmasr AND 0x00000001 \<noteq> 0 then s\<lparr>tx_sem := True\<rparr> else s)"

section \<open>Reception\<close>

definition rx_valid :: "u32 \<Rightarrow> bool" where
  "rx_valid des0 \<longleftrightarrow> des0 AND (RDES0_AFM OR RDES0_ES) = 0
     \<and> (des0 AND RDES0_FT = 0 \<or> des0 AND (RDES0_IPHCE OR RDES0_PCE) = 0)
     \<and> des0 AND RDES0_FS \<noteq> 0 \<and> des0 AND RDES0_LS \<noteq> 0"

fun rx_scan :: "nat \<Rightarrow> mac \<Rightarrow> (nat option \<times> mac) res" where
  "rx_scan 0 s = Inl Fuel"
| "rx_scan (Suc n) s =
     (let i = rx_ptr s; d = rx_descs s ! i; des0 = rd0 d in
      if owned des0 then Inr (None, s)
      else if rx_valid des0
      then Inr (Some i, s\<lparr>rx_ptr := ring_next i,
             rx_descs := (rx_descs s)[i := d\<lparr>rsize := drop_bit 16 (des0 AND RDES0_FL_MASK) - 4, roffset := 0\<rparr>]\<rparr>)
      else rx_scan n (s\<lparr>rx_descs := (rx_descs s)[i := d\<lparr>rd0 := RDES0_OWN\<rparr>], rx_ptr := ring_next i\<rparr>))"

definition mac_get_rx_descriptor :: "mac \<Rightarrow> (nat option \<times> mac) res" where
  "mac_get_rx_descriptor s = (if mac_flags s AND MFL_RUN = 0 then Inr (None, s) else rx_scan 5 s)"

definition mac_read_rx_descriptor :: "nat \<Rightarrow> u16 \<Rightarrow> mac \<Rightarrow> (u8 list \<times> mac) res" where
  "mac_read_rx_descriptor i len s =
     (let d = rx_descs s ! i;
          len = (if ucast len > rsize d - roffset d then ucast (rsize d - roffset d) else len) in
      if len > 0
      then if unat (roffset d) + unat len \<le> length (rbuf d)
           then Inr (take (unat len) (drop (unat (roffset d)) (rbuf d)),
                     s\<lparr>rx_descs := (rx_descs s)[i := d\<lparr>roffset := roffset d + ucast len\<rparr>]\<rparr>)
           else Inl (Oob ''rx_bufs'')
      else Inr ([], s))"

definition DMASR_RBUS :: u32 where "DMASR_RBUS = 0x00000080"
definition DMASR_RPS :: u32 where "DMASR_RPS = 0x000E0000"
definition DMASR_RPS_Suspended :: u32 where "DMASR_RPS_Suspended = 0x00080000"

definition mac_release_rx_descriptor :: "nat \<Rightarrow> u32 \<Rightarrow> mac \<Rightarrow> mac" where
  "mac_release_rx_descriptor i dmasr s =
     (let d = rx_descs s ! i; s = s\<lparr>rx_descs := (rx_descs s)[i := d\<lparr>rd0 := RDES0_OWN\<rparr>]\<rparr> in
      if dmasr AND DMASR_RPS = DMASR_RPS_Suspended then out DMARPDR DMASR_RBUS (out DMASR DMASR_RBUS s) else s)"

text \<open>
  \<open>alloc\<close> is what \<open>pbuf_alloc\<close> returns, the lengths of the buffers of a chain; of the first the
  padding in front of the frame is hidden while the frame is copied. The result is the
  return value and the bytes handed to \<open>netif->input\<close>.
\<close>

fun read_chain :: "nat \<Rightarrow> nat list \<Rightarrow> mac \<Rightarrow> (u8 list \<times> mac) res" where
  "read_chain i [] s = Inr ([], s)"
| "read_chain i (n # ns) s =
     rbind (mac_read_rx_descriptor i (of_nat n) s) (\<lambda>(b, s).
     rbind (read_chain i ns s) (\<lambda>(bs, s).
     Inr (b @ bs, s)))"

definition ETH_PAD_SIZE :: u32 where "ETH_PAD_SIZE = 2"

definition hide_pad :: "nat list \<Rightarrow> nat list" where
  "hide_pad lens = (case lens of [] \<Rightarrow> [] | n # ns \<Rightarrow> (n - unat ETH_PAD_SIZE) # ns)"

definition ethernetif_input :: "(u16 \<Rightarrow> nat list option) \<Rightarrow> u32 \<Rightarrow> mac \<Rightarrow> (bool \<times> u8 list option \<times> mac) res" where
  "ethernetif_input alloc dmasr s =
     rbind (mac_get_rx_descriptor s) (\<lambda>(rdesc, s).
     case rdesc of
       None \<Rightarrow> Inr (False, None, s)
     | Some i \<Rightarrow>
         (case alloc (ucast (rsize (rx_descs s ! i) + ETH_PAD_SIZE)) of
            None \<Rightarrow> Inr (True, None, mac_release_rx_descriptor i dmasr s)
          | Some lens \<Rightarrow>
              rbind (read_chain i (hide_pad lens) s) (\<lambda>(bytes, s).
              Inr (True, Some bytes, mac_release_rx_descriptor i dmasr s))))"


section \<open>The transmit ring is a queue\<close>

lemma slot_eq:
  "a \<le> (n::nat) \<Longrightarrow> n < a + 4 \<Longrightarrow> a \<le> m \<Longrightarrow> m < a + 4 \<Longrightarrow> n mod 4 = m mod 4 \<longleftrightarrow> n = m"
proof -
  have "x mod 4 = y mod 4 \<Longrightarrow> x \<le> y \<Longrightarrow> y < x + 4 \<Longrightarrow> x = y" for x y :: nat
    using mod_eq_dvd_iff_nat [of x y 4] by (auto dest!: dvd_imp_le)
  from this [of n m] this [of m n] show "a \<le> n \<Longrightarrow> n < a + 4 \<Longrightarrow> a \<le> m \<Longrightarrow> m < a + 4 \<Longrightarrow> n mod 4 = m mod 4 \<longleftrightarrow> n = m" by (cases "n \<le> m") auto
qed

lemma ring_next_mod [simp]: "ring_next (n mod 4) = Suc n mod 4"
  by (simp add: ring_next_def) presburger

text \<open>
  \<open>tx_rel acc k j\<close>: of the packets \<open>acc\<close> that were accepted, \<open>k\<close> have been sent and \<open>j\<close> freed.
\<close>

definition tx_desc :: "bool \<Rightarrow> nat \<times> u8 list \<Rightarrow> tdes" where
  "tx_desc own a = \<lparr>td0 = (if own then 0xF0D00000 else 0x70D00000), td1 = of_nat (length (snd a)), tbuf = snd a, tpbuf = Some (fst a)\<rparr>"

definition tx_rel :: "(nat \<times> u8 list) list \<Rightarrow> nat \<Rightarrow> nat \<Rightarrow> mac \<Rightarrow> bool" where
  "tx_rel acc k j s \<longleftrightarrow> j \<le> k \<and> k \<le> length acc \<and> length acc \<le> j + 4
     \<and> length (tx_descs s) = 4 \<and> tx_ptr s = length acc mod 4 \<and> hw_tx s = k mod 4
     \<and> tx_active s = (if j = length acc then None else Some (j mod 4))
     \<and> (\<forall>n. k \<le> n \<and> n < length acc \<longrightarrow> tx_descs s ! (n mod 4) = tx_desc True (acc ! n))
     \<and> (\<forall>n. j \<le> n \<and> n < k \<longrightarrow> tx_descs s ! (n mod 4) = tx_desc False (acc ! n))
     \<and> (\<forall>n. length acc \<le> n \<and> n < j + 4 \<longrightarrow> \<not> owned (td0 (tx_descs s ! (n mod 4))))
     \<and> (\<forall>a \<in> set acc. length (snd a) < 2 ^ 16)
     \<and> held s = map fst acc \<and> freed s = map fst (take j acc)
     \<and> wire s = map (\<lambda>a. (True, True, snd a)) (take k acc)"

lemma tx_desc_bits [simp]:
  "owned (td0 (tx_desc own a)) \<longleftrightarrow> own"
  "td0 (tx_desc True a) AND TDES0_FS \<noteq> 0" "td0 (tx_desc True a) AND TDES0_LS \<noteq> 0"
  "td1 (tx_desc own a) = of_nat (length (snd a))" "tbuf (tx_desc own a) = snd a" "tpbuf (tx_desc own a) = Some (fst a)"
  by (simp_all add: tx_desc_def owned_def TDES0_FS_def TDES0_LS_def)

lemma tx_desc_sent: "tx_desc True a\<lparr>td0 := td0 (tx_desc True a) AND NOT TDES0_OWN\<rparr> = tx_desc False a"
  by (simp add: tx_desc_def TDES0_OWN_def)

lemma tx_rel_cong:
  assumes "tx_rel acc k j s" "tx_descs s' = tx_descs s" "tx_ptr s' = tx_ptr s" "hw_tx s' = hw_tx s"
    "tx_active s' = tx_active s" "held s' = held s" "freed s' = freed s" "wire s' = wire s"
  shows "tx_rel acc k j s'"
  using assms by (simp add: tx_rel_def)

lemma tx_rel_idle: "tx_rel acc k j s \<Longrightarrow> k = length acc \<Longrightarrow> \<not> owned (td0 (tx_descs s ! (k mod 4)))"
proof (cases "k = j + 4")
  case True
  assume a: "tx_rel acc k j s"
  have "k mod 4 = j mod 4" using True by simp
  moreover have "tx_descs s ! (j mod 4) = tx_desc False (acc ! j)" using a True by (simp add: tx_rel_def)
  ultimately show ?thesis by simp
qed (auto simp: tx_rel_def)

lemma dma_tx_rel:
  assumes "tx_rel acc k j s"
  shows "tx_rel acc (if k < length acc then Suc k else k) j (dma_tx s)"
proof (cases "k < length acc")
  case True
  have d: "tx_descs s ! (k mod 4) = tx_desc True (acc ! k)" and h: "hw_tx s = k mod 4" and l: "length (tx_descs s) = 4"
    using assms True by (simp_all add: tx_rel_def)
  have len: "length (snd (acc ! k)) < 2 ^ 16" using assms True by (simp add: tx_rel_def)
  then have u: "unat (of_nat (length (snd (acc ! k))) :: u32) = length (snd (acc ! k))"
    by (simp add: unsigned_of_nat take_bit_nat_eq_self)
  let ?s = "s\<lparr>tx_descs := (tx_descs s)[k mod 4 := tx_desc False (acc ! k)], wire := wire s @ [(True, True, snd (acc ! k))], hw_tx := Suc k mod 4\<rparr>"
  have "dma_tx s = ?s"
    by (simp add: dma_tx_def Let_def h d u tx_desc_sent)
  moreover have "tx_rel acc (Suc k) j ?s"
  proof -
    have upd: "(tx_descs s)[k mod 4 := d] ! (n mod 4) = (if n = k then d else tx_descs s ! (n mod 4))" if "j \<le> n" "n < j + 4" for n d
      using slot_eq [of j n k] that assms True by (auto simp: tx_rel_def nth_list_update)
    show ?thesis
      using assms True by (auto simp: tx_rel_def upd less_Suc_eq take_Suc_conv_app_nth)
  qed
  ultimately show ?thesis using True by simp
next
  case False
  then have k: "k = length acc" and h: "hw_tx s = k mod 4" using assms by (auto simp: tx_rel_def)
  have "dma_tx s = s" using tx_rel_idle [OF assms k] by (simp add: dma_tx_def Let_def h)
  then show ?thesis using assms False by simp
qed

lemma dma_tx_rel_ex: "tx_rel acc k j s \<Longrightarrow> \<exists>k'. tx_rel acc k' j (dma_tx s)"
  using dma_tx_rel by blast

lemma dma_txs_rel: "tx_rel acc k j s \<Longrightarrow> \<exists>k'. tx_rel acc k' j ((dma_tx ^^ n) s)"
  by (induction n) (auto dest: dma_tx_rel_ex)

lemma dma_tx_frame:
  "mac_flags (dma_tx s) = mac_flags s \<and> rx_descs (dma_tx s) = rx_descs s \<and> rx_ptr (dma_tx s) = rx_ptr s
   \<and> hw_rx (dma_tx s) = hw_rx s \<and> tx_ptr (dma_tx s) = tx_ptr s"
  by (simp add: dma_tx_def Let_def)

definition rx_same :: "mac \<Rightarrow> mac \<Rightarrow> bool" where
  "rx_same s s' \<longleftrightarrow> rx_descs s' = rx_descs s \<and> rx_ptr s' = rx_ptr s \<and> hw_rx s' = hw_rx s"

lemma rx_same_trans: "rx_same s s' \<Longrightarrow> rx_same s' s'' \<Longrightarrow> rx_same s s''"
  by (simp add: rx_same_def)

lemma dma_txs_frame: "rx_same s ((dma_tx ^^ n) s) \<and> tx_ptr ((dma_tx ^^ n) s) = tx_ptr s"
  by (induction n) (simp_all add: rx_same_def dma_tx_frame)

lemma tx_rel_free:
  assumes "tx_rel acc k j s" "j < k"
  shows "tx_rel acc k (Suc j) (s\<lparr>freed := freed s @ [fst (acc ! j)], tx_active := (if Suc j mod 4 = tx_ptr s then None else Some (Suc j mod 4))\<rparr>)"
proof -
  have act: "Suc j mod 4 = length acc mod 4 \<longleftrightarrow> Suc j = length acc"
    using slot_eq [of "Suc j" "Suc j" "length acc"] assms by (simp add: tx_rel_def)
  have "\<not> owned (td0 (tx_descs s ! (n mod 4)))" if "length acc \<le> n" "n < Suc j + 4" for n
  proof (cases "n = j + 4")
    case True
    then have "n mod 4 = j mod 4" by simp
    then show ?thesis using assms by (simp add: tx_rel_def)
  qed (use that assms in \<open>auto simp: tx_rel_def\<close>)
  then show ?thesis
    using assms act by (auto simp: tx_rel_def take_Suc_conv_app_nth)
qed

lemma housekeeping_loop_rel:
  "tx_rel acc k j s \<Longrightarrow> k - j < n \<Longrightarrow>
   \<exists>s'. housekeeping_loop n s = Inr s' \<and> tx_rel acc k k s' \<and> rx_same s s' \<and> tx_ptr s' = tx_ptr s"
proof (induction n arbitrary: j s)
  case (Suc n)
  have "j \<le> k" "k \<le> length acc" using Suc.prems(1) by (simp_all add: tx_rel_def)
  then consider "j = length acc" | "j = k" "k < length acc" | "j < k" by linarith
  then show ?case
  proof cases
    case 1
    then have "tx_active s = None" "k = j" using Suc.prems(1) by (auto simp: tx_rel_def)
    then show ?thesis using Suc.prems(1) by (simp add: rx_same_def)
  next
    case 2
    then have "tx_active s = Some (k mod 4)" "tx_descs s ! (k mod 4) = tx_desc True (acc ! k)"
      using Suc.prems(1) by (auto simp: tx_rel_def)
    then show ?thesis using Suc.prems(1) 2 by (simp add: rx_same_def)
  next
    case 3
    let ?s = "s\<lparr>freed := freed s @ [fst (acc ! j)], tx_active := (if Suc j mod 4 = tx_ptr s then None else Some (Suc j mod 4))\<rparr>"
    have "tx_active s = Some (j mod 4)" "tx_descs s ! (j mod 4) = tx_desc False (acc ! j)"
      using Suc.prems(1) 3 by (auto simp: tx_rel_def)
    then have "housekeeping_loop (Suc n) s = housekeeping_loop n ?s" by (simp add: Let_def)
    then show ?thesis
      using Suc.IH [OF tx_rel_free [OF Suc.prems(1) 3]] Suc.prems(2) 3 by (auto simp: rx_same_def)
  qed
qed simp

lemma maczero_housekeeping_rel:
  "tx_rel acc k j s \<Longrightarrow>
   \<exists>s'. maczero_housekeeping s = Inr s' \<and> tx_rel acc k k s' \<and> rx_same s s' \<and> tx_ptr s' = tx_ptr s"
  unfolding maczero_housekeeping_def by (rule housekeeping_loop_rel [of acc k j]) (auto simp: tx_rel_def)

lemma tx_wait_rel:
  assumes "tx_rel acc k j s" "i = length acc mod 4"
  shows "tx_wait start timeout i env s = Inl Fuel
    \<or> (\<exists>ok env' s' k' j'. tx_wait start timeout i env s = Inr (ok, env', if ok then s'\<lparr>tx_ptr := Suc (length acc) mod 4\<rparr> else s')
        \<and> tx_rel acc k' j' s' \<and> rx_same s s' \<and> (ok \<longrightarrow> length acc < j' + 4))"
  using assms
proof (induction env arbitrary: s k j)
  case (Cons e env)
  obtain t n where e: "e = (t, n)" by (cases e)
  let ?s = "(dma_tx ^^ n) s"
  obtain k1 where k1: "tx_rel acc k1 j ?s" using dma_txs_rel [OF Cons.prems(1)] by blast
  have f1: "rx_same s ?s" using dma_txs_frame by blast
  obtain s2 where s2: "maczero_housekeeping ?s = Inr s2" "tx_rel acc k1 k1 s2" "rx_same ?s s2"
    using maczero_housekeeping_rel [OF k1] by blast
  have f2: "rx_same s s2" using f1 s2(3) by (rule rx_same_trans)
  consider (out) "mac_flags ?s AND MFL_LINK = 0 \<or> timeout \<noteq> 0 \<and> t - start \<ge> timeout"
    | (got) "\<not> (mac_flags ?s AND MFL_LINK = 0 \<or> timeout \<noteq> 0 \<and> t - start \<ge> timeout)" "\<not> owned (td0 (tx_descs s2 ! i))"
    | (again) "\<not> (mac_flags ?s AND MFL_LINK = 0 \<or> timeout \<noteq> 0 \<and> t - start \<ge> timeout)" "owned (td0 (tx_descs s2 ! i))"
    by blast
  then show ?case
  proof cases
    case out
    then have "tx_wait start timeout i (e # env) s = Inr (False, env, ?s)" by (simp add: e Let_def)
    then show ?thesis using k1 f1 by fastforce
  next
    case got
    have "length acc < k1 + 4"
    proof (rule ccontr)
      assume "\<not> length acc < k1 + 4"
      then have "length acc = k1 + 4" using s2(2) by (simp add: tx_rel_def)
      then have "i = k1 mod 4" "k1 < length acc" using Cons.prems(2) by simp_all
      then show False using got(2) s2(2) by (simp add: tx_rel_def)
    qed
    moreover have "tx_wait start timeout i (e # env) s = Inr (True, env, s2\<lparr>tx_ptr := Suc (length acc) mod 4\<rparr>)"
      using got s2(1) Cons.prems(2) by (simp add: e Let_def)
    ultimately show ?thesis using s2(2) f2 by fastforce
  next
    case again
    then have w: "tx_wait start timeout i (e # env) s = tx_wait start timeout i env (s2\<lparr>tx_sem := False\<rparr>)"
      using s2(1) by (auto simp: e Let_def)
    have "tx_rel acc k1 k1 (s2\<lparr>tx_sem := False\<rparr>)" by (rule tx_rel_cong [OF s2(2)]) simp_all
    moreover have same: "rx_same (s2\<lparr>tx_sem := False\<rparr>) = rx_same s" using f2 by (simp add: rx_same_def fun_eq_iff)
    ultimately show ?thesis
      using Cons.IH [of k1 k1 "s2\<lparr>tx_sem := False\<rparr>"] Cons.prems(2) unfolding w same by blast
  qed
qed simp


lemma filled_desc:
  "tx_descs (tx_fill i p True True q s) = (tx_descs s)[i := \<lparr>td0 = 0x70D00000 AND NOT TDES0_FS, td1 = of_nat (length q), tbuf = q, tpbuf = Some p\<rparr>]"
  by (simp add: tx_fill_def TDES0_CIC_def TDES0_IC_def TDES0_TCH_def TDES0_LS_def TDES0_FS_def)

lemma tx_rel_accept:
  assumes r: "tx_rel acc k j s" and l: "length acc < j + 4" "length q < 2 ^ 16"
    and s': "tx_descs s' = (tx_descs s)[length acc mod 4 := tx_desc True (p, q)]" "tx_ptr s' = Suc (length acc) mod 4"
      "hw_tx s' = hw_tx s" "held s' = held s @ [p]" "freed s' = freed s" "wire s' = wire s"
      "tx_active s' = (if tx_active s = None then Some (length acc mod 4) else tx_active s)"
  shows "tx_rel (acc @ [(p, q)]) k j s'"
proof -
  have upd: "(tx_descs s)[length acc mod 4 := d] ! (n mod 4) = (if n = length acc then d else tx_descs s ! (n mod 4))" if "j \<le> n" "n < j + 4" for n d
    using slot_eq [of j n "length acc"] that assms by (auto simp: tx_rel_def nth_list_update)
  show ?thesis
    using r l by (auto simp: tx_rel_def s' upd nth_append less_Suc_eq)
qed

lemma maczero_transmit_rel:
  assumes r: "tx_rel acc k j s" and q: "length q < 2 ^ 16"
  shows "maczero_transmit start timeout p [q] env s = Inl Fuel
    \<or> (\<exists>ok env' s' k' j'. maczero_transmit start timeout p [q] env s = Inr (ok, env', s')
        \<and> tx_rel (if ok then acc @ [(p, q)] else acc) k' j' s' \<and> rx_same s s')"
proof -
  let ?i = "length acc mod 4"
  have i: "tx_ptr s = ?i" "?i < 4" using r by (simp_all add: tx_rel_def)
  consider (fuel) "tx_wait start timeout ?i env s = Inl Fuel"
    | (res) ok env' s1 k' j' where
      "tx_wait start timeout ?i env s = Inr (ok, env', if ok then s1\<lparr>tx_ptr := Suc (length acc) mod 4\<rparr> else s1)"
      "tx_rel acc k' j' s1" "rx_same s s1" "ok \<longrightarrow> length acc < j' + 4"
    using tx_wait_rel [OF r refl] by blast
  then show ?thesis
  proof cases
    case fuel
    then show ?thesis by (simp add: maczero_transmit_def i)
  next
    case res
    show ?thesis
    proof (cases ok)
      case False
      then have "maczero_transmit start timeout p [q] env s = Inr (False, env', s1)"
        using res(1) by (simp add: maczero_transmit_def i)
      then show ?thesis using res by fastforce
    next
      case True
      let ?s2 = "tx_fill ?i p True True q (s1\<lparr>tx_ptr := Suc (length acc) mod 4\<rparr>)"
      have len: "length (tx_descs s1) = 4" using res(2) by (simp add: tx_rel_def)
      have d: "tx_descs ?s2 ! ?i = \<lparr>td0 = 0x70D00000 AND NOT TDES0_FS, td1 = of_nat (length q), tbuf = q, tpbuf = Some p\<rparr>"
        unfolding filled_desc using i len by simp
      have own: "(tx_descs ?s2 ! ?i)\<lparr>td0 := td0 (tx_descs ?s2 ! ?i) OR (TDES0_OWN OR TDES0_FS)\<rparr> = tx_desc True (p, q)"
        unfolding d by (simp add: tx_desc_def TDES0_OWN_def TDES0_FS_def)
      obtain s3 where s3: "maczero_transmit start timeout p [q] env s = Inr (True, env', s3)"
        "s3 = (let s = (out DMATPDR 0 (?s2\<lparr>tx_descs := (tx_descs ?s2)[?i := tx_desc True (p, q)]\<rparr>));
                   s = s\<lparr>held := held s @ [p]\<rparr> in
               if tx_active s = None then s\<lparr>tx_active := Some ?i\<rparr> else s)"
        using res(1) True by (simp add: maczero_transmit_def i own del: tx_fill_def) (simp add: Let_def own)
      have "tx_rel (acc @ [(p, q)]) k' j' s3"
        by (rule tx_rel_accept [OF res(2) _ q])
          (use res(4) True in \<open>simp_all add: s3(2) Let_def out_def filled_desc, simp_all add: tx_fill_def Let_def\<close>)
      moreover have "rx_same s s3" using res(3) by (simp add: s3(2) Let_def out_def tx_fill_def rx_same_def)
      ultimately show ?thesis using s3(1) True by fastforce
    qed
  qed
qed


section \<open>The receive ring is a queue\<close>

text \<open>
  A frame as the controller stores it: the status word says how long the frame is, with its
  four check bytes. \<open>rx_rel rxs r\<close>: of the frames \<open>rxs\<close> that were stored, the driver has taken \<open>r\<close>.
\<close>

definition frame_ok :: "u32 \<times> u8 list \<Rightarrow> bool" where
  "frame_ok f \<longleftrightarrow> \<not> owned (fst f) \<and> 4 \<le> length (snd f) \<and> length (snd f) \<le> 1522
     \<and> drop_bit 16 (fst f AND RDES0_FL_MASK) = of_nat (length (snd f))"

definition payload :: "u32 \<times> u8 list \<Rightarrow> u8 list" where
  "payload f = take (length (snd f) - 4) (snd f)"

definition rx_rel :: "(u32 \<times> u8 list) list \<Rightarrow> nat \<Rightarrow> mac \<Rightarrow> bool" where
  "rx_rel rxs r s \<longleftrightarrow> r \<le> length rxs \<and> length rxs \<le> r + 4
     \<and> length (rx_descs s) = 4 \<and> rx_ptr s = r mod 4 \<and> hw_rx s = length rxs mod 4
     \<and> (\<forall>n. r \<le> n \<and> n < length rxs \<longrightarrow> rd0 (rx_descs s ! (n mod 4)) = fst (rxs ! n)
          \<and> take (length (snd (rxs ! n))) (rbuf (rx_descs s ! (n mod 4))) = snd (rxs ! n))
     \<and> (\<forall>n. length rxs \<le> n \<and> n < r + 4 \<longrightarrow> owned (rd0 (rx_descs s ! (n mod 4))))
     \<and> (\<forall>i < 4. length (rbuf (rx_descs s ! i)) = 1524)
     \<and> (\<forall>f \<in> set rxs. frame_ok f)"

lemma rx_rel_cong: "rx_rel rxs r s \<Longrightarrow> rx_same s s' \<Longrightarrow> rx_rel rxs r s'"
  by (simp add: rx_rel_def rx_same_def)

text \<open>An update of the descriptor for position \<open>k\<close> touches no other position of the window.\<close>

lemma ring_update:
  "a \<le> n \<Longrightarrow> n < a + 4 \<Longrightarrow> a \<le> k \<Longrightarrow> k < a + 4 \<Longrightarrow> length xs = 4 \<Longrightarrow>
   xs[k mod 4 := d] ! (n mod 4) = (if n = k then d else xs ! (n mod 4))"
  using slot_eq [of a n k] by (auto simp: nth_list_update)

lemma rx_rel_store:
  assumes r: "rx_rel rxs r s" and f: "frame_ok f" and o: "owned (rd0 (rx_descs s ! hw_rx s))"
  shows "rx_rel (rxs @ [f]) r (dma_rx (fst f) (snd f) s)"
proof -
  let ?k = "length rxs" let ?i = "?k mod 4"
  have h: "hw_rx s = ?i" and len: "length (rx_descs s) = 4" using r by (simp_all add: rx_rel_def)
  have lt: "?k < r + 4"
  proof (rule ccontr)
    assume "\<not> ?k < r + 4"
    then have k: "?k = r + 4" using r by (simp add: rx_rel_def)
    then have "?i = r mod 4" "r < ?k" by simp_all
    then have "rd0 (rx_descs s ! ?i) = fst (rxs ! r)" "frame_ok (rxs ! r)" using r k by (simp_all add: rx_rel_def)
    then show False using o h by (simp add: frame_ok_def)
  qed
  have b: "length (rbuf (rx_descs s ! ?i)) = 1524" and f': "length (snd f) \<le> 1522" using r f by (simp_all add: rx_rel_def frame_ok_def)
  have upd: "(rx_descs s)[?i := d] ! (n mod 4) = (if n = ?k then d else rx_descs s ! (n mod 4))" if "r \<le> n" "n < r + 4" for n d
    using ring_update [of r n ?k] that lt len r by (auto simp: rx_rel_def)
  have bufs: "length (rbuf ((rx_descs s)[?i := d] ! i)) = 1524" if "i < 4" "length (rbuf d) = 1524" for i d
    using that r by (auto simp: rx_rel_def nth_list_update)
  have d: "dma_rx (fst f) (snd f) s = s\<lparr>rx_descs := (rx_descs s)[?i := (rx_descs s ! ?i)\<lparr>rd0 := fst f, rbuf := copy_into (rbuf (rx_descs s ! ?i)) 0 (snd f)\<rparr>],
       hw_rx := Suc ?k mod 4\<rparr>"
    using o by (simp add: dma_rx_def h Let_def)
  have c: "length (copy_into (rbuf (rx_descs s ! ?i)) 0 (snd f)) = 1524" "take (length (snd f)) (copy_into (rbuf (rx_descs s ! ?i)) 0 (snd f)) = snd f"
    using b f' by (simp_all add: copy_into_def)
  show ?thesis
    using r lt f c bufs by (auto simp: rx_rel_def d upd nth_append less_Suc_eq)
qed

lemma rx_rel_take:
  assumes r: "rx_rel rxs r s" and l: "r < length rxs"
    and s': "rx_descs s' = (rx_descs s)[r mod 4 := d]" "rx_ptr s' = Suc r mod 4" "hw_rx s' = hw_rx s"
    and d: "owned (rd0 d)" "length (rbuf d) = 1524"
  shows "rx_rel rxs (Suc r) s'"
proof -
  have len: "length (rx_descs s) = 4" using r by (simp add: rx_rel_def)
  have upd: "(rx_descs s)[r mod 4 := d] ! (n mod 4) = (if n = r then d else rx_descs s ! (n mod 4))" if "r \<le> n" "n < r + 4" for n
    using ring_update [of r n r, OF that _ _ len] by auto
  have "owned (rd0 ((rx_descs s)[r mod 4 := d] ! (n mod 4)))" if n: "length rxs \<le> n" "n < Suc r + 4" for n
  proof (cases "n = r + 4")
    case True
    then have "n mod 4 = r mod 4" by simp
    then show ?thesis using d len by simp
  qed (use n l r d in \<open>auto simp: upd rx_rel_def\<close>)
  moreover have "\<forall>i < 4. length (rbuf ((rx_descs s)[r mod 4 := d] ! i)) = 1524"
    using r d by (auto simp: rx_rel_def nth_list_update)
  ultimately show ?thesis
    using r l unfolding rx_rel_def s' by (auto simp: upd)
qed

lemma rx_rel_at:
  assumes "rx_rel rxs r s" "r < length rxs"
  shows "rx_ptr s = r mod 4" "rd0 (rx_descs s ! (r mod 4)) = fst (rxs ! r)" "\<not> owned (fst (rxs ! r))"
    "frame_ok (rxs ! r)" "length (rbuf (rx_descs s ! (r mod 4))) = 1524"
    "take (length (snd (rxs ! r))) (rbuf (rx_descs s ! (r mod 4))) = snd (rxs ! r)"
  using assms by (simp_all add: rx_rel_def) (auto simp: frame_ok_def)

lemma rx_rel_empty: "rx_rel rxs r s \<Longrightarrow> r = length rxs \<Longrightarrow> owned (rd0 (rx_descs s ! rx_ptr s))"
  by (simp add: rx_rel_def)

text \<open>What \<open>mac_get_rx_descriptor\<close> finds: the first valid frame of those that wait.\<close>

definition tx_same :: "mac \<Rightarrow> mac \<Rightarrow> bool" where
  "tx_same s s' \<longleftrightarrow> tx_descs s' = tx_descs s \<and> tx_ptr s' = tx_ptr s \<and> hw_tx s' = hw_tx s \<and> tx_active s' = tx_active s
     \<and> held s' = held s \<and> freed s' = freed s \<and> wire s' = wire s"

definition rx_waits :: "(u32 \<times> u8 list) list \<Rightarrow> nat \<Rightarrow> nat \<Rightarrow> mac \<Rightarrow> mac \<Rightarrow> bool" where
  "rx_waits rxs r r' s s' \<longleftrightarrow> r \<le> r' \<and> r' < length rxs \<and> (\<forall>n. r \<le> n \<and> n < r' \<longrightarrow> \<not> rx_valid (fst (rxs ! n))) \<and> rx_valid (fst (rxs ! r'))
     \<and> tx_same s s' \<and> (\<exists>t. rx_rel rxs r' t \<and> s' = t\<lparr>rx_ptr := Suc r' mod 4,
         rx_descs := (rx_descs t)[r' mod 4 := (rx_descs t ! (r' mod 4))\<lparr>rsize := of_nat (length (snd (rxs ! r'))) - 4, roffset := 0\<rparr>]\<rparr>)"

lemma rx_scan_rel:
  "rx_rel rxs r s \<Longrightarrow> length rxs - r < n \<Longrightarrow>
   (\<exists>s'. rx_scan n s = Inr (None, s') \<and> (\<forall>n. r \<le> n \<and> n < length rxs \<longrightarrow> \<not> rx_valid (fst (rxs ! n))) \<and> tx_same s s' \<and> rx_rel rxs (length rxs) s')
   \<or> (\<exists>s' r'. rx_scan n s = Inr (Some (r' mod 4), s') \<and> rx_waits rxs r r' s s')"
proof (induction n arbitrary: r s)
  case (Suc n)
  show ?case
  proof (cases "r = length rxs")
    case True
    then show ?thesis using Suc.prems(1) rx_rel_empty [OF Suc.prems(1) True]
      by (auto simp: tx_same_def Let_def)
  next
    case False
    then have lt: "r < length rxs" using Suc.prems(1) by (simp add: rx_rel_def)
    note at = rx_rel_at [OF Suc.prems(1) lt]
    show ?thesis
    proof (cases "rx_valid (fst (rxs ! r))")
      case True
      have "rx_scan (Suc n) s = Inr (Some (r mod 4), s\<lparr>rx_ptr := Suc r mod 4,
          rx_descs := (rx_descs s)[r mod 4 := (rx_descs s ! (r mod 4))\<lparr>rsize := of_nat (length (snd (rxs ! r))) - 4, roffset := 0\<rparr>]\<rparr>)"
        using at(3,4) True by (simp add: at(1,2) Let_def frame_ok_def)
      then show ?thesis
        using Suc.prems(1) lt True by (fastforce simp: rx_waits_def tx_same_def)
    next
      case False
      let ?s = "s\<lparr>rx_descs := (rx_descs s)[r mod 4 := (rx_descs s ! (r mod 4))\<lparr>rd0 := RDES0_OWN\<rparr>], rx_ptr := Suc r mod 4\<rparr>"
      have e: "rx_scan (Suc n) s = rx_scan n ?s"
        using at(3) False by (simp add: at(1,2) Let_def)
      have rel: "rx_rel rxs (Suc r) ?s"
        by (rule rx_rel_take [OF Suc.prems(1) lt, where d = "(rx_descs s ! (r mod 4))\<lparr>rd0 := RDES0_OWN\<rparr>"]) (simp_all add: at(5) owned_def RDES0_OWN_def)
      have same: "tx_same ?s = tx_same s" by (simp add: tx_same_def fun_eq_iff)
      have skip: "(\<forall>m. r \<le> m \<and> m < l \<longrightarrow> \<not> rx_valid (fst (rxs ! m)))" if "\<forall>m. Suc r \<le> m \<and> m < l \<longrightarrow> \<not> rx_valid (fst (rxs ! m))" for l
        using that False by (metis Suc_leI le_neq_implies_less)
      have w: "rx_waits rxs r r' s s'" if "rx_waits rxs (Suc r) r' ?s s'" for r' s'
        using that skip by (auto simp: rx_waits_def same)
      have "length rxs - Suc r < n" using Suc.prems(2) lt by simp
      from Suc.IH [OF rel this] show ?thesis
      proof (elim disjE exE conjE)
        fix s'
        assume "rx_scan n ?s = Inr (None, s')" "\<forall>m. Suc r \<le> m \<and> m < length rxs \<longrightarrow> \<not> rx_valid (fst (rxs ! m))"
          "tx_same ?s s'" "rx_rel rxs (length rxs) s'"
        then show ?thesis using skip unfolding e same by blast
      next
        fix s' r'
        assume "rx_scan n ?s = Inr (Some (r' mod 4), s')" "rx_waits rxs (Suc r) r' ?s s'"
        then show ?thesis using w unfolding e by blast
      qed
    qed
  qed
qed simp


text \<open>Reading the chain of buffers copies the frame without its check bytes.\<close>

lemma min_split: "min (n + l) (z - q) = min n (z - q) + min l (z - (q + min n (z - q)))" for n l z q :: nat
  by (auto simp: min_def)

lemma read_chain_takes:
  "i < length (rx_descs s) \<Longrightarrow> roffset (rx_descs s ! i) \<le> rsize (rx_descs s ! i) \<Longrightarrow>
   unat (rsize (rx_descs s ! i)) \<le> length (rbuf (rx_descs s ! i)) \<Longrightarrow> unat (rsize (rx_descs s ! i)) < 2 ^ 16 \<Longrightarrow> \<forall>n \<in> set lens. n < 2 ^ 16 \<Longrightarrow>
   \<exists>s' k. read_chain i lens s = Inr (take (min (sum_list lens) (unat (rsize (rx_descs s ! i)) - unat (roffset (rx_descs s ! i))))
            (drop (unat (roffset (rx_descs s ! i))) (rbuf (rx_descs s ! i))), s')
     \<and> s' = s\<lparr>rx_descs := (rx_descs s)[i := (rx_descs s ! i)\<lparr>roffset := k\<rparr>]\<rparr>"
proof (induction lens arbitrary: s)
  case Nil
  have "s = s\<lparr>rx_descs := (rx_descs s)[i := (rx_descs s ! i)\<lparr>roffset := roffset (rx_descs s ! i)\<rparr>]\<rparr>" by simp
  then show ?case by simp (rule exI [of _ "roffset (rx_descs s ! i)"], simp)
next
  case (Cons n ns)
  let ?d = "rx_descs s ! i"
  let ?o = "unat (roffset ?d)" and ?z = "unat (rsize ?d)"
  have n: "n < 2 ^ 16" "ucast (of_nat n :: u16) = (of_nat n :: u32)" "unat (of_nat n :: u32) = n" "unat (of_nat n :: u16) = n"
    using Cons.prems(5) by (simp_all add: ucast_of_nat_small unsigned_of_nat take_bit_nat_eq_self)
  have oz: "?o \<le> ?z" "unat (rsize ?d - roffset ?d) = ?z - ?o"
    using Cons.prems(2) by (simp_all add: word_le_nat_alt unat_sub)
  have gt: "(of_nat n :: u32) > rsize ?d - roffset ?d \<longleftrightarrow> n > ?z - ?o"
    by (simp add: word_less_nat_alt oz(2) n(3))
  define m where "m = min n (?z - ?o)"
  define c :: u16 where "c = (if n > ?z - ?o then ucast (rsize ?d - roffset ?d) else of_nat n)"
  have c: "unat c = m" using n oz Cons.prems(4) by (auto simp: c_def m_def unsigned_ucast_eq unsigned_take_bit_eq take_bit_nat_eq_self)
  have cu: "unat (ucast c :: u32) = m"
    using n(1) c by (simp add: m_def unsigned_ucast_eq unsigned_take_bit_eq take_bit_nat_eq_self)
  let ?s = "s\<lparr>rx_descs := (rx_descs s)[i := ?d\<lparr>roffset := roffset ?d + ucast c\<rparr>]\<rparr>"
  have step: "mac_read_rx_descriptor i (of_nat n) s = Inr (take m (drop ?o (rbuf ?d)), ?s)"
  proof (cases "m = 0")
    case True
    then have "c = 0" using c unat_eq_zero by blast
    then show ?thesis using True by (simp add: mac_read_rx_descriptor_def Let_def n(2) gt flip: c_def)
  next
    case False
    then have "0 < c" using c by (simp add: word_gt_0 flip: unat_gt_0)
    moreover have "?o + m \<le> length (rbuf ?d)" using Cons.prems(3) oz(1) by (simp add: m_def)
    ultimately show ?thesis by (simp add: mac_read_rx_descriptor_def Let_def n(2) gt c flip: c_def)
  qed
  have off: "unat (roffset ?d + ucast c) = ?o + m"
  proof -
    have "?o + m < 2 ^ 32" using oz(1) Cons.prems(4) by (auto simp: m_def min_def)
    then show ?thesis using cu by (simp add: unat_add_lem [THEN iffD1])
  qed
  have d': "rx_descs ?s ! i = ?d\<lparr>roffset := roffset ?d + ucast c\<rparr>" using Cons.prems(1) by simp
  have le: "roffset ?d + ucast c \<le> rsize ?d" using oz(1) by (simp add: word_le_nat_alt off m_def)
  obtain k where k: "read_chain i ns ?s = Inr (take (min (sum_list ns) (?z - (?o + m))) (drop (?o + m) (rbuf ?d)),
      ?s\<lparr>rx_descs := (rx_descs ?s)[i := (rx_descs ?s ! i)\<lparr>roffset := k\<rparr>]\<rparr>)"
    using Cons.IH [of ?s] Cons.prems le by (auto simp: d' off)
  have "take m (drop ?o (rbuf ?d)) @ take (min (sum_list ns) (?z - (?o + m))) (drop (?o + m) (rbuf ?d))
      = take (min (n + sum_list ns) (?z - ?o)) (drop ?o (rbuf ?d))"
  proof -
    have "min (n + sum_list ns) (?z - ?o) = m + min (sum_list ns) (?z - (?o + m))"
      unfolding m_def by (rule min_split)
    then show ?thesis by (simp add: take_add add.commute)
  qed
  then show ?case using step k Cons.prems(1) by auto
qed


text \<open>
  \<open>pbuf_alloc\<close> returns a chain whose lengths add up to what was asked, its first buffer at
  least as long as the padding.
\<close>

definition pbufs :: "(u16 \<Rightarrow> nat list option) \<Rightarrow> bool" where
  "pbufs alloc \<longleftrightarrow> (\<forall>n lens. alloc n = Some lens \<longrightarrow> lens \<noteq> [] \<and> 2 \<le> hd lens \<and> sum_list lens = unat n)"

lemma hide_pad_sum: "pbufs alloc \<Longrightarrow> alloc n = Some lens \<Longrightarrow> sum_list (hide_pad lens) = unat n - 2 \<and> (\<forall>m \<in> set (hide_pad lens). m < 2 ^ 16)"
proof -
  assume "pbufs alloc" "alloc n = Some lens"
  then obtain l ls where l: "lens = l # ls" "2 \<le> l" "l + sum_list ls = unat n"
    unfolding pbufs_def by (metis list.collapse list.sel(1) sum_list.Cons)
  then have "sum_list (hide_pad lens) = unat n - 2" by (simp add: hide_pad_def ETH_PAD_SIZE_def)
  moreover have "m < 2 ^ 16" if "m \<in> set (hide_pad lens)" for m
  proof -
    have "unat n < 2 ^ LENGTH(16)" by (rule unsigned_less)
    then have u: "unat n < 2 ^ 16" by simp
    have "m \<le> sum_list (hide_pad lens)" using that by (simp add: member_le_sum_list)
    also have "\<dots> < 2 ^ 16" using \<open>sum_list (hide_pad lens) = unat n - 2\<close> u by linarith
    finally show ?thesis .
  qed
  ultimately show ?thesis by simp
qed

lemma release_rel:
  assumes t: "rx_rel rxs r t" "r < length rxs"
    and s: "rx_descs s = (rx_descs t)[r mod 4 := d]" "rx_ptr s = Suc r mod 4" "hw_rx s = hw_rx t" "rbuf d = rbuf (rx_descs t ! (r mod 4))"
  shows "rx_rel rxs (Suc r) (mac_release_rx_descriptor (r mod 4) dmasr s)"
proof (rule rx_rel_take [OF t, where d = "d\<lparr>rd0 := RDES0_OWN\<rparr>"])
  have len: "length (rx_descs t) = 4" using t by (simp add: rx_rel_def)
  show "rx_descs (mac_release_rx_descriptor (r mod 4) dmasr s) = (rx_descs t)[r mod 4 := d\<lparr>rd0 := RDES0_OWN\<rparr>]"
    using s len by (simp add: mac_release_rx_descriptor_def Let_def out_def)
  show "length (rbuf (d\<lparr>rd0 := RDES0_OWN\<rparr>)) = 1524" using rx_rel_at(5) [OF t] s by simp
qed (simp_all add: mac_release_rx_descriptor_def Let_def out_def s owned_def RDES0_OWN_def)

lemma release_tx: "tx_same s (mac_release_rx_descriptor i dmasr s)"
  by (simp add: mac_release_rx_descriptor_def Let_def out_def tx_same_def)

lemma tx_same_trans: "tx_same s s' \<Longrightarrow> tx_same s' s'' \<Longrightarrow> tx_same s s''"
  by (simp add: tx_same_def)

text \<open>
  What becomes of a valid frame: it is handed on without its check bytes when a buffer for it and the padding
  can be had, and dropped only when there is none.
\<close>

definition taken :: "(u16 \<Rightarrow> nat list option) \<Rightarrow> u32 \<times> u8 list \<Rightarrow> u8 list option" where
  "taken alloc f = (if alloc (of_nat (length (snd f) - 2)) = None then None else Some (payload f))"

text \<open>One call of \<open>ethernetif_input\<close>: nothing is waiting, or the first valid frame is handed on or, without memory, dropped.\<close>

lemma ethernetif_input_rel:
  assumes p: "pbufs alloc" and r: "rx_rel rxs r s"
  shows "\<exists>got b s'. ethernetif_input alloc dmasr s = Inr (got, b, s') \<and> tx_same s s'
    \<and> (\<exists>r'. r \<le> r' \<and> rx_rel rxs r' s'
         \<and> (if got then r < r' \<and> (\<forall>n. r \<le> n \<and> n < r' - 1 \<longrightarrow> \<not> rx_valid (fst (rxs ! n))) \<and> rx_valid (fst (rxs ! (r' - 1)))
              \<and> b = taken alloc (rxs ! (r' - 1))
            else if mac_flags s AND MFL_RUN = 0 then r' = r
            else r' = length rxs \<and> (\<forall>n. r \<le> n \<and> n < r' \<longrightarrow> \<not> rx_valid (fst (rxs ! n)))))"
proof (cases "mac_flags s AND MFL_RUN = 0")
  case True
  then show ?thesis using r by (simp add: ethernetif_input_def mac_get_rx_descriptor_def tx_same_def) blast
next
  case False
  have "length rxs - r < 5" using r by (auto simp: rx_rel_def)
  from rx_scan_rel [OF r this] show ?thesis
  proof (elim disjE exE conjE)
    fix s'
    assume "rx_scan 5 s = Inr (None, s')" "\<forall>n. r \<le> n \<and> n < length rxs \<longrightarrow> \<not> rx_valid (fst (rxs ! n))"
      "tx_same s s'" "rx_rel rxs (length rxs) s'"
    moreover have "r \<le> length rxs" using r by (simp add: rx_rel_def)
    ultimately show ?thesis using False by (simp add: ethernetif_input_def mac_get_rx_descriptor_def) blast
  next
    fix s' r'
    assume sc: "rx_scan 5 s = Inr (Some (r' mod 4), s')" and w: "rx_waits rxs r r' s s'"
    let ?i = "r' mod 4" and ?f = "rxs ! r'"
    obtain t where t: "rx_rel rxs r' t" "s' = t\<lparr>rx_ptr := Suc r' mod 4,
        rx_descs := (rx_descs t)[?i := (rx_descs t ! ?i)\<lparr>rsize := of_nat (length (snd ?f)) - 4, roffset := 0\<rparr>]\<rparr>"
      using w unfolding rx_waits_def by blast
    have lt: "r' < length rxs" and le: "r \<le> r'" and vld: "rx_valid (fst ?f)" "\<forall>n. r \<le> n \<and> n < r' \<longrightarrow> \<not> rx_valid (fst (rxs ! n))"
      and same: "tx_same s s'" using w by (simp_all add: rx_waits_def)
    note at = rx_rel_at [OF t(1) lt]
    have len: "length (rx_descs t) = 4" using t(1) by (simp add: rx_rel_def)
    let ?n = "length (snd ?f)"
    have n: "4 \<le> ?n" "?n \<le> 1522" using at(4) by (simp_all add: frame_ok_def)
    have sz: "(of_nat ?n - 4 :: u32) = of_nat (?n - 4)" using n by (simp add: of_nat_diff)
    have d': "rx_descs s' ! ?i = (rx_descs t ! ?i)\<lparr>rsize := of_nat (?n - 4), roffset := 0\<rparr>" using len by (simp add: t(2) sz)
    have rel: "rx_rel rxs (Suc r') (mac_release_rx_descriptor ?i dmasr s'')"
      if "rx_descs s'' = (rx_descs s')[?i := d]" "rx_ptr s'' = rx_ptr s'" "hw_rx s'' = hw_rx s'" "rbuf d = rbuf (rx_descs t ! ?i)" for s'' d
      by (rule release_rel [OF t(1) lt, where d = d]) (simp_all add: that t(2))
    have fin: ?thesis if "ethernetif_input alloc dmasr s = Inr (True, b, s'')" "rx_rel rxs (Suc r') s''" "tx_same s s''"
        "b = taken alloc ?f" for b s''
      by (rule exI [of _ True], rule exI [of _ b], rule exI [of _ s''], intro conjI, rule that(1), rule that(3), rule exI [of _ "Suc r'"])
        (use that vld le in auto)
    let ?a = "ucast (of_nat (?n - 4) + ETH_PAD_SIZE :: u32) :: u16"
    have a: "unat ?a = ?n - 2" and a': "?a = of_nat (?n - 2)"
    proof -
      have "(of_nat (?n - 4) + ETH_PAD_SIZE :: u32) = of_nat (?n - 2)" using n by (simp add: ETH_PAD_SIZE_def of_nat_diff)
      then show e: "?a = of_nat (?n - 2)" using n by (simp only:) (rule ucast_of_nat_small, simp)
      have "unat (of_nat (?n - 2) :: u16) = ?n - 2" using n by (simp add: unsigned_of_nat take_bit_nat_eq_self del: of_nat_diff)
      then show "unat ?a = ?n - 2" unfolding e .
    qed
    show ?thesis
    proof (cases "alloc ?a")
      case None
      then have "ethernetif_input alloc dmasr s = Inr (True, None, mac_release_rx_descriptor ?i dmasr s')"
        using False sc by (simp add: ethernetif_input_def mac_get_rx_descriptor_def d')
      moreover have "rx_rel rxs (Suc r') (mac_release_rx_descriptor ?i dmasr s')"
        by (rule rel [OF list_update_id [symmetric]]) (simp_all add: d')
      moreover have "None = taken alloc ?f" using None unfolding a' by (simp add: taken_def)
      ultimately show ?thesis using fin tx_same_trans [OF same release_tx] by blast
    next
      case (Some lens)
      have sum: "sum_list (hide_pad lens) = ?n - 4" "\<forall>m \<in> set (hide_pad lens). m < 2 ^ 16"
        using hide_pad_sum [OF p Some] a n by simp_all
      have z: "unat (of_nat (?n - 4) :: u32) = ?n - 4" using n by (simp add: unsigned_of_nat take_bit_nat_eq_self del: of_nat_diff)
      have "?i < length (rx_descs s')" using len by (simp add: t(2))
      moreover have "unat (of_nat (?n - 4) :: u32) \<le> length (rbuf (rx_descs t ! ?i))" "unat (of_nat (?n - 4) :: u32) < 2 ^ 16"
        using n at(5) by (simp_all add: z del: of_nat_diff)
      ultimately obtain k where k: "read_chain ?i (hide_pad lens) s' = Inr (take (?n - 4) (rbuf (rx_descs t ! ?i)),
          s'\<lparr>rx_descs := (rx_descs s')[?i := (rx_descs s' ! ?i)\<lparr>roffset := k\<rparr>]\<rparr>)"
        using read_chain_takes [of ?i s' "hide_pad lens"] sum by (auto simp: d' z simp del: of_nat_diff)
      let ?s = "s'\<lparr>rx_descs := (rx_descs s')[?i := (rx_descs s' ! ?i)\<lparr>roffset := k\<rparr>]\<rparr>"
      have pl: "take (?n - 4) (rbuf (rx_descs t ! ?i)) = payload ?f"
      proof -
        have "payload ?f = take (?n - 4) (take ?n (rbuf (rx_descs t ! ?i)))" by (simp add: payload_def at(6))
        then show ?thesis by (simp add: min_def)
      qed
      have "ethernetif_input alloc dmasr s = Inr (True, Some (payload ?f), mac_release_rx_descriptor ?i dmasr ?s)"
        using False sc Some k by (simp add: ethernetif_input_def mac_get_rx_descriptor_def d' pl)
      moreover have "rx_rel rxs (Suc r') (mac_release_rx_descriptor ?i dmasr ?s)"
        by (rule rel [of ?s "(rx_descs s' ! ?i)\<lparr>roffset := k\<rparr>"]) (simp_all add: d')
      moreover have "tx_same s ?s" using same by (simp add: tx_same_def)
      moreover have "Some (payload ?f) = taken alloc ?f" using Some unfolding a' by (simp add: taken_def)
      ultimately show ?thesis using fin tx_same_trans [OF _ release_tx, of s ?s] by blast
    qed
  qed
qed


section \<open>Runs of the driver\<close>

text \<open>
  \<open>mac_run acc rxs dlv s\<close>: from \<open>mac_start\<close>, with transmissions, receptions, interrupts, link polls and
  the controller's steps in any order, the packets \<open>acc\<close> were accepted (each with its number
  and contents; a run sends packets in one buffer, what becomes of a chain is said below), the frames \<open>rxs\<close> were
  stored by the controller and \<open>dlv\<close> came out of
  \<open>ethernetif_input\<close>, one entry for every call that returned 1, with the answers of \<open>pbuf_alloc\<close> in that call.
\<close>

inductive mac_run :: "(nat \<times> u8 list) list \<Rightarrow> (u32 \<times> u8 list) list \<Rightarrow> ((u16 \<Rightarrow> nat list option) \<times> u8 list option) list \<Rightarrow> mac \<Rightarrow> bool" where
  start: "mac_start sem rxa txa ins s0 = Inr (ins', s) \<Longrightarrow> length (rx_descs s0) = 4 \<Longrightarrow> length (tx_descs s0) = 4 \<Longrightarrow>
    \<forall>i < 4. length (rbuf (rx_descs s0 ! i)) = 1524 \<Longrightarrow> held s0 = [] \<Longrightarrow> freed s0 = [] \<Longrightarrow> wire s0 = [] \<Longrightarrow> mac_run [] [] [] s"
| send: "mac_run acc rxs dlv s \<Longrightarrow> length q < 2 ^ 16 \<Longrightarrow> maczero_transmit start timeout p [q] env s = Inr (ok, env', s') \<Longrightarrow>
    mac_run (if ok then acc @ [(p, q)] else acc) rxs dlv s'"
| sent: "mac_run acc rxs dlv s \<Longrightarrow> mac_run acc rxs dlv (dma_tx s)"
| store: "mac_run acc rxs dlv s \<Longrightarrow> frame_ok f \<Longrightarrow> owned (rd0 (rx_descs s ! hw_rx s)) \<Longrightarrow>
    mac_run acc (rxs @ [f]) dlv (dma_rx (fst f) (snd f) s)"
| lost: "mac_run acc rxs dlv s \<Longrightarrow> \<not> owned (rd0 (rx_descs s ! hw_rx s)) \<Longrightarrow> mac_run acc rxs dlv (dma_rx status data s)"
| input: "mac_run acc rxs dlv s \<Longrightarrow> pbufs alloc \<Longrightarrow> ethernetif_input alloc dmasr s = Inr (got, b, s') \<Longrightarrow>
    mac_run acc rxs (if got then dlv @ [(alloc, b)] else dlv) s'"
| poll: "mac_run acc rxs dlv s \<Longrightarrow> smi_poll_link_status ins s = Inr (up, ins', s') \<Longrightarrow> mac_run acc rxs dlv s'"
| isr: "mac_run acc rxs dlv s \<Longrightarrow> mac_run acc rxs dlv (ETH_IRQHandler dmasr room s)"

definition same_rings :: "mac \<Rightarrow> mac \<Rightarrow> bool" where
  "same_rings s s' \<longleftrightarrow> tx_same s s' \<and> rx_same s s'"

lemma same_rings_out [simp]: "same_rings s (out r v s')  \<longleftrightarrow> same_rings s s'"
  by (simp add: same_rings_def tx_same_def rx_same_def out_def)

lemma same_rings_upd [simp]:
  "same_rings s (s'\<lparr>mac_flags := f\<rparr>) \<longleftrightarrow> same_rings s s'"
  "same_rings s (s'\<lparr>eth_irq := b\<rparr>) \<longleftrightarrow> same_rings s s'"
  "same_rings s (s'\<lparr>tx_sem := b\<rparr>) \<longleftrightarrow> same_rings s s'"
  "same_rings s (s'\<lparr>posted := k\<rparr>) \<longleftrightarrow> same_rings s s'"
  "same_rings s (s'\<lparr>queue_full := w\<rparr>) \<longleftrightarrow> same_rings s s'"
  "same_rings s s"
  by (simp_all add: same_rings_def tx_same_def rx_same_def)

lemma same_rings_trans: "same_rings s s' \<Longrightarrow> same_rings s' s'' \<Longrightarrow> same_rings s s''"
  by (simp add: same_rings_def tx_same_def rx_same_def)

lemma smi_read_rings: "smi_read reg ins s = Inr (v, ins', s') \<Longrightarrow> same_rings s s'"
  by (auto simp: smi_read_def Let_def)

lemma smi_write_rings: "smi_write reg v ins s = Inr (ins', s') \<Longrightarrow> same_rings s s'"
  by (auto simp: smi_write_def Let_def)

lemma poll_rings: "smi_poll_link_status ins s = Inr (up, ins', s') \<Longrightarrow> same_rings s s'"
  unfolding smi_poll_link_status_def Let_def
  by (auto split: if_splits prod.splits dest!: smi_read_rings) (meson same_rings_trans)+

lemma isr_rings: "same_rings s (ETH_IRQHandler dmasr room s)"
  by (simp add: ETH_IRQHandler_def Let_def)

lemma phy_reset_rings: "phy_reset_wait n ins s = Inr (ins', s') \<Longrightarrow> same_rings s s'"
proof (induction n arbitrary: ins s)
  case (Suc n)
  then obtain v i1 s1 where r: "smi_read MII_BMCR ins s = Inr (v, i1, s1)"
    "(if v AND BMCR_RESET \<noteq> 0 then phy_reset_wait n i1 s1 else Inr (i1, s1)) = Inr (ins', s')" by auto
  then have "same_rings s1 s'" using Suc.IH by (auto split: if_splits)
  with smi_read_rings [OF r(1)] show ?case by (rule same_rings_trans)
qed simp

lemma fold_out_rings: "same_rings s (fold (\<lambda>(r, v). out r v) ws s') \<longleftrightarrow> same_rings s s'"
  by (induction ws arbitrary: s') (simp_all add: split_beta)

lemma mac_config_rings: "same_rings s (mac_config s') \<longleftrightarrow> same_rings s s'"
  unfolding mac_config_def by (rule fold_out_rings)

lemma dma_config_rings: "dma_config ins s = Inr (ins', s') \<Longrightarrow> same_rings s s'"
  by (auto simp: dma_config_def Let_def split: prod.splits)

lemma same_rings_rel: "same_rings s s' \<Longrightarrow> tx_rel acc k j s \<Longrightarrow> tx_rel acc k j s'"
  "same_rings s s' \<Longrightarrow> rx_rel rxs r s \<Longrightarrow> rx_rel rxs r s'"
  by (auto simp: same_rings_def tx_same_def intro: tx_rel_cong rx_rel_cong)


lemma rings_start:
  assumes "length (rx_descs s0) = 4" "length (tx_descs s0) = 4" "\<forall>i < 4. length (rbuf (rx_descs s0 ! i)) = 1524"
    "held s0 = []" "freed s0 = []" "wire s0 = []" "same_rings s0 s1"
  shows "tx_rel [] 0 0 (tx_rings (rx_rings s1))" "rx_rel [] 0 (tx_rings (rx_rings s1))"
  using assms
  by (auto simp: same_rings_def tx_same_def rx_same_def tx_rel_def rx_rel_def tx_rings_def rx_rings_def owned_def TDES0_TCH_def RDES0_OWN_def)

lemma mac_start_rel:
  assumes "mac_start sem rxa txa ins s0 = Inr (ins', s)"
    "length (rx_descs s0) = 4" "length (tx_descs s0) = 4" "\<forall>i < 4. length (rbuf (rx_descs s0 ! i)) = 1524"
    "held s0 = []" "freed s0 = []" "wire s0 = []"
  shows "tx_rel [] 0 0 s \<and> rx_rel [] 0 s"
proof -
  have "\<exists>s1 s2. same_rings s0 s1 \<and> s2 = tx_rings (rx_rings s1) \<and> same_rings s2 s"
  proof -
    have nr: "mac_flags s0 AND MFL_RUN = 0" using assms(1) by (auto simp: mac_start_def split: if_splits)
    obtain s1 i1 v1 i2 v2 i3 v3 i4 v4 i5 i6 s6 i7 s7 i8 s8 where a:
      "(if mac_flags s0 AND MFL_INIT = 0
        then rbind (ASSERT sem) (\<lambda>_. Inr (s0\<lparr>mac_flags := mac_flags s0 OR MFL_INIT, tx_sem := False\<rparr>)) else Inr s0) = Inr s1"
      "smi_write MII_BMCR BMCR_RESET i5 (mac_config (out DMATDLAR txa (out DMARDLAR rxa (out DMABMR v4
          (tx_rings (rx_rings (out AHBENR v3 (out AHBRSTR v2 (out AHBRSTR v1 s1))))))))) = Inr (i6, s6)"
      "phy_reset_wait (length i6) i6 s6 = Inr (i7, s7)"
      "dma_config i7 s7 = Inr (i8, s8)" "s8\<lparr>mac_flags := mac_flags s8 OR MFL_RUN, eth_irq := True\<rparr> = s"
      using assms(1) unfolding mac_start_def Let_def nr
      by (simp only: simp_thms if_False rbind_eq_Inr split_paired_Ex case_prod_conv sum.inject prod.inject)
        (elim exE conjE, rule that; assumption)
    let ?s1 = "out AHBENR v3 (out AHBRSTR v2 (out AHBRSTR v1 s1))"
    have "same_rings s0 ?s1" using a(1) by (auto split: if_splits)
    moreover have "same_rings (tx_rings (rx_rings ?s1)) s6"
      by (rule same_rings_trans [OF _ smi_write_rings [OF a(2)]]) (simp only: mac_config_rings same_rings_out same_rings_upd)
    then have "same_rings (tx_rings (rx_rings ?s1)) s8"
      using phy_reset_rings [OF a(3)] dma_config_rings [OF a(4)] by (blast intro: same_rings_trans)
    then have "same_rings (tx_rings (rx_rings ?s1)) s" by (simp only: same_rings_upd flip: a(5))
    ultimately show ?thesis by blast
  qed
  then obtain s1 where s1: "same_rings s0 s1" "same_rings (tx_rings (rx_rings s1)) s" by blast
  show ?thesis using rings_start [OF assms(2-7) s1(1)] same_rings_rel [OF s1(2)] by blast
qed

definition handed :: "((u16 \<Rightarrow> nat list option) \<times> u8 list option) list \<Rightarrow> (u32 \<times> u8 list) list \<Rightarrow> bool" where
  "handed dlv rxs \<longleftrightarrow> list_all2 (\<lambda>(alloc, b) f. b = taken alloc f) dlv (filter (\<lambda>f. rx_valid (fst f)) rxs)"

lemma filter_take_skip:
  "r \<le> r' \<Longrightarrow> r' \<le> length xs \<Longrightarrow> \<forall>n. r \<le> n \<and> n < r' \<longrightarrow> \<not> P (xs ! n) \<Longrightarrow> filter P (take r' xs) = filter P (take r xs)"
proof (induction r' rule: nat_induct_at_least [of r, consumes 1, case_names base Suc])
  case (Suc n)
  then show ?case by (simp add: take_Suc_conv_app_nth)
qed auto

lemma first_valid:
  assumes "r \<le> m" "m < length xs" "\<forall>n. r \<le> n \<and> n < m \<longrightarrow> \<not> P (xs ! n)" "P (xs ! m)"
  shows "hd (filter P (drop r xs)) = xs ! m"
proof -
  have "drop r xs = take (m - r) (drop r xs) @ xs ! m # drop (Suc m) xs"
    using assms(1,2) id_take_nth_drop [of "m - r" "drop r xs"] by simp
  moreover have "filter P (take (m - r) (drop r xs)) = []"
    using assms(1-3) by (auto simp: filter_empty_conv in_set_conv_nth)
  ultimately have "filter P (drop r xs) = xs ! m # filter P (drop (Suc m) xs)"
    using assms(4) by (metis append_Nil filter.simps(2) filter_append)
  then show ?thesis by simp
qed

lemma mac_run_rel: "mac_run acc rxs dlv s \<Longrightarrow> (\<exists>k j. tx_rel acc k j s) \<and> (\<exists>r. rx_rel rxs r s \<and> handed dlv (take r rxs))"
proof (induction rule: mac_run.induct)
  case (start sem rxa txa ins s0 ins' s)
  then show ?case using mac_start_rel [OF start] by (fastforce simp: handed_def)
next
  case (send acc rxs dlv s q start timeout p env ok env' s')
  then obtain k j r where "tx_rel acc k j s" and r: "rx_rel rxs r s" "handed dlv (take r rxs)" by blast
  from maczero_transmit_rel [OF this(1) send.hyps(2), of start timeout p env] send.hyps(3)
  obtain k' j' where "tx_rel (if ok then acc @ [(p, q)] else acc) k' j' s'" "rx_same s s'" by auto
  then show ?case using rx_rel_cong [OF r(1)] r(2) by blast
next
  case (sent acc rxs dlv s)
  then obtain k j r where "tx_rel acc k j s" and r: "rx_rel rxs r s" "handed dlv (take r rxs)" by blast
  moreover have "rx_same s (dma_tx s)" by (simp add: rx_same_def dma_tx_frame)
  ultimately show ?case using dma_tx_rel_ex rx_rel_cong by blast
next
  case (store acc rxs dlv s f)
  then obtain k j r where t: "tx_rel acc k j s" and r: "rx_rel rxs r s" "handed dlv (take r rxs)" by blast
  have "rx_rel (rxs @ [f]) r (dma_rx (fst f) (snd f) s)" by (rule rx_rel_store [OF r(1) store.hyps(2,3)])
  moreover have "handed dlv (take r (rxs @ [f]))" using r by (simp add: rx_rel_def)
  moreover have "tx_rel acc k j (dma_rx (fst f) (snd f) s)" by (rule tx_rel_cong [OF t]) (simp_all add: dma_rx_def Let_def)
  ultimately show ?case by blast
next
  case (lost acc rxs dlv s status data)
  then show ?case by (simp add: dma_rx_def Let_def)
next
  case (input acc rxs dlv s alloc dmasr got b s')
  then obtain k j r where t: "tx_rel acc k j s" and r: "rx_rel rxs r s" "handed dlv (take r rxs)" by blast
  from ethernetif_input_rel [OF input.hyps(2) r(1), of dmasr] input.hyps(3)
  obtain r' where i: "tx_same s s'" "r \<le> r'" "rx_rel rxs r' s'"
    "if got then r < r' \<and> (\<forall>n. r \<le> n \<and> n < r' - 1 \<longrightarrow> \<not> rx_valid (fst (rxs ! n))) \<and> rx_valid (fst (rxs ! (r' - 1)))
        \<and> b = taken alloc (rxs ! (r' - 1))
     else if mac_flags s AND MFL_RUN = 0 then r' = r
     else r' = length rxs \<and> (\<forall>n. r \<le> n \<and> n < r' \<longrightarrow> \<not> rx_valid (fst (rxs ! n)))"
    by auto
  have r': "r' \<le> length rxs" using i(3) by (simp add: rx_rel_def)
  have "handed (if got then dlv @ [(alloc, b)] else dlv) (take r' rxs)"
  proof (cases got)
    case True
    then obtain m where m: "r' = Suc m" "r \<le> m" using i(4) by (cases r') auto
    have "filter (\<lambda>f. rx_valid (fst f)) (take m rxs) = filter (\<lambda>f. rx_valid (fst f)) (take r rxs)"
      by (rule filter_take_skip) (use m r' i(4) True in auto)
    then show ?thesis using r(2) i(4) m True r' by (simp add: handed_def take_Suc_conv_app_nth list_all2_appendI)
  next
    case False
    then have "filter (\<lambda>f. rx_valid (fst f)) (take r' rxs) = filter (\<lambda>f. rx_valid (fst f)) (take r rxs)"
      by (intro filter_take_skip) (use i(2,4) r' in \<open>auto split: if_splits\<close>)
    then show ?thesis using r(2) False by (simp add: handed_def)
  qed
  moreover have "tx_rel acc k j s'" by (rule tx_rel_cong [OF t]) (use i(1) in \<open>simp_all add: tx_same_def\<close>)
  ultimately show ?case using i(3) by blast
next
  case (poll acc rxs dlv s ins up ins' s')
  then show ?case using same_rings_rel [OF poll_rings [OF poll.hyps(2)]] by blast
next
  case (isr acc rxs dlv s dmasr room)
  then show ?case using same_rings_rel [OF isr_rings] by blast
qed


text \<open>A concrete start, and a run in which a packet is sent and a frame received.\<close>

definition mac0 :: mac where
  "mac0 = \<lparr>mac_flags = 0, tx_sem = False, eth_irq = False, outs = [],
     tx_descs = replicate 4 \<lparr>td0 = 0, td1 = 0, tbuf = [], tpbuf = None\<rparr>, tx_ptr = 0, tx_active = None,
     rx_descs = replicate 4 \<lparr>rd0 = 0, rd1 = 0, rbuf = replicate 1524 0, rsize = 0, roffset = 0\<rparr>, rx_ptr = 0,
     held = [], freed = [], queue_full = 0, posted = 0, hw_tx = 0, hw_rx = 0, wire = []\<rparr>"

lemma mac0_starts: "\<exists>s. mac_start True 0 0 (replicate 10 0) mac0 = Inr ([], s) \<and> mac_flags s = 3"
proof -
  have r: "replicate 10 (0::u32) = [0, 0, 0, 0, 0, 0, 0, 0, 0, 0]" by (simp add: numeral_eq_Suc)
  show ?thesis unfolding r
    by (simp add: mac_start_def mac0_def smi_write_def smi_read_def dma_config_def mac_config_def tx_rings_def rx_rings_def Let_def MFL_RUN_def MFL_INIT_def out_def)
qed


lemma mac0_run: "\<exists>s. mac_run [] [] [] s \<and> mac_flags s AND MFL_RUN \<noteq> 0 \<and> mac_flags s AND MFL_LINK = 0"
proof -
  obtain s where s: "mac_start True 0 0 (replicate 10 0) mac0 = Inr ([], s)" "mac_flags s = 3" using mac0_starts by blast
  have "mac_run [] [] [] s"
    by (rule mac_run.start [OF s(1)]) (simp_all add: mac0_def nth_replicate)
  then show ?thesis using s(2) by (auto simp: MFL_RUN_def MFL_LINK_def)
qed

section \<open>The link\<close>

text \<open>What the registers of the PHY say: with auto-negotiation the link counts only once that is complete and
  without a remote fault, and the speed is the partner's best.\<close>

definition phy_up :: "u32 \<Rightarrow> u32 \<Rightarrow> bool" where
  "phy_up bmsr bmcr \<longleftrightarrow> bit bmsr 2 \<and> (bit bmcr 12 \<longrightarrow> bit bmsr 5 \<and> \<not> bit bmsr 4)"

definition phy_fast :: "u32 \<Rightarrow> u32 \<Rightarrow> bool" where
  "phy_fast bmcr lpa \<longleftrightarrow> (if bit bmcr 12 then bit lpa 7 \<or> bit lpa 8 \<or> bit lpa 9 else bit bmcr 13)"

definition phy_full :: "u32 \<Rightarrow> u32 \<Rightarrow> bool" where
  "phy_full bmcr lpa \<longleftrightarrow> (if bit bmcr 12 then bit lpa 6 \<or> bit lpa 8 else bit bmcr 8)"

lemma and_power_bit: "(w::u32) AND 2 ^ n \<noteq> 0 \<longleftrightarrow> bit w n"
  by (simp add: bit_iff_and_push_bit_not_eq_0 [of w n] push_bit_eq_mult)

lemma and_masks:
  "(w::u32) AND 4 \<noteq> 0 \<longleftrightarrow> bit w 2" "w AND 0x100 \<noteq> 0 \<longleftrightarrow> bit w 8" "w AND 0x1000 \<noteq> 0 \<longleftrightarrow> bit w 12" "w AND 0x2000 \<noteq> 0 \<longleftrightarrow> bit w 13"
  using and_power_bit [of w 2] and_power_bit [of w 8] and_power_bit [of w 12] and_power_bit [of w 13] by simp_all

lemma and_or_zero: "(w::u32) AND (a OR b) \<noteq> 0 \<longleftrightarrow> w AND a \<noteq> 0 \<or> w AND b \<noteq> 0"
  by (auto simp: bit_eq_iff bit_simps)

text \<open>A poll with registers that answer at once, and the states it leaves.\<close>

definition phy_reads :: "u32 \<Rightarrow> u32 \<Rightarrow> u32 \<Rightarrow> u32 \<Rightarrow> u32 \<Rightarrow> u32 list" where
  "phy_reads maccr old bmsr bmcr lpa = [maccr, 0, old, 0, bmsr, 0, bmcr, 0, lpa]"

lemma lpa_masks:
  "(w::u32) AND (LPA_100HALF OR LPA_100FULL OR LPA_100BASE4) \<noteq> 0 \<longleftrightarrow> bit w 7 \<or> bit w 8 \<or> bit w 9"
  "w AND (LPA_10FULL OR LPA_100FULL) \<noteq> 0 \<longleftrightarrow> bit w 6 \<or> bit w 8"
  using and_power_bit [of w 6] and_power_bit [of w 7] and_power_bit [of w 8] and_power_bit [of w 9]
  unfolding and_or_zero by (simp_all add: mii_defs)

lemma bmsr_masks:
  "(w::u32) AND (BMSR_LSTATUS OR BMSR_RFAULT OR BMSR_ANEGCOMPLETE) = BMSR_LSTATUS OR BMSR_ANEGCOMPLETE
   \<longleftrightarrow> bit w 2 \<and> \<not> bit w 4 \<and> bit w 5"
proof -
  have c: "BMSR_LSTATUS = 2 ^ 2" "BMSR_RFAULT = 2 ^ 4" "BMSR_ANEGCOMPLETE = (2 ^ 5 :: u32)" by (simp_all add: mii_defs)
  have m: "bit (BMSR_LSTATUS OR BMSR_RFAULT OR BMSR_ANEGCOMPLETE) n \<longleftrightarrow> n = 2 \<or> n = 4 \<or> n = 5" for n
    unfolding c bit_or_iff bit_exp_iff by (auto simp: possible_bit_word)
  have t: "bit (BMSR_LSTATUS OR BMSR_ANEGCOMPLETE) n \<longleftrightarrow> n = 2 \<or> n = 5" for n
    unfolding c bit_or_iff bit_exp_iff by (auto simp: possible_bit_word)
  show ?thesis
  proof
    assume eq: "w AND (BMSR_LSTATUS OR BMSR_RFAULT OR BMSR_ANEGCOMPLETE) = BMSR_LSTATUS OR BMSR_ANEGCOMPLETE"
    have "bit w n \<and> (n = 2 \<or> n = 4 \<or> n = 5) \<longleftrightarrow> n = 2 \<or> n = 5" for n
      using arg_cong [OF eq, of "\<lambda>x. bit x n"] unfolding bit_and_iff m t .
    from this [of 2] this [of 4] this [of 5] show "bit w 2 \<and> \<not> bit w 4 \<and> bit w 5" by simp
  next
    assume b: "bit w 2 \<and> \<not> bit w 4 \<and> bit w 5"
    show "w AND (BMSR_LSTATUS OR BMSR_RFAULT OR BMSR_ANEGCOMPLETE) = BMSR_LSTATUS OR BMSR_ANEGCOMPLETE"
      by (rule bit_eqI, unfold bit_and_iff m t) (use b in auto)
  qed
qed

lemma smi_read_now: "smi_read reg (0 # v # ins) s = Inr (v, ins, out MACMIIAR (push_bit 6 reg OR 1) s)"
  by (simp add: smi_read_def Let_def mii_defs)

lemma out_flags [simp]: "mac_flags (out r v s) = mac_flags s" "outs (out r v s) = outs s @ [(r, v)]"
  by (simp_all add: out_def)

lemma flag_link [simp]: "MFL_LINK \<noteq> 0" "((f::u8) OR MFL_LINK) AND MFL_LINK = MFL_LINK" "(f AND NOT MFL_LINK) AND MFL_LINK = 0"
  by (simp add: MFL_LINK_def, (rule bit_eqI, auto simp: bit_simps)+)

lemma with_bit_bits: "bit (with_bit b (2 ^ k) w) n = (if n = k then b \<and> k < 32 else bit w n)"
  by (cases "k < 32") (auto simp: with_bit_def bit_simps dest: bit_imp_le_length)

lemma with_bits:
  "bit (with_bit b MACCR_FES w) n = (if n = 14 then b else bit w n)"
  "bit (with_bit b MACCR_DM w) n = (if n = 11 then b else bit w n)"
  using with_bit_bits [of b 14 w n] with_bit_bits [of b 11 w n] by (simp_all add: mii_defs)

lemma poll_link_status:
  assumes "mac_flags s AND MFL_RUN \<noteq> 0"
  shows "\<exists>s' up. smi_poll_link_status (phy_reads maccr old bmsr bmcr lpa) s = Inr (up, [], s')
    \<and> up = phy_up bmsr bmcr \<and> (mac_flags s' AND MFL_LINK \<noteq> 0) = up
    \<and> (up \<longrightarrow> (\<exists>v. last (outs s') = (MACCR, v)
        \<and> (\<forall>n. bit v n = (if n = 14 then phy_fast bmcr lpa else if n = 11 then phy_full bmcr lpa else bit maccr n))))"
proof -
  have b: "bmcr AND BMCR_ANENABLE = 0 \<longleftrightarrow> \<not> bit bmcr 12" "bmsr AND BMSR_LSTATUS = 0 \<longleftrightarrow> \<not> bit bmsr 2"
    "bmcr AND BMCR_SPEED100 = 0 \<longleftrightarrow> \<not> bit bmcr 13" "bmcr AND BMCR_FULLDPLX = 0 \<longleftrightarrow> \<not> bit bmcr 8"
    using and_masks [of bmcr] and_masks [of bmsr] by (auto simp: mii_defs)
  show ?thesis
    using assms
    by (simp add: phy_reads_def smi_poll_link_status_def smi_read_now Let_def b lpa_masks bmsr_masks phy_up_def)
      (auto simp: phy_fast_def phy_full_def with_bits b)
qed

section \<open>Chains of buffers\<close>

text \<open>
  The descriptor that \<open>maczero_transmit\<close> fills does not move on with the chain: of a packet
  in two buffers the second overwrites the first, and the packet's reference is forgotten.
\<close>

lemma chain_sends_last:
  assumes "tx_rel [] 0 0 s" "mac_flags s AND MFL_LINK \<noteq> 0" "length q2 < 2 ^ 16"
  shows "\<exists>s' s''. maczero_transmit start 0 p [q1, q2] [(t1, 0), (t2, 0)] s = Inr (True, [], s')
    \<and> maczero_housekeeping (dma_tx s') = Inr s''
    \<and> wire s'' = [(True, True, q2)] \<and> held s'' = [p] \<and> freed s'' = [] \<and> tx_active s'' = None"
proof -
  have s: "length (tx_descs s) = 4" "tx_ptr s = 0" "hw_tx s = 0" "tx_active s = None" "\<not> owned (td0 (tx_descs s ! 0))"
    "held s = []" "freed s = []" "wire s = []"
    using assms(1) by (auto simp: tx_rel_def)
  have u: "unat (of_nat (length q2) :: u32) = length q2" using assms(3) by (simp add: unsigned_of_nat take_bit_nat_eq_self)
  have h: "housekeeping_loop 5 s = Inr s" if "tx_active s = None" for s :: mac using that by (simp add: eval_nat_numeral)
  have h1: "housekeeping_loop 5 s = Inr (s\<lparr>tx_active := None\<rparr>)"
    if "tx_active s = Some 0" "\<not> owned (td0 (tx_descs s ! 0))" "tpbuf (tx_descs s ! 0) = None" "tx_ptr s = 1" for s :: mac
  proof -
    have "housekeeping_loop (Suc (Suc n)) s = Inr (s\<lparr>tx_active := None\<rparr>)" for n
      using that by (simp add: ring_next_def Let_def)
    from this [of 3] show ?thesis by simp
  qed
  let ?s1 = "tx_fill 0 p True False q1 (s\<lparr>tx_ptr := 1\<rparr>)"
  let ?s2 = "tx_fill 0 p False True q2 (?s1\<lparr>tx_ptr := 1\<rparr>)"
  let ?d = "tx_desc True (p, q2)\<lparr>tpbuf := None\<rparr>"
  have w1: "tx_wait start 0 0 [(t1, 0), (t2, 0)] s = Inr (True, [(t2, 0)], s\<lparr>tx_ptr := 1\<rparr>)"
    using s assms(2) by (simp add: maczero_housekeeping_def h Let_def ring_next_def)
  have d1: "\<not> owned (td0 (tx_descs ?s1 ! 0))"
    using s(1) by (simp add: tx_fill_def Let_def owned_def TDES0_CIC_def TDES0_IC_def TDES0_TCH_def)
  have w2: "tx_wait start 0 0 [(t2, 0)] ?s1 = Inr (True, [], ?s1\<lparr>tx_ptr := 1\<rparr>)"
  proof -
    have "tx_active ?s1 = None" "mac_flags ?s1 = mac_flags s" using s by (simp_all add: tx_fill_def Let_def)
    then show ?thesis using d1 assms(2) by (simp add: maczero_housekeeping_def h Let_def ring_next_def)
  qed
  have d2: "(tx_descs ?s2 ! 0)\<lparr>td0 := td0 (tx_descs ?s2 ! 0) OR (TDES0_OWN OR TDES0_FS)\<rparr> = ?d"
    using s(1) by (simp add: tx_fill_def Let_def tx_desc_def TDES0_CIC_def TDES0_IC_def TDES0_TCH_def TDES0_LS_def TDES0_FS_def TDES0_OWN_def)
  have seg: "tx_segments start 0 0 p True [q1, q2] [(t1, 0), (t2, 0)] s = Inr (True, [], ?s2)"
    using w1 w2 by (simp del: tx_wait.simps)
  have f2: "tx_active ?s2 = None" "wire ?s2 = []" "held ?s2 = []" "freed ?s2 = []" "hw_tx ?s2 = 0" "tx_ptr ?s2 = 1"
    using s by (simp_all add: tx_fill_def Let_def)
  define t where "t = ?s2"
  note facts = seg d2 f2
  obtain s' where s': "maczero_transmit start 0 p [q1, q2] [(t1, 0), (t2, 0)] s = Inr (True, [], s')"
    "tx_descs s' = (tx_descs ?s2)[0 := ?d]" "hw_tx s' = 0" "tx_ptr s' = 1" "tx_active s' = Some 0" "wire s' = []" "held s' = [p]" "freed s' = []"
    using facts s(2) unfolding t_def [symmetric] by (simp add: maczero_transmit_def Let_def out_def del: tx_segments.simps)
  have l: "length (tx_descs ?s2) = 4" using s(1) by (simp add: tx_fill_def Let_def)
  let ?s3 = "dma_tx s'"
  have s3: "tx_descs ?s3 ! 0 = tx_desc False (p, q2)\<lparr>tpbuf := None\<rparr>" "wire ?s3 = [(True, True, q2)]" "tx_ptr ?s3 = 1"
    "tx_active ?s3 = Some 0" "held ?s3 = [p]" "freed ?s3 = []"
    using l by (simp_all add: dma_tx_def Let_def s' u tx_desc_def owned_def TDES0_OWN_def TDES0_FS_def TDES0_LS_def)
  have "\<not> owned (td0 (tx_descs ?s3 ! 0))" "tpbuf (tx_descs ?s3 ! 0) = None" by (simp_all add: s3(1) tx_desc_def owned_def)
  from h1 [OF s3(4) this s3(3)] show ?thesis using s'(1) s3 by (simp add: maczero_housekeeping_def)
qed

section \<open>Properties\<close>


lemma mac0_sends:
  "\<exists>s. mac_run [(7, [1, 2])] [] [] s"
proof -
  have l: "(f OR 4) AND 4 = (4::u8)" for f by (rule bit_eqI) (auto simp: bit_simps)
  have up: "\<exists>ins' s'. smi_poll_link_status [0, 0, 0, 0, 4, 0, 0, 0, 0] s = Inr (True, ins', s') \<and> mac_flags s' AND MFL_LINK \<noteq> 0"
    if "mac_flags s AND MFL_RUN \<noteq> 0" for s
    using that by (simp add: smi_poll_link_status_def smi_read_def Let_def mii_defs MFL_LINK_def out_def l)
  obtain s0 where s0: "mac_run [] [] [] s0" "mac_flags s0 AND MFL_RUN \<noteq> 0" using mac0_run by blast
  obtain ins' s1 where s1: "smi_poll_link_status [0, 0, 0, 0, 4, 0, 0, 0, 0] s0 = Inr (True, ins', s1)" "mac_flags s1 AND MFL_LINK \<noteq> 0"
    using up [OF s0(2)] by blast
  have run: "mac_run [] [] [] s1" by (rule mac_run.poll [OF s0(1) s1(1)])
  then obtain k j where r: "tx_rel [] k j s1" using mac_run_rel by blast
  obtain s2 where s2: "maczero_housekeeping s1 = Inr s2" "tx_rel [] k k s2" using maczero_housekeeping_rel [OF r] by blast
  have "\<not> owned (td0 (tx_descs s2 ! 0))" "tx_ptr s1 = 0" using s2(2) r by (auto simp: tx_rel_def)
  then obtain s3 where "maczero_transmit 0 0 7 [[1, 2]] [(0, 0)] s1 = Inr (True, [], s3)"
    using s1(2) s2(1) by (simp add: maczero_transmit_def Let_def)
  from mac_run.send [OF run _ this] show ?thesis by auto
qed


text \<open>C28. Reception is a queue as well: in every run, the packets handed on are the valid frames that
  the controller stored, once each, in order and without their check bytes, save those for which
  \<open>pbuf_alloc\<close> had no memory in that call; at most four frames wait. A call of \<open>ethernetif_input\<close> never
  faults, and while the driver runs it takes a frame exactly when a valid one waits: the first one, which it
  hands on if it gets memory.\<close>

theorem eth_receive_fifo:
  assumes "mac_run acc rxs dlv s" "pbufs alloc"
  shows "\<exists>r got b s'. r \<le> length rxs \<and> length rxs \<le> r + 4 \<and> handed dlv (take r rxs)
    \<and> ethernetif_input alloc dmasr s = Inr (got, b, s')
    \<and> (mac_flags s AND MFL_RUN \<noteq> 0 \<longrightarrow> got = (\<exists>f \<in> set (drop r rxs). rx_valid (fst f)))
    \<and> (got \<longrightarrow> b = taken alloc (hd (filter (\<lambda>f. rx_valid (fst f)) (drop r rxs))))"
proof -
  obtain r where r: "rx_rel rxs r s" "handed dlv (take r rxs)" using mac_run_rel [OF assms(1)] by blast
  obtain got b s' r' where i: "ethernetif_input alloc dmasr s = Inr (got, b, s')" "r \<le> r'" "rx_rel rxs r' s'"
    "if got then r < r' \<and> (\<forall>n. r \<le> n \<and> n < r' - 1 \<longrightarrow> \<not> rx_valid (fst (rxs ! n))) \<and> rx_valid (fst (rxs ! (r' - 1)))
        \<and> b = taken alloc (rxs ! (r' - 1))
     else if mac_flags s AND MFL_RUN = 0 then r' = r
     else r' = length rxs \<and> (\<forall>n. r \<le> n \<and> n < r' \<longrightarrow> \<not> rx_valid (fst (rxs ! n)))"
    using ethernetif_input_rel [OF assms(2) r(1), of dmasr] by blast
  have r': "r' \<le> length rxs" using i(3) by (simp add: rx_rel_def)
  have "got = (\<exists>f \<in> set (drop r rxs). rx_valid (fst f))" if "mac_flags s AND MFL_RUN \<noteq> 0"
  proof (cases got)
    case True
    then have "rxs ! (r' - 1) = drop r rxs ! (r' - 1 - r)" "r' - 1 - r < length (drop r rxs)" using i(4) r' by auto
    then have "rxs ! (r' - 1) \<in> set (drop r rxs)" by (metis nth_mem)
    then show ?thesis using True i(4) by auto
  next
    case False
    have "\<not> rx_valid (fst f)" if f: "f \<in> set (drop r rxs)" for f
    proof -
      obtain m where "m < length (drop r rxs)" "f = drop r rxs ! m" using f unfolding in_set_conv_nth by blast
      then show ?thesis using i(4) False \<open>mac_flags s AND MFL_RUN \<noteq> 0\<close> by simp
    qed
    then show ?thesis using False by blast
  qed
  moreover have "b = taken alloc (hd (filter (\<lambda>f. rx_valid (fst f)) (drop r rxs)))" if got
  proof -
    have m: "r \<le> r' - 1" "r' - 1 < length rxs" "rx_valid (fst (rxs ! (r' - 1)))"
      "\<forall>n. r \<le> n \<and> n < r' - 1 \<longrightarrow> \<not> rx_valid (fst (rxs ! n))" "b = taken alloc (rxs ! (r' - 1))"
      using i(4) that r' by auto
    show ?thesis unfolding m(5) first_valid [OF m(1,2) m(4,3)] ..
  qed
  moreover have "r \<le> length rxs" "length rxs \<le> r + 4" using r by (simp_all add: rx_rel_def)
  ultimately show ?thesis using r(2) i(1) by blast
qed

theorem eth_receive_fifo_witness:
  "pbufs (\<lambda>n. if 2 \<le> n then Some [unat n] else None)
   \<and> (\<exists>s b s'. mac_run [] [(0x00060300, [1, 2, 3, 4, 5, 6])] [] s
     \<and> ethernetif_input (\<lambda>n. if 2 \<le> n then Some [unat n] else None) 0 s = Inr (True, Some [1, 2], s'))"
proof -
  let ?a = "\<lambda>n :: u16. if 2 \<le> n then Some [unat n] else None"
  let ?f = "(0x00060300, [1, 2, 3, 4, 5, 6]) :: u32 \<times> u8 list"
  have p: "pbufs ?a" by (auto simp: pbufs_def word_le_nat_alt split: if_splits)
  have f: "frame_ok ?f" "rx_valid (fst ?f)"
    by (simp_all add: frame_ok_def owned_def RDES0_FL_MASK_def rx_valid_def RDES0_AFM_def RDES0_ES_def RDES0_FT_def RDES0_FS_def RDES0_LS_def)
  obtain s0 where s0: "mac_run [] [] [] s0" "mac_flags s0 AND MFL_RUN \<noteq> 0" using mac0_run by blast
  then obtain r0 where "rx_rel [] r0 s0" using mac_run_rel by blast
  then have "owned (rd0 (rx_descs s0 ! hw_rx s0))" using rx_rel_empty [of "[]" 0 s0] by (auto simp: rx_rel_def)
  from mac_run.store [OF s0(1) f(1) this] have run: "mac_run [] [?f] [] (dma_rx (fst ?f) (snd ?f) s0)" by simp
  have fl: "mac_flags (dma_rx (fst ?f) (snd ?f) s0) AND MFL_RUN \<noteq> 0" using s0(2) by (simp add: dma_rx_def Let_def)
  obtain r got b s' where c: "handed [] (take r [?f])" "ethernetif_input ?a 0 (dma_rx (fst ?f) (snd ?f) s0) = Inr (got, b, s')"
    "got = (\<exists>f \<in> set (drop r [?f]). rx_valid (fst f))" "got \<longrightarrow> b = taken ?a (hd (filter (\<lambda>f. rx_valid (fst f)) (drop r [?f])))"
    using eth_receive_fifo [OF run p, of 0] fl by blast
  have "r = 0" using c(1) f(2) by (cases r) (auto simp: handed_def)
  then have got: "got = True" and b: "b = Some [1, 2]" using c(3,4) f(2) by (simp_all add: taken_def payload_def)
  show ?thesis using p run c(2) unfolding got b by blast
qed

end
