(* ===== verification/Tcpapi.thy ===== *)
theory Tcpapi
  imports Common
begin

text \<open>
  Calls into the network thread, \<open>src/src/net/tcpapi.c\<close>: any thread may call lwIP by posting a message
  that lives on its own stack to the network thread and sleeping on a semaphore until the
  function, or a callback that it registered, has answered. The theory models every thread that
  calls, the queue, the network thread's loop and lwIP's callbacks as steps that interleave, and shows
  that each call is answered once, that its own answer is what it returns, and that no message
  is touched after its call has returned.
\<close>

section \<open>State\<close>

text \<open>
  lwIP is not part of this repository: what its functions answer is a parameter, its error codes are
  opaque names, and of its documented behaviour the model has the callbacks: \<open>udp_recv\<close> registers one per
  connection, \<open>sys_timeout\<close> one per argument, and a name that is being resolved has one.
\<close>

datatype lwip_err = LW_OK | LW_MEM | LW_TIMEOUT | LW_INPROGRESS | LW_VAL | LW_ERR int

text \<open>The function of a message with its part of the union.\<close>

datatype api_req =
    Do_tcp_write nat "u8 list" u8
  | Do_tcp_output nat
  | Do_udp_connect nat u32 u16
  | Do_udp_send nat "u8 list"
  | Do_udp_recv nat nat u16
  | Do_gethostbyname "u8 list"

text \<open>
  \<open>m_data\<close> is what a callback stores through the \<open>data\<close> and \<open>len\<close> pointers of \<open>urecv\<close>, \<open>m_addr\<close> through the
  \<open>addr\<close> pointer of \<open>gh\<close>; the timeout is an argument of \<open>Do_udp_recv\<close>.
\<close>

record tcpapi_msg =
  m_req :: api_req
  m_sem :: nat
  m_ret :: lwip_err
  m_data :: "u8 list"
  m_addr :: u32

record 'l lwip =
  lw_tcp_write :: "nat \<Rightarrow> u8 list \<Rightarrow> u8 \<Rightarrow> 'l \<Rightarrow> lwip_err \<times> 'l"
  lw_tcp_output :: "nat \<Rightarrow> 'l \<Rightarrow> lwip_err \<times> 'l"
  lw_udp_connect :: "nat \<Rightarrow> u32 \<Rightarrow> u16 \<Rightarrow> 'l \<Rightarrow> lwip_err \<times> 'l"
  lw_pbuf_alloc :: "nat \<Rightarrow> 'l \<Rightarrow> bool \<times> 'l"
  lw_udp_send :: "nat \<Rightarrow> u8 list \<Rightarrow> 'l \<Rightarrow> lwip_err \<times> 'l"
  lw_pbuf_free :: "'l \<Rightarrow> 'l"
  lw_dns :: "u8 list \<Rightarrow> 'l \<Rightarrow> lwip_err \<times> u32 \<times> 'l"

text \<open>
  Where a thread is in \<open>api_call\<close>: outside, about to post its message, or asleep. The message of a thread is
  named by the thread, as it is on its stack: \<open>msgs t\<close> is \<open>None\<close> when the call has returned. Semaphores are
  numbered as they are created.
\<close>

datatype caller = Outside | Posting | Asleep

record 'l api_sys =
  api_thread :: "nat option"
  semlist :: "(nat \<times> nat) list"
  sems :: "nat list"
  callers :: "nat \<Rightarrow> caller"
  msgs :: "nat \<Rightarrow> tcpapi_msg option"
  tcpip_queue :: "nat option list"
  udp_cb :: "nat \<Rightarrow> nat option"
  timers :: "nat list"
  dns_wait :: "nat list"
  lw :: 'l

section \<open>The network thread\<close>

definition api_start :: "'l api_sys \<Rightarrow> 'l api_sys" where
  "api_start s = s\<lparr>semlist := [], api_thread := None\<rparr>"

definition api_set_main_thread :: "nat \<Rightarrow> 'l api_sys \<Rightarrow> 'l api_sys" where
  "api_set_main_thread thread s = s\<lparr>api_thread := Some thread\<rparr>"

text \<open>Reading or writing a message that is gone is an error.\<close>

definition msg_of :: "nat \<Rightarrow> 'l api_sys \<Rightarrow> tcpapi_msg res" where
  "msg_of p s = (case msgs s p of None \<Rightarrow> Inl (Oob ''msg'') | Some m \<Rightarrow> Inr m)"

definition set_msg :: "nat \<Rightarrow> tcpapi_msg \<Rightarrow> 'l api_sys \<Rightarrow> 'l api_sys" where
  "set_msg p m s = s\<lparr>msgs := (msgs s)(p := Some m)\<rparr>"

definition sem_give :: "nat \<Rightarrow> 'l api_sys \<Rightarrow> 'l api_sys" where
  "sem_give k s = s\<lparr>sems := (sems s)[k := 1]\<rparr>"

definition do_tcp_write :: "'l lwip \<Rightarrow> nat \<Rightarrow> u8 list \<Rightarrow> u8 \<Rightarrow> 'l api_sys \<Rightarrow> lwip_err \<times> 'l api_sys" where
  "do_tcp_write w pcb data flags s = (let (ret, l) = lw_tcp_write w pcb data flags (lw s) in (ret, s\<lparr>lw := l\<rparr>))"

definition do_tcp_output :: "'l lwip \<Rightarrow> nat \<Rightarrow> 'l api_sys \<Rightarrow> lwip_err \<times> 'l api_sys" where
  "do_tcp_output w pcb s = (let (ret, l) = lw_tcp_output w pcb (lw s) in (ret, s\<lparr>lw := l\<rparr>))"

definition do_udp_connect :: "'l lwip \<Rightarrow> nat \<Rightarrow> u32 \<Rightarrow> u16 \<Rightarrow> 'l api_sys \<Rightarrow> lwip_err \<times> 'l api_sys" where
  "do_udp_connect w pcb addr port s = (let (ret, l) = lw_udp_connect w pcb addr port (lw s) in (ret, s\<lparr>lw := l\<rparr>))"

definition do_udp_send :: "'l lwip \<Rightarrow> nat \<Rightarrow> u8 list \<Rightarrow> 'l api_sys \<Rightarrow> lwip_err \<times> 'l api_sys" where
  "do_udp_send w pcb data s =
     (let (ok, l) = lw_pbuf_alloc w (length data) (lw s) in
      if \<not> ok then (LW_MEM, s\<lparr>lw := l\<rparr>)
      else let (ret, l) = lw_udp_send w pcb data l in (ret, s\<lparr>lw := lw_pbuf_free w l\<rparr>))"

definition do_udp_recv :: "nat \<Rightarrow> nat \<Rightarrow> u16 \<Rightarrow> 'l api_sys \<Rightarrow> lwip_err \<times> 'l api_sys" where
  "do_udp_recv msg pcb timeout s =
     (let s = s\<lparr>udp_cb := (udp_cb s)(pcb := Some msg)\<rparr>;
          s = (if timeout \<noteq> 0 then s\<lparr>timers := msg # timers s\<rparr> else s) in
      (LW_INPROGRESS, s))"

definition do_gethostbyname :: "'l lwip \<Rightarrow> nat \<Rightarrow> u8 list \<Rightarrow> 'l api_sys \<Rightarrow> (lwip_err \<times> 'l api_sys) res" where
  "do_gethostbyname w msg name s =
     (let (ret, addr, l) = lw_dns w name (lw s); s = s\<lparr>lw := l\<rparr> in
      if ret = LW_INPROGRESS then Inr (ret, s\<lparr>dns_wait := msg # dns_wait s\<rparr>)
      else if ret = LW_OK then rbind (msg_of msg s) (\<lambda>m. Inr (ret, set_msg msg (m\<lparr>m_addr := addr\<rparr>) s))
      else Inr (ret, s))"

definition api_func :: "'l lwip \<Rightarrow> nat \<Rightarrow> 'l api_sys \<Rightarrow> (lwip_err \<times> 'l api_sys) res" where
  "api_func w msg s =
     rbind (msg_of msg s) (\<lambda>m.
     case m_req m of
       Do_tcp_write pcb data flags \<Rightarrow> Inr (do_tcp_write w pcb data flags s)
     | Do_tcp_output pcb \<Rightarrow> Inr (do_tcp_output w pcb s)
     | Do_udp_connect pcb addr port \<Rightarrow> Inr (do_udp_connect w pcb addr port s)
     | Do_udp_send pcb data \<Rightarrow> Inr (do_udp_send w pcb data s)
     | Do_udp_recv pcb len timeout \<Rightarrow> Inr (do_udp_recv msg pcb timeout s)
     | Do_gethostbyname name \<Rightarrow> do_gethostbyname w msg name s)"

definition api_accept :: "'l lwip \<Rightarrow> nat \<Rightarrow> 'l api_sys \<Rightarrow> 'l api_sys res" where
  "api_accept w msg s =
     rbind (api_func w msg s) (\<lambda>(ret, s).
     rbind (msg_of msg s) (\<lambda>m.
     let s = set_msg msg (m\<lparr>m_ret := ret\<rparr>) s in
     Inr (if ret \<noteq> LW_INPROGRESS then sem_give (m_sem m) s else s)))"

text \<open>The callbacks.\<close>

definition msg_pcb :: "tcpapi_msg \<Rightarrow> nat" where
  "msg_pcb m = (case m_req m of Do_udp_recv pcb _ _ \<Rightarrow> pcb | _ \<Rightarrow> 0)"

definition msg_len :: "tcpapi_msg \<Rightarrow> nat" where
  "msg_len m = (case m_req m of Do_udp_recv _ len _ \<Rightarrow> len | _ \<Rightarrow> 0)"

definition got_udp_timedout :: "nat \<Rightarrow> 'l api_sys \<Rightarrow> 'l api_sys res" where
  "got_udp_timedout msg s =
     rbind (msg_of msg s) (\<lambda>m.
     let s = s\<lparr>udp_cb := (udp_cb s)(msg_pcb m := None)\<rparr>;
         s = set_msg msg (m\<lparr>m_ret := LW_TIMEOUT\<rparr>) s in
     Inr (sem_give (m_sem m) s))"

definition got_udp :: "nat \<Rightarrow> nat \<Rightarrow> u8 list \<Rightarrow> 'l api_sys \<Rightarrow> 'l api_sys res" where
  "got_udp msg pcb p s =
     (let s = s\<lparr>udp_cb := (udp_cb s)(pcb := None)\<rparr>;
          s = s\<lparr>timers := remove1 msg (timers s)\<rparr> in
      rbind (msg_of msg s) (\<lambda>m.
      let m = m\<lparr>m_data := take (msg_len m) p\<rparr>;
          s = set_msg msg (m\<lparr>m_ret := LW_OK\<rparr>) s in
      Inr (sem_give (m_sem m) s)))"

definition gethost_callback :: "u32 option \<Rightarrow> nat \<Rightarrow> 'l api_sys \<Rightarrow> 'l api_sys res" where
  "gethost_callback addr msg s =
     rbind (msg_of msg s) (\<lambda>m.
     let s = (case addr of
                None \<Rightarrow> set_msg msg (m\<lparr>m_ret := LW_VAL\<rparr>) s
              | Some a \<Rightarrow> set_msg msg (m\<lparr>m_ret := LW_OK, m_addr := a\<rparr>) s) in
     Inr (sem_give (m_sem m) s))"

section \<open>The callers\<close>

fun find_sem :: "(nat \<times> nat) list \<Rightarrow> nat \<Rightarrow> nat option" where
  "find_sem [] tid = None"
| "find_sem ((thread, k) # rest) tid = (if thread = tid then Some k else find_sem rest tid)"

text \<open>
  \<open>api_call\<close> in four parts: the call by the network thread itself; up to the release of the mutex, which
  is one step as only this code uses the list; the post; and the return.
\<close>

definition api_inline :: "'l lwip \<Rightarrow> nat \<Rightarrow> api_req \<Rightarrow> 'l api_sys \<Rightarrow> (lwip_err \<times> 'l api_sys) res" where
  "api_inline w tid req s =
     (let s = set_msg tid \<lparr>m_req = req, m_sem = 0, m_ret = LW_OK, m_data = [], m_addr = 0\<rparr> s in
      rbind (api_func w tid s) (\<lambda>(ret, s).
      rbind (ASSERT (ret \<noteq> LW_INPROGRESS)) (\<lambda>_.
      Inr (ret, s\<lparr>msgs := (msgs s)(tid := None)\<rparr>))))"

definition api_call :: "nat \<Rightarrow> api_req \<Rightarrow> 'l api_sys \<Rightarrow> 'l api_sys" where
  "api_call tid req s =
     (let m = \<lparr>m_req = req, m_sem = 0, m_ret = LW_OK, m_data = [], m_addr = 0\<rparr> in
      case find_sem (semlist s) tid of
        Some k \<Rightarrow> (set_msg tid (m\<lparr>m_sem := k\<rparr>) s)\<lparr>callers := (callers s)(tid := Posting)\<rparr>
      | None \<Rightarrow>
          let k = length (sems s); s = s\<lparr>sems := sems s @ [0], semlist := (tid, k) # semlist s\<rparr> in
          (set_msg tid (m\<lparr>m_sem := k\<rparr>) s)\<lparr>callers := (callers s)(tid := Posting)\<rparr>)"

definition api_post :: "nat \<Rightarrow> 'l api_sys \<Rightarrow> 'l api_sys" where
  "api_post tid s = s\<lparr>tcpip_queue := tcpip_queue s @ [Some tid], callers := (callers s)(tid := Asleep)\<rparr>"

definition api_return :: "nat \<Rightarrow> 'l api_sys \<Rightarrow> (tcpapi_msg \<times> 'l api_sys) res" where
  "api_return tid s =
     rbind (msg_of tid s) (\<lambda>m.
     Inr (m, s\<lparr>sems := (sems s)[m_sem m := 0], msgs := (msgs s)(tid := None), callers := (callers s)(tid := Outside)\<rparr>))"


text \<open>The functions that threads call.\<close>

definition api_tcp_write :: "nat \<Rightarrow> nat \<Rightarrow> u8 list \<Rightarrow> u8 \<Rightarrow> 'l api_sys \<Rightarrow> 'l api_sys" where
  "api_tcp_write tid pcb data flags = api_call tid (Do_tcp_write pcb data flags)"

definition api_tcp_output :: "nat \<Rightarrow> nat \<Rightarrow> 'l api_sys \<Rightarrow> 'l api_sys" where
  "api_tcp_output tid pcb = api_call tid (Do_tcp_output pcb)"

definition api_udp_connect :: "nat \<Rightarrow> nat \<Rightarrow> u32 \<Rightarrow> u16 \<Rightarrow> 'l api_sys \<Rightarrow> 'l api_sys" where
  "api_udp_connect tid pcb addr port = api_call tid (Do_udp_connect pcb addr port)"

definition api_udp_send :: "nat \<Rightarrow> nat \<Rightarrow> u8 list \<Rightarrow> 'l api_sys \<Rightarrow> 'l api_sys" where
  "api_udp_send tid pcb data = api_call tid (Do_udp_send pcb data)"

definition api_udp_recv :: "nat \<Rightarrow> nat \<Rightarrow> nat \<Rightarrow> u16 \<Rightarrow> 'l api_sys \<Rightarrow> 'l api_sys" where
  "api_udp_recv tid pcb len timeout = api_call tid (Do_udp_recv pcb len timeout)"

definition api_gethostbyname :: "nat \<Rightarrow> u8 list \<Rightarrow> 'l api_sys \<Rightarrow> 'l api_sys" where
  "api_gethostbyname tid name = api_call tid (Do_gethostbyname name)"

section \<open>The system\<close>

text \<open>One round of \<open>tcpip_thread\<close>: \<open>None\<close> is a wake-up by the Ethernet interrupt.\<close>

definition tcpip_round :: "'l lwip \<Rightarrow> 'l api_sys \<Rightarrow> 'l api_sys res" where
  "tcpip_round w s =
     (case tcpip_queue s of
        [] \<Rightarrow> Inr s
      | msg # rest \<Rightarrow>
          let s = s\<lparr>tcpip_queue := rest\<rparr> in
          (case msg of None \<Rightarrow> Inr s | Some p \<Rightarrow> api_accept w p s))"

text \<open>The network is up and nobody has called yet.\<close>

definition api_init :: "nat \<Rightarrow> 'l \<Rightarrow> 'l api_sys" where
  "api_init thread l =
     api_set_main_thread thread (api_start
       \<lparr>api_thread = None, semlist = [], sems = [], callers = (\<lambda>_. Outside), msgs = (\<lambda>_. None), tcpip_queue = [],
        udp_cb = (\<lambda>_. None), timers = [], dns_wait = [], lw = l\<rparr>)"

text \<open>
  The steps of the threads, of the interrupt and of lwIP, which makes the callbacks from \<open>sys_check_timeouts\<close> and
  \<open>ethernetif_input\<close>. A label says who is answered, and with what. A step that would fault does not exist
  in the relation, so that none does is proved apart; \<open>Progress\<close> is any change that lwIP makes to its own state.
\<close>

datatype label =
    Inline api_req lwip_err
  | Call nat api_req
  | Post nat
  | Wake
  | Woken
  | Accept nat lwip_err
  | Timeout nat
  | Datagram nat nat "u8 list"
  | Resolved nat "u32 option"
  | Return nat lwip_err
  | Progress

inductive api_step :: "'l lwip \<Rightarrow> 'l api_sys \<Rightarrow> label \<Rightarrow> 'l api_sys \<Rightarrow> bool" for w where
  inline: "api_thread s = Some a \<Longrightarrow> api_inline w a r s = Inr (ret, s') \<Longrightarrow> api_step w s (Inline r ret) s'"
| call: "api_thread s = Some a \<Longrightarrow> t \<noteq> a \<Longrightarrow> callers s t = Outside \<Longrightarrow> api_step w s (Call t r) (api_call t r s)"
| post: "callers s t = Posting \<Longrightarrow> length (tcpip_queue s) < 8 \<Longrightarrow> api_step w s (Post t) (api_post t s)"
| wake: "length (tcpip_queue s) < 8 \<Longrightarrow> api_step w s Wake (s\<lparr>tcpip_queue := tcpip_queue s @ [None]\<rparr>)"
| woken: "tcpip_queue s = None # rest \<Longrightarrow> tcpip_round w s = Inr s' \<Longrightarrow> api_step w s Woken s'"
| accept: "tcpip_queue s = Some t # rest \<Longrightarrow> api_func w t (s\<lparr>tcpip_queue := rest\<rparr>) = Inr (ret, s1) \<Longrightarrow> tcpip_round w s = Inr s' \<Longrightarrow>
    api_step w s (Accept t ret) s'"
| timeout: "t \<in> set (timers s) \<Longrightarrow> got_udp_timedout t (s\<lparr>timers := remove1 t (timers s)\<rparr>) = Inr s' \<Longrightarrow> api_step w s (Timeout t) s'"
| datagram: "udp_cb s pcb = Some t \<Longrightarrow> got_udp t pcb p s = Inr s' \<Longrightarrow> api_step w s (Datagram t pcb p) s'"
| resolved: "t \<in> set (dns_wait s) \<Longrightarrow> gethost_callback a t (s\<lparr>dns_wait := remove1 t (dns_wait s)\<rparr>) = Inr s' \<Longrightarrow>
    api_step w s (Resolved t a) s'"
| return: "callers s t = Asleep \<Longrightarrow> api_return t s = Inr (m, s') \<Longrightarrow> sems s ! m_sem m = 1 \<Longrightarrow> api_step w s (Return t (m_ret m)) s'"
| progress: "api_step w s Progress (s\<lparr>lw := l\<rparr>)"

inductive api_run :: "'l lwip \<Rightarrow> 'l api_sys \<Rightarrow> label list \<Rightarrow> 'l api_sys \<Rightarrow> bool" for w where
  run_nil: "api_run w s [] s"
| run_snoc: "api_run w s es t \<Longrightarrow> api_step w t e t' \<Longrightarrow> api_run w s (es @ [e]) t'"

section \<open>What a caller sees\<close>

text \<open>
  The specification has only the callers: a call that has been entered, is queued, sleeps until a callback, or has its
  answer.
\<close>

datatype phase = Idle | Entered | Queued | Sleeping | Answered lwip_err

fun spec_step :: "label \<Rightarrow> (nat \<Rightarrow> phase) \<Rightarrow> (nat \<Rightarrow> phase) option" where
  "spec_step (Call t r) ph = (if ph t = Idle then Some (ph(t := Entered)) else None)"
| "spec_step (Post t) ph = (if ph t = Entered then Some (ph(t := Queued)) else None)"
| "spec_step (Accept t ret) ph =
     (if ph t = Queued then Some (ph(t := if ret = LW_INPROGRESS then Sleeping else Answered ret)) else None)"
| "spec_step (Timeout t) ph = (if ph t = Sleeping then Some (ph(t := Answered LW_TIMEOUT)) else None)"
| "spec_step (Datagram t pcb p) ph = (if ph t = Sleeping then Some (ph(t := Answered LW_OK)) else None)"
| "spec_step (Resolved t a) ph =
     (if ph t = Sleeping then Some (ph(t := Answered (if a = None then LW_VAL else LW_OK))) else None)"
| "spec_step (Return t ret) ph = (if ph t = Answered ret then Some (ph(t := Idle)) else None)"
| "spec_step _ ph = Some ph"

fun spec_run :: "label list \<Rightarrow> (nat \<Rightarrow> phase) \<Rightarrow> (nat \<Rightarrow> phase) option" where
  "spec_run [] ph = Some ph"
| "spec_run (e # es) ph = (case spec_step e ph of None \<Rightarrow> None | Some ph' \<Rightarrow> spec_run es ph')"

lemma spec_run_snoc: "spec_run (es @ [e]) ph = (case spec_run es ph of None \<Rightarrow> None | Some ph' \<Rightarrow> spec_step e ph')"
  by (induction es arbitrary: ph) (auto split: option.splits)

section \<open>The simulation\<close>

definition sems_ok :: "'l api_sys \<Rightarrow> bool" where
  "sems_ok s \<longleftrightarrow> (\<forall>t k. find_sem (semlist s) t = Some k \<longrightarrow> k < length (sems s))
     \<and> (\<forall>t u k. find_sem (semlist s) t = Some k \<longrightarrow> find_sem (semlist s) u = Some k \<longrightarrow> t = u)"

definition sem_value :: "'l api_sys \<Rightarrow> nat \<Rightarrow> nat" where
  "sem_value s t = (case find_sem (semlist s) t of None \<Rightarrow> 0 | Some k \<Rightarrow> sems s ! k)"

text \<open>A reference that lwIP keeps is to a message whose thread sleeps, and of the right kind.\<close>

definition refs_ok :: "'l api_sys \<Rightarrow> (nat \<Rightarrow> phase) \<Rightarrow> bool" where
  "refs_ok s ph \<longleftrightarrow> distinct (timers s) \<and> distinct (dns_wait s)
     \<and> (\<forall>pcb t. udp_cb s pcb = Some t \<longrightarrow> ph t = Sleeping \<and> (\<exists>m n d. msgs s t = Some m \<and> m_req m = Do_udp_recv pcb n d))
     \<and> (\<forall>t. t \<in> set (timers s) \<longrightarrow> ph t = Sleeping \<and> (\<exists>m pcb n d. msgs s t = Some m \<and> m_req m = Do_udp_recv pcb n d))
     \<and> (\<forall>t. t \<in> set (dns_wait s) \<longrightarrow> ph t = Sleeping \<and> (\<exists>m nm. msgs s t = Some m \<and> m_req m = Do_gethostbyname nm))"

definition timed :: "'l api_sys \<Rightarrow> (nat \<Rightarrow> phase) \<Rightarrow> bool" where
  "timed s ph \<longleftrightarrow> (\<forall>t m pcb n d. ph t = Sleeping \<longrightarrow> msgs s t = Some m \<longrightarrow> m_req m = Do_udp_recv pcb n d \<longrightarrow> d \<noteq> 0 \<longrightarrow> t \<in> set (timers s))"

definition msg_ok :: "'l api_sys \<Rightarrow> nat \<Rightarrow> phase \<Rightarrow> bool" where
  "msg_ok s t p \<longleftrightarrow> (if p = Idle then msgs s t = None
     else \<exists>m. msgs s t = Some m \<and> find_sem (semlist s) t = Some (m_sem m) \<and> (\<forall>ret. p = Answered ret \<longrightarrow> m_ret m = ret))"

definition caller_ok :: "'l api_sys \<Rightarrow> nat \<Rightarrow> phase \<Rightarrow> bool" where
  "caller_ok s t p \<longleftrightarrow> callers s t = (case p of Idle \<Rightarrow> Outside | Entered \<Rightarrow> Posting | _ \<Rightarrow> Asleep)
     \<and> sem_value s t = (case p of Answered _ \<Rightarrow> 1 | _ \<Rightarrow> 0)
     \<and> count_list (tcpip_queue s) (Some t) = (if p = Queued then 1 else 0)"

definition api_inv :: "nat \<Rightarrow> 'l api_sys \<Rightarrow> (nat \<Rightarrow> phase) \<Rightarrow> bool" where
  "api_inv a s ph \<longleftrightarrow> api_thread s = Some a \<and> ph a = Idle \<and> sems_ok s \<and> refs_ok s ph \<and> timed s ph
     \<and> (\<forall>t. msg_ok s t (ph t)) \<and> (\<forall>t. caller_ok s t (ph t))"

lemmas api_inv_defs = api_inv_def sems_ok_def refs_ok_def timed_def msg_ok_def caller_ok_def sem_value_def

lemma api_inv_init: "api_inv a (api_init a l) (\<lambda>_. Idle)"
  by (simp add: api_inv_defs api_init_def api_set_main_thread_def api_start_def)

text \<open>What a function of lwIP may change.\<close>

lemma api_func_total: "msgs s t = Some m \<Longrightarrow> \<exists>ret s'. api_func w t s = Inr (ret, s')"
  by (auto simp: api_func_def msg_of_def do_gethostbyname_def Let_def split: api_req.splits prod.splits)

lemma api_func_frame:
  assumes "api_func w t s = Inr (ret, s')" "msgs s t = Some m"
  shows "\<exists>m'. msgs s' = (msgs s)(t := Some m') \<and> m_req m' = m_req m \<and> m_sem m' = m_sem m"
    "api_thread s' = api_thread s" "semlist s' = semlist s" "sems s' = sems s" "callers s' = callers s" "tcpip_queue s' = tcpip_queue s"
    "udp_cb s' = (case m_req m of Do_udp_recv pcb n d \<Rightarrow> (udp_cb s)(pcb := Some t) | _ \<Rightarrow> udp_cb s)"
    "timers s' = (case m_req m of Do_udp_recv pcb n d \<Rightarrow> if d = 0 then timers s else t # timers s | _ \<Rightarrow> timers s)"
    "dns_wait s' = (case m_req m of Do_gethostbyname nm \<Rightarrow> if ret = LW_INPROGRESS then t # dns_wait s else dns_wait s | _ \<Rightarrow> dns_wait s)"
    "\<And>pcb n d. m_req m = Do_udp_recv pcb n d \<Longrightarrow> ret = LW_INPROGRESS"
proof -
  have u: "(msgs s)(t := Some m) = msgs s" using assms(2) by auto
  note d = do_tcp_write_def do_tcp_output_def do_udp_connect_def api_func_def msg_of_def do_gethostbyname_def do_udp_send_def do_udp_recv_def set_msg_def Let_def
  show "\<exists>m'. msgs s' = (msgs s)(t := Some m') \<and> m_req m' = m_req m \<and> m_sem m' = m_sem m"
  proof (cases "m_req m")
    case (Do_gethostbyname x)
    show ?thesis
    proof (cases "ret = LW_OK")
      case True
      obtain r addr l where l: "lw_dns w x (lw s) = (r, addr, l)" by (metis prod_cases3)
      then show ?thesis using assms Do_gethostbyname True
        by (intro exI [of _ "m\<lparr>m_addr := addr\<rparr>"]) (auto simp: d split: if_splits)
    qed (use assms u Do_gethostbyname in \<open>auto simp: d split: prod.splits if_splits intro!: exI [of _ m]\<close>)
  qed (use assms u in \<open>auto simp: d split: prod.splits if_splits intro!: exI [of _ m]\<close>)
  show "api_thread s' = api_thread s" "semlist s' = semlist s" "sems s' = sems s" "callers s' = callers s" "tcpip_queue s' = tcpip_queue s"
    "udp_cb s' = (case m_req m of Do_udp_recv pcb n d \<Rightarrow> (udp_cb s)(pcb := Some t) | _ \<Rightarrow> udp_cb s)"
    "timers s' = (case m_req m of Do_udp_recv pcb n d \<Rightarrow> if d = 0 then timers s else t # timers s | _ \<Rightarrow> timers s)"
    "dns_wait s' = (case m_req m of Do_gethostbyname nm \<Rightarrow> if ret = LW_INPROGRESS then t # dns_wait s else dns_wait s | _ \<Rightarrow> dns_wait s)"
    "\<And>pcb n d. m_req m = Do_udp_recv pcb n d \<Longrightarrow> ret = LW_INPROGRESS"
    using assms by (auto simp: d split: api_req.splits prod.splits if_splits)
qed

text \<open>Each step keeps the simulation.\<close>

lemma find_sem_Cons [simp]: "find_sem ((u, k) # xs) t = (if u = t then Some k else find_sem xs t)"
  by simp

lemma count_snoc [simp]: "count_list (xs @ [x]) y = count_list xs y + (if x = y then 1 else 0)"
  by (induction xs) auto

lemma inv_caller: "api_inv a s ph \<Longrightarrow> callers s t = (case ph t of Idle \<Rightarrow> Outside | Entered \<Rightarrow> Posting | _ \<Rightarrow> Asleep)"
  by (simp add: api_inv_def caller_ok_def)

lemma inv_phase:
  assumes "api_inv a s ph"
  shows "callers s t = Outside \<Longrightarrow> ph t = Idle" "callers s t = Posting \<Longrightarrow> ph t = Entered"
  using inv_caller [OF assms, of t] by (cases "ph t"; simp)+

text \<open>A step changes only what belongs to one thread.\<close>

lemma inv_step:
  assumes inv: "api_inv a s ph" and t: "t \<noteq> a" "api_thread s' = api_thread s" "sems_ok s'" "msg_ok s' t p" "caller_ok s' t p"
    and other: "\<And>u. u \<noteq> t \<Longrightarrow> find_sem (semlist s') u = find_sem (semlist s) u \<and> sem_value s' u = sem_value s u
      \<and> callers s' u = callers s u \<and> msgs s' u = msgs s u \<and> count_list (tcpip_queue s') (Some u) = count_list (tcpip_queue s) (Some u)"
    and dist: "distinct (timers s')" "distinct (dns_wait s')"
    and refs: "\<And>pcb u. u \<noteq> t \<Longrightarrow> udp_cb s' pcb = Some u \<Longrightarrow> udp_cb s pcb = Some u" "\<And>u. u \<noteq> t \<Longrightarrow> u \<in> set (timers s') \<longleftrightarrow> u \<in> set (timers s)"
      "\<And>u. u \<noteq> t \<Longrightarrow> u \<in> set (dns_wait s') \<Longrightarrow> u \<in> set (dns_wait s)"
    and own: "\<And>pcb. udp_cb s' pcb = Some t \<Longrightarrow> p = Sleeping \<and> (\<exists>m n d. msgs s' t = Some m \<and> m_req m = Do_udp_recv pcb n d)"
      "t \<in> set (timers s') \<Longrightarrow> p = Sleeping \<and> (\<exists>m pcb n d. msgs s' t = Some m \<and> m_req m = Do_udp_recv pcb n d)"
      "t \<in> set (dns_wait s') \<Longrightarrow> p = Sleeping \<and> (\<exists>m nm. msgs s' t = Some m \<and> m_req m = Do_gethostbyname nm)"
    and live: "\<And>m pcb n d. p = Sleeping \<Longrightarrow> msgs s' t = Some m \<Longrightarrow> m_req m = Do_udp_recv pcb n d \<Longrightarrow> d \<noteq> 0 \<Longrightarrow> t \<in> set (timers s')"
  shows "api_inv a s' (ph(t := p))"
proof -
  have "refs_ok s' (ph(t := p))"
    unfolding refs_ok_def
  proof (intro conjI allI impI)
    fix pcb u assume h: "udp_cb s' pcb = Some u"
    show "(ph(t := p)) u = Sleeping" "\<exists>m n d. msgs s' u = Some m \<and> m_req m = Do_udp_recv pcb n d"
      using h inv own(1) [of pcb] other [of u] refs(1) [of u pcb] by (cases "u = t"; auto simp: api_inv_def refs_ok_def)+
  next
    fix u assume h: "u \<in> set (timers s')"
    show "(ph(t := p)) u = Sleeping" "\<exists>m pcb n d. msgs s' u = Some m \<and> m_req m = Do_udp_recv pcb n d"
      using h inv own(2) other [of u] refs(2) [of u] by (cases "u = t"; auto simp: api_inv_def refs_ok_def)+
  next
    fix u assume h: "u \<in> set (dns_wait s')"
    show "(ph(t := p)) u = Sleeping" "\<exists>m nm. msgs s' u = Some m \<and> m_req m = Do_gethostbyname nm"
      using h inv own(3) other [of u] refs(3) [of u] by (cases "u = t"; auto simp: api_inv_def refs_ok_def)+
  qed (use dist in simp_all)
  moreover have "timed s' (ph(t := p))"
    unfolding timed_def
  proof (intro allI impI)
    fix u m pcb n d assume h: "(ph(t := p)) u = Sleeping" "msgs s' u = Some m" "m_req m = Do_udp_recv pcb n d" "d \<noteq> 0"
    show "u \<in> set (timers s')"
    proof (cases "u = t")
      case False
      then show ?thesis using h inv other [of u] refs(2) [of u] by (auto simp: api_inv_def timed_def)
    qed (use h live in auto)
  qed
  moreover have "msg_ok s' u ((ph(t := p)) u)" "caller_ok s' u ((ph(t := p)) u)" for u
  proof -
    have "msg_ok s u (ph u)" "caller_ok s u (ph u)" using inv by (simp_all add: api_inv_def)
    then show "msg_ok s' u ((ph(t := p)) u)" "caller_ok s' u ((ph(t := p)) u)"
      using t(4,5) other [of u] by (cases "u = t"; simp add: msg_ok_def caller_ok_def)+
  qed
  ultimately show ?thesis using inv t(1-3) by (simp add: api_inv_def)
qed


lemma inv_not_main: "api_inv a s ph \<Longrightarrow> ph t \<noteq> Idle \<Longrightarrow> t \<noteq> a"
  by (auto simp: api_inv_def)

lemma inv_msg:
  assumes "api_inv a s ph" "ph t \<noteq> Idle"
  obtains m where "msgs s t = Some m" "find_sem (semlist s) t = Some (m_sem m)" "m_sem m < length (sems s)"
  using assms unfolding api_inv_def msg_ok_def sems_ok_def by metis

lemma inv_idle: "api_inv a s ph \<Longrightarrow> ph t = Idle \<Longrightarrow> msgs s t = None"
  by (simp add: api_inv_def msg_ok_def)

lemma inv_refs:
  assumes "api_inv a s ph" "ph t \<noteq> Sleeping"
  shows "udp_cb s pcb \<noteq> Some t" "t \<notin> set (timers s)" "t \<notin> set (dns_wait s)"
  using assms by (auto simp: api_inv_def refs_ok_def)

lemma inv_distinct:
  assumes "api_inv a s ph"
  shows "distinct (timers s)" "distinct (dns_wait s)" "sems_ok s" "api_thread s = Some a"
  using assms by (simp_all add: api_inv_def refs_ok_def)

lemma inv_caller_ok: "api_inv a s ph \<Longrightarrow> caller_ok s t (ph t)"
  by (simp add: api_inv_def)

lemma inv_refD:
  assumes "api_inv a s ph"
  shows "udp_cb s pcb = Some t \<Longrightarrow> ph t = Sleeping \<and> (\<exists>m n d. msgs s t = Some m \<and> m_req m = Do_udp_recv pcb n d)"
    "t \<in> set (timers s) \<Longrightarrow> ph t = Sleeping \<and> (\<exists>m pcb n d. msgs s t = Some m \<and> m_req m = Do_udp_recv pcb n d)"
    "t \<in> set (dns_wait s) \<Longrightarrow> ph t = Sleeping \<and> (\<exists>m nm. msgs s t = Some m \<and> m_req m = Do_gethostbyname nm)"
  using assms unfolding api_inv_def refs_ok_def by blast+

lemma inv_kind:
  assumes "api_inv a s ph" "msgs s t = Some m"
  shows "m_req m = Do_udp_recv pcb n d \<Longrightarrow> p \<noteq> pcb \<Longrightarrow> udp_cb s p \<noteq> Some t"
    "m_req m = Do_udp_recv pcb n d \<Longrightarrow> t \<notin> set (dns_wait s)"
    "m_req m = Do_gethostbyname nm \<Longrightarrow> udp_cb s p \<noteq> Some t" "m_req m = Do_gethostbyname nm \<Longrightarrow> t \<notin> set (timers s)"
  using inv_refD [OF assms(1), where t = t] assms(2) by fastforce+

lemma inv_call:
  assumes inv: "api_inv a s ph" and c: "callers s t = Outside" "t \<noteq> a"
  shows "ph t = Idle" "api_inv a (api_call t r s) (ph(t := Entered))"
proof -
  show i: "ph t = Idle" by (rule inv_phase(1) [OF inv c(1)])
  note rf = inv_refs [OF inv, of t]
  have ok: "sems_ok s" "caller_ok s t Idle" using inv i inv_caller_ok [OF inv, of t] by (simp_all add: api_inv_def)
  show "api_inv a (api_call t r s) (ph(t := Entered))"
  proof (rule inv_step [OF inv c(2)])
    show "sems_ok (api_call t r s)" using ok(1) unfolding sems_ok_def
      by (cases "find_sem (semlist s) t") (fastforce simp: api_call_def Let_def set_msg_def less_Suc_eq split: if_splits)+
    show "msg_ok (api_call t r s) t Entered" "caller_ok (api_call t r s) t Entered"
      using ok by (auto simp: msg_ok_def caller_ok_def sem_value_def api_call_def Let_def set_msg_def split: option.splits)
    fix u assume u: "u \<noteq> t"
    show "find_sem (semlist (api_call t r s)) u = find_sem (semlist s) u \<and> sem_value (api_call t r s) u = sem_value s u
      \<and> callers (api_call t r s) u = callers s u \<and> msgs (api_call t r s) u = msgs s u
      \<and> count_list (tcpip_queue (api_call t r s)) (Some u) = count_list (tcpip_queue s) (Some u)"
      using u ok(1) by (auto simp: sem_value_def api_call_def Let_def set_msg_def sems_ok_def nth_append split: option.splits)
  qed (use inv_distinct [OF inv] rf i in \<open>auto simp: api_call_def Let_def set_msg_def split: option.splits\<close>)
qed

lemma inv_post:
  assumes inv: "api_inv a s ph" and c: "callers s t = Posting"
  shows "ph t = Entered" "api_inv a (api_post t s) (ph(t := Queued))"
proof -
  show i: "ph t = Entered" by (rule inv_phase(2) [OF inv c])
  have ok: "msg_ok s t Entered" "caller_ok s t Entered" using inv i unfolding api_inv_def by metis+
  show "api_inv a (api_post t s) (ph(t := Queued))"
    by (rule inv_step [OF inv]) (use inv_distinct [OF inv] inv_not_main [OF inv, of t] inv_refs [OF inv, of t] i ok in
      \<open>auto simp: api_post_def msg_ok_def caller_ok_def sem_value_def sems_ok_def split: option.splits\<close>)
qed

lemma inv_same:
  assumes "api_inv a s ph" "\<And>t. count_list (tcpip_queue s') (Some t) = count_list (tcpip_queue s) (Some t)"
    "s' = s\<lparr>tcpip_queue := tcpip_queue s', lw := lw s'\<rparr>"
  shows "api_inv a s' ph"
proof -
  have e: "api_thread s' = api_thread s" "semlist s' = semlist s" "sems s' = sems s" "callers s' = callers s" "msgs s' = msgs s"
    "udp_cb s' = udp_cb s" "timers s' = timers s" "dns_wait s' = dns_wait s"
    by (subst assms(3), simp)+
  show ?thesis using assms(1) unfolding api_inv_defs e assms(2) .
qed

text \<open>An answer that comes for a call in phase \<open>Queued\<close> or \<open>Sleeping\<close>.\<close>

lemma inv_answer:
  assumes inv: "api_inv a s ph" and p: "ph t = Queued \<or> ph t = Sleeping" and m: "msgs s t = Some m" "m_sem m' = m_sem m"
    and same: "api_thread s0 = api_thread s" "semlist s0 = semlist s" "sems s0 = sems s" "callers s0 = callers s"
    and msgs: "\<And>u. u \<noteq> t \<Longrightarrow> msgs s0 u = msgs s u"
    and q: "\<And>u. count_list (tcpip_queue s0) (Some u) = (if u = t then 0 else count_list (tcpip_queue s) (Some u))"
    and dist: "distinct (timers s0)" "distinct (dns_wait s0)"
    and refs: "\<And>pcb u. u \<noteq> t \<Longrightarrow> udp_cb s0 pcb = Some u \<Longrightarrow> udp_cb s pcb = Some u" "\<And>u. u \<noteq> t \<Longrightarrow> u \<in> set (timers s0) \<longleftrightarrow> u \<in> set (timers s)"
      "\<And>u. u \<noteq> t \<Longrightarrow> u \<in> set (dns_wait s0) \<Longrightarrow> u \<in> set (dns_wait s)"
    and own: "\<And>pcb. udp_cb s0 pcb \<noteq> Some t" "t \<notin> set (timers s0)" "t \<notin> set (dns_wait s0)"
  shows "api_inv a (sem_give (m_sem m) (set_msg t m' s0)) (ph(t := Answered (m_ret m')))"
proof -
  have n: "ph t \<noteq> Idle" using p by auto
  obtain f: "find_sem (semlist s) t = Some (m_sem m)" "m_sem m < length (sems s)"
    using inv_msg [OF inv n] m(1) by (metis option.inject)
  have c: "callers s t = Asleep" using inv_caller [OF inv, of t] p by auto
  have ne: "u \<noteq> t \<Longrightarrow> find_sem (semlist s) u \<noteq> Some (m_sem m)" for u
    using inv_distinct(3) [OF inv] f(1) by (auto simp: sems_ok_def)
  show ?thesis
  proof (rule inv_step [OF inv inv_not_main [OF inv n]])
    show "sems_ok (sem_give (m_sem m) (set_msg t m' s0))" using inv_distinct(3) [OF inv] by (simp add: sems_ok_def sem_give_def set_msg_def same)
    show "msg_ok (sem_give (m_sem m) (set_msg t m' s0)) t (Answered (m_ret m'))" "caller_ok (sem_give (m_sem m) (set_msg t m' s0)) t (Answered (m_ret m'))"
      using f m c by (simp_all add: msg_ok_def caller_ok_def sem_value_def sem_give_def set_msg_def same q)
    fix u assume u: "u \<noteq> t"
    show "find_sem (semlist (sem_give (m_sem m) (set_msg t m' s0))) u = find_sem (semlist s) u
      \<and> sem_value (sem_give (m_sem m) (set_msg t m' s0)) u = sem_value s u
      \<and> callers (sem_give (m_sem m) (set_msg t m' s0)) u = callers s u \<and> msgs (sem_give (m_sem m) (set_msg t m' s0)) u = msgs s u
      \<and> count_list (tcpip_queue (sem_give (m_sem m) (set_msg t m' s0))) (Some u) = count_list (tcpip_queue s) (Some u)"
      using u ne [OF u] by (auto simp: sem_value_def sem_give_def set_msg_def same msgs q split: option.splits)
  qed (use dist own refs in \<open>auto simp: sem_give_def set_msg_def same\<close>)
qed


lemma inv_accept:
  assumes inv: "api_inv a s ph" and q: "tcpip_queue s = Some t # rest" and f: "api_func w t (s\<lparr>tcpip_queue := rest\<rparr>) = Inr (ret, s1)"
    and r: "tcpip_round w s = Inr s'"
  shows "ph t = Queued" "api_inv a s' (ph(t := if ret = LW_INPROGRESS then Sleeping else Answered ret))"
proof -
  show p: "ph t = Queued" using inv_caller_ok [OF inv, of t] q by (auto simp: caller_ok_def split: if_splits)
  then obtain m where m: "msgs s t = Some m" "find_sem (semlist s) t = Some (m_sem m)" using inv_msg [OF inv] by (metis phase.distinct(3))
  obtain m1 where m1: "msgs s1 = (msgs s)(t := Some m1)" "m_req m1 = m_req m" "m_sem m1 = m_sem m"
    using api_func_frame(1) [OF f] m(1) by auto
  have mm: "msgs (s\<lparr>tcpip_queue := rest\<rparr>) t = Some m" using m(1) by simp
  have fr: "api_thread s1 = api_thread s" "semlist s1 = semlist s" "sems s1 = sems s" "callers s1 = callers s" "tcpip_queue s1 = rest"
    "udp_cb s1 = (case m_req m of Do_udp_recv pcb n d \<Rightarrow> (udp_cb s)(pcb := Some t) | _ \<Rightarrow> udp_cb s)"
    "timers s1 = (case m_req m of Do_udp_recv pcb n d \<Rightarrow> if d = 0 then timers s else t # timers s | _ \<Rightarrow> timers s)"
    "dns_wait s1 = (case m_req m of Do_gethostbyname nm \<Rightarrow> if ret = LW_INPROGRESS then t # dns_wait s else dns_wait s | _ \<Rightarrow> dns_wait s)"
    "\<And>pcb n d. m_req m = Do_udp_recv pcb n d \<Longrightarrow> ret = LW_INPROGRESS"
    by (simp_all add: api_func_frame(2-9) [OF f mm] api_func_frame(10) [OF f mm] split: api_req.splits)
  have s': "s' = (if ret \<noteq> LW_INPROGRESS then sem_give (m_sem m) (set_msg t (m1\<lparr>m_ret := ret\<rparr>) s1) else set_msg t (m1\<lparr>m_ret := ret\<rparr>) s1)"
    using r f m1 by (simp add: tcpip_round_def q api_accept_def msg_of_def Let_def split: if_splits)
  note rf = inv_refs [OF inv, of t, unfolded p, simplified]
  have cnt: "count_list rest (Some t) = 0" "u \<noteq> t \<Longrightarrow> count_list rest (Some u) = count_list (tcpip_queue s) (Some u)" for u
    using inv_caller_ok [OF inv, of t] by (auto simp: caller_ok_def p q)
  show "api_inv a s' (ph(t := if ret = LW_INPROGRESS then Sleeping else Answered ret))"
  proof (cases "ret = LW_INPROGRESS")
    case False
    have "api_inv a (sem_give (m_sem m) (set_msg t (m1\<lparr>m_ret := ret\<rparr>) s1)) (ph(t := Answered (m_ret (m1\<lparr>m_ret := ret\<rparr>))))"
      by (rule inv_answer [OF inv _ m(1)]) (use False p m1 fr rf cnt inv_distinct [OF inv] in \<open>auto split: api_req.splits\<close>)
    then show ?thesis using False s' by simp
  next
    case True
    have c: "callers s t = Asleep" using inv_caller [OF inv, of t] p by auto
    have v: "sem_value s t = 0" using inv_caller_ok [OF inv, of t] p by (simp add: caller_ok_def)
    have e: "s' = set_msg t (m1\<lparr>m_ret := ret\<rparr>) s1" using True s' by simp
    have "api_inv a s' (ph(t := Sleeping))"
    proof (rule inv_step [OF inv inv_not_main [OF inv]])
      show "ph t \<noteq> Idle" by (simp add: p)
      show "sems_ok s'" using inv_distinct(3) [OF inv] by (simp add: e sems_ok_def set_msg_def fr)
      show "msg_ok s' t Sleeping" "caller_ok s' t Sleeping"
        using m m1 c v cnt by (simp_all add: e set_msg_def msg_ok_def caller_ok_def sem_value_def fr)
    qed (use True p m1 fr rf cnt inv_distinct [OF inv] in \<open>auto simp: e set_msg_def sem_value_def split: api_req.splits if_splits option.splits\<close>)
    then show ?thesis using True by simp
  qed
qed

text \<open>The three callbacks.\<close>

lemma inv_timeout:
  assumes inv: "api_inv a s ph" and t: "t \<in> set (timers s)"
  shows "ph t = Sleeping" "\<exists>s'. got_udp_timedout t (s\<lparr>timers := remove1 t (timers s)\<rparr>) = Inr s' \<and> api_inv a s' (ph(t := Answered LW_TIMEOUT))"
proof -
  show p: "ph t = Sleeping" using inv_refD [OF inv] t by blast
  obtain m pcb n d where m: "msgs s t = Some m" "m_req m = Do_udp_recv pcb n d" using inv_refD [OF inv] t by blast
  let ?s = "(s\<lparr>timers := remove1 t (timers s)\<rparr>)\<lparr>udp_cb := (udp_cb s)(pcb := None)\<rparr>"
  have "api_inv a (sem_give (m_sem m) (set_msg t (m\<lparr>m_ret := LW_TIMEOUT\<rparr>) ?s)) (ph(t := Answered (m_ret (m\<lparr>m_ret := LW_TIMEOUT\<rparr>))))"
  proof (rule inv_answer [OF inv _ m(1)])
    show "udp_cb ?s p \<noteq> Some t" for p using inv_kind [OF inv m(1)] m(2) by auto
    show "t \<notin> set (dns_wait ?s)" using inv_kind [OF inv m(1)] m(2) by auto
    show "count_list (tcpip_queue ?s) (Some u) = (if u = t then 0 else count_list (tcpip_queue s) (Some u))" for u
      using inv_caller_ok [OF inv, of t] by (simp add: caller_ok_def p)
  qed (use p inv_distinct [OF inv] in \<open>auto split: if_splits dest: notin_set_remove1\<close>)
  then show "\<exists>s'. got_udp_timedout t (s\<lparr>timers := remove1 t (timers s)\<rparr>) = Inr s' \<and> api_inv a s' (ph(t := Answered LW_TIMEOUT))"
    using m by (simp add: got_udp_timedout_def msg_of_def msg_pcb_def Let_def)
qed

lemma inv_datagram:
  assumes inv: "api_inv a s ph" and t: "udp_cb s pcb = Some t"
  shows "ph t = Sleeping" "\<exists>s'. got_udp t pcb data s = Inr s' \<and> api_inv a s' (ph(t := Answered LW_OK))"
proof -
  show p: "ph t = Sleeping" using inv_refD [OF inv] t by blast
  obtain m n d where m: "msgs s t = Some m" "m_req m = Do_udp_recv pcb n d" using inv_refD [OF inv] t by blast
  let ?s = "s\<lparr>udp_cb := (udp_cb s)(pcb := None), timers := remove1 t (timers s)\<rparr>"
  let ?m = "m\<lparr>m_data := take n data, m_ret := LW_OK\<rparr>"
  have "api_inv a (sem_give (m_sem m) (set_msg t ?m ?s)) (ph(t := Answered (m_ret ?m)))"
  proof (rule inv_answer [OF inv _ m(1)])
    show "udp_cb ?s p \<noteq> Some t" for p using inv_kind [OF inv m(1)] m(2) by auto
    show "t \<notin> set (dns_wait ?s)" using inv_kind [OF inv m(1)] m(2) by auto
    show "count_list (tcpip_queue ?s) (Some u) = (if u = t then 0 else count_list (tcpip_queue s) (Some u))" for u
      using inv_caller_ok [OF inv, of t] by (simp add: caller_ok_def p)
  qed (use p inv_distinct [OF inv] in \<open>auto split: if_splits dest: notin_set_remove1\<close>)
  then show "\<exists>s'. got_udp t pcb data s = Inr s' \<and> api_inv a s' (ph(t := Answered LW_OK))"
    using m by (simp add: got_udp_def msg_of_def msg_len_def Let_def)
qed

lemma inv_resolved:
  assumes inv: "api_inv a s ph" and t: "t \<in> set (dns_wait s)"
  shows "ph t = Sleeping" "\<exists>s'. gethost_callback addr t (s\<lparr>dns_wait := remove1 t (dns_wait s)\<rparr>) = Inr s'
    \<and> api_inv a s' (ph(t := Answered (if addr = None then LW_VAL else LW_OK)))"
proof -
  show p: "ph t = Sleeping" using inv_refD [OF inv] t by blast
  obtain m nm where m: "msgs s t = Some m" "m_req m = Do_gethostbyname nm" using inv_refD [OF inv] t by blast
  let ?s = "s\<lparr>dns_wait := remove1 t (dns_wait s)\<rparr>"
  let ?m = "case addr of None \<Rightarrow> m\<lparr>m_ret := LW_VAL\<rparr> | Some x \<Rightarrow> m\<lparr>m_ret := LW_OK, m_addr := x\<rparr>"
  have "api_inv a (sem_give (m_sem m) (set_msg t ?m ?s)) (ph(t := Answered (m_ret ?m)))"
  proof (rule inv_answer [OF inv _ m(1)])
    show "udp_cb ?s p \<noteq> Some t" "t \<notin> set (timers ?s)" for p using inv_kind [OF inv m(1)] m(2) by auto
    show "count_list (tcpip_queue ?s) (Some u) = (if u = t then 0 else count_list (tcpip_queue s) (Some u))" for u
      using inv_caller_ok [OF inv, of t] by (simp add: caller_ok_def p)
  qed (use p inv_distinct [OF inv] in \<open>auto split: option.splits dest: notin_set_remove1\<close>)
  then show "\<exists>s'. gethost_callback addr t (s\<lparr>dns_wait := remove1 t (dns_wait s)\<rparr>) = Inr s'
    \<and> api_inv a s' (ph(t := Answered (if addr = None then LW_VAL else LW_OK)))"
    using m by (cases addr) (simp_all add: gethost_callback_def msg_of_def Let_def)
qed

lemma inv_return:
  assumes inv: "api_inv a s ph" and c: "callers s t = Asleep" "api_return t s = Inr (m, s')" "sems s ! m_sem m = 1"
  shows "ph t = Answered (m_ret m)" "api_inv a s' (ph(t := Idle))"
proof -
  have n: "ph t \<noteq> Idle" using inv_caller [OF inv, of t] c(1) by auto
  have "msgs s t = Some m" using c(2) by (auto simp: api_return_def msg_of_def split: option.splits)
  then have m: "msgs s t = Some m" "find_sem (semlist s) t = Some (m_sem m)" "m_sem m < length (sems s)"
    using inv_msg [OF inv n] by (metis option.inject)+
  have s': "s' = s\<lparr>sems := (sems s)[m_sem m := 0], msgs := (msgs s)(t := None), callers := (callers s)(t := Outside)\<rparr>"
    using c(2) m(1) by (simp add: api_return_def msg_of_def)
  have "sem_value s t = 1" using m c(3) by (simp add: sem_value_def)
  then obtain r where p: "ph t = Answered r" using inv_caller_ok [OF inv, of t] by (auto simp: caller_ok_def split: phase.splits)
  moreover have "msg_ok s t (ph t)" using inv by (simp add: api_inv_def)
  ultimately show "ph t = Answered (m_ret m)" using m(1) by (simp add: msg_ok_def)
  have ne: "u \<noteq> t \<Longrightarrow> find_sem (semlist s) u \<noteq> Some (m_sem m)" for u
    using inv_distinct(3) [OF inv] m(2) by (auto simp: sems_ok_def)
  show "api_inv a s' (ph(t := Idle))"
  proof (rule inv_step [OF inv inv_not_main [OF inv n]])
    show "sems_ok s'" using inv_distinct(3) [OF inv] by (simp add: sems_ok_def s')
    show "msg_ok s' t Idle" "caller_ok s' t Idle" using m inv_caller_ok [OF inv, of t] by (simp_all add: msg_ok_def caller_ok_def sem_value_def s' p)
    show "find_sem (semlist s') u = find_sem (semlist s) u \<and> sem_value s' u = sem_value s u \<and> callers s' u = callers s u
      \<and> msgs s' u = msgs s u \<and> count_list (tcpip_queue s') (Some u) = count_list (tcpip_queue s) (Some u)" if "u \<noteq> t" for u
      using that ne [OF that] by (auto simp: sem_value_def s' split: option.splits)
  qed (use inv_distinct [OF inv] inv_refs [OF inv, of t] p in \<open>auto simp: s'\<close>)
qed

lemma inv_inline:
  assumes inv: "api_inv a s ph" and r: "api_inline w a r s = Inr (ret, s')"
  shows "api_inv a s' ph"
proof -
  define m where "m = \<lparr>m_req = r, m_sem = 0, m_ret = LW_OK, m_data = [], m_addr = 0\<rparr>"
  let ?s = "set_msg a m s"
  obtain s1 where f: "api_func w a ?s = Inr (ret, s1)" "ret \<noteq> LW_INPROGRESS" "s' = s1\<lparr>msgs := (msgs s1)(a := None)\<rparr>"
    using r unfolding api_inline_def Let_def m_def by (auto simp: ASSERT_def split: if_splits)
  have m: "msgs ?s a = Some m" by (simp add: set_msg_def)
  obtain m1 where m1: "msgs s1 = (msgs ?s)(a := Some m1)" using api_func_frame(1) [OF f(1) m] by auto
  have "msgs s a = None" using inv by (intro inv_idle [OF inv]) (simp add: api_inv_def)
  then have e: "msgs s' = msgs s" using m1 f(3) by (auto simp: set_msg_def)
  have fr: "api_thread s' = api_thread s" "semlist s' = semlist s" "sems s' = sems s" "callers s' = callers s" "tcpip_queue s' = tcpip_queue s"
    "udp_cb s' = udp_cb s" "timers s' = timers s" "dns_wait s' = dns_wait s"
    using api_func_frame(2-) [OF f(1) m] f(2,3) by (auto simp: set_msg_def split: api_req.splits)
  show ?thesis using inv unfolding api_inv_defs e fr .
qed


section \<open>Runs\<close>

lemma step_refines:
  assumes "api_step w s e s'" "api_inv a s ph"
  shows "\<exists>ph'. spec_step e ph = Some ph' \<and> api_inv a s' ph'"
  using assms
proof (cases rule: api_step.cases)
  case (inline b r ret)
  then show ?thesis using inv_inline [OF assms(2)] inv_distinct(4) [OF assms(2)] by auto
next
  case (call b t r)
  then show ?thesis using inv_call [OF assms(2)] inv_distinct(4) [OF assms(2)] by auto
next
  case (post t)
  then show ?thesis using inv_post [OF assms(2)] by auto
next
  case wake
  then show ?thesis by (auto intro!: inv_same [OF assms(2)])
next
  case (woken rest)
  then show ?thesis by (auto simp: tcpip_round_def intro!: inv_same [OF assms(2)])
next
  case (accept t rest ret s1)
  then show ?thesis using inv_accept [OF assms(2)] by auto
next
  case (timeout t)
  then show ?thesis using inv_timeout [OF assms(2), of t] by auto
next
  case (datagram pcb t p)
  then show ?thesis using inv_datagram(1) [OF assms(2), of pcb t] inv_datagram(2) [OF assms(2), of pcb t p] by auto
next
  case (resolved t b)
  then show ?thesis using inv_resolved(1) [OF assms(2), of t] inv_resolved(2) [OF assms(2), of t b] by auto
next
  case (return t m)
  then show ?thesis using inv_return [OF assms(2)] by auto
next
  case (progress l)
  then show ?thesis by (auto intro!: inv_same [OF assms(2)])
qed

lemma run_refines: "api_run w s0 es s \<Longrightarrow> api_inv a s0 ph0 \<Longrightarrow> \<exists>ph. spec_run es ph0 = Some ph \<and> api_inv a s ph"
proof (induction rule: api_run.induct)
  case (run_snoc s es t e t')
  then obtain ph where "spec_run es ph0 = Some ph" "api_inv a t ph" by auto
  then show ?case using step_refines [OF run_snoc.hyps(2)] by (auto simp: spec_run_snoc)
qed simp

lemma run_append: "api_run w s0 es s \<Longrightarrow> api_run w s fs t \<Longrightarrow> api_run w s0 (es @ fs) t"
  by (rotate_tac, induction rule: api_run.induct) (auto simp flip: append_assoc intro: run_snoc)

lemma run_one: "api_step w s e t \<Longrightarrow> api_run w s [e] t"
  using run_snoc [OF run_nil] by fastforce

lemma round_ok:
  assumes "api_inv a s ph"
  shows "\<exists>s'. tcpip_round w s = Inr s'"
proof (cases "tcpip_queue s")
  case (Cons x rest)
  show ?thesis
  proof (cases x)
    case (Some t)
    have "ph t = Queued" using inv_caller_ok [OF assms, of t] Cons Some by (auto simp: caller_ok_def split: if_splits)
    then obtain m where m: "msgs s t = Some m" using inv_msg [OF assms] by (metis phase.distinct(3))
    then have mm: "msgs (s\<lparr>tcpip_queue := rest\<rparr>) t = Some m" by simp
    obtain ret s1 where f: "api_func w t (s\<lparr>tcpip_queue := rest\<rparr>) = Inr (ret, s1)" using api_func_total [OF mm] by blast
    obtain m1 where "msgs s1 t = Some m1" using api_func_frame(1) [OF f mm] by auto
    then show ?thesis using Cons Some f by (simp add: tcpip_round_def api_accept_def msg_of_def Let_def)
  qed (simp add: tcpip_round_def Cons)
qed (simp add: tcpip_round_def)

text \<open>A message that waits in the queue is handled.\<close>

lemma round_frame:
  assumes inv: "api_inv a s ph" and q: "tcpip_queue s = x # rest"
  shows "\<exists>e s'. api_step w s e s' \<and> tcpip_queue s' = rest \<and> (\<forall>t. x \<noteq> Some t \<longrightarrow> msgs s' t = msgs s t)
    \<and> (\<forall>t m. x = Some t \<longrightarrow> msgs s t = Some m \<longrightarrow> (\<exists>ret m'. e = Accept t ret \<and> msgs s' t = Some m' \<and> m_req m' = m_req m))"
proof -
  obtain s' where r: "tcpip_round w s = Inr s'" using round_ok [OF inv] by blast
  show ?thesis
  proof (cases x)
    case None
    have "api_step w s Woken s'" using q r None by (intro woken) simp
    moreover have "s' = s\<lparr>tcpip_queue := rest\<rparr>" using r q None by (simp add: tcpip_round_def)
    ultimately show ?thesis using None by (intro exI [of _ Woken] exI [of _ s']) simp
  next
    case (Some t)
    have "ph t = Queued" using inv_caller_ok [OF inv, of t] q Some by (auto simp: caller_ok_def split: if_splits)
    then obtain m where m: "msgs s t = Some m" using inv_msg [OF inv] by (metis phase.distinct(3))
    then have mm: "msgs (s\<lparr>tcpip_queue := rest\<rparr>) t = Some m" by simp
    obtain ret s1 where f: "api_func w t (s\<lparr>tcpip_queue := rest\<rparr>) = Inr (ret, s1)" using api_func_total [OF mm] by blast
    obtain m1 where m1: "msgs s1 = (msgs s)(t := Some m1)" "m_req m1 = m_req m" "m_sem m1 = m_sem m" "tcpip_queue s1 = rest"
      using api_func_frame(1,6) [OF f mm] by auto
    have "api_step w s (Accept t ret) s'" using q f r Some by (intro accept) simp_all
    moreover have "tcpip_queue s' = rest" "\<exists>m'. msgs s' = (msgs s)(t := Some m') \<and> m_req m' = m_req m"
      using r q Some f m1 by (auto simp: tcpip_round_def api_accept_def msg_of_def Let_def set_msg_def sem_give_def)
    ultimately show ?thesis using Some m by (intro exI [of _ "Accept t ret"] exI [of _ s']) auto
  qed
qed

lemma served:
  "api_inv a s ph \<Longrightarrow> tcpip_queue s = pre @ Some t # post \<Longrightarrow> msgs s t = Some m \<Longrightarrow>
   \<exists>es s' ph' m'. api_run w s es s' \<and> api_inv a s' ph' \<and> msgs s' t = Some m' \<and> m_req m' = m_req m \<and> ph' t \<in> {Sleeping} \<union> range Answered"
proof (induction pre arbitrary: s ph)
  case Nil
  obtain e s' where e: "api_step w s e s'" "\<exists>ret m'. e = Accept t ret \<and> msgs s' t = Some m' \<and> m_req m' = m_req m"
    using round_frame [OF Nil.prems(1), of "Some t" post w] Nil.prems(2,3) by auto
  then obtain ret m' where m': "e = Accept t ret" "msgs s' t = Some m'" "m_req m' = m_req m" by blast
  obtain ph' where "spec_step e ph = Some ph'" "api_inv a s' ph'" using step_refines [OF e(1) Nil.prems(1)] by blast
  then have "api_inv a s' ph'" "ph' t \<in> {Sleeping} \<union> range Answered" using m'(1) by (auto split: if_splits)
  then show ?case using run_one [OF e(1)] m' by blast
next
  case (Cons x pre)
  have "ph t = Queued" "count_list (tcpip_queue s) (Some t) = 1"
    using inv_caller_ok [OF Cons.prems(1), of t] Cons.prems(2) by (auto simp: caller_ok_def split: if_splits)
  then have x: "x \<noteq> Some t" using Cons.prems(2) by auto
  obtain e s' where e: "api_step w s e s'" "tcpip_queue s' = pre @ Some t # post" "msgs s' t = msgs s t"
    using round_frame [OF Cons.prems(1), of x "pre @ Some t # post" w] Cons.prems(2) x by auto
  obtain ph' where "api_inv a s' ph'" using step_refines [OF e(1) Cons.prems(1)] by blast
  then obtain es s'' ph'' m' where "api_run w s' es s''" "api_inv a s'' ph''" "msgs s'' t = Some m'" "m_req m' = m_req m"
    "ph'' t \<in> {Sleeping} \<union> range Answered" using Cons.IH [of s' ph'] e(2,3) Cons.prems(3) by auto
  then show ?case using run_append [OF run_one [OF e(1)]] by blast
qed

lemma returns_now:
  assumes "api_inv a s ph" "ph t = Answered ret"
  shows "\<exists>s'. api_step w s (Return t ret) s' \<and> callers s' t = Outside"
proof -
  obtain m where m: "msgs s t = Some m" "find_sem (semlist s) t = Some (m_sem m)" using inv_msg [OF assms(1), of t] assms(2) by force
  have "msg_ok s t (ph t)" "caller_ok s t (ph t)" using assms(1) by (simp_all add: api_inv_def)
  then have r: "m_ret m = ret" "callers s t = Asleep" "sems s ! m_sem m = 1" using m assms(2) by (auto simp: msg_ok_def caller_ok_def sem_value_def)
  let ?s = "s\<lparr>sems := (sems s)[m_sem m := 0], msgs := (msgs s)(t := None), callers := (callers s)(t := Outside)\<rparr>"
  have "api_return t s = Inr (m, ?s)" using m(1) by (simp add: api_return_def msg_of_def)
  from return [OF r(2) this r(3)] r(1) show ?thesis by (intro exI [of _ ?s]) simp
qed

lemma answered_or_timeout:
  assumes inv: "api_inv a s ph" and p: "ph t \<in> {Sleeping} \<union> range Answered" and m: "msgs s t = Some m" "m_req m = Do_udp_recv pcb n d" "d \<noteq> 0"
  shows "\<exists>es s' ph' ret. api_run w s es s' \<and> api_inv a s' ph' \<and> ph' t = Answered ret"
proof (cases "ph t = Sleeping")
  case True
  then have t: "t \<in> set (timers s)" using inv m unfolding api_inv_def timed_def by blast
  obtain s' where s': "got_udp_timedout t (s\<lparr>timers := remove1 t (timers s)\<rparr>) = Inr s'" "api_inv a s' (ph(t := Answered LW_TIMEOUT))"
    using inv_timeout [OF inv t] by blast
  have "(ph(t := Answered LW_TIMEOUT)) t = Answered LW_TIMEOUT" by simp
  then show ?thesis using s'(2) run_one [OF timeout [OF t s'(1)]] by blast
next
  case False
  then show ?thesis using p inv run_nil by blast
qed

section \<open>Properties\<close>


definition lwip0 :: "unit lwip" where
  "lwip0 = \<lparr>lw_tcp_write = (\<lambda>_ _ _ l. (LW_OK, l)), lw_tcp_output = (\<lambda>_ l. (LW_OK, l)), lw_udp_connect = (\<lambda>_ _ _ l. (LW_OK, l)),
     lw_pbuf_alloc = (\<lambda>_ l. (True, l)), lw_udp_send = (\<lambda>_ _ l. (LW_OK, l)), lw_pbuf_free = (\<lambda>l. l), lw_dns = (\<lambda>_ l. (LW_INPROGRESS, 0, l))\<rparr>"

definition recv_called :: "unit api_sys" where
  "recv_called = api_post 1 (api_call 1 (Do_udp_recv 7 48 1000) (api_init 0 ()))"

lemma recv_run: "api_run lwip0 (api_init 0 ()) [Call 1 (Do_udp_recv 7 48 1000), Post 1] recv_called"
proof -
  let ?s = "api_init 0 () :: unit api_sys" let ?r = "Do_udp_recv 7 48 1000"
  have "api_run lwip0 ?s ([] @ [Call 1 ?r]) (api_call 1 ?r ?s)"
    by (intro run_snoc [OF run_nil] call [where a = 0]) (simp_all add: api_init_def api_set_main_thread_def api_start_def)
  moreover have "api_step lwip0 (api_call 1 ?r ?s) (Post 1) recv_called" unfolding recv_called_def
    by (rule post) (simp_all add: api_call_def Let_def set_msg_def api_init_def api_set_main_thread_def api_start_def)
  ultimately have "api_run lwip0 ?s (([] @ [Call 1 ?r]) @ [Post 1]) recv_called" by (rule run_snoc)
  then show ?thesis by simp
qed


text \<open>C36. No message is used after its call has returned: in every reachable state whatever the network
  thread may do next, a round of its loop, a timer, a datagram or an answer of the name server, finds its
  message on the stack of a thread that sleeps, and no step faults.\<close>

theorem api_no_dangling:
  assumes "api_run w (api_init a l) es s"
  shows "(\<exists>s'. tcpip_round w s = Inr s')
    \<and> (\<forall>t \<in> set (timers s). \<exists>s'. got_udp_timedout t (s\<lparr>timers := remove1 t (timers s)\<rparr>) = Inr s')
    \<and> (\<forall>pcb t p. udp_cb s pcb = Some t \<longrightarrow> (\<exists>s'. got_udp t pcb p s = Inr s'))
    \<and> (\<forall>t \<in> set (dns_wait s). \<forall>x. \<exists>s'. gethost_callback x t (s\<lparr>dns_wait := remove1 t (dns_wait s)\<rparr>) = Inr s')
    \<and> (\<forall>t. callers s t = Asleep \<longrightarrow> (\<exists>m s'. api_return t s = Inr (m, s') \<and> m_sem m < length (sems s)))"
proof -
  obtain ph where inv: "api_inv a s ph" using run_refines [OF assms api_inv_init] by blast
  have "\<exists>m s'. api_return t s = Inr (m, s') \<and> m_sem m < length (sems s)" if "callers s t = Asleep" for t
  proof -
    have "ph t \<noteq> Idle" using inv_caller [OF inv, of t] that by auto
    then obtain m where "msgs s t = Some m" "m_sem m < length (sems s)" by (rule inv_msg [OF inv])
    then show ?thesis by (simp add: api_return_def msg_of_def)
  qed
  then show ?thesis using round_ok [OF inv] inv_timeout(2) [OF inv] inv_datagram(2) [OF inv] inv_resolved(2) [OF inv] by blast
qed

theorem api_no_dangling_witness: "\<exists>s'. tcpip_round lwip0 recv_called = Inr s'"
  using api_no_dangling [OF recv_run] by blast

text \<open>C37. A receive with a time limit always comes back: from every reachable state in which a thread sleeps in
  \<open>api_udp_recv\<close> with a time limit the system can go on to the return of that call, even when another
  thread has taken over the connection.\<close>

theorem api_recv_returns:
  assumes run: "api_run w (api_init a l) es s"
    and t: "callers s t = Asleep" "msgs s t = Some m" "m_req m = Do_udp_recv pcb n d" "d \<noteq> 0"
  shows "\<exists>fs ret s'. api_run w (api_init a l) (es @ fs @ [Return t ret]) s' \<and> callers s' t = Outside"
proof -
  obtain ph where inv: "api_inv a s ph" using run_refines [OF run api_inv_init] by blast
  have p: "ph t \<in> {Queued, Sleeping} \<union> range Answered" using inv_caller [OF inv, of t] t(1) by (cases "ph t") auto
  obtain gs s1 ph1 m1 where g: "api_run w s gs s1" "api_inv a s1 ph1" "msgs s1 t = Some m1" "m_req m1 = m_req m"
    "ph1 t \<in> {Sleeping} \<union> range Answered"
  proof (cases "ph t = Queued")
    case True
    then have "Some t \<in> set (tcpip_queue s)" using inv_caller_ok [OF inv, of t] count_notin [of "Some t" "tcpip_queue s"] by (auto simp: caller_ok_def)
    then obtain pre post where "tcpip_queue s = pre @ Some t # post" by (meson split_list)
    from served [OF inv this t(2), of w] that show ?thesis by blast
  qed (use p that [OF run_nil inv t(2)] in auto)
  obtain hs s2 ph2 ret where h: "api_run w s1 hs s2" "api_inv a s2 ph2" "ph2 t = Answered ret"
    using answered_or_timeout [OF g(2,5,3), of pcb n d w] g(4) t(3,4) by auto
  obtain s' where s': "api_step w s2 (Return t ret) s'" "callers s' t = Outside" using returns_now [OF h(2,3)] by blast
  have "api_run w (api_init a l) (es @ (gs @ hs) @ [Return t ret]) s'"
    using run_append [OF run run_append [OF run_append [OF g(1) h(1)] run_one [OF s'(1)]]] by simp
  then show ?thesis using s'(2) by blast
qed

theorem api_recv_returns_witness:
  "\<exists>fs ret s'. api_run lwip0 (api_init 0 ()) ([Call 1 (Do_udp_recv 7 48 1000), Post 1] @ fs @ [Return 1 ret]) s' \<and> callers s' 1 = Outside"
proof -
  have m: "callers recv_called 1 = Asleep" "\<exists>m. msgs recv_called 1 = Some m \<and> m_req m = Do_udp_recv 7 48 1000"
    by (auto simp: recv_called_def api_post_def api_call_def Let_def set_msg_def api_init_def api_set_main_thread_def api_start_def)
  then obtain m where "msgs recv_called 1 = Some m" "m_req m = Do_udp_recv 7 48 1000" by blast
  from api_recv_returns [OF recv_run m(1) this] show ?thesis by simp
qed

end
