(* ===== verification/Dma.thy ===== *)
theory Dma
  imports Common
begin

text \<open>
  The DMA channels, \<open>src/lib/stm32/dma.c\<close>: the table of the twelve channels, their registers, the
  handlers and how an interrupt finds the driver. The theory shows which flags a handler reads and clears.
\<close>

section \<open>State\<close>

datatype dma_ctl = DMA1 | DMA2

record dma_ch =
  dc_ctl :: dma_ctl
  dc_vector :: nat
  dc_index :: nat
  dc_ishift :: nat

text \<open>
  \<open>d_isr\<close> holds the flags of both controllers: writing \<open>IFCR\<close> clears the bits that are written as one. The
  registers of the channels are lists in the order of the table. \<open>isr_funcs\<close> names functions and \<open>isr_params\<close>
  their parameters; \<open>nvic\<close> has the vectors that are enabled.
\<close>

record 'f dma =
  d_isr :: "dma_ctl \<Rightarrow> u32"
  d_ccr :: "u32 list"
  d_cndtr :: "u32 list"
  d_cpar :: "nat list"
  d_cmar :: "nat list"
  isr_funcs :: "'f option list"
  isr_params :: "nat list"
  nvic :: "nat set"
  nvic_prio :: "nat \<Rightarrow> u32"

definition DMA_STREAMS :: nat where "DMA_STREAMS = 12"
definition DMA_CCR1_EN :: u32 where "DMA_CCR1_EN = 0x01"
definition DMA_CCR1_TCIE :: u32 where "DMA_CCR1_TCIE = 0x02"
definition DMA_CCR1_TEIE :: u32 where "DMA_CCR1_TEIE = 0x08"
definition DMA_CCR1_DIR :: u32 where "DMA_CCR1_DIR = 0x10"
definition DMA_CCR1_MINC :: u32 where "DMA_CCR1_MINC = 0x80"
definition DMA_CCR1_PSIZE_0 :: u32 where "DMA_CCR1_PSIZE_0 = 0x100"
definition DMA_CCR1_MSIZE_0 :: u32 where "DMA_CCR1_MSIZE_0 = 0x400"

lemmas dma_bits = DMA_CCR1_EN_def DMA_CCR1_TCIE_def DMA_CCR1_TEIE_def DMA_CCR1_DIR_def DMA_CCR1_MINC_def DMA_CCR1_PSIZE_0_def
  DMA_CCR1_MSIZE_0_def

definition dma_streams :: "dma_ch list" where
  "dma_streams =
     map (\<lambda>(c, v, i, s). \<lparr>dc_ctl = c, dc_vector = v, dc_index = i, dc_ishift = s\<rparr>)
       [(DMA1, 11, 0, 0), (DMA1, 12, 1, 4), (DMA1, 13, 2, 8), (DMA1, 14, 3, 12), (DMA1, 15, 4, 16), (DMA1, 16, 5, 20), (DMA1, 17, 6, 24),
        (DMA2, 56, 7, 0), (DMA2, 57, 8, 4), (DMA2, 58, 9, 8), (DMA2, 59, 10, 12), (DMA2, 60, 11, 16)]"

section \<open>Operations\<close>

definition write_ifcr :: "dma_ctl \<Rightarrow> u32 \<Rightarrow> 'f dma \<Rightarrow> 'f dma" where
  "write_ifcr c v d = d\<lparr>d_isr := (d_isr d)(c := d_isr d c AND NOT v)\<rparr>"

definition set_ccr :: "dma_ch \<Rightarrow> u32 \<Rightarrow> 'f dma \<Rightarrow> 'f dma" where
  "set_ccr ch v d = d\<lparr>d_ccr := (d_ccr d)[dc_index ch := v]\<rparr>"

definition dma_enable :: "dma_ch \<Rightarrow> 'f dma \<Rightarrow> 'f dma" where
  "dma_enable ch d = set_ccr ch (d_ccr d ! dc_index ch OR DMA_CCR1_EN) d"

definition dma_disable :: "dma_ch \<Rightarrow> 'f dma \<Rightarrow> 'f dma" where
  "dma_disable ch d =
     (let d = set_ccr ch (d_ccr d ! dc_index ch AND NOT DMA_CCR1_EN) d in
      write_ifcr (dc_ctl ch) (push_bit (dc_ishift ch) 0xF) d)"

definition dma_allocate :: "dma_ch \<Rightarrow> u32 \<Rightarrow> 'f option \<Rightarrow> nat \<Rightarrow> 'f dma \<Rightarrow> 'f dma" where
  "dma_allocate ch irq_priority func param d =
     (let d = d\<lparr>isr_funcs := (isr_funcs d)[dc_index ch := func], isr_params := (isr_params d)[dc_index ch := param]\<rparr>;
          d = dma_disable ch d;
          d = set_ccr ch 0 d in
      d\<lparr>nvic_prio := (nvic_prio d)(dc_vector ch := irq_priority), nvic := insert (dc_vector ch) (nvic d)\<rparr>)"

definition dma_release :: "dma_ch \<Rightarrow> 'f dma \<Rightarrow> 'f dma" where
  "dma_release ch d = dma_disable ch (d\<lparr>nvic := nvic d - {dc_vector ch}\<rparr>)"

text \<open>The result is the function that is called, with its parameter and the flags.\<close>

definition dma_service_irq :: "dma_ctl \<Rightarrow> dma_ch \<Rightarrow> 'f dma \<Rightarrow> ('f \<times> nat \<times> u32) option \<times> 'f dma" where
  "dma_service_irq c ch d =
     (let flags = drop_bit (dc_ishift ch) (d_isr d c) AND 0xF;
          d = write_ifcr c (push_bit (dc_ishift ch) 0xF) d in
      (map_option (\<lambda>f. (f, isr_params d ! dc_index ch, flags)) (isr_funcs d ! dc_index ch), d))"

text \<open>The handlers of all twelve channels, in the order of the table: all of them pass \<open>DMA1\<close>.\<close>

definition DMA_IRQHandler :: "nat \<Rightarrow> 'f dma \<Rightarrow> ('f \<times> nat \<times> u32) option \<times> 'f dma" where
  "DMA_IRQHandler i = dma_service_irq DMA1 (dma_streams ! i)"

text \<open>The end of a transfer, by the controller: the global and the transfer-complete flag of the channel.\<close>

definition raise_tc :: "dma_ch \<Rightarrow> 'f dma \<Rightarrow> 'f dma" where
  "raise_tc ch d = d\<lparr>d_isr := (d_isr d)(dc_ctl ch := d_isr d (dc_ctl ch) OR push_bit (dc_ishift ch) 3)\<rparr>"

section \<open>Flags\<close>

definition dma_ok :: "'f dma \<Rightarrow> bool" where
  "dma_ok d \<longleftrightarrow> length (d_ccr d) = 12 \<and> length (d_cndtr d) = 12 \<and> length (d_cpar d) = 12 \<and> length (d_cmar d) = 12
     \<and> length (isr_funcs d) = 12 \<and> length (isr_params d) = 12"

definition stream_ok :: "dma_ch \<Rightarrow> bool" where
  "stream_ok ch \<longleftrightarrow> dc_index ch < 12 \<and> dc_ishift ch = 4 * (dc_index ch mod 7) \<and> dc_ctl ch = (if dc_index ch < 7 then DMA1 else DMA2)"

lemma dma_streams_ok: "list_all stream_ok dma_streams" "map dc_index dma_streams = [0..<12]" "length dma_streams = 12" "distinct (map dc_vector dma_streams)"
  by (simp_all add: dma_streams_def stream_ok_def upt_rec)

lemma stream_nth: "i < 12 \<Longrightarrow> stream_ok (dma_streams ! i) \<and> dc_index (dma_streams ! i) = i"
  using dma_streams_ok by (metis list_all_length nth_map length_map nth_upt add_0 diff_zero length_upt)

lemma mask_bit: "bit (push_bit k (0xF :: u32)) n \<longleftrightarrow> k \<le> n \<and> n < k + 4 \<and> n < 32"
proof -
  have e: "(0xF :: u32) = mask 4" by (simp add: mask_eq_exp_minus_1)
  have b: "bit (0xF :: u32) m \<longleftrightarrow> m < 4" for m unfolding e bit_mask_iff possible_bit_word by auto
  show ?thesis unfolding bit_push_bit_iff b possible_bit_word by auto
qed

text \<open>A handler calls the function of its channel, and clears the four flags of one channel of the first controller.\<close>

lemma handler_clears:
  assumes "i < 12"
  shows "bit (d_isr (snd (DMA_IRQHandler i d)) c) n \<longleftrightarrow>
      bit (d_isr d c) n \<and> \<not> (c = DMA1 \<and> 4 * (i mod 7) \<le> n \<and> n < 4 * (i mod 7) + 4)"
    "fst (DMA_IRQHandler i d) = map_option (\<lambda>f. (f, isr_params d ! i, drop_bit (4 * (i mod 7)) (d_isr d DMA1) AND 0xF)) (isr_funcs d ! i)"
proof -
  have n: "bit (d_isr d c) n \<Longrightarrow> n < 32" using bit_imp_possible_bit [of "d_isr d c" n] by (simp add: possible_bit_word)
  show "bit (d_isr (snd (DMA_IRQHandler i d)) c) n \<longleftrightarrow> bit (d_isr d c) n \<and> \<not> (c = DMA1 \<and> 4 * (i mod 7) \<le> n \<and> n < 4 * (i mod 7) + 4)"
    using stream_nth [OF assms] n
    by (auto simp: DMA_IRQHandler_def dma_service_irq_def Let_def write_ifcr_def stream_ok_def bit_and_iff bit_not_iff mask_bit possible_bit_word)
  show "fst (DMA_IRQHandler i d) = map_option (\<lambda>f. (f, isr_params d ! i, drop_bit (4 * (i mod 7)) (d_isr d DMA1) AND 0xF)) (isr_funcs d ! i)"
    using stream_nth [OF assms] by (simp add: DMA_IRQHandler_def dma_service_irq_def Let_def write_ifcr_def stream_ok_def)
qed

section \<open>What the operations keep\<close>

lemma dma_ok_simps [simp]:
  "dma_ok d \<Longrightarrow> dma_ok (set_ccr ch v d)" "dma_ok d \<Longrightarrow> dma_ok (write_ifcr c v d)"
  "dma_ok d \<Longrightarrow> dma_ok (dma_enable ch d)" "dma_ok d \<Longrightarrow> dma_ok (dma_disable ch d)" "dma_ok d \<Longrightarrow> dma_ok (raise_tc ch d)"
  "dma_ok d \<Longrightarrow> dma_ok (dma_allocate ch p f x d)"
  by (simp_all add: dma_ok_def set_ccr_def write_ifcr_def dma_enable_def dma_disable_def dma_allocate_def raise_tc_def Let_def)

lemma set_ccr_nth: "dma_ok d \<Longrightarrow> dc_index ch < 12 \<Longrightarrow> i < 12 \<Longrightarrow> d_ccr (set_ccr ch v d) ! i = (if i = dc_index ch then v else d_ccr d ! i)"
  by (simp add: set_ccr_def dma_ok_def)

lemma dma_frame [simp]:
  "d_ccr (write_ifcr c v d) = d_ccr d" "d_cndtr (write_ifcr c v d) = d_cndtr d" "d_cmar (write_ifcr c v d) = d_cmar d"
  "isr_funcs (write_ifcr c v d) = isr_funcs d" "nvic (write_ifcr c v d) = nvic d"
  "d_cndtr (set_ccr ch v d) = d_cndtr d" "d_cmar (set_ccr ch v d) = d_cmar d" "isr_funcs (set_ccr ch v d) = isr_funcs d" "nvic (set_ccr ch v d) = nvic d"
  "d_cndtr (dma_enable ch d) = d_cndtr d" "d_cmar (dma_enable ch d) = d_cmar d" "isr_funcs (dma_enable ch d) = isr_funcs d" "nvic (dma_enable ch d) = nvic d"
  "d_cndtr (dma_disable ch d) = d_cndtr d" "d_cmar (dma_disable ch d) = d_cmar d" "isr_funcs (dma_disable ch d) = isr_funcs d" "nvic (dma_disable ch d) = nvic d"
  "d_ccr (raise_tc ch d) = d_ccr d" "isr_funcs (raise_tc ch d) = isr_funcs d" "nvic (raise_tc ch d) = nvic d" "d_cmar (raise_tc ch d) = d_cmar d"
  "d_cndtr (raise_tc ch d) = d_cndtr d"
  by (simp_all add: write_ifcr_def set_ccr_def dma_enable_def dma_disable_def raise_tc_def Let_def)

lemma len_up: "unat (ucast (len :: u16) :: u32) = unat len"
proof -
  have "unat len < 2 ^ 32" using unsigned_less [of len, where 'a = nat] by simp
  then show ?thesis by (simp add: unsigned_ucast_eq take_bit_nat_eq_self)
qed

lemma handler_frame:
  "isr_funcs (snd (DMA_IRQHandler i d)) = isr_funcs d" "nvic (snd (DMA_IRQHandler i d)) = nvic d"
  "dma_ok d \<Longrightarrow> dma_ok (snd (DMA_IRQHandler i d))"
  by (simp_all add: DMA_IRQHandler_def dma_service_irq_def Let_def)

end
