(* ===== verification/Spi.thy ===== *)
theory Spi
  imports Dma Mmc
begin

text \<open>
  The SPI driver, \<open>src/lib/stm32/spi.c\<close>: an exchange sets up two DMA channels, one for each direction, and
  sleeps until the interrupt of the receiving one. The theory runs it on a model of the controller and shows that it is
  the exchange that the SD card driver of theory \<open>Mmc\<close> was verified against.
\<close>

section \<open>State\<close>

text \<open>
  Memory is a function from addresses; \<open>tx_dummy\<close> and \<open>rx_dummy\<close> are the addresses of the variables of that name.
  \<open>spi_dev\<close> is the device on the bus. The driver's semaphore counts at most one.
\<close>

datatype spi_fn = Rx_isr

record 'd spi =
  sp_dma :: "spi_fn dma"
  sp_mem :: "nat \<Rightarrow> u8"
  tx_dummy :: nat
  rx_dummy :: nat
  sp_cr1 :: u32
  sp_cr2 :: u32
  tx_dma :: nat
  rx_dma :: nat
  tx_dma_mode :: u32
  rx_dma_mode :: u32
  cs_pad :: "nat option"
  sp_sem :: nat
  spi_dev :: 'd

datatype spi_port = SPI1_Dev | SPI3_Dev | Other_Dev

definition IRQ_PRIO_SPI :: u32 where "IRQ_PRIO_SPI = 12"
definition SPI_CR1_MSTR :: u32 where "SPI_CR1_MSTR = 0x4"
definition SPI_CR1_SSI :: u32 where "SPI_CR1_SSI = 0x100"
definition SPI_CR1_SSM :: u32 where "SPI_CR1_SSM = 0x200"
definition SPI_CR1_DFF :: u32 where "SPI_CR1_DFF = 0x800"
definition CR1_SPE :: u32 where "CR1_SPE = 0x40"
definition SPI_CR2_RXDMAEN :: u32 where "SPI_CR2_RXDMAEN = 1"
definition SPI_CR2_TXDMAEN :: u32 where "SPI_CR2_TXDMAEN = 2"
definition SPI_CR2_SSOE :: u32 where "SPI_CR2_SSOE = 4"

abbreviation tx_ch :: "'d spi \<Rightarrow> dma_ch" where "tx_ch s \<equiv> dma_streams ! tx_dma s"
abbreviation rx_ch :: "'d spi \<Rightarrow> dma_ch" where "rx_ch s \<equiv> dma_streams ! rx_dma s"

section \<open>Operations\<close>

text \<open>The parameter of the interrupt function is the driver's record; there is one, number zero. \<open>dr\<close> is the address
  of the data register.\<close>

definition spi_start :: "spi_port \<Rightarrow> nat \<Rightarrow> u32 \<Rightarrow> 'd spi \<Rightarrow> 'd spi res" where
  "spi_start port dr cr1 s =
     rbind (ASSERT (cs_pad s \<noteq> None)) (\<lambda>_.
     let s = s\<lparr>sp_sem := 0\<rparr> in
     rbind (case port of
              SPI1_Dev \<Rightarrow> Inr (s\<lparr>tx_dma := 2, rx_dma := 1\<rparr>)
            | SPI3_Dev \<Rightarrow> Inr (s\<lparr>tx_dma := 8, rx_dma := 7\<rparr>)
            | Other_Dev \<Rightarrow> Inl Halt) (\<lambda>s.
     let d = dma_allocate (tx_ch s) IRQ_PRIO_SPI None 0 (sp_dma s);
         d = dma_allocate (rx_ch s) IRQ_PRIO_SPI (Some Rx_isr) 0 d;
         d = d\<lparr>d_cpar := (d_cpar d)[tx_dma s := dr, rx_dma s := dr]\<rparr>;
         s = s\<lparr>sp_dma := d, tx_dma_mode := DMA_CCR1_DIR, rx_dma_mode := DMA_CCR1_TCIE\<rparr>;
         s = (if cr1 AND SPI_CR1_DFF \<noteq> 0
              then s\<lparr>tx_dma_mode := tx_dma_mode s OR DMA_CCR1_PSIZE_0 OR DMA_CCR1_MSIZE_0,
                     rx_dma_mode := rx_dma_mode s OR DMA_CCR1_PSIZE_0 OR DMA_CCR1_MSIZE_0\<rparr>
              else s);
         s = s\<lparr>sp_cr1 := 0\<rparr>;
         s = s\<lparr>sp_cr1 := cr1 OR SPI_CR1_MSTR OR SPI_CR1_SSM OR SPI_CR1_SSI\<rparr>;
         s = s\<lparr>sp_cr2 := SPI_CR2_RXDMAEN OR SPI_CR2_TXDMAEN OR SPI_CR2_SSOE\<rparr> in
     Inr (s\<lparr>sp_cr1 := sp_cr1 s OR CR1_SPE\<rparr>)))"

definition rx_isr :: "'d spi \<Rightarrow> 'd spi" where
  "rx_isr s =
     (let d = dma_disable (tx_ch s) (sp_dma s); d = dma_disable (rx_ch s) d in
      s\<lparr>sp_dma := d, sp_sem := 1\<rparr>)"

text \<open>
  The controller, of which the driver's part is the two channels. It moves the bytes one by one and then raises the
  transfer-complete flag of each channel, which is an interrupt of the receiving channel if it asks for one.
\<close>

definition tx_addr :: "'d spi \<Rightarrow> nat \<Rightarrow> nat" where
  "tx_addr s k = d_cmar (sp_dma s) ! tx_dma s + (if d_ccr (sp_dma s) ! tx_dma s AND DMA_CCR1_MINC \<noteq> 0 then k else 0)"

definition rx_addr :: "'d spi \<Rightarrow> nat \<Rightarrow> nat" where
  "rx_addr s k = d_cmar (sp_dma s) ! rx_dma s + (if d_ccr (sp_dma s) ! rx_dma s AND DMA_CCR1_MINC \<noteq> 0 then k else 0)"

fun move_bytes :: "(u8 \<Rightarrow> 'd \<Rightarrow> u8 \<times> 'd) \<Rightarrow> (nat \<Rightarrow> nat) \<Rightarrow> (nat \<Rightarrow> nat) \<Rightarrow> nat \<Rightarrow> nat \<Rightarrow> (nat \<Rightarrow> u8) \<Rightarrow> 'd \<Rightarrow> (nat \<Rightarrow> u8) \<times> 'd" where
  "move_bytes dev ta ra 0 k mem w = (mem, w)"
| "move_bytes dev ta ra (Suc n) k mem w =
     (let (b, w) = dev (mem (ta k)) w in move_bytes dev ta ra n (k + 1) (mem(ra k := b)) w)"

definition dma_runs :: "'d spi \<Rightarrow> bool" where
  "dma_runs s \<longleftrightarrow> sp_cr1 s AND CR1_SPE \<noteq> 0 \<and> sp_cr2 s AND SPI_CR2_RXDMAEN \<noteq> 0 \<and> sp_cr2 s AND SPI_CR2_TXDMAEN \<noteq> 0
     \<and> d_ccr (sp_dma s) ! tx_dma s AND DMA_CCR1_EN \<noteq> 0 \<and> d_ccr (sp_dma s) ! rx_dma s AND DMA_CCR1_EN \<noteq> 0
     \<and> d_ccr (sp_dma s) ! tx_dma s AND DMA_CCR1_DIR \<noteq> 0 \<and> d_ccr (sp_dma s) ! rx_dma s AND DMA_CCR1_DIR = 0
     \<and> d_cndtr (sp_dma s) ! tx_dma s = d_cndtr (sp_dma s) ! rx_dma s \<and> d_cndtr (sp_dma s) ! rx_dma s \<noteq> 0"

definition spi_hw :: "(u8 \<Rightarrow> 'd \<Rightarrow> u8 \<times> 'd) \<Rightarrow> 'd spi \<Rightarrow> 'd spi" where
  "spi_hw dev s =
     (if \<not> dma_runs s then s
      else let n = unat (d_cndtr (sp_dma s) ! rx_dma s);
               (mem, w) = move_bytes dev (tx_addr s) (rx_addr s) n 0 (sp_mem s) (spi_dev s);
               d = sp_dma s;
               d = d\<lparr>d_cndtr := (d_cndtr d)[tx_dma s := 0, rx_dma s := 0]\<rparr>;
               d = raise_tc (rx_ch s) (raise_tc (tx_ch s) d);
               s = s\<lparr>sp_dma := d, sp_mem := mem, spi_dev := w\<rparr> in
           if d_ccr d ! rx_dma s AND DMA_CCR1_TCIE \<noteq> 0 \<and> dc_vector (rx_ch s) \<in> nvic d
           then let (call, d) = DMA_IRQHandler (rx_dma s) d; s = s\<lparr>sp_dma := d\<rparr> in
                (case call of None \<Rightarrow> s | Some (Rx_isr, _, _) \<Rightarrow> rx_isr s)
           else s)"

text \<open>\<open>None\<close> is the null pointer. A wait that nothing ends is \<open>Fuel\<close>.\<close>

definition setup_tx :: "nat option \<Rightarrow> 'd spi \<Rightarrow> 'd spi" where
  "setup_tx tx_buf s =
     (case tx_buf of
        Some p \<Rightarrow> let d = set_ccr (tx_ch s) (tx_dma_mode s OR DMA_CCR1_MINC) (sp_dma s) in
                  s\<lparr>sp_dma := d\<lparr>d_cmar := (d_cmar d)[tx_dma s := p]\<rparr>\<rparr>
      | None \<Rightarrow> let d = set_ccr (tx_ch s) (tx_dma_mode s) (sp_dma s) in
                s\<lparr>sp_dma := d\<lparr>d_cmar := (d_cmar d)[tx_dma s := tx_dummy s]\<rparr>, sp_mem := (sp_mem s)(tx_dummy s := 0xFF)\<rparr>)"

definition setup_rx :: "nat option \<Rightarrow> 'd spi \<Rightarrow> 'd spi" where
  "setup_rx rx_buf s =
     (case rx_buf of
        Some p \<Rightarrow> let d = set_ccr (rx_ch s) (rx_dma_mode s OR DMA_CCR1_MINC) (sp_dma s) in
                  s\<lparr>sp_dma := d\<lparr>d_cmar := (d_cmar d)[rx_dma s := p]\<rparr>\<rparr>
      | None \<Rightarrow> let d = set_ccr (rx_ch s) (rx_dma_mode s) (sp_dma s) in
                s\<lparr>sp_dma := d\<lparr>d_cmar := (d_cmar d)[rx_dma s := rx_dummy s]\<rparr>\<rparr>)"

definition spi_setup :: "nat option \<Rightarrow> nat option \<Rightarrow> u16 \<Rightarrow> 'd spi \<Rightarrow> 'd spi" where
  "spi_setup tx_buf rx_buf len s =
     (let d = dma_disable (tx_ch s) (sp_dma s); d = dma_disable (rx_ch s) d;
          s = setup_rx rx_buf (setup_tx tx_buf (s\<lparr>sp_dma := d\<rparr>));
          d = sp_dma s; d = d\<lparr>d_cndtr := (d_cndtr d)[tx_dma s := ucast len, rx_dma s := ucast len]\<rparr> in
      s\<lparr>sp_dma := dma_enable (rx_ch s) (dma_enable (tx_ch s) d)\<rparr>)"

definition spi_exchange :: "(u8 \<Rightarrow> 'd \<Rightarrow> u8 \<times> 'd) \<Rightarrow> nat option \<Rightarrow> nat option \<Rightarrow> u16 \<Rightarrow> 'd spi \<Rightarrow> 'd spi res" where
  "spi_exchange dev tx_buf rx_buf len s =
     (let s = spi_hw dev (spi_setup tx_buf rx_buf len s) in
      if sp_sem s = 0 then Inl Fuel else Inr (s\<lparr>sp_sem := 0\<rparr>))"


section \<open>Exchanges\<close>

fun talk :: "(u8 \<Rightarrow> 'd \<Rightarrow> u8 \<times> 'd) \<Rightarrow> u8 list \<Rightarrow> 'd \<Rightarrow> u8 list \<times> 'd" where
  "talk dev [] w = ([], w)"
| "talk dev (b # bs) w = (let (r, w) = dev b w; (rs, w) = talk dev bs w in (r # rs, w))"

lemma move_bytes_talk:
  assumes "\<And>i j. k \<le> i \<Longrightarrow> i < k + n \<Longrightarrow> k \<le> j \<Longrightarrow> j < k + n \<Longrightarrow> ta i \<noteq> ra j"
    and "move_bytes dev ta ra n k mem w = (mem', w')" "talk dev (map (\<lambda>i. mem (ta i)) [k..<k + n]) w = (rs, w'')"
  shows "w' = w'' \<and> length rs = n \<and> (\<forall>a. a \<notin> ra ` {k..<k + n} \<longrightarrow> mem' a = mem a)
    \<and> (inj_on ra {k..<k + n} \<longrightarrow> (\<forall>i < n. mem' (ra (k + i)) = rs ! i))"
  using assms
proof (induction n arbitrary: k mem w rs)
  case (Suc n)
  obtain b w1 where b: "dev (mem (ta k)) w = (b, w1)" by (cases "dev (mem (ta k)) w")
  let ?mem = "mem(ra k := b)"
  have ta: "map (\<lambda>i. ?mem (ta i)) [Suc k..<Suc k + n] = map (\<lambda>i. mem (ta i)) [Suc k..<Suc k + n]"
    using Suc.prems(1) [of _ k] by auto
  have u: "[k..<k + Suc n] = k # [Suc k..<Suc k + n]" by (simp add: upt_conv_Cons)
  obtain rs1 where rs: "talk dev (map (\<lambda>i. ?mem (ta i)) [Suc k..<Suc k + n]) w1 = (rs1, w'')" "rs = b # rs1"
    using Suc.prems(3) b unfolding ta u by (auto simp: split: prod.splits)
  have m: "move_bytes dev ta ra n (Suc k) ?mem w1 = (mem', w')" using Suc.prems(2) b by simp
  have "\<And>i j. Suc k \<le> i \<Longrightarrow> i < Suc k + n \<Longrightarrow> Suc k \<le> j \<Longrightarrow> j < Suc k + n \<Longrightarrow> ta i \<noteq> ra j"
    using Suc.prems(1) by simp
  from Suc.IH [OF this m rs(1)] have ih: "w' = w''" "length rs1 = n" "\<And>a. a \<notin> ra ` {Suc k..<Suc k + n} \<Longrightarrow> mem' a = ?mem a"
    "inj_on ra {Suc k..<Suc k + n} \<Longrightarrow> (\<And>i. i < n \<Longrightarrow> mem' (ra (Suc k + i)) = rs1 ! i)" by blast+
  have "mem' a = mem a" if "a \<notin> ra ` {k..<k + Suc n}" for a
  proof -
    have "a \<notin> ra ` {Suc k..<Suc k + n}" "a \<noteq> ra k" using that by auto
    then show ?thesis using ih(3) [of a] by simp
  qed
  moreover have "mem' (ra (k + i)) = rs ! i" if inj: "inj_on ra {k..<k + Suc n}" and i: "i < Suc n" for i
  proof (cases i)
    case 0
    have "ra k \<notin> ra ` {Suc k..<Suc k + n}" using inj_onD [OF inj, of k] by fastforce
    then show ?thesis using 0 ih(3) [of "ra k"] rs(2) by simp
  next
    case (Suc j)
    have "inj_on ra {Suc k..<Suc k + n}" using inj by (rule inj_on_subset) auto
    then show ?thesis using Suc i ih(4) [of j] rs(2) by simp
  qed
  ultimately show ?case using ih(1,2) rs(2) by (intro conjI allI impI) auto
qed simp

text \<open>What \<open>spi_start\<close> sets up and every exchange keeps.\<close>

definition spi_ready :: "'d spi \<Rightarrow> bool" where
  "spi_ready s \<longleftrightarrow> dma_ok (sp_dma s) \<and> tx_dma s < 12 \<and> rx_dma s < 12 \<and> tx_dma s \<noteq> rx_dma s
     \<and> sp_cr1 s AND CR1_SPE \<noteq> 0 \<and> sp_cr2 s = SPI_CR2_RXDMAEN OR SPI_CR2_TXDMAEN OR SPI_CR2_SSOE
     \<and> tx_dma_mode s = DMA_CCR1_DIR \<and> rx_dma_mode s = DMA_CCR1_TCIE
     \<and> isr_funcs (sp_dma s) ! rx_dma s = Some Rx_isr \<and> dc_vector (rx_ch s) \<in> nvic (sp_dma s) \<and> sp_sem s = 0"

lemma spi_start_ready:
  assumes "dma_ok (sp_dma s)" "cs_pad s \<noteq> None" "port \<noteq> Other_Dev" "cr1 AND SPI_CR1_DFF = 0"
  shows "\<exists>s'. spi_start port dr cr1 s = Inr s' \<and> spi_ready s' \<and> sp_mem s' = sp_mem s \<and> spi_dev s' = spi_dev s
    \<and> tx_dummy s' = tx_dummy s \<and> rx_dummy s' = rx_dummy s"
proof -
  have spe: "(cr1 OR SPI_CR1_MSTR OR SPI_CR1_SSM OR SPI_CR1_SSI OR CR1_SPE) AND CR1_SPE \<noteq> 0"
  proof -
    have "bit ((cr1 OR SPI_CR1_MSTR OR SPI_CR1_SSM OR SPI_CR1_SSI OR CR1_SPE) AND CR1_SPE) 6"
      by (simp add: bit_and_iff bit_or_iff CR1_SPE_def)
    then show ?thesis by (metis bit_0_eq bot_apply bot_bool_def)
  qed
  show ?thesis
    using assms spe
    by (cases port) (auto simp: spi_start_def spi_ready_def dma_ok_def Let_def dma_allocate_def dma_disable_def set_ccr_def write_ifcr_def
      dma_streams_def or.assoc)
qed


text \<open>The part of the driver's state that an exchange does not change.\<close>

definition same_setup :: "'d spi \<Rightarrow> 'd spi \<Rightarrow> bool" where
  "same_setup s t \<longleftrightarrow> tx_dma t = tx_dma s \<and> rx_dma t = rx_dma s \<and> sp_cr1 t = sp_cr1 s \<and> sp_cr2 t = sp_cr2 s
     \<and> tx_dma_mode t = tx_dma_mode s \<and> rx_dma_mode t = rx_dma_mode s \<and> tx_dummy t = tx_dummy s \<and> rx_dummy t = rx_dummy s
     \<and> isr_funcs (sp_dma t) = isr_funcs (sp_dma s) \<and> nvic (sp_dma t) = nvic (sp_dma s) \<and> (dma_ok (sp_dma s) \<longrightarrow> dma_ok (sp_dma t))"

lemma same_setup_trans: "same_setup s t \<Longrightarrow> same_setup t u \<Longrightarrow> same_setup s u"
  by (simp add: same_setup_def)

lemma setup_tx_facts:
  assumes "dma_ok (sp_dma s)" "tx_dma s < 12"
  shows "same_setup s (setup_tx tx s)" "spi_dev (setup_tx tx s) = spi_dev s" "sp_sem (setup_tx tx s) = sp_sem s"
    "sp_mem (setup_tx tx s) = (case tx of None \<Rightarrow> (sp_mem s)(tx_dummy s := 0xFF) | Some p \<Rightarrow> sp_mem s)"
    "d_cmar (sp_dma (setup_tx tx s)) = (d_cmar (sp_dma s))[tx_dma s := case tx of None \<Rightarrow> tx_dummy s | Some p \<Rightarrow> p]"
    "d_ccr (sp_dma (setup_tx tx s)) = (d_ccr (sp_dma s))[tx_dma s := tx_dma_mode s OR (if tx = None then 0 else DMA_CCR1_MINC)]"
    "d_cndtr (sp_dma (setup_tx tx s)) = d_cndtr (sp_dma s)"
  using assms stream_nth [of "tx_dma s"] by (cases tx; simp add: setup_tx_def same_setup_def dma_ok_def set_ccr_def Let_def)+

lemma setup_rx_facts:
  assumes "dma_ok (sp_dma s)" "rx_dma s < 12"
  shows "same_setup s (setup_rx rx s)" "spi_dev (setup_rx rx s) = spi_dev s" "sp_sem (setup_rx rx s) = sp_sem s"
    "sp_mem (setup_rx rx s) = sp_mem s"
    "d_cmar (sp_dma (setup_rx rx s)) = (d_cmar (sp_dma s))[rx_dma s := case rx of None \<Rightarrow> rx_dummy s | Some p \<Rightarrow> p]"
    "d_ccr (sp_dma (setup_rx rx s)) = (d_ccr (sp_dma s))[rx_dma s := rx_dma_mode s OR (if rx = None then 0 else DMA_CCR1_MINC)]"
    "d_cndtr (sp_dma (setup_rx rx s)) = d_cndtr (sp_dma s)"
  using assms stream_nth [of "rx_dma s"] by (cases rx; simp add: setup_rx_def same_setup_def dma_ok_def set_ccr_def Let_def)+

lemma spi_setup_facts:
  assumes r: "spi_ready s" and n: "0 < len" and t: "t = spi_setup tx rx len s"
  shows "same_setup s t" "spi_dev t = spi_dev s" "sp_sem t = 0"
    "sp_mem t = (case tx of None \<Rightarrow> (sp_mem s)(tx_dummy s := 0xFF) | Some p \<Rightarrow> sp_mem s)"
    "dma_runs t" "d_cndtr (sp_dma t) ! rx_dma t = ucast len" "d_ccr (sp_dma t) ! rx_dma t AND DMA_CCR1_TCIE \<noteq> 0"
    "tx_addr t = (\<lambda>k. case tx of None \<Rightarrow> tx_dummy s | Some p \<Rightarrow> p + k)" "rx_addr t = (\<lambda>k. case rx of None \<Rightarrow> rx_dummy s | Some p \<Rightarrow> p + k)"
proof -
  have k: "dma_ok (sp_dma s)" "tx_dma s < 12" "rx_dma s < 12" "tx_dma s \<noteq> rx_dma s" "tx_dma_mode s = DMA_CCR1_DIR" "rx_dma_mode s = DMA_CCR1_TCIE"
    "sp_cr1 s AND CR1_SPE \<noteq> 0" "sp_cr2 s = SPI_CR2_RXDMAEN OR SPI_CR2_TXDMAEN OR SPI_CR2_SSOE" "sp_sem s = 0"
    using r by (simp_all add: spi_ready_def)
  have i: "dc_index (dma_streams ! tx_dma s) = tx_dma s" "dc_index (dma_streams ! rx_dma s) = rx_dma s" using k(2,3) stream_nth by auto
  define s1 where "s1 = s\<lparr>sp_dma := dma_disable (rx_ch s) (dma_disable (tx_ch s) (sp_dma s))\<rparr>"
  have e1: "same_setup s s1" "spi_dev s1 = spi_dev s" "sp_sem s1 = 0" "sp_mem s1 = sp_mem s"
    using k by (simp_all add: s1_def same_setup_def)
  have ok1: "dma_ok (sp_dma s1)" "tx_dma s1 < 12" using e1(1) k by (simp_all add: same_setup_def)
  define s2 where "s2 = setup_tx tx s1"
  note e2 = setup_tx_facts [OF ok1, of tx, folded s2_def]
  have ok2: "dma_ok (sp_dma s2)" "rx_dma s2 < 12" using e1(1) e2(1) k ok1 by (simp_all add: same_setup_def)
  define s3 where "s3 = setup_rx rx s2"
  note e3 = setup_rx_facts [OF ok2, of rx, folded s3_def]
  have s13: "same_setup s s3" using e1(1) e2(1) e3(1) by (rule same_setup_trans [OF same_setup_trans])
  have t3: "t = s3\<lparr>sp_dma := dma_enable (rx_ch s3) (dma_enable (tx_ch s3) ((sp_dma s3)\<lparr>d_cndtr := (d_cndtr (sp_dma s3))[tx_dma s3 := ucast len, rx_dma s3 := ucast len]\<rparr>))\<rparr>"
    by (simp add: t spi_setup_def Let_def s1_def s2_def s3_def)
  have f: "tx_dma s3 = tx_dma s" "rx_dma s3 = rx_dma s" "tx_dma s2 = tx_dma s" "rx_dma s2 = rx_dma s" "tx_dma s1 = tx_dma s" "rx_dma s1 = rx_dma s"
    "tx_dma_mode s1 = tx_dma_mode s" "rx_dma_mode s2 = rx_dma_mode s" "tx_dummy s1 = tx_dummy s" "rx_dummy s2 = rx_dummy s" "dma_ok (sp_dma s3)"
    using s13 e1(1) e2(1) e3(1) k(1) by (simp_all add: same_setup_def)
  show st: "same_setup s t" using s13 by (simp add: same_setup_def t3 dma_ok_def set_ccr_def dma_enable_def)
  then have g: "tx_dma t = tx_dma s" "rx_dma t = rx_dma s" "sp_cr1 t = sp_cr1 s" "sp_cr2 t = sp_cr2 s" by (simp_all add: same_setup_def)
  show "spi_dev t = spi_dev s" "sp_sem t = 0" "sp_mem t = (case tx of None \<Rightarrow> (sp_mem s)(tx_dummy s := 0xFF) | Some p \<Rightarrow> sp_mem s)"
    using e1 e2 e3 f by (simp_all add: t3 split: option.split)
  have l: "length (d_ccr (sp_dma s1)) = 12" "length (d_cndtr (sp_dma s1)) = 12" "length (d_cmar (sp_dma s1)) = 12" "length (d_cndtr (sp_dma s3)) = 12"
    using ok1(1) f by (simp_all add: dma_ok_def)
  have c: "d_ccr (sp_dma t) ! tx_dma s = (DMA_CCR1_DIR OR (if tx = None then 0 else DMA_CCR1_MINC)) OR DMA_CCR1_EN"
    "d_ccr (sp_dma t) ! rx_dma s = (DMA_CCR1_TCIE OR (if rx = None then 0 else DMA_CCR1_MINC)) OR DMA_CCR1_EN"
    using k(2-6) i l by (simp_all add: t3 dma_enable_def set_ccr_def f e3 e2)
  have m: "d_cndtr (sp_dma t) ! tx_dma s = ucast len" "d_cndtr (sp_dma t) ! rx_dma s = ucast len"
    "d_cmar (sp_dma t) ! tx_dma s = (case tx of None \<Rightarrow> tx_dummy s | Some p \<Rightarrow> p)" "d_cmar (sp_dma t) ! rx_dma s = (case rx of None \<Rightarrow> rx_dummy s | Some p \<Rightarrow> p)"
    using k(2-4) l by (simp_all add: t3 f e3 e2 split: option.split)
  have u: "(ucast len :: u32) \<noteq> 0" using n len_up [of len] by (metis unat_0 less_numeral_extra(3) word_gt_0 unat_eq_0)
  show "d_cndtr (sp_dma t) ! rx_dma t = ucast len" using m g by simp
  show "d_ccr (sp_dma t) ! rx_dma t AND DMA_CCR1_TCIE \<noteq> 0" using c g by (simp add: dma_bits)
  show "tx_addr t = (\<lambda>k. case tx of None \<Rightarrow> tx_dummy s | Some p \<Rightarrow> p + k)" using c(1) m g by (cases tx) (simp_all add: fun_eq_iff tx_addr_def dma_bits)
  show "rx_addr t = (\<lambda>k. case rx of None \<Rightarrow> rx_dummy s | Some p \<Rightarrow> p + k)" using c(2) m g by (cases rx) (simp_all add: fun_eq_iff rx_addr_def dma_bits)
  show "dma_runs t" using c m g k(7,8) u
    by (cases tx; cases rx) (simp_all add: dma_runs_def dma_bits SPI_CR2_RXDMAEN_def SPI_CR2_TXDMAEN_def SPI_CR2_SSOE_def)
qed

text \<open>The whole exchange: the bytes go out and come back in order, the driver is ready again.\<close>

lemma spi_hw_eq:
  assumes r: "spi_ready s" and n: "0 < len" and t: "t = spi_setup tx rx len s"
    and m: "move_bytes dev (tx_addr t) (rx_addr t) (unat len) 0 (sp_mem t) (spi_dev t) = (mem, w)"
  shows "\<exists>s'. spi_exchange dev tx rx len s = Inr s' \<and> spi_ready s' \<and> same_setup s s' \<and> sp_mem s' = mem \<and> spi_dev s' = w"
proof -
  note st = spi_setup_facts [OF r n t]
  have k: "dma_ok (sp_dma s)" "tx_dma s < 12" "rx_dma s < 12" "isr_funcs (sp_dma s) ! rx_dma s = Some Rx_isr" "dc_vector (rx_ch s) \<in> nvic (sp_dma s)"
    using r by (simp_all add: spi_ready_def)
  have g: "tx_dma t = tx_dma s" "rx_dma t = rx_dma s" "isr_funcs (sp_dma t) = isr_funcs (sp_dma s)" "nvic (sp_dma t) = nvic (sp_dma s)" "dma_ok (sp_dma t)"
    using st(1) k(1) by (simp_all add: same_setup_def)
  define d where "d = raise_tc (rx_ch t) (raise_tc (tx_ch t) ((sp_dma t)\<lparr>d_cndtr := (d_cndtr (sp_dma t))[tx_dma t := 0, rx_dma t := 0]\<rparr>))"
  have d: "d_ccr d = d_ccr (sp_dma t)" "isr_funcs d = isr_funcs (sp_dma s)" "nvic d = nvic (sp_dma s)" "dma_ok d"
    using g by (simp_all add: d_def) (simp add: dma_ok_def raise_tc_def)
  define d' where "d' = snd (DMA_IRQHandler (rx_dma s) d)"
  have h: "DMA_IRQHandler (rx_dma s) d = (Some (Rx_isr, isr_params d ! rx_dma s, drop_bit (4 * (rx_dma s mod 7)) (d_isr d DMA1) AND 0xF), d')"
    using handler_clears(2) [OF k(3), of d] d(2) k(4) by (simp add: d'_def prod_eq_iff)
  have d': "isr_funcs d' = isr_funcs (sp_dma s)" "nvic d' = nvic (sp_dma s)" "dma_ok d'"
    using d by (simp_all add: d'_def DMA_IRQHandler_def dma_service_irq_def Let_def)
  let ?s' = "rx_isr (t\<lparr>sp_mem := mem, spi_dev := w, sp_dma := d'\<rparr>)"
  have hw: "spi_hw dev t = ?s'"
    using st(5,6,7) m h d k g by (simp add: spi_hw_def Let_def len_up d_def [unfolded g(1,2), symmetric])
  have "spi_exchange dev tx rx len s = Inr (?s'\<lparr>sp_sem := 0\<rparr>)"
    using hw by (simp add: spi_exchange_def t [symmetric] Let_def rx_isr_def)
  moreover have ss: "same_setup s (?s'\<lparr>sp_sem := 0\<rparr>)" using st(1) d' by (simp add: same_setup_def rx_isr_def Let_def)
  moreover have "spi_ready (?s'\<lparr>sp_sem := 0\<rparr>)" using r ss unfolding spi_ready_def same_setup_def by auto
  ultimately show ?thesis by (intro exI [of _ "?s'\<lparr>sp_sem := 0\<rparr>"]) (simp add: rx_isr_def Let_def)
qed

section \<open>The exchange of the card driver\<close>

text \<open>The card of theory \<open>Mmc\<close>: it logs what it is sent and answers the bytes that it has, then 0xFF.\<close>

definition card :: "u8 \<Rightarrow> u8 list \<times> u8 list \<Rightarrow> u8 \<times> u8 list \<times> u8 list" where
  "card b w = (hd (snd w @ [0xFF]), fst w @ [b], tl (snd w))"

lemma talk_card:
  "talk card bs (sent, wire) = (take (length bs) (wire @ replicate (length bs) 0xFF), sent @ bs, drop (length bs) wire)"
proof (induction bs arbitrary: sent wire)
  case (Cons b bs)
  show ?case
  proof (cases wire)
    case Nil
    then show ?thesis using Cons.IH [of "sent @ [b]" "[]"] by (simp add: card_def)
  next
    case (Cons c rest)
    have "take (length bs) (rest @ replicate (length bs) 0xFF) = take (length bs) (rest @ 0xFF # replicate (length bs) 0xFF)"
      by (simp add: replicate_app_Cons_same [symmetric] flip: replicate_Suc)
    then show ?thesis using Cons.IH [of "sent @ [b]" rest] Cons by (simp add: card_def)
  qed
qed simp

text \<open>The bytes of \<open>n\<close> addresses.\<close>

definition mem_bytes :: "(nat \<Rightarrow> u8) \<Rightarrow> nat \<Rightarrow> nat \<Rightarrow> u8 list" where
  "mem_bytes mem p n = map (\<lambda>i. mem (p + i)) [0..<n]"

section \<open>Properties\<close>

text \<open>C23. The interrupt-driven exchange does what the card driver relies on: whatever buffers are given,
  or not given, as long as they do not overlap, the bytes sent, the bytes received and where they end up are those
  of the exchange of theory \<open>Mmc\<close>, no other memory changes, and the driver is ready for the next exchange.\<close>

theorem spi_exchange_refines:
  assumes r: "spi_ready s" and n: "0 < len" and d: "tx_dummy s \<noteq> rx_dummy s"
    and rx: "\<And>q k. rx = Some q \<Longrightarrow> k < unat len \<Longrightarrow> q + k \<noteq> tx_dummy s"
    and tx: "\<And>p k. tx = Some p \<Longrightarrow> k < unat len \<Longrightarrow> p + k \<noteq> rx_dummy s"
    and apart: "\<And>p q j k. tx = Some p \<Longrightarrow> rx = Some q \<Longrightarrow> j < unat len \<Longrightarrow> k < unat len \<Longrightarrow> p + j \<noteq> q + k"
    and w: "spi_dev s = (wire_out m, wire_in m)"
  shows "\<exists>s'. spi_exchange card tx rx len s = Inr s' \<and> spi_ready s' \<and>
    (let (bytes, m') = Mmc.spi_exchange (map_option (\<lambda>p. mem_bytes (sp_mem s) p (unat len)) tx) (unat len) m in
     spi_dev s' = (wire_out m', wire_in m') \<and> (\<forall>q. rx = Some q \<longrightarrow> mem_bytes (sp_mem s') q (unat len) = bytes)) \<and>
    (\<forall>a. a \<noteq> tx_dummy s \<longrightarrow> a \<noteq> rx_dummy s \<longrightarrow> (\<forall>q. rx = Some q \<longrightarrow> a \<notin> {q..<q + unat len}) \<longrightarrow> sp_mem s' a = sp_mem s a)"
proof -
  let ?n = "unat len" let ?ta = "\<lambda>k. case tx of None \<Rightarrow> tx_dummy s | Some p \<Rightarrow> p + k" let ?ra = "\<lambda>k. case rx of None \<Rightarrow> rx_dummy s | Some p \<Rightarrow> p + k"
  define t where "t = spi_setup tx rx len s"
  note st = spi_setup_facts [OF r n t_def]
  obtain mem w' where mv: "move_bytes card (tx_addr t) (rx_addr t) ?n 0 (sp_mem t) (spi_dev t) = (mem, w')"
    by (cases "move_bytes card (tx_addr t) (rx_addr t) ?n 0 (sp_mem t) (spi_dev t)")
  obtain s' where s': "spi_exchange card tx rx len s = Inr s'" "spi_ready s'" "sp_mem s' = mem" "spi_dev s' = w'"
    using spi_hw_eq [OF r n t_def mv] by blast
  let ?out = "case tx of Some p \<Rightarrow> mem_bytes (sp_mem s) p ?n | None \<Rightarrow> replicate ?n 0xFF"
  have out: "map (\<lambda>i. sp_mem t (tx_addr t i)) [0..<0 + ?n] = ?out"
    unfolding st(4,8) by (cases tx) (auto simp: mem_bytes_def map_replicate_const)
  obtain rs w'' where tk: "talk card ?out (spi_dev t) = (rs, w'')" by (cases "talk card ?out (spi_dev t)")
  have dis: "tx_addr t i \<noteq> rx_addr t j" if "i < ?n" "j < ?n" for i j
    using that d rx [of _ j] tx [of _ i] apart [of _ _ i j] unfolding st(8,9) by (cases tx; cases rx) (auto dest: sym)
  have mvt: "w' = w''" "length rs = ?n" "\<And>a. a \<notin> rx_addr t ` {0..<?n} \<Longrightarrow> mem a = sp_mem t a"
    "inj_on (rx_addr t) {0..<?n} \<Longrightarrow> (\<And>i. i < ?n \<Longrightarrow> mem (rx_addr t i) = rs ! i)"
    using move_bytes_talk [OF _ mv tk [folded out]] dis by auto
  have lo: "length ?out = ?n" by (cases tx) (simp_all add: mem_bytes_def)
  have rs: "rs = take ?n (wire_in m @ replicate ?n 0xFF)" "w'' = (wire_out m @ ?out, drop ?n (wire_in m))"
    using tk talk_card [of ?out "wire_out m" "wire_in m"] lo st(2) w by simp_all
  have "mem_bytes mem q ?n = rs" if q: "rx = Some q" for q
  proof (rule nth_equalityI)
    have a: "rx_addr t = (\<lambda>k. q + k)" using st(9) q by simp
    show "length (mem_bytes mem q ?n) = length rs" using mvt(2) by (simp add: mem_bytes_def)
    fix i assume "i < length (mem_bytes mem q ?n)"
    then show "mem_bytes mem q ?n ! i = rs ! i" using mvt(4) a by (simp add: mem_bytes_def inj_on_def)
  qed
  moreover have "mem a = sp_mem s a" if "a \<noteq> tx_dummy s" "a \<noteq> rx_dummy s" "\<forall>q. rx = Some q \<longrightarrow> a \<notin> {q..<q + ?n}" for a
  proof -
    have "a \<notin> rx_addr t ` {0..<?n}" using that(2,3) unfolding st(9) by (cases rx) auto
    then show ?thesis using mvt(3) that(1) unfolding st(4) by (cases tx) auto
  qed
  ultimately show ?thesis using s' mvt(1) rs by (auto simp: Mmc.spi_exchange_def Let_def option.map_sel split: option.split)
qed

definition spi0 :: "(u8 list \<times> u8 list) spi" where
  "spi0 = \<lparr>sp_dma = \<lparr>d_isr = (\<lambda>_. 0), d_ccr = replicate 12 0, d_cndtr = replicate 12 0, d_cpar = replicate 12 0, d_cmar = replicate 12 0,
       isr_funcs = replicate 12 None, isr_params = replicate 12 0, nvic = {}, nvic_prio = (\<lambda>_. 0)\<rparr>,
     sp_mem = (\<lambda>_. 7), tx_dummy = 0, rx_dummy = 1, sp_cr1 = 0, sp_cr2 = 0, tx_dma = 0, rx_dma = 0, tx_dma_mode = 0, rx_dma_mode = 0,
     cs_pad = Some 0, sp_sem = 0, spi_dev = ([], [5])\<rparr>"

theorem spi_exchange_refines_witness:
  "\<exists>s s'. spi_start SPI3_Dev 100 0 spi0 = Inr s \<and> spi_exchange card (Some 10) (Some 20) 2 s = Inr s'
    \<and> spi_dev s' = ([7, 7], []) \<and> mem_bytes (sp_mem s') 20 2 = [5, 0xFF]"
proof -
  have "dma_ok (sp_dma spi0)" "cs_pad spi0 \<noteq> None" by (simp_all add: spi0_def dma_ok_def)
  then obtain s where s: "spi_start SPI3_Dev 100 0 spi0 = Inr s" "spi_ready s" "sp_mem s = sp_mem spi0" "spi_dev s = spi_dev spi0"
    "tx_dummy s = tx_dummy spi0" "rx_dummy s = rx_dummy spi0" using spi_start_ready [of spi0 SPI3_Dev 0 100] by auto
  let ?m = "mmc0\<lparr>wire_in := [5]\<rparr>"
  have "\<exists>s'. spi_exchange card (Some 10) (Some 20) 2 s = Inr s' \<and> spi_ready s' \<and>
    (let (bytes, m') = Mmc.spi_exchange (map_option (\<lambda>p. mem_bytes (sp_mem s) p (unat (2 :: u16))) (Some 10)) (unat (2 :: u16)) ?m in
     spi_dev s' = (wire_out m', wire_in m') \<and> (\<forall>q. Some 20 = Some q \<longrightarrow> mem_bytes (sp_mem s') q (unat (2 :: u16)) = bytes)) \<and>
    (\<forall>a. a \<noteq> tx_dummy s \<longrightarrow> a \<noteq> rx_dummy s \<longrightarrow> (\<forall>q. Some 20 = Some q \<longrightarrow> a \<notin> {q..<q + unat (2 :: u16)}) \<longrightarrow> sp_mem s' a = sp_mem s a)"
    by (rule spi_exchange_refines [OF s(2)]) (use s in \<open>auto simp: spi0_def mmc0_def\<close>)
  then obtain s' where s': "spi_exchange card (Some 10) (Some 20) 2 s = Inr s'"
    "let (bytes, m') = Mmc.spi_exchange (Some (mem_bytes (sp_mem s) 10 2)) 2 ?m in
     spi_dev s' = (wire_out m', wire_in m') \<and> mem_bytes (sp_mem s') 20 2 = bytes" by auto
  have "mem_bytes (sp_mem s) 10 2 = [7, 7]" by (simp add: s spi0_def mem_bytes_def upt_rec)
  then have "spi_dev s' = ([7, 7], []) \<and> mem_bytes (sp_mem s') 20 2 = [5, 0xFF]"
    using s'(2) by (simp add: Mmc.spi_exchange_def mmc0_def eval_nat_numeral)
  then show ?thesis using s(1) s'(1) by blast
qed

end
