(* ===== verification/Format.thy ===== *)
theory Format
  imports Parse
begin

text \<open>
  The conversions of \<open>printf\<close> that the firmware uses, on byte strings, and its first client,
  \<open>uptime_format\<close> of \<open>src/lib/uptime.c\<close>. What is printed in decimal is read back by \<open>atoi_decimal\<close>.
\<close>

section \<open>Conversions\<close>

text \<open>\<open>%u\<close> and \<open>%x\<close>; \<open>%02x\<close> for a byte; \<open>%d\<close>.\<close>

fun fmt_u :: "nat \<Rightarrow> u8 list" where
  "fmt_u n = (if n < 10 then [of_nat (48 + n)] else fmt_u (n div 10) @ [of_nat (48 + n mod 10)])"

definition hex_digit :: "nat \<Rightarrow> u8" where
  "hex_digit n = (if n < 10 then of_nat (48 + n) else of_nat (87 + n))"

fun fmt_x :: "nat \<Rightarrow> u8 list" where
  "fmt_x n = (if n < 16 then [hex_digit n] else fmt_x (n div 16) @ [hex_digit (n mod 16)])"

definition fmt_02x :: "u8 \<Rightarrow> u8 list" where
  "fmt_02x b = [hex_digit (unat b div 16), hex_digit (unat b mod 16)]"

definition fmt_d :: "int \<Rightarrow> u8 list" where
  "fmt_d i = (if i < 0 then 45 # fmt_u (nat (- i)) else fmt_u (nat i))"

declare fmt_u.simps [simp del] fmt_x.simps [simp del]

lemma fmt_u_digits: "list_all is_digit (fmt_u n)"
proof (induction n rule: fmt_u.induct)
  case (1 n)
  have d: "is_digit (of_nat (48 + k))" if "k < 10" for k
    using that by (simp add: is_digit_def word_le_nat_alt unsigned_of_nat take_bit_nat_eq_self del: of_nat_add)
  have "is_digit (of_nat (48 + n mod 10))" by (rule d) simp
  then show ?case using 1 d [of n] by (subst fmt_u.simps) (simp del: of_nat_add)
qed

lemma fmt_u_nonempty [simp]: "fmt_u n \<noteq> []"
  by (subst fmt_u.simps) simp

lemma decimal_value_snoc: "decimal_value (ds @ [c]) = decimal_value ds * 10 + (unat c - 48)"
  by (simp add: decimal_value_def)

lemma decimal_fmt_u: "decimal_value (fmt_u n) = n"
proof (induction n rule: fmt_u.induct)
  case (1 n)
  have d: "unat (of_nat (48 + k) :: u8) = 48 + k" if "k < 10" for k
    using that by (simp add: unsigned_of_nat take_bit_nat_eq_self del: of_nat_add)
  have "unat (of_nat (48 + n mod 10) :: u8) = 48 + n mod 10" by (rule d) simp
  then show ?case using 1 d [of n]
    by (subst fmt_u.simps) (simp add: decimal_value_snoc, simp add: decimal_value_def)
qed

text \<open>What was printed with \<open>%u\<close> is read back, by \<open>atoi_decimal\<close>, at the end of a string.\<close>

lemma atoi_fmt_u: "atoi_decimal (fmt_u n @ 0 # rest) 0 = Inr (of_nat n)"
proof -
  have "atoi_decimal_loop (fmt_u n @ 0 # rest) 0 (of_nat 0) = Inr (of_nat (foldl (\<lambda>v c. v * 10 + (unat c - 48)) 0 (fmt_u n)))"
    by (rule atoi_decimal_loop_eq [where c = 0 and rest = rest]) (simp_all add: fmt_u_digits)
  then show ?thesis using decimal_fmt_u [of n] by (simp add: atoi_decimal_def decimal_value_def)
qed

lemma fmt_u_length: "n < 10 ^ k \<Longrightarrow> 0 < k \<Longrightarrow> length (fmt_u n) \<le> k"
proof (induction n arbitrary: k rule: fmt_u.induct)
  case (1 n)
  show ?case
  proof (cases "n < 10")
    case True
    then show ?thesis using 1 by (subst fmt_u.simps) simp
  next
    case False
    then obtain j where k: "k = Suc j" "0 < j" using 1(2) by (cases k; cases "k = 1") auto
    then have "n div 10 < 10 ^ j" using 1(2) by (simp add: less_mult_imp_div_less mult.commute)
    then show ?thesis using 1(1) [OF False _ k(2)] False k by (subst fmt_u.simps) simp
  qed
qed

lemma parse_hex_digit: "k < 16 \<Longrightarrow> parse_hex (hex_digit k) = of_nat k \<and> hex_digit k \<noteq> 0 \<and> hex_digit k \<noteq> 58"
proof -
  have "\<forall>k \<in> {0..<16}. parse_hex (hex_digit k) = of_nat k \<and> hex_digit k \<noteq> 0 \<and> hex_digit k \<noteq> 58" by code_simp
  then show "k < 16 \<Longrightarrow> parse_hex (hex_digit k) = of_nat k \<and> hex_digit k \<noteq> 0 \<and> hex_digit k \<noteq> 58" by auto
qed

section \<open>Uptime\<close>

definition SEC_DAY :: u32 where "SEC_DAY = 86400"
definition SEC_HOUR :: u32 where "SEC_HOUR = 3600"
definition SEC_MINUTE :: u32 where "SEC_MINUTE = 60"

definition plural :: "u32 \<Rightarrow> u8 list" where
  "plural n = (if n \<noteq> 1 then ascii ''s'' else [])"

text \<open>The text in \<open>fmt_buf\<close>, which has room for 50 bytes with the terminator.\<close>

definition uptime_format :: "u64 \<Rightarrow> u8 list res" where
  "uptime_format milliseconds =
     (let t = ucast (milliseconds div 1000) :: u32;
          n = t div SEC_DAY;
          out = fmt_u (unat n) @ ascii '' day'' @ plural n @ ascii '', '';
          t = t - n * SEC_DAY;
          n = t div SEC_HOUR;
          out = out @ fmt_u (unat n) @ ascii '' hour'' @ plural n @ ascii '', '';
          t = t - n * SEC_HOUR;
          n = t div SEC_MINUTE;
          out = out @ fmt_u (unat n) @ ascii '' minute'' @ plural n @ ascii '', '';
          t = t - n * SEC_MINUTE;
          out = out @ fmt_u (unat t) @ ascii '' second'' @ plural t in
      if length out + 1 \<le> 50 then Inr out else Inl (Oob ''fmt_buf''))"

text \<open>
  The uptime always fits, and its four numbers are the days, hours, minutes and seconds.
\<close>

definition uptime_text :: "nat \<Rightarrow> nat \<Rightarrow> nat \<Rightarrow> nat \<Rightarrow> u8 list" where
  "uptime_text d h m s =
     (let unit_text = (\<lambda>n u. fmt_u n @ ascii u @ (if n \<noteq> 1 then ascii ''s'' else [])) in
      unit_text d '' day'' @ ascii '', '' @ unit_text h '' hour'' @ ascii '', '' @ unit_text m '' minute'' @ ascii '', '' @ unit_text s '' second'')"

lemma word_div_step:
  assumes "0 < k"
  shows "unat (t div k :: u32) = unat t div unat k" "unat (t - t div k * k) = unat t mod unat k"
proof -
  show "unat (t div k) = unat t div unat k" by (simp add: unat_div)
  have "t - t div k * k = t mod k" by (simp add: minus_div_mult_eq_mod)
  then show "unat (t - t div k * k) = unat t mod unat k" by (simp add: unat_mod)
qed

lemma uptime_text_short:
  assumes "d < 10 ^ 5" "h < 24" "m < 60" "s < 60"
  shows "length (uptime_text d h m s) + 1 \<le> 50"
proof -
  have "length (fmt_u d) \<le> 5" "length (fmt_u h) \<le> 2" "length (fmt_u m) \<le> 2" "length (fmt_u s) \<le> 2"
    using fmt_u_length [of d 5] fmt_u_length [of h 2] fmt_u_length [of m 2] fmt_u_length [of s 2] assms by simp_all
  moreover have "length (if n \<noteq> 1 then ascii ''s'' else []) \<le> 1" for n :: nat by (simp add: ascii_def)
  note this [of d] this [of h] this [of m] this [of s]
  moreover have "length (ascii t) = length t" for t by (simp add: ascii_def)
  ultimately show ?thesis unfolding uptime_text_def Let_def length_append by (simp split del: if_split)
qed

lemma uptime_format_correct:
  assumes "t = unat (ucast (milliseconds div 1000) :: u32)"
  shows "\<exists>d h m s. uptime_format milliseconds = Inr (uptime_text d h m s)
    \<and> t = d * 86400 + h * 3600 + m * 60 + s \<and> h < 24 \<and> m < 60 \<and> s < 60"
proof -
  let ?t = "ucast (milliseconds div 1000) :: u32"
  let ?d = "?t div SEC_DAY" let ?t1 = "?t - ?d * SEC_DAY"
  let ?h = "?t1 div SEC_HOUR" let ?t2 = "?t1 - ?h * SEC_HOUR"
  let ?m = "?t2 div SEC_MINUTE" let ?t3 = "?t2 - ?m * SEC_MINUTE"
  have c: "unat SEC_DAY = 86400" "unat SEC_HOUR = 3600" "unat SEC_MINUTE = 60" "0 < SEC_DAY" "0 < SEC_HOUR" "0 < SEC_MINUTE"
    by (simp_all add: SEC_DAY_def SEC_HOUR_def SEC_MINUTE_def)
  note st = word_div_step [OF c(4), of ?t] word_div_step [OF c(5), of ?t1] word_div_step [OF c(6), of ?t2]
  have v: "unat ?d = t div 86400" "unat ?t1 = t mod 86400" "unat ?h = t mod 86400 div 3600" "unat ?t2 = t mod 86400 mod 3600"
    "unat ?m = t mod 86400 mod 3600 div 60" "unat ?t3 = t mod 86400 mod 3600 mod 60"
    using st unfolding c assms by simp_all
  have "unat ?t < 2 ^ LENGTH(32)" by (rule unsigned_less)
  then have lt: "t < 2 ^ 32" using assms by simp
  define D where "D = t div 86400"
  define H where "H = t mod 86400 div 3600"
  define M where "M = t mod 86400 mod 3600 div 60"
  define S where "S = t mod 86400 mod 3600 mod 60"
  have b: "D < 10 ^ 5" "H < 24" "M < 60" "S < 60"
  proof -
    show "D < 10 ^ 5" unfolding D_def by (rule less_mult_imp_div_less) (use lt in simp)
    show "H < 24" unfolding H_def by (rule less_mult_imp_div_less) simp
    show "M < 60" unfolding M_def by (rule less_mult_imp_div_less) simp
    show "S < 60" unfolding S_def by simp
  qed
  have sum: "t = D * 86400 + H * 3600 + M * 60 + S" 
    using div_mult_mod_eq [of t 86400] div_mult_mod_eq [of "t mod 86400" 3600] div_mult_mod_eq [of "t mod 86400 mod 3600" 60]
    unfolding D_def [symmetric] H_def [symmetric] M_def [symmetric] S_def [symmetric] by linarith
  have v: "unat ?d = D" "unat ?h = H" "unat ?m = M" "unat ?t3 = S" by (simp_all only: v D_def H_def M_def S_def)
  have one: "(n = 1) = (unat n = 1)" for n :: u32 using unat_1 unsigned_word_eqI by metis
  have pl: "plural n = (if unat n \<noteq> 1 then ascii ''s'' else [])" for n by (simp add: plural_def one)
  have short: "length (uptime_text D H M S) + 1 \<le> 50" using b by (rule uptime_text_short)
  have "uptime_format milliseconds = Inr (uptime_text D H M S)"
    using short unfolding uptime_format_def Let_def pl v uptime_text_def append_assoc by (simp only: if_True)
  then show ?thesis using b sum by blast
qed

end
