(* ===== verification/Settings.thy ===== *)
theory Settings
  imports Format Common
begin

text \<open>
  The named settings of the command line, \<open>src/lib/cmdline/settings.c\<close>, over the configuration
  record of \<open>src/src/eeprom.h\<close> as a string of bytes. A pointer into a C string is the rest of the
  buffer from there on. The theory shows that printing a setting and setting it to what was printed are inverse.
\<close>

section \<open>Memory\<close>

definition get16 :: "u8 list \<Rightarrow> nat \<Rightarrow> u16" where
  "get16 m p = ucast (m ! p) OR push_bit 8 (ucast (m ! (p + 1)))"

definition get32 :: "u8 list \<Rightarrow> nat \<Rightarrow> u32" where
  "get32 m p = ucast (m ! p) OR push_bit 8 (ucast (m ! (p + 1))) OR push_bit 16 (ucast (m ! (p + 2))) OR push_bit 24 (ucast (m ! (p + 3)))"

definition bytes16 :: "u16 \<Rightarrow> u8 list" where
  "bytes16 v = [ucast v, ucast (drop_bit 8 v)]"

definition bytes32 :: "u32 \<Rightarrow> u8 list" where
  "bytes32 v = [ucast v, ucast (drop_bit 8 v), ucast (drop_bit 16 v), ucast (drop_bit 24 v)]"

definition htonl :: "u32 \<Rightarrow> u32" where
  "htonl v = push_bit 24 (v AND 0xFF) OR push_bit 8 (v AND 0xFF00) OR (drop_bit 8 v AND 0xFF00) OR drop_bit 24 v"

definition peek :: "u8 list \<Rightarrow> u8 res" where
  "peek str = (case str of [] \<Rightarrow> Inl (Oob ''str'') | c # _ \<Rightarrow> Inr c)"

section \<open>Settings\<close>

datatype vartype = VAR_UINT32 | VAR_UINT16 | VAR_IP4 | VAR_IP6 | VAR_HEX | VAR_FLAG | VAR_INVALID

text \<open>\<open>vptr\<close> is where in its record the variable is, \<open>vlen\<close> the length or the mask of its flag.\<close>

record clivalue =
  vname :: "u8 list"
  vtype :: vartype
  vptr :: nat
  vlen :: nat

definition cli_value :: "string \<Rightarrow> vartype \<Rightarrow> nat \<Rightarrow> nat \<Rightarrow> clivalue" where
  "cli_value n t p l = \<lparr>vname = ascii n, vtype = t, vptr = p, vlen = l\<rparr>"

text \<open>The offsets of the members of \<open>cfgv2_t\<close>, which is packed.\<close>

definition CFG_version :: nat where "CFG_version = 0"
definition CFG_ip_addr :: nat where "CFG_ip_addr = 2"
definition CFG_ip_gateway :: nat where "CFG_ip_gateway = 6"
definition CFG_ip_netmask :: nat where "CFG_ip_netmask = 10"
definition CFG_gps_baud_rate :: nat where "CFG_gps_baud_rate = 14"
definition CFG_gps_listen_port :: nat where "CFG_gps_listen_port = 26"
definition CFG_syslog_ip :: nat where "CFG_syslog_ip = 28"
definition CFG_flags :: nat where "CFG_flags = 32"
definition CFG_ip_manycast :: nat where "CFG_ip_manycast = 36"
definition CFG_ntp_key :: nat where "CFG_ntp_key = 40"
definition CFG_holdover :: nat where "CFG_holdover = 60"
definition CFG_ip6_manycast :: nat where "CFG_ip6_manycast = 64"
definition CFG_loopstats_interval :: nat where "CFG_loopstats_interval = 80"

lemmas cfg_offsets = CFG_version_def CFG_ip_addr_def CFG_ip_gateway_def CFG_ip_netmask_def CFG_gps_baud_rate_def
  CFG_gps_listen_port_def CFG_syslog_ip_def CFG_flags_def CFG_ip_manycast_def CFG_ntp_key_def CFG_holdover_def
  CFG_ip6_manycast_def CFG_loopstats_interval_def

definition value_table :: "clivalue list" where
  "value_table =
     [cli_value ''gps_baud_rate'' VAR_UINT32 CFG_gps_baud_rate 0,
      cli_value ''gps_ext_in'' VAR_FLAG CFG_flags 2,
      cli_value ''gps_ext_out'' VAR_FLAG CFG_flags 4,
      cli_value ''gps_listen_port'' VAR_UINT16 CFG_gps_listen_port 0,
      cli_value ''holdover_test'' VAR_FLAG CFG_flags 32,
      cli_value ''holdover_time'' VAR_UINT32 CFG_holdover 0,
      cli_value ''ip6_manycast'' VAR_IP6 CFG_ip6_manycast 0,
      cli_value ''ip_addr'' VAR_IP4 CFG_ip_addr 0,
      cli_value ''ip_gateway'' VAR_IP4 CFG_ip_gateway 0,
      cli_value ''ip_manycast'' VAR_IP4 CFG_ip_manycast 0,
      cli_value ''ip_netmask'' VAR_IP4 CFG_ip_netmask 0,
      cli_value ''loopstats_interval'' VAR_UINT16 CFG_loopstats_interval 0,
      cli_value ''ntp_key_is_md5'' VAR_FLAG CFG_flags 8,
      cli_value ''ntp_key_is_sha1'' VAR_FLAG CFG_flags 16,
      cli_value ''ntp_key'' VAR_HEX CFG_ntp_key 20,
      cli_value ''pps_out'' VAR_FLAG CFG_flags 1,
      cli_value ''syslog_ip'' VAR_IP4 CFG_syslog_ip 0,
      cli_value ''timescale_gps'' VAR_FLAG CFG_flags 64]"

section \<open>Printing\<close>

text \<open>
  \<open>serial_printf\<close> formats into 64 bytes and sends as many as the whole text has, but at most
  64: of a longer text the first 63 and the terminator.
\<close>

definition cli_printf :: "u8 list \<Rightarrow> u8 list" where
  "cli_printf txt = (if length txt < 64 then txt else take 63 txt @ [0])"

definition fmt_ip4 :: "u32 \<Rightarrow> u8 list" where
  "fmt_ip4 addr = fmt_u (unat (addr AND 0xFF)) @ 46 # fmt_u (unat (drop_bit 8 addr AND 0xFF)) @ 46
     # fmt_u (unat (drop_bit 16 addr AND 0xFF)) @ 46 # fmt_u (unat (drop_bit 24 addr AND 0xFF))"

text \<open>\<open>IP6_ADDR_BLOCK1\<close> and so on, of lwIP: the sixteen-bit groups of the address in host order.\<close>

definition ip6_block :: "u8 list \<Rightarrow> nat \<Rightarrow> u16" where
  "ip6_block m i =
     (let a = htonl (get32 m (4 * (i div 2))) in ucast (if even i then drop_bit 16 a AND 0xFFFF else a AND 0xFFFF))"

definition fmt_ip6 :: "u8 list \<Rightarrow> u8 list" where
  "fmt_ip6 m = fmt_x (unat (ip6_block m 0)) @ concat (map (\<lambda>i. 58 # fmt_x (unat (ip6_block m i))) [1..<8])"

definition cliPrintVar :: "clivalue \<Rightarrow> u8 list \<Rightarrow> u8 list" where
  "cliPrintVar var m =
     (case vtype var of
        VAR_UINT32 \<Rightarrow> cli_printf (fmt_u (unat (get32 m (vptr var))))
      | VAR_UINT16 \<Rightarrow> cli_printf (fmt_u (unat (get16 m (vptr var))))
      | VAR_IP4 \<Rightarrow> cli_printf (fmt_ip4 (get32 m (vptr var)))
      | VAR_IP6 \<Rightarrow> cli_printf (fmt_ip6 (drop (vptr var) m))
      | VAR_HEX \<Rightarrow> concat (map (\<lambda>i. cli_printf (fmt_02x (m ! (vptr var + i)))) [0..<vlen var])
      | VAR_FLAG \<Rightarrow> (if get32 m (vptr var) AND of_nat (vlen var) \<noteq> 0 then ascii ''true'' else ascii ''false'')
      | VAR_INVALID \<Rightarrow> [])"

section \<open>Setting\<close>

fun ip4_loop :: "u8 list \<Rightarrow> u32 \<Rightarrow> u8 \<Rightarrow> (u32 \<times> u8) res" where
  "ip4_loop [] val val2 = Inl (Oob ''str'')"
| "ip4_loop (c # str) val val2 =
     (if c = 0 then Inr (val, val2)
      else if c = 46 then ip4_loop str (push_bit 8 val OR ucast val2) 0
      else if 48 \<le> c \<and> c \<le> 57 then ip4_loop str val (val2 * 10 + (c - 48))
      else ip4_loop str val val2)"

fun ip6_loop :: "u8 list \<Rightarrow> nat \<Rightarrow> u16 list \<Rightarrow> u16 list res" where
  "ip6_loop [] i ws = Inl (Oob ''str'')"
| "ip6_loop (c # str) i ws =
     (if c = 0 then Inr ws
      else if c = 58 then (if i + 1 = 8 then Inr ws else ip6_loop str (i + 1) ws)
      else rbind (rd ''words'' ws i) (\<lambda>w.
           rbind (wr ''words'' ws i (push_bit 4 w OR ucast (parse_hex c))) (\<lambda>ws.
           ip6_loop str i ws)))"

definition ip6_pack :: "u16 list \<Rightarrow> u8 list" where
  "ip6_pack ws = concat (map (\<lambda>i. bytes32 (htonl (ucast (ws ! (2 * i + 1)) OR push_bit 16 (ucast (ws ! (2 * i)))))) [0..<4])"

text \<open>The bytes that the first loop stores, and the zeros of the second.\<close>

fun hex_loop :: "nat \<Rightarrow> u8 list \<Rightarrow> u8 list res" where
  "hex_loop 0 str = Inr []"
| "hex_loop (Suc n) str =
     rbind (peek str) (\<lambda>val2.
     if val2 = 0 then Inr (replicate (Suc n) 0)
     else let val = push_bit 4 (ucast (parse_hex val2)) :: u32; str = drop 1 str in
          rbind (peek str) (\<lambda>val2.
          if val2 = 0 then Inr (replicate (Suc n) 0)
          else let val = val OR ucast (parse_hex val2) in
               rbind (hex_loop n (drop 1 str)) (\<lambda>bs. Inr (ucast val # bs))))"

definition set_flag :: "nat \<Rightarrow> u32 \<Rightarrow> u8 list \<Rightarrow> u32 res" where
  "set_flag fmask v str =
     rbind (peek str) (\<lambda>c.
     rbind (if c = 111 then peek (drop 1 str) else Inr 0) (\<lambda>d.
     if c = 116 \<or> c = 121 \<or> c = 111 \<and> d = 110 then Inr (v OR of_nat fmask)
     else if c = 102 \<or> c = 110 \<or> c = 111 \<and> d = 102 then Inr (v AND NOT (of_nat fmask))
     else Inr v))"

definition cliSetVar :: "clivalue \<Rightarrow> u8 list \<Rightarrow> u8 list \<Rightarrow> u8 list res" where
  "cliSetVar var str m =
     (case vtype var of
        VAR_UINT32 \<Rightarrow> rbind (atoi_decimal str 0) (\<lambda>v. Inr (copy_into m (vptr var) (bytes32 v)))
      | VAR_UINT16 \<Rightarrow> rbind (atoi_decimal str 0) (\<lambda>v. Inr (copy_into m (vptr var) (bytes16 (ucast v))))
      | VAR_IP4 \<Rightarrow> rbind (ip4_loop str 0 0) (\<lambda>(val, val2).
                   Inr (copy_into m (vptr var) (bytes32 (htonl (push_bit 8 val OR ucast val2)))))
      | VAR_IP6 \<Rightarrow> rbind (ip6_loop str 0 (replicate 8 0)) (\<lambda>ws. Inr (copy_into m (vptr var) (ip6_pack ws)))
      | VAR_HEX \<Rightarrow> rbind (hex_loop (vlen var) str) (\<lambda>bs. Inr (copy_into m (vptr var) bs))
      | VAR_FLAG \<Rightarrow> rbind (set_flag (vlen var) (get32 m (vptr var)) str) (\<lambda>v. Inr (copy_into m (vptr var) (bytes32 v)))
      | VAR_INVALID \<Rightarrow> Inr m)"

section \<open>The command\<close>

text \<open>\<open>cmdline\<close> is the position of the command line in its buffer; \<open>strstr\<close> of one character.\<close>

fun find_eq :: "u8 list \<Rightarrow> nat \<Rightarrow> nat option res" where
  "find_eq [] i = Inl (Oob ''str'')"
| "find_eq (c # str) i = (if c = 0 then Inr None else if c = 61 then Inr (Some i) else find_eq str (i + 1))"

fun cut_name :: "u8 list \<Rightarrow> nat \<Rightarrow> u8 list res" where
  "cut_name buf 0 = Inl (Oob ''cmdline'')"
| "cut_name buf (Suc p) =
     rbind (rd ''cmdline'' buf p) (\<lambda>c. if c = 32 then cut_name (buf[p := 0]) p else Inr buf)"

fun skip_blanks :: "u8 list \<Rightarrow> u8 list res" where
  "skip_blanks [] = Inl (Oob ''str'')"
| "skip_blanks (c # str) = (if c = 32 then skip_blanks str else Inr (c # str))"

fun find_value :: "clivalue list \<Rightarrow> u8 list \<Rightarrow> nat \<Rightarrow> clivalue option res" where
  "find_value [] buf p = Inr None"
| "find_value (v # vs) buf p =
     rbind (c_streq buf p (vname v)) (\<lambda>same. if same then Inr (Some v) else find_value vs buf p)"

text \<open>The result is what is printed, the buffer and the configuration.\<close>

definition cli_cmd_set :: "u8 list \<Rightarrow> nat \<Rightarrow> u8 list \<Rightarrow> (u8 list \<times> u8 list \<times> u8 list) res" where
  "cli_cmd_set buf p cfg =
     rbind (c_strlen buf p) (\<lambda>len.
     rbind (if len = 1 then rd ''cmdline'' buf p else Inr 0) (\<lambda>c.
     if len = 0 \<or> len = 1 \<and> c = 42
     then Inr (ascii ''Current settings:'' @ [13, 10]
               @ concat (map (\<lambda>v. cli_printf (vname v @ ascii '' = '') @ cliPrintVar v cfg @ [13, 10]) value_table), buf, cfg)
     else
     rbind (find_eq (drop p buf) p) (\<lambda>eq.
     case eq of
       None \<Rightarrow> Inr ([], buf, cfg)
     | Some eqptr \<Rightarrow>
         rbind (wr ''cmdline'' buf eqptr 0) (\<lambda>buf.
         rbind (cut_name buf eqptr) (\<lambda>buf.
         rbind (skip_blanks (drop (eqptr + 1) buf)) (\<lambda>str.
         rbind (find_value value_table buf p) (\<lambda>val.
         case val of
           Some v \<Rightarrow> rbind (cliSetVar v str cfg) (\<lambda>cfg.
                     Inr (cli_printf (vname v @ ascii '' set to '') @ cliPrintVar v cfg, buf, cfg))
         | None \<Rightarrow> Inr (ascii ''ERR: Unknown variable name'' @ [13, 10], buf, cfg))))))))"


section \<open>Words as bytes\<close>

lemma u8_bit_bound: "bit (w :: u8) n \<Longrightarrow> n < 8"
  using bit_imp_le_length [of w n] by simp

lemma u32_bit_bound: "bit (w :: u32) n \<Longrightarrow> n < 32"
  using bit_imp_le_length [of w n] by simp

lemma get32_bits:
  "bit (get32 m p) n = (if n < 8 then bit (m ! p) n else if n < 16 then bit (m ! (p + 1)) (n - 8)
     else if n < 24 then bit (m ! (p + 2)) (n - 16) else bit (m ! (p + 3)) (n - 24))"
  by (auto simp: get32_def bit_simps dest: u8_bit_bound)

lemma get16_bits: "bit (get16 m p) n = (if n < 8 then bit (m ! p) n else bit (m ! (p + 1)) (n - 8))"
  by (auto simp: get16_def bit_simps dest: u8_bit_bound)

lemma byte_of_word: "bit (ucast (drop_bit k w) :: u8) n \<longleftrightarrow> n < 8 \<and> bit w (k + n)"
  by (simp add: bit_simps)

lemma four_bytes: "p + 4 \<le> length m \<Longrightarrow> take 4 (drop p m) = [m ! p, m ! (p + 1), m ! (p + 2), m ! (p + 3)]"
  and two_bytes: "p + 2 \<le> length m \<Longrightarrow> take 2 (drop p m) = [m ! p, m ! (p + 1)]"
  by (simp_all add: list_eq_iff_nth_eq) (auto simp: less_Suc_eq numeral_eq_Suc)

lemma bytes32_get32: "p + 4 \<le> length m \<Longrightarrow> bytes32 (get32 m p) = take 4 (drop p m)"
proof -
  assume p: "p + 4 \<le> length m"
  have b: "ucast (get32 m p) = m ! p" "ucast (drop_bit 8 (get32 m p)) = m ! (p + 1)"
    "ucast (drop_bit 16 (get32 m p)) = m ! (p + 2)" "ucast (drop_bit 24 (get32 m p)) = m ! (p + 3)"
    by (rule bit_eqI, simp add: bit_simps get32_bits)+
  then show ?thesis using four_bytes [OF p] by (simp add: bytes32_def)
qed

lemma bytes16_get16: "p + 2 \<le> length m \<Longrightarrow> bytes16 (get16 m p) = take 2 (drop p m)"
proof -
  assume p: "p + 2 \<le> length m"
  have b: "ucast (get16 m p) = m ! p" "ucast (drop_bit 8 (get16 m p)) = m ! (p + 1)"
    by (rule bit_eqI, simp add: bit_simps get16_bits)+
  then show ?thesis using two_bytes [OF p] by (simp add: bytes16_def)
qed

lemma bytes_length [simp]: "length (bytes32 v) = 4" "length (bytes16 w) = 2"
  by (simp_all add: bytes32_def bytes16_def)

lemma byte_masks: "bit (0xFF :: u32) n \<longleftrightarrow> n < 8" "bit (0xFF00 :: u32) n \<longleftrightarrow> 8 \<le> n \<and> n < 16"
proof -
  have c: "0xFF = (mask 8 :: u32)" "0xFF00 = push_bit 8 (mask 8 :: u32)" by (simp_all add: mask_eq_exp_minus_1)
  show "bit (0xFF :: u32) n \<longleftrightarrow> n < 8" "bit (0xFF00 :: u32) n \<longleftrightarrow> 8 \<le> n \<and> n < 16"
    unfolding c bit_push_bit_iff bit_mask_iff by (auto simp: possible_bit_word)
qed

lemma htonl_bits:
  "bit (htonl v) n \<longleftrightarrow> (if n < 8 then bit v (n + 24) else if n < 16 then bit v (n + 8)
     else if n < 24 then bit v (n - 8) else n < 32 \<and> bit v (n - 24))"
  unfolding htonl_def bit_or_iff bit_and_iff bit_push_bit_iff bit_drop_bit_eq o_def byte_masks
  by (auto simp: possible_bit_word add.commute dest: bit_imp_le_length)

lemma htonl_htonl [simp]: "htonl (htonl v) = v"
  by (rule bit_eqI) (auto simp: htonl_bits possible_bit_word)


section \<open>Printing and setting\<close>

lemma digit_bounds: "is_digit c \<Longrightarrow> c \<noteq> 0 \<and> c \<noteq> 46 \<and> c \<noteq> 58 \<and> 48 \<le> c \<and> c \<le> 57"
  by (auto simp: is_digit_def)

lemma ip4_digits:
  "list_all is_digit ds \<Longrightarrow>
   ip4_loop (ds @ rest) val v2 = ip4_loop rest val (of_nat (foldl (\<lambda>v c. v * 10 + (unat c - 48)) (unat v2) ds))"
proof (induction ds arbitrary: v2)
  case (Cons c ds)
  have c: "c \<noteq> 0" "c \<noteq> 46" "48 \<le> c" "c \<le> 57" using Cons.prems digit_bounds [of c] by auto
  have "unat (c - 48) = unat c - 48" using c(3) by (simp add: unat_sub)
  then have e: "v2 * 10 + (c - 48) = of_nat (unat v2 * 10 + (unat c - 48))" by (simp flip: \<open>unat (c - 48) = unat c - 48\<close>)
  have w: "(of_nat (foldl (\<lambda>v c. v * 10 + (unat c - 48)) (unat (of_nat n :: u8)) ds) :: u8)
      = of_nat (foldl (\<lambda>v c. v * 10 + (unat c - 48)) n ds)" for n
  proof (induction ds rule: rev_induct)
    case (snoc x xs)
    then show ?case by simp
  qed simp
  have "ip4_loop ((c # ds) @ rest) val v2 = ip4_loop (ds @ rest) val (v2 * 10 + (c - 48))" using c by simp
  also have "\<dots> = ip4_loop rest val (of_nat (foldl (\<lambda>v c. v * 10 + (unat c - 48)) (unat (v2 * 10 + (c - 48))) ds))"
    by (rule Cons.IH) (use Cons.prems in simp)
  finally show ?case unfolding e w by simp
qed simp

lemma ip4_number:
  assumes "n < 256"
  shows "ip4_loop (fmt_u n @ rest) val 0 = ip4_loop rest val (of_nat n)"
  using ip4_digits [OF fmt_u_digits, of n rest val 0] decimal_fmt_u [of n] by (simp add: decimal_value_def)

lemma byte_shift: "unat (drop_bit k (w :: u32) AND 0xFF) < 256" "(of_nat (unat (drop_bit k w AND 0xFF)) :: u8) = ucast (drop_bit k w)"
proof -
  have e: "drop_bit k w AND 0xFF = take_bit 8 (drop_bit k w)" 
    by (rule bit_eqI, unfold bit_and_iff byte_masks bit_take_bit_iff) blast
  then have "unat (drop_bit k w AND 0xFF) = take_bit 8 (unat (drop_bit k w))" by (simp add: unsigned_take_bit_eq)
  then show "unat (drop_bit k w AND 0xFF) < 256" using take_bit_nat_less_exp [of 8 "unat (drop_bit k w)"] by simp
  have "(of_nat (unat (drop_bit k w AND 0xFF)) :: u8) = ucast (drop_bit k w AND 0xFF)" by simp
  also have "\<dots> = ucast (drop_bit k w)" 
    unfolding e by (rule bit_eqI) (simp add: bit_simps)
  finally show "(of_nat (unat (drop_bit k w AND 0xFF)) :: u8) = ucast (drop_bit k w)" .
qed

lemma ip4_back: "htonl (push_bit 8 (push_bit 8 (push_bit 8 (ucast (ucast w :: u8)) OR ucast (ucast (drop_bit 8 w) :: u8))
    OR ucast (ucast (drop_bit 16 w) :: u8)) OR ucast (ucast (drop_bit 24 w) :: u8)) = (w :: u32)"
  by (rule bit_eqI) (auto simp: htonl_bits bit_simps possible_bit_word)

lemma ip4_text: "ip4_loop (fmt_ip4 w @ 0 # rest) 0 0 =
    Inr (push_bit 8 (push_bit 8 (ucast (ucast w :: u8)) OR ucast (ucast (drop_bit 8 w) :: u8)) OR ucast (ucast (drop_bit 16 w) :: u8), ucast (drop_bit 24 w))"
  using byte_shift [of 0 w] byte_shift [of 8 w] byte_shift [of 16 w] byte_shift [of 24 w]
  by (simp add: fmt_ip4_def ip4_number)

lemma fmt_x_step: "16 \<le> n \<Longrightarrow> fmt_x n = fmt_x (n div 16) @ [hex_digit (n mod 16)]"
  and fmt_x_digit: "n < 16 \<Longrightarrow> fmt_x n = [hex_digit n]"
  by (subst fmt_x.simps, simp)+

lemma nibble_word: "k < 16 \<Longrightarrow> push_bit 4 (of_nat n :: 'a::len word) OR of_nat k = of_nat (16 * n + k)"
proof -
  assume k: "k < 16"
  have "push_bit 4 (of_nat n :: 'a word) OR of_nat k = of_nat (push_bit 4 n OR k)"
    by (rule bit_eqI) (auto simp: bit_simps possible_bit_word)
  also have "push_bit 4 n OR k = 16 * n + k"
  proof -
    have "push_bit 4 n + k = push_bit 4 n OR k"
    proof (rule disjunctive_add)
      fix i
      show "\<not> bit (push_bit 4 n) i \<or> \<not> bit k i"
      proof (cases "i < 4")
        case False
        then have "k < 2 ^ i" using k power_increasing [of 4 i "2::nat"] by simp
        then show ?thesis by (simp add: bit_iff_odd)
      qed (simp add: bit_simps)
    qed
    then show ?thesis by (simp add: push_bit_eq_mult)
  qed
  finally show ?thesis .
qed

lemma ip6_digit:
  assumes "k < 16" "i < length ws" "i < 8"
  shows "ip6_loop (hex_digit k # rest) i ws = ip6_loop rest i (ws[i := push_bit 4 (ws ! i) OR of_nat k])"
  using parse_hex_digit [OF assms(1)] assms by (simp add: rd_in wr_in ucast_of_nat_small)

lemma ip6_group:
  "ws ! i = 0 \<Longrightarrow> i < length ws \<Longrightarrow> i < 8 \<Longrightarrow> ip6_loop (fmt_x n @ rest) i ws = ip6_loop rest i (ws[i := of_nat n])"
proof (induction n arbitrary: rest rule: fmt_x.induct)
  case (1 n)
  show ?case
  proof (cases "n < 16")
    case True
    then show ?thesis using 1(2-4) by (simp only: fmt_x_digit append_Cons append_Nil ip6_digit) simp
  next
    case False
    let ?d = "n mod 16"
    have "ip6_loop (fmt_x n @ rest) i ws = ip6_loop (fmt_x (n div 16) @ hex_digit ?d # rest) i ws"
      using False by (simp add: fmt_x_step)
    also have "\<dots> = ip6_loop (hex_digit ?d # rest) i (ws[i := of_nat (n div 16)])" using 1 False by simp
    also have "\<dots> = ip6_loop rest i ((ws[i := of_nat (n div 16)])[i := push_bit 4 (of_nat (n div 16)) OR of_nat ?d])"
      using ip6_digit [of ?d i "ws[i := of_nat (n div 16)]" rest] 1(3,4) by simp
    also have "\<dots> = ip6_loop rest i (ws[i := of_nat n])"
      using nibble_word [of ?d "n div 16", where 'a = 16] by (simp add: mult.commute)
    finally show ?thesis .
  qed
qed

lemma ip6_groups:
  "length ws = Suc i \<Longrightarrow> length ws + length ns = 8 \<Longrightarrow>
   ip6_loop (concat (map (\<lambda>n. 58 # fmt_x n) ns) @ 0 # rest) i (ws @ replicate (length ns) 0) = Inr (ws @ map of_nat ns)"
proof (induction ns arbitrary: i ws)
  case (Cons n ns)
  let ?ws = "ws @ replicate (length (n # ns)) 0"
  have i: "Suc i < 8" "?ws ! Suc i = 0" "Suc i < length ?ws" using Cons.prems by (simp_all add: nth_append)
  have "ip6_loop (concat (map (\<lambda>n. 58 # fmt_x n) (n # ns)) @ 0 # rest) i ?ws
      = ip6_loop (fmt_x n @ concat (map (\<lambda>n. 58 # fmt_x n) ns) @ 0 # rest) (Suc i) ?ws"
    using i(1) by simp
  also have "\<dots> = ip6_loop (concat (map (\<lambda>n. 58 # fmt_x n) ns) @ 0 # rest) (Suc i) (?ws[Suc i := of_nat n])"
    by (rule ip6_group) (use i in auto)
  also have "?ws[Suc i := of_nat n] = (ws @ [of_nat n]) @ replicate (length ns) 0"
    using Cons.prems by (simp add: list_update_append)
  also have "ip6_loop (concat (map (\<lambda>n. 58 # fmt_x n) ns) @ 0 # rest) (Suc i) \<dots> = Inr ((ws @ [of_nat n]) @ map of_nat ns)"
    by (rule Cons.IH) (use Cons.prems in simp_all)
  finally show ?case by simp
qed simp


lemma hex_byte: "ucast (push_bit 4 (ucast (parse_hex (hex_digit (unat b div 16)))) OR ucast (parse_hex (hex_digit (unat b mod 16))) :: u32) = (b :: u8)"
proof -
  have "unat b < 2 ^ LENGTH(8)" by (rule unsigned_less)
  then have k: "unat b div 16 < 16" "unat b mod 16 < 16" by auto
  have "(push_bit 4 (ucast (parse_hex (hex_digit (unat b div 16)))) OR ucast (parse_hex (hex_digit (unat b mod 16))) :: u32)
      = push_bit 4 (of_nat (unat b div 16)) OR of_nat (unat b mod 16)"
    using parse_hex_digit [OF k(1)] parse_hex_digit [OF k(2)] k by (simp add: ucast_of_nat_small)
  also have "\<dots> = of_nat (16 * (unat b div 16) + unat b mod 16)" by (rule nibble_word) (rule k)
  also have "\<dots> = of_nat (unat b)" by simp
  also have "\<dots> = ucast b" by simp
  moreover have "ucast (ucast b :: u32) = b" by (rule bit_eqI) (simp add: bit_simps)
  ultimately show ?thesis by simp
qed

lemma hex_text: "hex_loop (length bs) (concat (map fmt_02x bs) @ 0 # rest) = Inr bs"
proof (induction bs)
  case (Cons b bs)
  have "unat b < 2 ^ LENGTH(8)" by (rule unsigned_less)
  then have k: "unat b div 16 < 16" "unat b mod 16 < 16" by auto
  show ?case
    using Cons parse_hex_digit [OF k(1)] parse_hex_digit [OF k(2)] hex_byte [of b]
    by (simp add: fmt_02x_def peek_def Let_def)
qed simp

lemma hex_values_printed:
  "p + n \<le> length m \<Longrightarrow> concat (map (\<lambda>i. cli_printf (fmt_02x (m ! (p + i)))) [0..<n]) = concat (map fmt_02x (take n (drop p m)))"
proof -
  assume "p + n \<le> length m"
  then have "take n (drop p m) = map (\<lambda>i. m ! (p + i)) [0..<n]" by (intro nth_equalityI) auto
  then show ?thesis by (simp add: cli_printf_def fmt_02x_def comp_def)
qed

lemma flag_text: "set_flag k v (ascii ''true'' @ rest) = Inr (v OR of_nat k)" "set_flag k v (ascii ''false'' @ rest) = Inr (v AND NOT (of_nat k))"
  by (simp_all add: set_flag_def peek_def ascii_def)

lemma fmt_x_length: "n < 16 ^ k \<Longrightarrow> 0 < k \<Longrightarrow> length (fmt_x n) \<le> k"
proof (induction n arbitrary: k rule: fmt_x.induct)
  case (1 n)
  show ?case
  proof (cases "n < 16")
    case True
    then show ?thesis using 1 by (simp add: fmt_x_digit)
  next
    case False
    then obtain j where k: "k = Suc j" "0 < j" using 1(2) by (cases k; cases "k = 1") auto
    then have "n div 16 < 16 ^ j" using 1(2) by (simp add: less_mult_imp_div_less mult.commute)
    then show ?thesis using 1(1) [OF False _ k(2)] False k by (simp add: fmt_x_step)
  qed
qed

lemma number_short: "length (fmt_u (unat (v :: u32))) \<le> 10" "length (fmt_u (unat (w :: u16))) \<le> 5"
proof -
  have "unat v < 2 ^ LENGTH(32)" "unat w < 2 ^ LENGTH(16)" by (rule unsigned_less)+
  then show "length (fmt_u (unat v)) \<le> 10" "length (fmt_u (unat w)) \<le> 5" by (auto intro!: fmt_u_length)
qed

lemma printf_short: "length t < 64 \<Longrightarrow> cli_printf t = t"
  by (simp add: cli_printf_def)

lemma ip4_short: "length (fmt_ip4 w) < 64"
proof -
  have b: "length (fmt_u (unat (drop_bit k w AND 0xFF))) \<le> 3" for k
    by (rule fmt_u_length) (use byte_shift(1) [of k w] in simp_all)
  show ?thesis using b [of 0] b [of 8] b [of 16] b [of 24] by (simp add: fmt_ip4_def)
qed

lemma group_short: "length (fmt_x (unat (g :: u16))) \<le> 4"
proof -
  have "unat g < 2 ^ LENGTH(16)" by (rule unsigned_less)
  then show ?thesis by (intro fmt_x_length) simp_all
qed

lemma ip6_short: "length (fmt_ip6 m) < 64"
proof -
  have e: "[1..<8] = [1, 2, 3, 4, 5, 6, 7::nat]" by (simp add: upt_rec)
  show ?thesis
    unfolding fmt_ip6_def e
    using group_short [of "ip6_block m 0"] group_short [of "ip6_block m 1"] group_short [of "ip6_block m 2"] group_short [of "ip6_block m 3"]
      group_short [of "ip6_block m 4"] group_short [of "ip6_block m 5"] group_short [of "ip6_block m 6"] group_short [of "ip6_block m 7"]
    by simp
qed

lemma ip6_text: "ip6_loop (fmt_ip6 m @ 0 # rest) 0 (replicate 8 0) = Inr (map (ip6_block m) [0..<8])"
proof -
  let ?b = "\<lambda>i. unat (ip6_block m i)"
  have c: "concat (map (\<lambda>i. 58 # fmt_x (?b i)) [1..<8]) = concat (map (\<lambda>n. 58 # fmt_x n) (map ?b [1..<8]))" by (simp add: comp_def)
  have "ip6_loop (fmt_ip6 m @ 0 # rest) 0 (replicate 8 0)
      = ip6_loop (concat (map (\<lambda>n. 58 # fmt_x n) (map ?b [1..<8])) @ 0 # rest) 0 ((replicate 8 0)[0 := of_nat (?b 0)])"
    unfolding fmt_ip6_def c append_assoc by (rule ip6_group) simp_all
  also have "(replicate 8 0)[0 := of_nat (?b 0)] = [ip6_block m 0] @ replicate (length (map ?b [1..<8])) 0"
    by (simp add: numeral_eq_Suc)
  also have "ip6_loop (concat (map (\<lambda>n. 58 # fmt_x n) (map ?b [1..<8])) @ 0 # rest) 0 \<dots> = Inr ([ip6_block m 0] @ map of_nat (map ?b [1..<8]))"
    by (rule ip6_groups) simp_all
  also have "[ip6_block m 0] @ map of_nat (map ?b [1..<8]) = map (ip6_block m) (0 # [1..<8])" by (simp add: comp_def)
  also have "0 # [1..<8] = [0..<8::nat]" by (simp add: upt_rec)
  finally show ?thesis .
qed

lemma ip6_word: "ucast (ucast (a AND 0xFFFF) :: u16) OR push_bit 16 (ucast (ucast (drop_bit 16 a AND 0xFFFF) :: u16)) = (a :: u32)"
proof -
  have c: "(0xFFFF :: u32) = mask 16" by (simp add: mask_eq_exp_minus_1)
  show ?thesis unfolding c by (rule bit_eqI) (auto simp: bit_simps possible_bit_word)
qed

lemma ip6_pack_back:
  assumes "p + 16 \<le> length m"
  shows "ip6_pack (map (ip6_block (drop p m)) [0..<8]) = take 16 (drop p m)"
proof -
  let ?m = "drop p m"
  have b: "bytes32 (htonl (ucast (map (ip6_block ?m) [0..<8] ! (2 * i + 1)) OR push_bit 16 (ucast (map (ip6_block ?m) [0..<8] ! (2 * i)))))
      = take 4 (drop (4 * i) ?m)" if "i < 4" for i
  proof -
    have "ucast (ip6_block ?m (2 * i + 1)) OR push_bit 16 (ucast (ip6_block ?m (2 * i))) = htonl (get32 ?m (4 * i))"
      using ip6_word [of "htonl (get32 ?m (4 * i))"] by (simp add: ip6_block_def Let_def)
    moreover have "4 * i + 4 \<le> length ?m" using that assms by simp
    ultimately show ?thesis using that bytes32_get32 [of "4 * i" ?m] by (simp add: nth_append)
  qed
  have "[0..<4] = [0, 1, 2, 3::nat]" by (simp add: upt_rec)
  then have "ip6_pack (map (ip6_block ?m) [0..<8]) = take 4 ?m @ take 4 (drop 4 ?m) @ take 4 (drop 8 ?m) @ take 4 (drop 12 ?m)"
    unfolding ip6_pack_def using b [of 0] b [of 1] b [of 2] b [of 3] by simp
  also have "\<dots> = take 16 ?m"
    using take_add [of 12 4 ?m] take_add [of 8 4 ?m] take_add [of 4 4 ?m] by simp
  finally show ?thesis .
qed


text \<open>
  The bits of the record that a setting stands for, each a byte and a bit in it, and the settings
  that fit into a record.
\<close>

definition var_size :: "clivalue \<Rightarrow> nat" where
  "var_size v = (case vtype v of VAR_UINT32 \<Rightarrow> 4 | VAR_UINT16 \<Rightarrow> 2 | VAR_IP4 \<Rightarrow> 4 | VAR_IP6 \<Rightarrow> 16 | VAR_HEX \<Rightarrow> vlen v
     | VAR_FLAG \<Rightarrow> 4 | VAR_INVALID \<Rightarrow> 0)"

definition var_bit :: "clivalue \<Rightarrow> nat \<Rightarrow> nat \<Rightarrow> bool" where
  "var_bit v i b \<longleftrightarrow> vptr v \<le> i \<and> i < vptr v + var_size v \<and> (vtype v = VAR_FLAG \<longrightarrow> vlen v = 2 ^ (8 * (i - vptr v) + b))"

definition var_ok :: "clivalue \<Rightarrow> nat \<Rightarrow> bool" where
  "var_ok v n \<longleftrightarrow> vptr v + var_size v \<le> n \<and> (vtype v = VAR_FLAG \<longrightarrow> (\<exists>k < 32. vlen v = 2 ^ k)) \<and> 0 \<notin> set (vname v)"

definition overlaid :: "(nat \<Rightarrow> nat \<Rightarrow> bool) \<Rightarrow> u8 list \<Rightarrow> u8 list \<Rightarrow> u8 list \<Rightarrow> bool" where
  "overlaid P m m' r \<longleftrightarrow> length r = length m'
     \<and> (\<forall>i < length m'. \<forall>b < 8. bit (r ! i) b = (if P i b then bit (m ! i) b else bit (m' ! i) b))"

lemma overlaid_copy:
  assumes "p + n \<le> length m" "length m' = length m" "\<And>i b. i < length m \<Longrightarrow> b < 8 \<Longrightarrow> P i b \<longleftrightarrow> p \<le> i \<and> i < p + n"
  shows "overlaid P m m' (copy_into m' p (take n (drop p m)))"
  using assms by (auto simp: overlaid_def copy_into_length copy_into_nth)

lemma overlaid_trans:
  assumes "overlaid P m m' r" "overlaid Q m r r'" "length m' = length m"
  shows "overlaid (\<lambda>i b. P i b \<or> Q i b) m m' r'"
  using assms by (auto simp: overlaid_def)

lemma power_of_two_bit: "bit (2 ^ k :: u32) n \<longleftrightarrow> n = k \<and> k < 32"
  by (auto simp: bit_exp_iff possible_bit_word)

lemma bytes32_nth: "j < 4 \<Longrightarrow> b < 8 \<Longrightarrow> bit (bytes32 w ! j) b \<longleftrightarrow> bit w (8 * j + b)"
proof -
  assume "j < 4" "b < 8"
  moreover from this have "j = 0 \<or> j = 1 \<or> j = 2 \<or> j = 3" by linarith
  ultimately show "bit (bytes32 w ! j) b \<longleftrightarrow> bit w (8 * j + b)"
    by (elim disjE) (simp_all add: bytes32_def bit_simps)
qed

lemma get32_nth: "j < 4 \<Longrightarrow> b < 8 \<Longrightarrow> bit (get32 m p) (8 * j + b) \<longleftrightarrow> bit (m ! (p + j)) b"
proof -
  assume "j < 4" "b < 8"
  moreover from this have "j = 0 \<or> j = 1 \<or> j = 2 \<or> j = 3" by linarith
  ultimately show "bit (get32 m p) (8 * j + b) \<longleftrightarrow> bit (m ! (p + j)) b"
    by (elim disjE) (simp_all add: get32_bits)
qed

lemma set_flag_overlaid:
  assumes k: "k < 32" and p: "p + 4 \<le> length m" and l: "length m' = length m"
    and w: "\<And>n. bit w n = (if n = k then bit (get32 m p) k else bit (get32 m' p) n)"
  shows "overlaid (\<lambda>i b. p \<le> i \<and> i < p + 4 \<and> (2::nat) ^ k = 2 ^ (8 * (i - p) + b)) m m' (copy_into m' p (bytes32 w))"
  unfolding overlaid_def
proof (intro conjI allI impI)
  show "length (copy_into m' p (bytes32 w)) = length m'" using p l by (intro copy_into_length) simp
next
  fix i b assume i: "i < length m'" and b: "b < (8::nat)"
  show "bit (copy_into m' p (bytes32 w) ! i) b =
      (if p \<le> i \<and> i < p + 4 \<and> (2::nat) ^ k = 2 ^ (8 * (i - p) + b) then bit (m ! i) b else bit (m' ! i) b)"
  proof (cases "p \<le> i \<and> i < p + 4")
    case True
    then obtain j where j: "i = p + j" "j < 4" by (metis le_add_diff_inverse nat_add_left_cancel_less)
    have "bit (copy_into m' p (bytes32 w) ! i) b = bit w (8 * j + b)"
      using p l i b j by (simp add: copy_into_nth bytes32_nth)
    then show ?thesis using j b w get32_nth [OF j(2) b] by auto
  next
    case False
    then show ?thesis using p l i by (auto simp: copy_into_nth)
  qed
qed

lemma cliSetVar_printed:
  assumes v: "var_ok v (length m)" and l: "length m' = length m"
  shows "\<exists>r. cliSetVar v (cliPrintVar v m @ 0 # rest) m' = Inr r \<and> overlaid (var_bit v) m m' r"
proof (cases "vtype v")
  case VAR_UINT32
  then have p: "vptr v + 4 \<le> length m" using v by (simp add: var_ok_def var_size_def)
  have "length (fmt_u (unat (get32 m (vptr v)))) < 64" using number_short(1) [of "get32 m (vptr v)"] by linarith
  then have "cliSetVar v (cliPrintVar v m @ 0 # rest) m' = Inr (copy_into m' (vptr v) (take 4 (drop (vptr v) m)))"
    using VAR_UINT32 p by (simp add: cliSetVar_def cliPrintVar_def printf_short atoi_fmt_u bytes32_get32)
  then show ?thesis using overlaid_copy [OF p l] VAR_UINT32 by (simp add: var_bit_def var_size_def)
next
  case VAR_UINT16
  then have p: "vptr v + 2 \<le> length m" using v by (simp add: var_ok_def var_size_def)
  have "length (fmt_u (unat (get16 m (vptr v)))) < 64" using number_short(2) [of "get16 m (vptr v)"] by linarith
  moreover have "(ucast (of_nat (unat (get16 m (vptr v))) :: u32) :: u16) = get16 m (vptr v)"
    by (rule bit_eqI) (simp add: bit_simps)
  ultimately have "cliSetVar v (cliPrintVar v m @ 0 # rest) m' = Inr (copy_into m' (vptr v) (take 2 (drop (vptr v) m)))"
    using VAR_UINT16 p by (simp add: cliSetVar_def cliPrintVar_def printf_short atoi_fmt_u bytes16_get16)
  then show ?thesis using overlaid_copy [OF p l] VAR_UINT16 by (simp add: var_bit_def var_size_def)
next
  case VAR_IP4
  then have p: "vptr v + 4 \<le> length m" using v by (simp add: var_ok_def var_size_def)
  have "cliSetVar v (cliPrintVar v m @ 0 # rest) m' = Inr (copy_into m' (vptr v) (take 4 (drop (vptr v) m)))"
    using VAR_IP4 p by (simp add: cliSetVar_def cliPrintVar_def printf_short [OF ip4_short] ip4_text ip4_back [simplified] bytes32_get32)
  then show ?thesis using overlaid_copy [OF p l] VAR_IP4 by (simp add: var_bit_def var_size_def)
next
  case VAR_IP6
  then have p: "vptr v + 16 \<le> length m" using v by (simp add: var_ok_def var_size_def)
  have "cliSetVar v (cliPrintVar v m @ 0 # rest) m' = Inr (copy_into m' (vptr v) (take 16 (drop (vptr v) m)))"
    using VAR_IP6 p by (simp add: cliSetVar_def cliPrintVar_def printf_short [OF ip6_short] ip6_text ip6_pack_back)
  then show ?thesis using overlaid_copy [OF p l] VAR_IP6 by (simp add: var_bit_def var_size_def)
next
  case VAR_HEX
  then have p: "vptr v + vlen v \<le> length m" using v by (simp add: var_ok_def var_size_def)
  then have "length (take (vlen v) (drop (vptr v) m)) = vlen v" by simp
  then have "cliSetVar v (cliPrintVar v m @ 0 # rest) m' = Inr (copy_into m' (vptr v) (take (vlen v) (drop (vptr v) m)))"
    using VAR_HEX p hex_text [of "take (vlen v) (drop (vptr v) m)" rest]
    by (simp add: cliSetVar_def cliPrintVar_def hex_values_printed)
  then show ?thesis using overlaid_copy [OF p l] VAR_HEX by (simp add: var_bit_def var_size_def)
next
  case VAR_FLAG
  then obtain k where k: "k < 32" "vlen v = 2 ^ k" and p: "vptr v + 4 \<le> length m" using v by (auto simp: var_ok_def var_size_def)
  let ?w = "if bit (get32 m (vptr v)) k then get32 m' (vptr v) OR 2 ^ k else get32 m' (vptr v) AND NOT (2 ^ k)"
  have on: "get32 m (vptr v) AND 2 ^ k \<noteq> 0 \<longleftrightarrow> bit (get32 m (vptr v)) k"
    by (simp add: bit_iff_and_push_bit_not_eq_0 [of _ k] push_bit_eq_mult)
  have set: "cliSetVar v (cliPrintVar v m @ 0 # rest) m' = Inr (copy_into m' (vptr v) (bytes32 ?w))"
    using VAR_FLAG k on by (simp add: cliSetVar_def cliPrintVar_def flag_text)
  have w: "bit ?w n = (if n = k then bit (get32 m (vptr v)) k else bit (get32 m' (vptr v)) n)" for n
    using k by (auto simp: bit_or_iff bit_and_iff bit_not_iff power_of_two_bit possible_bit_word dest: bit_imp_le_length)
  have vb: "var_bit v = (\<lambda>i b. vptr v \<le> i \<and> i < vptr v + 4 \<and> (2::nat) ^ k = 2 ^ (8 * (i - vptr v) + b))"
    by (intro ext) (simp add: var_bit_def var_size_def VAR_FLAG k)
  have "overlaid (var_bit v) m m' (copy_into m' (vptr v) (bytes32 ?w))"
    unfolding vb by (rule set_flag_overlaid [OF k(1) p l w])
  with set show ?thesis by blast
next
  case VAR_INVALID
  then show ?thesis by (auto simp: cliSetVar_def overlaid_def var_bit_def var_size_def)
qed

section \<open>Command lines\<close>

lemma find_eq_at:
  "0 \<notin> set name \<Longrightarrow> 61 \<notin> set name \<Longrightarrow> find_eq (name @ 61 # txt) i = Inr (Some (i + length name))"
  by (induction name arbitrary: i) auto

lemma find_value_eq:
  assumes "terminated buf p"
  shows "\<forall>v \<in> set vs. 0 \<notin> set (vname v) \<Longrightarrow> find_value vs buf p = Inr (find (\<lambda>v. vname v = cstr buf p) vs)"
  by (induction vs) (auto simp: c_streq_eq [OF _ assms])

lemma cut_name_stop: "i < length buf \<Longrightarrow> buf ! i \<noteq> 32 \<Longrightarrow> cut_name buf (Suc i) = Inr buf"
  by (simp add: rd_in)

lemma cstr_app: "0 \<notin> set s \<Longrightarrow> cstr (pre @ s @ 0 # rest) (length pre) = s"
  by (simp add: cstr_def takeWhile_upto)

lemma terminated_app: "terminated (pre @ s @ 0 # rest) (length pre)"
  unfolding terminated_def by (rule exI [of _ "length (pre @ s)"]) (simp add: nth_append)

text \<open>A command line that gives a value to a setting of the table.\<close>

lemma cli_cmd_set_value:
  assumes buf: "buf = pre @ vname v @ 61 # word @ 0 # rest" and v: "find (\<lambda>w. vname w = vname v) value_table = Some v"
    and ok: "\<forall>v \<in> set value_table. 0 \<notin> set (vname v)"
    and name: "vname v \<noteq> []" "0 \<notin> set (vname v)" "61 \<notin> set (vname v)" "32 \<notin> set (vname v)"
    and tx: "0 \<notin> set word" "word = [] \<or> hd word \<noteq> 32"
  shows "cli_cmd_set buf (length pre) cfg =
    rbind (cliSetVar v (word @ 0 # rest) cfg) (\<lambda>cfg. Inr (cli_printf (vname v @ ascii '' set to '') @ cliPrintVar v cfg,
      pre @ vname v @ 0 # word @ 0 # rest, cfg))"
proof -
  let ?n = "vname v" let ?e = "length pre + length ?n"
  have buf': "buf = pre @ (?n @ 61 # word) @ 0 # rest" using buf by simp
  have len: "c_strlen buf (length pre) = Inr (length ?n + 1 + length word)"
    unfolding buf' c_strlen_eq [OF terminated_app] using name tx by (subst cstr_app) auto
  have two: "length ?n + 1 + length word \<noteq> 0" "length ?n + 1 + length word \<noteq> 1" using name(1) by simp_all
  have eq: "find_eq (drop (length pre) buf) (length pre) = Inr (Some ?e)"
    unfolding buf using find_eq_at [OF name(2,3)] by simp
  let ?b = "pre @ ?n @ 0 # word @ 0 # rest"
  have w: "wr ''cmdline'' buf ?e 0 = Inr ?b" unfolding buf by (simp add: wr_in list_update_append)
  obtain k where k: "length ?n = Suc k" using name(1) by (cases ?n) auto
  have "?b ! (length pre + k) = last ?n" using k name(1) by (simp add: nth_append last_conv_nth)
  then have ne: "?b ! (length pre + k) \<noteq> 32" using last_in_set [OF name(1)] name(4) by metis
  have e: "?e = Suc (length pre + k)" and lt: "length pre + k < length ?b" using k by simp_all
  have c: "cut_name ?b ?e = Inr ?b" unfolding e by (rule cut_name_stop [OF lt ne])
  have sk: "skip_blanks (drop (?e + 1) ?b) = Inr (word @ 0 # rest)"
    using tx(2) by (cases word) simp_all
  have t: "terminated ?b (length pre)" using terminated_app [of pre ?n "word @ 0 # rest"] by simp
  have f: "find_value value_table ?b (length pre) = Inr (Some v)"
    unfolding find_value_eq [OF t ok] using cstr_app [OF name(2), of pre "word @ 0 # rest"] v by simp
  show ?thesis
    unfolding cli_cmd_set_def len rbind_simps using two eq w c sk f name(1) by simp
qed

text \<open>What is printed has no blanks and no terminator.\<close>

lemma hex_digit_plain: "k < 16 \<Longrightarrow> hex_digit k \<noteq> 0 \<and> hex_digit k \<noteq> 32"
proof -
  have "\<forall>k \<in> {0..<16}. hex_digit k \<noteq> 0 \<and> hex_digit k \<noteq> 32" by code_simp
  then show "k < 16 \<Longrightarrow> hex_digit k \<noteq> 0 \<and> hex_digit k \<noteq> 32" by auto
qed

definition printable :: "u8 list \<Rightarrow> bool" where
  "printable t \<longleftrightarrow> 0 \<notin> set t \<and> 32 \<notin> set t"

lemma printable_simps [simp]: "printable []" "printable (c # t) \<longleftrightarrow> c \<noteq> 0 \<and> c \<noteq> 32 \<and> printable t" "printable (s @ t) \<longleftrightarrow> printable s \<and> printable t"
  by (auto simp: printable_def)

lemma printable_concat: "(\<And>x. x \<in> set xs \<Longrightarrow> printable x) \<Longrightarrow> printable (concat xs)"
  by (auto simp: printable_def)

lemma printable_fmt_u: "printable (fmt_u n)"
  using fmt_u_digits [of n] by (auto simp: printable_def list_all_iff is_digit_def)

lemma printable_fmt_x: "printable (fmt_x n)"
proof (induction n rule: fmt_x.induct)
  case (1 n)
  show ?case
    by (cases "n < 16") (use 1 hex_digit_plain [of n] hex_digit_plain [of "n mod 16"] in \<open>simp_all add: fmt_x_digit fmt_x_step\<close>)
qed

lemma printable_fmt_02x: "printable (fmt_02x b)"
proof -
  have "unat b < 2 ^ LENGTH(8)" by (rule unsigned_less)
  then have "unat b div 16 < 16" by auto
  then show ?thesis using hex_digit_plain [of "unat b div 16"] hex_digit_plain [of "unat b mod 16"] by (simp add: fmt_02x_def)
qed

lemma printable_printed: "var_ok v (length m) \<Longrightarrow> printable (cliPrintVar v m)"
proof (cases "vtype v")
  case VAR_UINT32
  then show ?thesis using number_short(1) [of "get32 m (vptr v)"] by (simp add: cliPrintVar_def printf_short printable_fmt_u)
next
  case VAR_UINT16
  then show ?thesis using number_short(2) [of "get16 m (vptr v)"] by (simp add: cliPrintVar_def printf_short printable_fmt_u)
next
  case VAR_IP4
  then show ?thesis by (simp add: cliPrintVar_def printf_short [OF ip4_short]) (simp add: fmt_ip4_def printable_fmt_u)
next
  case VAR_IP6
  then show ?thesis by (simp add: cliPrintVar_def printf_short [OF ip6_short]) (auto simp: fmt_ip6_def printable_fmt_x intro!: printable_concat)
next
  case VAR_HEX
  assume "var_ok v (length m)"
  then have "vptr v + vlen v \<le> length m" using VAR_HEX by (simp add: var_ok_def var_size_def)
  then show ?thesis using VAR_HEX by (auto simp: cliPrintVar_def hex_values_printed printable_fmt_02x intro!: printable_concat)
next
  case VAR_FLAG
  then show ?thesis by (simp add: cliPrintVar_def ascii_def)
qed (simp add: cliPrintVar_def)

text \<open>Giving each setting in turn, on a command line, the value that was printed of a configuration.\<close>

definition set_line :: "clivalue \<Rightarrow> u8 list \<Rightarrow> u8 list" where
  "set_line v m = vname v @ 61 # cliPrintVar v m"

fun set_all :: "clivalue list \<Rightarrow> u8 list \<Rightarrow> u8 list \<Rightarrow> u8 list res" where
  "set_all [] m m' = Inr m'"
| "set_all (v # vs) m m' = rbind (cli_cmd_set (set_line v m @ [0]) 0 m') (\<lambda>(_, _, m'). set_all vs m m')"

lemma value_table_ok: "\<forall>v \<in> set value_table. var_ok v 120"
proof -
  have p: "(\<exists>k < 32. (1::nat) = 2 ^ k)" "(\<exists>k < 32. (2::nat) = 2 ^ k)" "(\<exists>k < 32. (4::nat) = 2 ^ k)" "(\<exists>k < 32. (8::nat) = 2 ^ k)"
    "(\<exists>k < 32. (16::nat) = 2 ^ k)" "(\<exists>k < 32. (32::nat) = 2 ^ k)" "(\<exists>k < 32. (64::nat) = 2 ^ k)"
    by (rule exI [of _ 0], simp, rule exI [of _ 1], simp, rule exI [of _ 2], simp, rule exI [of _ 3], simp, rule exI [of _ 4], simp,
        rule exI [of _ 5], simp, rule exI [of _ 6], simp)
  show ?thesis using p by (simp add: value_table_def cli_value_def var_ok_def var_size_def cfg_offsets ascii_def)
qed


lemma value_table_names:
  "\<forall>v \<in> set value_table. vname v \<noteq> [] \<and> 0 \<notin> set (vname v) \<and> 61 \<notin> set (vname v) \<and> 32 \<notin> set (vname v)"
  by (simp add: value_table_def cli_value_def ascii_def)

lemma value_table_distinct: "distinct (map vname value_table)"
  by (simp add: value_table_def cli_value_def ascii_def)

lemma find_distinct: "distinct (map f xs) \<Longrightarrow> x \<in> set xs \<Longrightarrow> find (\<lambda>y. f y = f x) xs = Some x"
  by (induction xs) auto

lemma set_all_overlaid:
  "set vs \<subseteq> set value_table \<Longrightarrow> length m = 120 \<Longrightarrow> length m' = 120 \<Longrightarrow>
   \<exists>r. set_all vs m m' = Inr r \<and> overlaid (\<lambda>i b. \<exists>v \<in> set vs. var_bit v i b) m m' r"
proof (induction vs arbitrary: m')
  case Nil
  then show ?case by (simp add: overlaid_def)
next
  case (Cons v vs)
  have v: "v \<in> set value_table" "var_ok v (length m)" using Cons.prems value_table_ok by auto
  obtain r where r: "cliSetVar v (cliPrintVar v m @ [0]) m' = Inr r" "overlaid (var_bit v) m m' r"
    using cliSetVar_printed [OF v(2), of m' "[]"] Cons.prems by auto
  have "printable (cliPrintVar v m)" using v(2) by (rule printable_printed)
  then have p: "0 \<notin> set (cliPrintVar v m)" "cliPrintVar v m = [] \<or> hd (cliPrintVar v m) \<noteq> 32"
    by (auto simp: printable_def) (metis list.set_sel(1))
  have "cli_cmd_set (set_line v m @ [0]) (length ([] :: u8 list)) m' = rbind (cliSetVar v (cliPrintVar v m @ 0 # []) m') (\<lambda>cfg.
      Inr (cli_printf (vname v @ ascii '' set to '') @ cliPrintVar v cfg, [] @ vname v @ 0 # cliPrintVar v m @ 0 # [], cfg))"
    by (rule cli_cmd_set_value [of _ "[]" v "cliPrintVar v m" "[]"])
      (use v value_table_names p find_distinct [OF value_table_distinct v(1)] in \<open>simp_all add: set_line_def\<close>)
  then have step: "set_all (v # vs) m m' = set_all vs m r" using r(1) by simp
  have "length r = 120" using r(2) Cons.prems by (simp add: overlaid_def)
  then obtain r' where r': "set_all vs m r = Inr r'" "overlaid (\<lambda>i b. \<exists>v \<in> set vs. var_bit v i b) m r r'"
    using Cons.IH [of r] Cons.prems by auto
  have "length m' = length m" using Cons.prems by simp
  from overlaid_trans [OF r(2) r'(2) this] show ?case unfolding step using r'(1) by auto
qed


section \<open>Any command line\<close>

lemma ip4_loop_safe: "0 \<in> set str \<Longrightarrow> \<exists>r. ip4_loop str val v2 = Inr r"
  by (induction str arbitrary: val v2) auto

lemma ip6_loop_safe: "0 \<in> set str \<Longrightarrow> i < 8 \<Longrightarrow> length ws = 8 \<Longrightarrow> \<exists>r. ip6_loop str i ws = Inr r"
proof (induction str arbitrary: i ws)
  case (Cons c str)
  show ?case
  proof (cases "c = 0 \<or> c = 58 \<and> i + 1 = 8")
    case False
    then have "0 \<in> set str" using Cons.prems(1) by auto
    then show ?thesis using False Cons.IH Cons.prems by (auto simp: rd_in wr_in)
  qed (use Cons.prems in auto)
qed simp

lemma hex_loop_safe: "0 \<in> set str \<Longrightarrow> \<exists>bs. hex_loop n str = Inr bs \<and> length bs = n"
proof (induction n arbitrary: str)
  case (Suc n)
  then obtain c s where s: "str = c # s" by (cases str) auto
  show ?case
  proof (cases "c = 0")
    case False
    then obtain d t where t: "s = d # t" using Suc.prems s by (cases s) auto
    show ?thesis
    proof (cases "d = 0")
      case False
      then have "0 \<in> set t" using \<open>c \<noteq> 0\<close> Suc.prems s t by auto
      then show ?thesis using Suc.IH [of t] \<open>c \<noteq> 0\<close> False s t by (auto simp: peek_def Let_def)
    qed (use s t \<open>c \<noteq> 0\<close> in \<open>simp add: peek_def Let_def\<close>)
  qed (use s in \<open>simp add: peek_def\<close>)
qed simp

lemma set_flag_safe: "0 \<in> set str \<Longrightarrow> \<exists>w. set_flag k v str = Inr w \<and> (w = v \<or> w = v OR of_nat k \<or> w = v AND NOT (of_nat k))"
proof -
  assume z: "0 \<in> set str"
  then obtain c s where s: "str = c # s" by (cases str) auto
  have "\<exists>d. (if c = 111 then peek s else Inr 0) = Inr d" using z s by (cases s) (auto simp: peek_def)
  then obtain d where d: "(if c = 111 then peek s else Inr 0) = Inr d" by blast
  have "set_flag k v str = Inr (if c = 116 \<or> c = 121 \<or> c = 111 \<and> d = 110 then v OR of_nat k
      else if c = 102 \<or> c = 110 \<or> c = 111 \<and> d = 102 then v AND NOT (of_nat k) else v)"
  proof -
    have "peek str = Inr c" "drop 1 str = s" by (simp_all add: s peek_def)
    then show ?thesis unfolding set_flag_def by (simp only: rbind_simps d) simp
  qed
  then show ?thesis by auto
qed

lemma atoi_safe: "0 \<in> set str \<Longrightarrow> \<exists>v. atoi_decimal str 0 = Inr v"
  using atoi_decimal_safe [of str 0 0] unfolding atoi_decimal_def terminated_def in_set_conv_nth by auto

definition unchanged_but :: "clivalue \<Rightarrow> u8 list \<Rightarrow> u8 list \<Rightarrow> bool" where
  "unchanged_but v m m' \<longleftrightarrow> length m' = length m \<and> (\<forall>i < length m. \<forall>b < 8. \<not> var_bit v i b \<longrightarrow> bit (m' ! i) b = bit (m ! i) b)"

lemma unchanged_copy:
  "vtype v \<noteq> VAR_FLAG \<Longrightarrow> length bs = var_size v \<Longrightarrow> var_ok v (length m) \<Longrightarrow> unchanged_but v m (copy_into m (vptr v) bs)"
  by (auto simp: unchanged_but_def copy_into_length copy_into_nth var_bit_def var_ok_def)

lemma unchanged_flag:
  assumes v: "vtype v = VAR_FLAG" "vlen v = 2 ^ k" "k < 32" "vptr v + 4 \<le> length m"
    and w: "\<And>n. n \<noteq> k \<Longrightarrow> bit w n = bit (get32 m (vptr v)) n"
  shows "unchanged_but v m (copy_into m (vptr v) (bytes32 w))"
  unfolding unchanged_but_def
proof (intro conjI allI impI)
  show "length (copy_into m (vptr v) (bytes32 w)) = length m" using v by (intro copy_into_length) simp
next
  fix i b assume i: "i < length m" and b: "b < (8::nat)" and n: "\<not> var_bit v i b"
  show "bit (copy_into m (vptr v) (bytes32 w) ! i) b = bit (m ! i) b"
  proof (cases "vptr v \<le> i \<and> i < vptr v + 4")
    case True
    then obtain j where j: "i = vptr v + j" "j < 4" by (metis le_add_diff_inverse nat_add_left_cancel_less)
    then have "8 * j + b \<noteq> k" using n v by (auto simp: var_bit_def var_size_def)
    then show ?thesis using v i j b w get32_nth [OF j(2) b, of m "vptr v"] by (simp add: copy_into_nth bytes32_nth)
  next
    case False
    then show ?thesis using v i by (auto simp: copy_into_nth)
  qed
qed

lemma ip6_pack_length: "length (ip6_pack ws) = 16"
  by (simp add: ip6_pack_def length_concat comp_def sum_list_triv)

lemma cliSetVar_safe:
  assumes v: "var_ok v (length m)" and z: "0 \<in> set str"
  shows "\<exists>r. cliSetVar v str m = Inr r \<and> unchanged_but v m r"
proof (cases "vtype v")
  case VAR_UINT32
  obtain x where "atoi_decimal str 0 = Inr x" using atoi_safe [OF z] by blast
  then show ?thesis using VAR_UINT32 v by (simp add: cliSetVar_def unchanged_copy var_size_def)
next
  case VAR_UINT16
  obtain x where "atoi_decimal str 0 = Inr x" using atoi_safe [OF z] by blast
  then show ?thesis using VAR_UINT16 v by (simp add: cliSetVar_def unchanged_copy var_size_def)
next
  case VAR_IP4
  obtain a b where "ip4_loop str 0 0 = Inr (a, b)" using ip4_loop_safe [OF z, of 0 0] by auto
  then show ?thesis using VAR_IP4 v by (simp add: cliSetVar_def unchanged_copy var_size_def)
next
  case VAR_IP6
  obtain ws where "ip6_loop str 0 (replicate 8 0) = Inr ws" using ip6_loop_safe [OF z, of 0 "replicate 8 0"] by auto
  then show ?thesis using VAR_IP6 v by (simp add: cliSetVar_def unchanged_copy var_size_def ip6_pack_length)
next
  case VAR_HEX
  obtain bs where "hex_loop (vlen v) str = Inr bs" "length bs = vlen v" using hex_loop_safe [OF z] by blast
  then show ?thesis using VAR_HEX v by (simp add: cliSetVar_def unchanged_copy var_size_def)
next
  case VAR_FLAG
  then obtain k where k: "k < 32" "vlen v = 2 ^ k" "vptr v + 4 \<le> length m" using v by (auto simp: var_ok_def var_size_def)
  let ?g = "get32 m (vptr v)"
  obtain w where w: "set_flag (vlen v) ?g str = Inr w" "w = ?g \<or> w = ?g OR of_nat (vlen v) \<or> w = ?g AND NOT (of_nat (vlen v))"
    using set_flag_safe [OF z] by blast
  have "bit w n = bit ?g n" if "n \<noteq> k" for n
    using w(2) that k by (auto simp: bit_or_iff bit_and_iff bit_not_iff power_of_two_bit possible_bit_word dest: u32_bit_bound)
  then have "unchanged_but v m (copy_into m (vptr v) (bytes32 w))" by (rule unchanged_flag [OF VAR_FLAG k(2,1,3)])
  then show ?thesis using VAR_FLAG w(1) by (simp add: cliSetVar_def)
next
  case VAR_INVALID
  then show ?thesis by (simp add: cliSetVar_def unchanged_but_def)
qed

lemma find_eq_safe:
  "0 \<in> set str \<Longrightarrow> find_eq str i = Inr None \<or> (\<exists>k. find_eq str i = Inr (Some (i + k)) \<and> k < length str \<and> str ! k = 61 \<and> 0 \<in> set (drop (Suc k) str))"
proof (induction str arbitrary: i)
  case (Cons c str)
  show ?case
  proof (cases "c = 0 \<or> c = 61")
    case True
    then show ?thesis using Cons.prems by (auto intro: exI [of _ 0])
  next
    case False
    then have "0 \<in> set str" using Cons.prems by auto
    from Cons.IH [OF this, of "Suc i"] False show ?thesis by (auto intro: exI [of _ "Suc _"])
  qed
qed simp

lemma cut_name_safe:
  "p \<le> i \<Longrightarrow> i < length buf \<Longrightarrow> 0 < p \<Longrightarrow> buf ! (p - 1) \<noteq> 32 \<Longrightarrow>
   \<exists>buf'. cut_name buf i = Inr buf' \<and> length buf' = length buf \<and> drop i buf' = drop i buf \<and> take p buf' = take p buf"
proof (induction i arbitrary: buf)
  case (Suc i)
  show ?case
  proof (cases "buf ! i = 32")
    case True
    then have i: "p \<le> i" using Suc.prems by (metis One_nat_def Suc_pred le_SucE diff_Suc_1)
    let ?b = "buf[i := 0]"
    have "\<exists>buf'. cut_name ?b i = Inr buf' \<and> length buf' = length ?b \<and> drop i buf' = drop i ?b \<and> take p buf' = take p ?b"
      by (rule Suc.IH) (use Suc.prems i in auto)
    then obtain b' where b: "cut_name ?b i = Inr b'" "length b' = length buf" "drop i b' = drop i ?b" "take p b' = take p ?b" by auto
    have "drop (Suc i) b' = drop 1 (drop i b')" by simp
    also have "\<dots> = drop (Suc i) buf" unfolding b(3) by simp
    finally show ?thesis using b True Suc.prems i by (simp add: rd_in)
  next
    case False
    then show ?thesis using Suc.prems by (simp add: rd_in)
  qed
qed simp

lemma skip_blanks_safe: "0 \<in> set str \<Longrightarrow> \<exists>s. skip_blanks str = Inr s \<and> 0 \<in> set s"
  by (induction str) auto

lemma terminated_drop: "terminated buf p \<longleftrightarrow> 0 \<in> set (drop p buf)"
proof
  assume "terminated buf p"
  then obtain k where k: "p \<le> k" "k < length buf" "buf ! k = 0" by (auto simp: terminated_def)
  then have "drop p buf ! (k - p) = 0" "k - p < length (drop p buf)" by auto
  then show "0 \<in> set (drop p buf)" by (metis nth_mem)
next
  assume "0 \<in> set (drop p buf)"
  then obtain j where "j < length (drop p buf)" "drop p buf ! j = 0" by (metis in_set_conv_nth)
  then show "terminated buf p" unfolding terminated_def by (intro exI [of _ "p + j"]) auto
qed

text \<open>A line in a buffer, behind a character that is no blank.\<close>

lemma cli_cmd_set_safe:
  assumes t: "terminated buf p" and p: "0 < p" "buf ! (p - 1) \<noteq> 32" and cfg: "length cfg = 120"
  shows "\<exists>out buf' cfg'. cli_cmd_set buf p cfg = Inr (out, buf', cfg') \<and> length buf' = length buf
    \<and> (cfg' = cfg \<or> (\<exists>v \<in> set value_table. unchanged_but v cfg cfg'))"
proof -
  have pl: "p < length buf" using t by (rule terminated_less)
  have z: "0 \<in> set (drop p buf)" using t by (simp add: terminated_drop)
  note len = c_strlen_eq [OF t]
  let ?n = "length (cstr buf p)"
  show ?thesis
  proof (cases "?n = 0 \<or> ?n = 1 \<and> buf ! p = 42")
    case True
    then show ?thesis using len pl by (auto simp: cli_cmd_set_def rd_in)
  next
    case False
    from find_eq_safe [OF z, of p] show ?thesis
    proof (elim disjE exE conjE)
      assume "find_eq (drop p buf) p = Inr None"
      then show ?thesis using len pl False by (auto simp: cli_cmd_set_def rd_in)
    next
      fix k
      assume e: "find_eq (drop p buf) p = Inr (Some (p + k))" and k: "k < length (drop p buf)" and z2: "0 \<in> set (drop (Suc k) (drop p buf))"
      let ?b = "buf[p + k := 0]"
      have kl: "p + k < length buf" using k by simp
      have "?b ! (p - 1) = buf ! (p - 1)" using p(1) by simp
      then obtain b where b: "cut_name ?b (p + k) = Inr b" "length b = length buf" "drop (p + k) b = drop (p + k) ?b" "take p b = take p ?b"
        using cut_name_safe [of p "p + k" ?b] p kl by auto
      have "drop (p + k + 1) b = drop 1 (drop (p + k) b)" by simp
      also have "\<dots> = drop (p + k + 1) buf" unfolding b(3) by simp
      finally have d: "drop (p + k + 1) b = drop (p + k + 1) buf" .
      then obtain s where s: "skip_blanks (drop (p + k + 1) b) = Inr s" "0 \<in> set s"
        using skip_blanks_safe [of "drop (p + k + 1) b"] z2 by (auto simp: add.commute)
      have "b ! (p + k) = 0"
        using b(2,3) kl by (metis hd_drop_conv_nth length_list_update nth_list_update_eq)
      then have "terminated b p" unfolding terminated_def using b(2) kl by (intro exI [of _ "p + k"]) simp
      then have f: "find_value value_table b p = Inr (find (\<lambda>v. vname v = cstr b p) value_table)"
        by (rule find_value_eq) (use value_table_names in blast)
      show ?thesis
      proof (cases "find (\<lambda>v. vname v = cstr b p) value_table")
        case None
        then show ?thesis using len pl False e b s f kl by (auto simp: cli_cmd_set_def rd_in wr_in)
      next
        case (Some v)
        then have v: "v \<in> set value_table" by (auto simp: find_Some_iff)
        then obtain cfg' where "cliSetVar v s cfg = Inr cfg'" "unchanged_but v cfg cfg'"
          using cliSetVar_safe [of v cfg s] value_table_ok cfg s(2) by auto
        then show ?thesis using len pl False e b s f Some v kl by (auto simp: cli_cmd_set_def rd_in wr_in)
      qed
    qed
  qed
qed


section \<open>Properties\<close>

text \<open>C14. The settings are a round trip: print every setting of one configuration and type each back as
  \<open>name=value\<close> into another one. All lines are accepted, the bits that belong to a setting become those of
  the first configuration, and every other bit of the second one stays as it was.\<close>

theorem settings_roundtrip:
  assumes "length m = 120" "length m' = 120"
  shows "\<exists>r. set_all value_table m m' = Inr r \<and> length r = 120 \<and>
    (\<forall>i < 120. \<forall>b < 8. bit (r ! i) b = bit ((if \<exists>v \<in> set value_table. var_bit v i b then m else m') ! i) b)"
  using set_all_overlaid [OF order_refl assms] assms by (auto simp: overlaid_def)

lemma ip_addr_bits: "\<exists>v \<in> set value_table. var_bit v 2 0"
  by (simp add: value_table_def cli_value_def var_bit_def var_size_def cfg_offsets)

theorem settings_roundtrip_witness:
  "\<exists>r. set_all value_table (replicate 120 0x55) (replicate 120 0xAA) = Inr r \<and> length r = 120 \<and> bit (r ! 2) 0"
proof -
  obtain r where r: "set_all value_table (replicate 120 0x55) (replicate 120 0xAA) = Inr r" "length r = 120"
    "\<forall>i < 120. \<forall>b < 8. bit (r ! i) b = bit ((if \<exists>v \<in> set value_table. var_bit v i b then replicate 120 (0x55 :: u8) else replicate 120 0xAA) ! i) b"
    using settings_roundtrip [of "replicate 120 0x55" "replicate 120 0xAA"] by auto
  have "bit (r ! 2) 0 = bit ((if \<exists>v \<in> set value_table. var_bit v 2 0 then replicate 120 0x55 else replicate 120 0xAA) ! 2 :: u8) 0"
    using r(3) by simp
  then have "bit (r ! 2) 0" by (simp only: ip_addr_bits if_True) simp
  then show ?thesis using r(1,2) by blast
qed

end
