(* ===== verification/Cmdline.thy ===== *)
theory Cmdline
  imports Settings
begin

text \<open>
  The command line: the line editor and dispatcher of \<open>src/lib/cmdline/core.c\<close> and the commands
  of \<open>src/src/cmdline.c\<close>. The theory shows that no input faults but one: a line of 64 characters; that a
  typed \<open>set\<close> command does what it says; and what \<open>save\<close> makes of conflicting flags.
\<close>

section \<open>State\<close>

text \<open>
  \<open>terminal\<close> is what has been written to the terminal, \<open>tok_last\<close> the static variable of \<open>strtok_s\<close>,
  \<open>was_reset\<close> that \<open>NVIC_SystemReset\<close> was called, \<open>cl_out\<close> names the serial port.
\<close>

record shell =
  cl_enabled :: bool
  cl_buf :: "u8 list"
  cl_count :: nat
  tok_last :: "nat option"
  cli_cfg :: "u8 list"
  cli_snum :: "u8 list"
  terminal :: "u8 list"
  was_reset :: bool
  cl_out :: nat

text \<open>
  What the commands read from the rest of the firmware. \<open>i_ip6\<close> has, for each IPv6 address,
  whether it is valid, its bytes and whether it is link-local; \<open>i_write\<close> is the result of \<open>eeprom_write_cfg\<close> and the
  configuration it leaves, \<open>i_page\<close> that of \<open>eeprom_write_page\<close> for the first page.
\<close>

record sysinfo =
  i_hwver :: u16
  i_bootver :: "u8 list option"
  i_version :: "u8 list"
  i_sysfreq :: u32
  i_hwaddr :: "u8 list"
  i_link :: "u8 list"
  i_ip :: u32
  i_mask :: u32
  i_gw :: u32
  i_ip6 :: "(bool \<times> u8 list \<times> bool) list"
  i_millis :: u64
  i_write :: "u8 list \<Rightarrow> int \<times> u8 list"
  i_page :: "u8 list \<Rightarrow> int"

definition cli_set_output :: "nat \<Rightarrow> shell \<Rightarrow> shell" where
  "cli_set_output port s = s\<lparr>cl_out := port\<rparr>"

definition cli_puts :: "u8 list \<Rightarrow> shell \<Rightarrow> shell" where
  "cli_puts t s = s\<lparr>terminal := terminal s @ t\<rparr>"

definition crlf :: "u8 list" where "crlf = [13, 10]"

section \<open>Information\<close>

definition cliVersion :: "sysinfo \<Rightarrow> shell \<Rightarrow> shell" where
  "cliVersion e s =
     (let s = cli_puts (cli_printf (ascii ''Hardware:       '' @ fmt_u (unat (drop_bit 8 (i_hwver e))) @ 46 # fmt_u (unat (i_hwver e AND 0xFF)) @ crlf)) s;
          s = cli_puts (ascii ''Software:       '' @ i_version e @ crlf) s;
          bootver = (case i_bootver e of None \<Rightarrow> ascii ''no bootloader'' | Some v \<Rightarrow> v) in
      cli_puts (cli_printf (ascii ''Bootloader:     '' @ bootver @ crlf)) s)"

fun serial_digits :: "nat \<Rightarrow> u64 \<Rightarrow> u8 list \<Rightarrow> u8 list" where
  "serial_digits 0 serial out = out"
| "serial_digits (Suc i) serial out =
     (let out = (48 + ucast (serial mod 10)) # out; serial = serial div 10 in
      if serial = 0 then out else serial_digits i serial out)"

definition serial_text :: "u8 list \<Rightarrow> u8 list" where
  "serial_text sn =
     (let serial = foldl (\<lambda>acc b. push_bit 8 acc OR ucast b) (0 :: u64) sn in
      if \<forall>b \<in> set sn. b = 0xFF then ascii ''not set!'' else serial_digits 15 serial [])"

definition cli_print_serial :: "shell \<Rightarrow> shell" where
  "cli_print_serial s = cli_puts (cli_printf (ascii ''Serial number:  '' @ serial_text (take 6 (drop 2 (cli_snum s))) @ crlf)) s"

definition cli_print_hwaddr :: "sysinfo \<Rightarrow> shell \<Rightarrow> shell" where
  "cli_print_hwaddr e s =
     (let h = (\<lambda>i. fmt_02x (i_hwaddr e ! i)) in
      cli_puts (cli_printf (ascii ''MAC Address:    '' @ h 0 @ 58 # h 1 @ 58 # h 2 @ 58 # h 3 @ 58 # h 4 @ 58 # h 5 @ crlf)) s)"

definition print_ipaddr :: "u32 \<Rightarrow> shell \<Rightarrow> shell" where
  "print_ipaddr addr s = cli_puts (cli_printf (fmt_ip4 addr)) s"

definition print_ip6addr :: "u8 list \<Rightarrow> bool \<Rightarrow> shell \<Rightarrow> shell" where
  "print_ip6addr a ll s = cli_puts (cli_printf (fmt_ip6 a @ (if ll then ascii '' (link-local)'' else []))) s"

definition cli_print_netif :: "sysinfo \<Rightarrow> shell \<Rightarrow> shell" where
  "cli_print_netif e s =
     (let s = cli_puts (ascii ''IP:             '') s;
          s = print_ipaddr (i_ip e) s;
          s = cli_puts (crlf @ ascii ''Netmask:        '') s;
          s = print_ipaddr (i_mask e) s;
          s = cli_puts (crlf @ ascii ''Gateway:        '') s;
          s = print_ipaddr (i_gw e) s;
          s = fold (\<lambda>(ok, a, ll) s. if ok then print_ip6addr a ll (cli_puts (crlf @ ascii ''IPv6:           '') s) else s) (i_ip6 e) s in
      cli_puts crlf s)"

definition cli_print_link :: "sysinfo \<Rightarrow> shell \<Rightarrow> shell" where
  "cli_print_link e s = cli_puts (cli_printf (ascii ''Link status:    '' @ i_link e @ crlf)) s"

definition cliUptime :: "sysinfo \<Rightarrow> shell \<Rightarrow> shell res" where
  "cliUptime e s =
     (let s = cli_puts (ascii ''Uptime:         '') s in
      rbind (uptime_format (i_millis e)) (\<lambda>t. Inr (cli_puts crlf (cli_puts t s))))"

definition cliInfo :: "sysinfo \<Rightarrow> shell \<Rightarrow> shell res" where
  "cliInfo e s =
     (let s = cliVersion e s; s = cli_print_serial s; s = cli_print_hwaddr e s; s = cli_print_link e s; s = cli_print_netif e s in
      rbind (cliUptime e s) (\<lambda>s.
      Inr (cli_puts (cli_printf (ascii ''System clock:   '' @ fmt_d (sint (i_sysfreq e)) @ ascii '' Hz (nominal)'' @ crlf)) s)))"

section \<open>Saving\<close>

definition show_eeprom_error :: "int \<Rightarrow> shell \<Rightarrow> shell" where
  "show_eeprom_error result s =
     cli_puts ((if result = EERR_TIMEOUT then ascii ''ERROR: timeout while writing EEPROM''
        else if result = EERR_NACK then ascii ''ERROR: EEPROM is faulty or missing''
        else if result = EERR_FAULT then ascii ''ERROR: EEPROM is faulty''
        else ascii ''FAIL: unable to write EEPROM'') @ crlf) s"

definition CFG_VERSION :: u16 where "CFG_VERSION = 2"

definition has_pps :: "u16 \<Rightarrow> bool" where "has_pps hwver \<longleftrightarrow> 0x0700 \<le> hwver \<and> hwver \<le> 0x07FF"

definition shell_flags :: "shell \<Rightarrow> u32" where "shell_flags s = get32 (cli_cfg s) CFG_flags"

definition set_cfg_flags :: "u32 \<Rightarrow> shell \<Rightarrow> shell" where
  "set_cfg_flags v s = s\<lparr>cli_cfg := copy_into (cli_cfg s) CFG_flags (bytes32 v)\<rparr>"

text \<open>The checks that come before the configuration is written.\<close>

definition check_flags :: "u16 \<Rightarrow> shell \<Rightarrow> shell" where
  "check_flags hwver s =
     (let s = (if \<not> has_pps hwver \<and> shell_flags s AND FLAG_PPSEN \<noteq> 0
               then let s = cli_puts (ascii ''WARNING: PPS output not available on this hardware'' @ crlf) s in
                    set_cfg_flags (shell_flags s AND NOT FLAG_PPSEN) s
               else s);
          s = (if shell_flags s AND (FLAG_GPSEXT OR FLAG_GPSOUT) = FLAG_GPSEXT OR FLAG_GPSOUT
               then let s = cli_puts (ascii ''WARNING: gps_ext_in and gps_ext_out are mutually exclusive.'' @ crlf) s in
                    set_cfg_flags (shell_flags s AND NOT FLAG_GPSOUT) s
               else s);
          result = 0;
          result = (if shell_flags s AND FLAG_NTPKEY_MD5 \<noteq> 0 then result + 1 else result);
          result = (if shell_flags s AND FLAG_NTPKEY_SHA1 \<noteq> 0 then result + 1 else result) in
      if result > (1::int)
      then let s = cli_puts (ascii ''WARNING: More than one ntpkey type specified'' @ crlf) s in
           set_cfg_flags (shell_flags s AND NOT (FLAG_NTPKEY_MD5 OR FLAG_NTPKEY_SHA1)) s
      else s)"

definition cliWriteConfig :: "sysinfo \<Rightarrow> shell \<Rightarrow> shell" where
  "cliWriteConfig e s =
     (let s = check_flags (i_hwver e) s;
          s = cli_puts (ascii ''Writing EEPROM...'' @ crlf) s;
          (result, cfg) = i_write e (cli_cfg s);
          s = s\<lparr>cli_cfg := cfg\<rparr> in
      if result = EERR_OK
      then (cli_puts (ascii ''OK'' @ crlf) s)\<lparr>was_reset := True\<rparr>
      else show_eeprom_error result s)"

definition cliDefaults :: "sysinfo \<Rightarrow> shell \<Rightarrow> shell" where
  "cliDefaults e s =
     (let s = s\<lparr>cli_cfg := replicate 120 0\<rparr>;
          s = s\<lparr>cli_cfg := copy_into (cli_cfg s) CFG_version (bytes16 CFG_VERSION)\<rparr> in
      cliWriteConfig e s)"

definition cliSave :: "sysinfo \<Rightarrow> shell \<Rightarrow> shell" where "cliSave e s = cliWriteConfig e s"

definition snum_value :: clivalue where
  "snum_value = \<lparr>vname = [], vtype = VAR_HEX, vptr = 0, vlen = 8\<rparr>"

definition cli_cmd_fsnum :: "sysinfo \<Rightarrow> u8 list \<Rightarrow> shell \<Rightarrow> shell res" where
  "cli_cmd_fsnum e str s =
     rbind (cliSetVar snum_value str (cli_snum s)) (\<lambda>snum.
     let s = s\<lparr>cli_snum := snum\<rparr>; status = i_page e snum in
     if status = EERR_OK then cliInfo e s else Inr (show_eeprom_error status s))"

section \<open>The dispatcher\<close>

datatype command = Defaults | Exit | Fsnum | Help | Info | Save | Set_cmd | Uptime | Version

definition cmd_table :: "(u8 list \<times> u8 list option \<times> command) list" where
  "cmd_table =
     [(ascii ''defaults'', Some (ascii ''reset to factory defaults and reboot''), Defaults),
      (ascii ''exit'', Some (ascii ''leave command mode''), Exit),
      (ascii ''fsnum'', None, Fsnum),
      (ascii ''help'', Some [], Help),
      (ascii ''info'', Some (ascii ''show runtime information''), Info),
      (ascii ''save'', Some (ascii ''save changes and reboot''), Save),
      (ascii ''set'', Some (ascii ''name=value or blank or * for list''), Set_cmd),
      (ascii ''uptime'', Some (ascii ''show the system uptime''), Uptime),
      (ascii ''version'', Some (ascii ''show version''), Version)]"

definition cli_cmd_help :: "shell \<Rightarrow> shell" where
  "cli_cmd_help s =
     fold (\<lambda>(name, param, _) s. case param of None \<Rightarrow> s
             | Some p \<Rightarrow> cli_puts (cli_printf (name @ 9 # p @ crlf)) s)
       cmd_table (cli_puts (ascii ''Available commands:'' @ crlf) s)"

definition cli_cmd_exit :: "shell \<Rightarrow> shell" where
  "cli_cmd_exit s =
     cli_puts (ascii ''Exiting cmdline mode.'' @ crlf @ ascii ''Configuration changes have not been saved.'' @ crlf
       @ ascii ''Press Enter to enable cmdline.'' @ crlf) (s\<lparr>cl_enabled := False\<rparr>)"

text \<open>\<open>arg\<close> is where the rest of the line is in \<open>cl_buf\<close>; without a rest it is the empty string.\<close>

definition run_command :: "sysinfo \<Rightarrow> command \<Rightarrow> nat option \<Rightarrow> shell \<Rightarrow> shell res" where
  "run_command e c arg s =
     (let str = (case arg of None \<Rightarrow> [0] | Some p \<Rightarrow> drop p (cl_buf s)) in
      case c of
        Defaults \<Rightarrow> Inr (cliDefaults e s)
      | Exit \<Rightarrow> Inr (cli_cmd_exit s)
      | Fsnum \<Rightarrow> cli_cmd_fsnum e str s
      | Help \<Rightarrow> Inr (cli_cmd_help s)
      | Info \<Rightarrow> cliInfo e s
      | Save \<Rightarrow> Inr (cliSave e s)
      | Set_cmd \<Rightarrow>
          rbind (case arg of None \<Rightarrow> cli_cmd_set [0] 0 (cli_cfg s) | Some p \<Rightarrow> cli_cmd_set (cl_buf s) p (cli_cfg s)) (\<lambda>(out, buf, cfg).
          Inr (cli_puts out (s\<lparr>cl_buf := (if arg = None then cl_buf s else buf), cli_cfg := cfg\<rparr>)))
      | Uptime \<Rightarrow> cliUptime e s
      | Version \<Rightarrow> Inr (cliVersion e s))"

definition to_lower :: "u8 \<Rightarrow> u8" where
  "to_lower c = (if 65 \<le> c \<and> c \<le> 90 then c + 32 else c)"

text \<open>\<open>strcasecmp (p, lit) == 0\<close>.\<close>

fun c_strcaseeq :: "u8 list \<Rightarrow> nat \<Rightarrow> u8 list \<Rightarrow> bool res" where
  "c_strcaseeq buf i [] = rbind (rd ''str'' buf i) (\<lambda>c. Inr (c = 0))"
| "c_strcaseeq buf i (x # xs) =
     rbind (rd ''str'' buf i) (\<lambda>c. if c \<noteq> 0 \<and> to_lower c = to_lower x then c_strcaseeq buf (i + 1) xs else Inr False)"

fun find_command :: "(u8 list \<times> u8 list option \<times> command) list \<Rightarrow> u8 list \<Rightarrow> nat \<Rightarrow> command option res" where
  "find_command [] buf p = Inr None"
| "find_command ((name, _, c) # rest) buf p =
     rbind (c_strcaseeq buf p name) (\<lambda>same. if same then Inr (Some c) else find_command rest buf p)"

definition cli_prompt :: "shell \<Rightarrow> shell" where
  "cli_prompt s = cli_puts (crlf @ ascii ''# '') (s\<lparr>cl_count := 0, cl_enabled := True\<rparr>)"

text \<open>Enter, with something typed.\<close>

definition cli_line :: "sysinfo \<Rightarrow> shell \<Rightarrow> shell res" where
  "cli_line e s =
     (let s = cli_puts crlf s in
      rbind (wr ''cl_buf'' (cl_buf s) (cl_count s) 0) (\<lambda>buf.
      rbind (strtok_s (Some 0) 32 buf (tok_last s)) (\<lambda>(cmd, buf, lp).
      let s = s\<lparr>cl_buf := buf, tok_last := lp\<rparr> in
      rbind (find_command cmd_table buf (the cmd)) (\<lambda>c.
      rbind (case c of
               Some c \<Rightarrow> rbind (strtok_s None 0 buf lp) (\<lambda>(arg, buf, lp). run_command e c arg (s\<lparr>cl_buf := buf, tok_last := lp\<rparr>))
             | None \<Rightarrow> Inr (cli_puts (ascii ''ERR: Unknown command, try '' @ 39 # ascii ''help'' @ 39 # crlf) s)) (\<lambda>s.
      Inr (s\<lparr>cl_buf := replicate 64 0\<rparr>))))))"

definition cli_feed :: "sysinfo \<Rightarrow> u8 \<Rightarrow> shell \<Rightarrow> shell res" where
  "cli_feed e c s =
     (if \<not> cl_enabled s \<and> c \<noteq> 13 \<and> c \<noteq> 10 then Inr s
      else
      let s = s\<lparr>cl_enabled := True\<rparr> in
      if c = 9 \<or> c = 63 then Inr s
      else if cl_count s = 0 \<and> c = 4 then Inr (cli_cmd_exit s)
      else if c = 12 then Inr (cli_prompt (cli_puts (27 # ascii ''[2J'' @ 27 # ascii ''[1;1H'') s))
      else if c = 10 \<or> c = 13
      then if cl_count s = 0 \<and> c = 10 \<and> cl_buf s ! 0 = 13 then Inr s
           else rbind (if cl_count s \<noteq> 0 then cli_line e s else Inr s) (\<lambda>s.
                let s = (if cl_enabled s then cli_prompt s else s) in
                Inr (s\<lparr>cl_buf := (cl_buf s)[0 := c]\<rparr>))
      else if c = 8 \<or> c = 127
      then if cl_count s \<noteq> 0
           then let s = s\<lparr>cl_count := cl_count s - 1\<rparr> in
                Inr (cli_puts [8, 32, 8] (s\<lparr>cl_buf := (cl_buf s)[cl_count s := 0]\<rparr>))
           else Inr s
      else if cl_count s < 64 \<and> 32 \<le> c \<and> c \<le> 126
      then if cl_count s = 0 \<and> c = 32 then Inr s
           else Inr (cli_puts [c] (s\<lparr>cl_buf := (cl_buf s)[cl_count s := c], cl_count := cl_count s + 1\<rparr>))
      else Inr s)"

fun cli_run :: "sysinfo \<Rightarrow> u8 list \<Rightarrow> shell \<Rightarrow> shell res" where
  "cli_run e [] s = Inr s"
| "cli_run e (c # cs) s = rbind (cli_feed e c s) (cli_run e cs)"

definition cli_banner :: "u8 list \<Rightarrow> sysinfo \<Rightarrow> shell \<Rightarrow> shell" where
  "cli_banner board e s =
     (let s = cli_puts (crlf @ crlf @ board @ crlf) s;
          s = cliVersion e s; s = cli_print_serial s; s = cli_print_hwaddr e s in
      cli_puts (crlf @ ascii ''Press Enter to enable command-line'' @ crlf) s)"

section \<open>Safety\<close>

definition shell_ok :: "shell \<Rightarrow> bool" where
  "shell_ok s \<longleftrightarrow> length (cl_buf s) = 64 \<and> cl_count s \<le> 64 \<and> length (cli_cfg s) = 120 \<and> length (cli_snum s) = 8"

definition env_ok :: "sysinfo \<Rightarrow> bool" where
  "env_ok e \<longleftrightarrow> length (i_hwaddr e) = 6 \<and> (\<forall>cfg. length cfg = 120 \<longrightarrow> length (snd (i_write e cfg)) = 120)"

text \<open>The commands that only write to the terminal.\<close>

definition same_data :: "shell \<Rightarrow> shell \<Rightarrow> bool" where
  "same_data s s' \<longleftrightarrow> cl_enabled s' = cl_enabled s \<and> cl_buf s' = cl_buf s \<and> cl_count s' = cl_count s \<and> tok_last s' = tok_last s
     \<and> cli_cfg s' = cli_cfg s \<and> cli_snum s' = cli_snum s \<and> was_reset s' = was_reset s"

lemma same_data_refl [simp]: "same_data s s"
  and same_data_puts [simp]: "same_data s (cli_puts t s') \<longleftrightarrow> same_data s s'"
  by (simp_all add: same_data_def cli_puts_def)

lemma same_data_infos [simp]:
  "same_data s (cliVersion e s') \<longleftrightarrow> same_data s s'"
  "same_data s (cli_print_serial s') \<longleftrightarrow> same_data s s'"
  "same_data s (cli_print_hwaddr e s') \<longleftrightarrow> same_data s s'"
  "same_data s (print_ipaddr a s') \<longleftrightarrow> same_data s s'"
  "same_data s (print_ip6addr a6 ll s') \<longleftrightarrow> same_data s s'"
  "same_data s (cli_print_link e s') \<longleftrightarrow> same_data s s'"
  "same_data s (show_eeprom_error r s') \<longleftrightarrow> same_data s s'"
  by (simp_all add: cliVersion_def cli_print_serial_def cli_print_hwaddr_def print_ipaddr_def print_ip6addr_def
      cli_print_link_def show_eeprom_error_def Let_def split: option.splits)

lemma fold_puts: "(\<And>x t. x \<in> set xs \<Longrightarrow> same_data s (f x t) \<longleftrightarrow> same_data s t) \<Longrightarrow> same_data s (fold f xs s') \<longleftrightarrow> same_data s s'"
  by (induction xs arbitrary: s') auto

lemma same_data_netif [simp]: "same_data s (cli_print_netif e s') \<longleftrightarrow> same_data s s'"
proof -
  have f: "same_data s (fold (\<lambda>(ok, a, ll) s. if ok then print_ip6addr a ll (cli_puts (crlf @ ascii ''IPv6:           '') s) else s) xs t)
      \<longleftrightarrow> same_data s t" for xs t
    by (rule fold_puts) (auto split: prod.splits)
  show ?thesis by (simp add: cli_print_netif_def Let_def f del: fold_simps)
qed

lemma same_data_help [simp]: "same_data s (cli_cmd_help s') \<longleftrightarrow> same_data s s'"
proof -
  have f: "same_data s (fold (\<lambda>(name, param, _) s. case param of None \<Rightarrow> s | Some p \<Rightarrow> cli_puts (cli_printf (name @ 9 # p @ crlf)) s) xs t)
      \<longleftrightarrow> same_data s t" for xs :: "(u8 list \<times> u8 list option \<times> command) list" and t
    by (rule fold_puts) (auto split: prod.splits option.splits)
  show ?thesis unfolding cli_cmd_help_def f by simp
qed

lemma cliUptime_safe: "\<exists>s'. cliUptime e s = Inr s' \<and> same_data s s'"
  using uptime_format_correct [OF refl, of "i_millis e"] by (auto simp: cliUptime_def Let_def)

lemma cliInfo_safe: "\<exists>s'. cliInfo e s = Inr s' \<and> same_data s s'"
proof -
  let ?s = "cli_print_netif e (cli_print_link e (cli_print_hwaddr e (cli_print_serial (cliVersion e s))))"
  obtain s' where "cliUptime e ?s = Inr s'" "same_data ?s s'" using cliUptime_safe by blast
  moreover have "same_data s ?s" by simp
  ultimately show ?thesis by (auto simp: cliInfo_def Let_def same_data_def cli_puts_def)
qed

lemma same_data_ok: "same_data s s' \<Longrightarrow> shell_ok s' \<longleftrightarrow> shell_ok s"
  by (simp add: same_data_def shell_ok_def)

lemma shell_ok_puts [simp]: "shell_ok (cli_puts t s) \<longleftrightarrow> shell_ok s"
  by (simp add: shell_ok_def cli_puts_def)

lemma shell_ok_error [simp]: "shell_ok (show_eeprom_error r s) \<longleftrightarrow> shell_ok s"
  by (simp add: show_eeprom_error_def)

lemma set_cfg_flags_ok [simp]: "shell_ok s \<Longrightarrow> shell_ok (set_cfg_flags v s)"
  by (simp add: set_cfg_flags_def shell_ok_def copy_into_length CFG_flags_def)

lemma check_flags_ok: "shell_ok s \<Longrightarrow> shell_ok (check_flags hw s)"
  by (simp add: check_flags_def Let_def)

lemma cliWriteConfig_ok: "env_ok e \<Longrightarrow> shell_ok s \<Longrightarrow> shell_ok (cliWriteConfig e s)"
proof -
  assume e: "env_ok e" and s: "shell_ok s"
  let ?s = "cli_puts (ascii ''Writing EEPROM...'' @ crlf) (check_flags (i_hwver e) s)"
  obtain r c where w: "i_write e (cli_cfg ?s) = (r, c)" by (cases "i_write e (cli_cfg ?s)")
  have k: "shell_ok ?s" using s by (simp add: check_flags_ok)
  then have "length c = 120" using e w by (auto simp: env_ok_def shell_ok_def dest!: spec [of _ "cli_cfg ?s"])
  then have "shell_ok (?s\<lparr>cli_cfg := c\<rparr>)" using k by (simp add: shell_ok_def)
  moreover have "shell_ok (t\<lparr>was_reset := b\<rparr>) \<longleftrightarrow> shell_ok t" for t b by (simp add: shell_ok_def)
  ultimately show ?thesis using w by (simp add: cliWriteConfig_def Let_def)
qed

lemma cliDefaults_ok: "env_ok e \<Longrightarrow> shell_ok s \<Longrightarrow> shell_ok (cliDefaults e s)"
  unfolding cliDefaults_def Let_def
  by (rule cliWriteConfig_ok) (simp_all add: shell_ok_def copy_into_length CFG_version_def)

lemma cli_cmd_fsnum_safe:
  assumes "shell_ok s" "0 \<in> set str"
  shows "\<exists>s'. cli_cmd_fsnum e str s = Inr s' \<and> shell_ok s'"
proof -
  have "var_ok snum_value (length (cli_snum s))" using assms by (simp add: var_ok_def snum_value_def var_size_def shell_ok_def)
  then obtain m where m: "cliSetVar snum_value str (cli_snum s) = Inr m" "length m = 8"
    using cliSetVar_safe [of snum_value "cli_snum s" str] assms by (auto simp: unchanged_but_def shell_ok_def)
  let ?s = "s\<lparr>cli_snum := m\<rparr>"
  have k: "shell_ok ?s" using assms(1) m by (simp add: shell_ok_def)
  obtain s' where "cliInfo e ?s = Inr s'" "same_data ?s s'" using cliInfo_safe by blast
  then show ?thesis using m k same_data_ok by (auto simp: cli_cmd_fsnum_def Let_def)
qed

text \<open>An argument of a command is a string in the buffer, behind a terminator.\<close>

definition arg_ok :: "u8 list \<Rightarrow> nat option \<Rightarrow> bool" where
  "arg_ok buf arg \<longleftrightarrow> (\<forall>p. arg = Some p \<longrightarrow> terminated buf p \<and> 0 < p \<and> buf ! (p - 1) = 0)"

lemma run_command_safe:
  assumes e: "env_ok e" and s: "shell_ok s" and a: "arg_ok (cl_buf s) arg"
  shows "\<exists>s'. run_command e c arg s = Inr s' \<and> shell_ok s'"
proof -
  have z: "0 \<in> set (case arg of None \<Rightarrow> [0] | Some p \<Rightarrow> drop p (cl_buf s))"
    using a by (auto simp: arg_ok_def terminated_drop split: option.splits)
  show ?thesis
  proof (cases c)
    case Defaults
    then show ?thesis using cliDefaults_ok [OF e s] by (simp add: run_command_def)
  next
    case Exit
    then show ?thesis using s by (simp add: run_command_def cli_cmd_exit_def) (simp add: shell_ok_def)
  next
    case Fsnum
    then show ?thesis using cli_cmd_fsnum_safe [OF s z] by (simp add: run_command_def)
  next
    case Help
    then show ?thesis using s same_data_ok [of s "cli_cmd_help s"] by (simp add: run_command_def)
  next
    case Info
    then show ?thesis using cliInfo_safe [of e s] s same_data_ok by (auto simp: run_command_def)
  next
    case Save
    then show ?thesis using cliWriteConfig_ok [OF e s] by (simp add: run_command_def cliSave_def)
  next
    case Uptime
    then show ?thesis using cliUptime_safe [of e s] s same_data_ok by (auto simp: run_command_def)
  next
    case Version
    then show ?thesis using s same_data_ok [of s "cliVersion e s"] by (simp add: run_command_def)
  next
    case Set_cmd
    show ?thesis
    proof (cases arg)
      case None
      have "c_strlen [0] 0 = Inr 0" by (simp add: c_strlen.simps)
      then have "\<exists>out. cli_cmd_set [0] 0 (cli_cfg s) = Inr (out, [0], cli_cfg s)" by (simp add: cli_cmd_set_def)
      then obtain out where "cli_cmd_set [0] 0 (cli_cfg s) = Inr (out, [0], cli_cfg s)" by blast
      then show ?thesis using None Set_cmd s by (simp add: run_command_def)
    next
      case (Some p)
      then have "terminated (cl_buf s) p" "0 < p" "cl_buf s ! (p - 1) \<noteq> 32" using a by (simp_all add: arg_ok_def)
      from cli_cmd_set_safe [OF this, of "cli_cfg s"] s
      obtain out b cfg where "cli_cmd_set (cl_buf s) p (cli_cfg s) = Inr (out, b, cfg)" "length b = 64" "length cfg = 120"
        by (auto simp: shell_ok_def unchanged_but_def)
      then show ?thesis using Some Set_cmd s by (auto simp: run_command_def) (simp add: shell_ok_def)
    qed
  qed
qed

lemma c_strcaseeq_safe: "terminated buf i \<Longrightarrow> \<exists>b. c_strcaseeq buf i lit = Inr b"
proof (induction lit arbitrary: i)
  case (Cons x xs)
  then show ?case using terminated_less [of buf i] terminated_step [of buf i] by (auto simp: rd_in)
qed (auto simp: rd_in dest: terminated_less)

lemma find_command_safe: "terminated buf p \<Longrightarrow> \<exists>c. find_command t buf p = Inr c"
proof (induction t)
  case (Cons x t)
  obtain name param c where x: "x = (name, param, c)" by (cases x)
  obtain b where "c_strcaseeq buf p name = Inr b" using c_strcaseeq_safe [OF Cons.prems] by blast
  then show ?case using Cons by (simp add: x)
qed simp

text \<open>How \<open>strtok_s\<close> splits the line: the command, and the rest or nothing.\<close>

lemma split_line:
  assumes t: "terminated buf 0"
  shows "\<exists>buf' lp. strtok_s (Some 0) 32 buf lp0 = Inr (Some 0, buf', lp) \<and> length buf' = length buf \<and> terminated buf' 0
    \<and> (\<exists>arg. strtok_s None 0 buf' lp = Inr (arg, buf', None) \<and> arg_ok buf' arg)"
proof -
  let ?k = "length (token 32 buf 0)"
  from strtok_scan_eq [OF t, of 32 0]
  have k: "?k < length buf" "buf ! ?k = 0 \<and> strtok_scan 32 0 buf 0 = Inr (Some 0, buf, None)
     \<or> buf ! ?k = 32 \<and> terminated buf (?k + 1) \<and> strtok_scan 32 0 buf 0 = Inr (Some 0, buf[?k := 0], Some (?k + 1))"
    by (auto simp: Let_def)
  from k(2) show ?thesis
  proof (elim disjE conjE)
    assume "strtok_scan 32 0 buf 0 = Inr (Some 0, buf, None)"
    then show ?thesis using t by (simp add: strtok_s_def arg_ok_def)
  next
    assume t2: "terminated buf (?k + 1)" and e: "strtok_scan 32 0 buf 0 = Inr (Some 0, buf[?k := 0], Some (?k + 1))"
    let ?b = "buf[?k := 0]"
    have t3: "terminated ?b (?k + 1)" by (rule terminated_update [OF t2])
    have "strtok_scan 0 (?k + 1) ?b (?k + 1) = Inr (Some (?k + 1), ?b, None)"
      using strtok_scan_eq [OF t3, of 0 "?k + 1"] by (auto simp: Let_def)
    moreover have "arg_ok ?b (Some (?k + 1))" using t3 k(1) by (simp add: arg_ok_def)
    moreover have "terminated ?b 0" using terminated_update [OF t] by blast
    ultimately show ?thesis using e by (simp add: strtok_s_def)
  qed
qed

lemma cli_line_safe:
  assumes e: "env_ok e" and s: "shell_ok s" and c: "cl_count s < 64"
  shows "\<exists>s'. cli_line e s = Inr s' \<and> shell_ok s'"
proof -
  let ?s = "cli_puts crlf s" and ?b = "(cl_buf s)[cl_count s := 0]"
  have l: "length (cl_buf s) = 64" using s by (simp add: shell_ok_def)
  have t: "terminated ?b 0" unfolding terminated_def by (rule exI [of _ "cl_count s"]) (use c l in simp)
  obtain b lp arg where b: "strtok_s (Some 0) 32 ?b (tok_last s) = Inr (Some 0, b, lp)" "length b = length ?b" "terminated b 0"
    "strtok_s None 0 b lp = Inr (arg, b, None)" "arg_ok b arg"
    using split_line [OF t, of "tok_last s"] by blast
  obtain cm where cm: "find_command cmd_table b 0 = Inr cm" using find_command_safe [OF b(3)] by blast
  let ?s2 = "?s\<lparr>cl_buf := b, tok_last := lp\<rparr>"
  have p: "cl_buf ?s = cl_buf s" "cl_count ?s = cl_count s" "tok_last ?s = tok_last s" by (simp_all add: cli_puts_def)
  have ok2: "shell_ok (?s\<lparr>cl_buf := b, tok_last := x\<rparr>)" for x using s l b(2) by (simp add: shell_ok_def cli_puts_def)
  have z: "shell_ok (t\<lparr>cl_buf := replicate 64 0\<rparr>)" if "shell_ok t" for t using that by (simp add: shell_ok_def)
  have line: "cli_line e s = rbind (case cm of
        Some c \<Rightarrow> run_command e c arg (?s2\<lparr>cl_buf := b, tok_last := None\<rparr>)
      | None \<Rightarrow> Inr (cli_puts (ascii ''ERR: Unknown command, try '' @ 39 # ascii ''help'' @ 39 # crlf) ?s2)) (\<lambda>s. Inr (s\<lparr>cl_buf := replicate 64 0\<rparr>))"
    using b cm l c by (simp add: cli_line_def Let_def p wr_in cong: option.case_cong)
  show ?thesis
  proof (cases cm)
    case None
    then show ?thesis unfolding line using ok2 z by simp
  next
    case (Some c)
    have "shell_ok (?s2\<lparr>cl_buf := b, tok_last := None\<rparr>)" "arg_ok (cl_buf (?s2\<lparr>cl_buf := b, tok_last := None\<rparr>)) arg"
      using ok2 [of None] b(5) by simp_all
    from run_command_safe [OF e this, of c] Some z show ?thesis unfolding line by auto
  qed
qed

lemma cli_line_full: "shell_ok s \<Longrightarrow> cl_count s = 64 \<Longrightarrow> cli_line e s = Inl (Oob ''cl_buf'')"
  by (simp add: cli_line_def Let_def wr_out cli_puts_def shell_ok_def)

definition enter_full :: "u8 \<Rightarrow> shell \<Rightarrow> bool" where
  "enter_full c s \<longleftrightarrow> cl_count s = 64 \<and> (c = 10 \<or> c = 13)"

lemma cli_feed_safe:
  assumes e: "env_ok e" and s: "shell_ok s"
  shows "if enter_full c s then cli_feed e c s = Inl (Oob ''cl_buf'') else (\<exists>s'. cli_feed e c s = Inr s' \<and> shell_ok s')"
proof -
  let ?s = "s\<lparr>cl_enabled := True\<rparr>"
  have o: "shell_ok ?s" using s by (simp add: shell_ok_def)
  have upd: "shell_ok (t\<lparr>cl_buf := (cl_buf t)[i := x]\<rparr>)" "shell_ok (cli_prompt t)" if "shell_ok t" for t i x
    using that by (simp_all add: shell_ok_def cli_prompt_def cli_puts_def)
  consider (off) "\<not> cl_enabled s" "c \<noteq> 13" "c \<noteq> 10" | (enter) "c = 10 \<or> c = 13" | (key) "cl_enabled s" "c \<noteq> 13" "c \<noteq> 10" by blast
  then show ?thesis
  proof cases
    case off
    then show ?thesis using s by (simp add: cli_feed_def enter_full_def)
  next
    case enter
    show ?thesis
    proof (cases "cl_count s = 64")
      case True
      then show ?thesis using enter cli_line_full [OF o, of e] by (auto simp: cli_feed_def enter_full_def)
    next
      case False
      then have l: "cl_count ?s < 64" using s by (simp add: shell_ok_def)
      show ?thesis
      proof (cases "cl_count s = 0")
        case True
        have "shell_ok (let s = (if cl_enabled ?s then cli_prompt ?s else ?s) in s\<lparr>cl_buf := (cl_buf s)[0 := c]\<rparr>)"
          using upd o by (simp add: Let_def)
        then show ?thesis using True enter o by (auto simp: cli_feed_def enter_full_def Let_def)
      next
        case n: False
        obtain t where "cli_line e ?s = Inr t" "shell_ok t" using cli_line_safe [OF e o l] by blast
        then show ?thesis using n enter False upd by (auto simp: cli_feed_def enter_full_def Let_def)
      qed
    qed
  next
    case key
    have f: "shell_ok (cli_cmd_exit ?s)" using o by (simp add: cli_cmd_exit_def) (simp add: shell_ok_def)
    have g: "shell_ok (cli_puts [8, 32, 8] ((?s\<lparr>cl_count := cl_count s - 1\<rparr>)\<lparr>cl_buf := (cl_buf s)[cl_count s - 1 := 0]\<rparr>))"
      using o by (auto simp: shell_ok_def cli_puts_def)
    have h: "cl_count s < 64 \<Longrightarrow> shell_ok (cli_puts [c] (?s\<lparr>cl_buf := (cl_buf s)[cl_count s := c], cl_count := cl_count s + 1\<rparr>))"
      using o by (auto simp: shell_ok_def cli_puts_def)
    let ?g = "\<not> enter_full c s \<and> (\<exists>s'. cli_feed e c s = Inr s' \<and> shell_ok s')"
    consider "c = 9 \<or> c = 63" | "c \<noteq> 9" "c \<noteq> 63" "cl_count s = 0 \<and> c = 4" | "c \<noteq> 9" "c \<noteq> 63" "\<not> (cl_count s = 0 \<and> c = 4)" "c = 12"
      | "c = 8 \<or> c = 127" "cl_count s = 0" | "c = 8 \<or> c = 127" "cl_count s \<noteq> 0"
      | "c \<noteq> 9" "c \<noteq> 63" "\<not> (cl_count s = 0 \<and> c = 4)" "c \<noteq> 12" "c \<noteq> 8" "c \<noteq> 127" by blast
    then have ?g
    proof cases
      case 4
      then show ?thesis using key o by (auto simp: cli_feed_def enter_full_def)
    next
      case 5
      then show ?thesis using key g by (elim disjE) (simp_all add: cli_feed_def enter_full_def Let_def)
    next
      case 6
      have "cli_feed e c s = (if cl_count s < 64 \<and> 32 \<le> c \<and> c \<le> 126
          then if cl_count s = 0 \<and> c = 32 then Inr ?s
               else Inr (cli_puts [c] (?s\<lparr>cl_buf := (cl_buf s)[cl_count s := c], cl_count := cl_count s + 1\<rparr>))
          else Inr ?s)"
        using 6 key by (auto simp: cli_feed_def Let_def)
      then show ?thesis using o h key by (simp add: enter_full_def)
    qed (use key o f upd(2) in \<open>simp_all add: cli_feed_def enter_full_def Let_def\<close>)
    then show ?thesis by simp
  qed
qed

section \<open>Typing\<close>

lemma cli_run_append: "cli_run e (as @ bs) s = rbind (cli_run e as s) (cli_run e bs)"
proof (induction as arbitrary: s)
  case (Cons a as)
  then have "cli_run e (as @ bs) = (\<lambda>x. rbind (cli_run e as x) (cli_run e bs))" by (intro ext)
  then show ?case by (simp add: rbind_assoc)
qed simp

text \<open>Characters that the editor takes: printable, no question mark.\<close>

definition typable :: "u8 \<Rightarrow> bool" where
  "typable c \<longleftrightarrow> 32 \<le> c \<and> c \<le> 126 \<and> c \<noteq> 63"

lemma typable_key: "typable c \<Longrightarrow> c \<noteq> 9 \<and> c \<noteq> 63 \<and> c \<noteq> 4 \<and> c \<noteq> 12 \<and> c \<noteq> 10 \<and> c \<noteq> 13 \<and> c \<noteq> 8 \<and> c \<noteq> 127 \<and> 32 \<le> c \<and> c \<le> 126 \<and> c \<noteq> 0"
  by (auto simp: typable_def)

lemma value_table_typable: "\<forall>v \<in> set value_table. list_all typable (vname v)"
  by (simp add: value_table_def cli_value_def ascii_def typable_def)

lemma copy_snoc:
  assumes "n < length b"
  shows "copy_into (b[n := c]) (Suc n) cs = copy_into b n (c # cs)"
proof (rule nth_equalityI)
  show "length (copy_into (b[n := c]) (Suc n) cs) = length (copy_into b n (c # cs))" using assms by (simp add: copy_into_def)
  fix i assume "i < length (copy_into (b[n := c]) (Suc n) cs)"
  have "take (Suc n) (b[n := c]) = take n b @ [c]" using assms by (simp add: take_Suc_conv_app_nth)
  then show "copy_into (b[n := c]) (Suc n) cs ! i = copy_into b n (c # cs) ! i" by (simp add: copy_into_def)
qed

lemma cli_run_type:
  "list_all typable cs \<Longrightarrow> cl_enabled s \<Longrightarrow> length (cl_buf s) = 64 \<Longrightarrow> cl_count s + length cs \<le> 64 \<Longrightarrow>
   cl_count s = 0 \<longrightarrow> cs = [] \<or> hd cs \<noteq> 32 \<Longrightarrow>
   cli_run e cs s = Inr (s\<lparr>cl_buf := copy_into (cl_buf s) (cl_count s) cs, cl_count := cl_count s + length cs, terminal := terminal s @ cs\<rparr>)"
proof (induction cs arbitrary: s)
  case Nil
  then show ?case by (simp add: copy_into_def)
next
  case (Cons c cs)
  note k = typable_key [of c]
  let ?s = "s\<lparr>cl_buf := (cl_buf s)[cl_count s := c], cl_count := cl_count s + 1, terminal := terminal s @ [c]\<rparr>"
  have t: "typable c" "cl_count s < 64" using Cons.prems by simp_all
  have en: "s\<lparr>cl_enabled := True\<rparr> = s" using Cons.prems(2) by simp
  have "cli_feed e c s = Inr ?s"
    using k [OF t(1)] t Cons.prems(2,5) by (auto simp: cli_feed_def en Let_def cli_puts_def)
  moreover have "cli_run e cs ?s = Inr (?s\<lparr>cl_buf := copy_into (cl_buf ?s) (cl_count ?s) cs, cl_count := cl_count ?s + length cs,
      terminal := terminal ?s @ cs\<rparr>)"
    by (rule Cons.IH) (use Cons.prems in simp_all)
  ultimately show ?case using t(2) Cons.prems(3) by (simp add: copy_snoc)
qed

lemma type_line:
  assumes "list_all typable cs" "cl_enabled s" "length (cl_buf s) = 64" "cl_count s = 0" "length cs < 64" "cs \<noteq> []" "hd cs \<noteq> 32"
  shows "cli_run e (cs @ [13]) s = rbind (cli_line e (s\<lparr>cl_buf := cs @ drop (length cs) (cl_buf s), cl_count := length cs, terminal := terminal s @ cs\<rparr>))
    (\<lambda>s. Inr ((if cl_enabled s then cli_prompt s else s)\<lparr>cl_buf := (cl_buf (if cl_enabled s then cli_prompt s else s))[0 := 13]\<rparr>))"
proof -
  let ?t = "s\<lparr>cl_buf := copy_into (cl_buf s) 0 cs, cl_count := length cs, terminal := terminal s @ cs\<rparr>"
  have r: "cli_run e cs s = Inr ?t" using cli_run_type [of cs s e] assms by simp
  have en: "?t\<lparr>cl_enabled := True\<rparr> = ?t" using assms(2) by simp
  have "cli_feed e 13 ?t = rbind (cli_line e ?t)
      (\<lambda>s. Inr ((if cl_enabled s then cli_prompt s else s)\<lparr>cl_buf := (cl_buf (if cl_enabled s then cli_prompt s else s))[0 := 13]\<rparr>))"
    unfolding cli_feed_def en using assms by (simp add: Let_def)
  then show ?thesis unfolding cli_run_append r using assms by (simp add: copy_into_def rbind_assoc)
qed

text \<open>The words of a typed line.\<close>

lemma first_word:
  assumes "0 \<notin> set w" "32 \<notin> set w"
  shows "strtok_s (Some 0) 32 (w @ 32 # rest @ 0 # tl') lp = Inr (Some 0, w @ 0 # rest @ 0 # tl', Some (length w + 1))"
proof -
  let ?b = "w @ 32 # rest @ 0 # tl'"
  have "terminated ?b 0" using terminated_app [of "[]" "w @ 32 # rest" tl'] terminated_drop [of ?b 0] by simp
  moreover have "token 32 ?b 0 = w" using assms by (simp add: token_def) (subst takeWhile_append2, auto)
  ultimately show ?thesis using strtok_scan_eq [of ?b 0 32 0] by (auto simp: Let_def nth_append strtok_s_def list_update_append)
qed

lemma last_word:
  assumes "0 \<notin> set rest"
  shows "strtok_s None 0 (w @ 0 # rest @ 0 # tl') (Some (length w + 1)) = Inr (Some (length w + 1), w @ 0 # rest @ 0 # tl', None)"
proof -
  let ?b = "w @ 0 # rest @ 0 # tl'" let ?p = "length w + 1"
  have "terminated ?b ?p" by (simp add: terminated_drop)
  then show ?thesis using strtok_scan_eq [of ?b ?p 0 ?p] by (auto simp: Let_def strtok_s_def)
qed

lemma set_is_set: "find_command cmd_table (ascii ''set'' @ 0 # rest) 0 = Inr (Some Set_cmd)"
  by (simp add: cmd_table_def ascii_def rd_def to_lower_def)

section \<open>Properties\<close>

text \<open>An Enter after 64 characters, the first in \<open>cs\<close> that finds the line full.\<close>

definition enters_full :: "sysinfo \<Rightarrow> u8 list \<Rightarrow> shell \<Rightarrow> bool" where
  "enters_full e cs s \<longleftrightarrow> (\<exists>as c bs s'. cs = as @ c # bs \<and> cli_run e as s = Inr s' \<and> cl_count s' = 64 \<and> (c = 10 \<or> c = 13))"

lemma enters_full_Cons:
  assumes "env_ok e" "shell_ok s"
  shows "enters_full e (c # cs) s \<longleftrightarrow> enter_full c s \<or> (\<exists>t. cli_feed e c s = Inr t \<and> enters_full e cs t)"
proof
  assume "enters_full e (c # cs) s"
  then obtain as c' bs s' where a: "c # cs = as @ c' # bs" "cli_run e as s = Inr s'" "cl_count s' = 64" "c' = 10 \<or> c' = 13"
    unfolding enters_full_def by blast
  then show "enter_full c s \<or> (\<exists>t. cli_feed e c s = Inr t \<and> enters_full e cs t)"
  proof (cases as)
    case (Cons d as')
    then obtain t where "cli_feed e c s = Inr t" "cli_run e as' t = Inr s'" using a(1,2) by (cases "cli_feed e c s") auto
    then show ?thesis using a Cons unfolding enters_full_def by auto
  qed (simp add: enter_full_def)
next
  assume "enter_full c s \<or> (\<exists>t. cli_feed e c s = Inr t \<and> enters_full e cs t)"
  then show "enters_full e (c # cs) s"
  proof
    assume "enter_full c s"
    then have "c # cs = [] @ c # cs \<and> cli_run e [] s = Inr s \<and> cl_count s = 64 \<and> (c = 10 \<or> c = 13)" by (simp add: enter_full_def)
    then show ?thesis unfolding enters_full_def by blast
  next
    assume "\<exists>t. cli_feed e c s = Inr t \<and> enters_full e cs t"
    then obtain t as c' bs s' where "cli_feed e c s = Inr t" "cs = as @ c' # bs" "cli_run e as t = Inr s'" "cl_count s' = 64" "c' = 10 \<or> c' = 13"
      unfolding enters_full_def by blast
    then have "c # cs = (c # as) @ c' # bs \<and> cli_run e (c # as) s = Inr s' \<and> cl_count s' = 64 \<and> (c' = 10 \<or> c' = 13)" by simp
    then show ?thesis unfolding enters_full_def by blast
  qed
qed

text \<open>C16. No input can make the command line leave its buffers, save one: from any state, the bytes are
  all handled and leave a good state unless one of them is an Enter that finds the line at 64 characters; then
  the terminator is written one past the end of \<open>cl_buf\<close> and the run stops there.\<close>

theorem cli_stream_safe:
  assumes "env_ok e" "shell_ok s"
  shows "(\<not> enters_full e cs s \<longrightarrow> (\<exists>s'. cli_run e cs s = Inr s' \<and> shell_ok s'))
    \<and> (enters_full e cs s \<longrightarrow> cli_run e cs s = Inl (Oob ''cl_buf''))"
  using assms(2)
proof (induction cs arbitrary: s)
  case Nil
  then show ?case by (simp add: enters_full_def)
next
  case (Cons c cs)
  note step = cli_feed_safe [OF assms(1) Cons.prems, of c] and first = enters_full_Cons [OF assms(1) Cons.prems]
  show ?case
  proof (cases "enter_full c s")
    case True
    then show ?thesis using step first by simp
  next
    case False
    then obtain t where "cli_feed e c s = Inr t" "shell_ok t" using step by auto
    then show ?thesis using Cons.IH [of t] first False by simp
  qed
qed

definition env0 :: sysinfo where
  "env0 = \<lparr>i_hwver = 0x0700, i_bootver = None, i_version = ascii ''1.0'', i_sysfreq = 72000000, i_hwaddr = replicate 6 0, i_link = ascii ''Down'',
     i_ip = 0, i_mask = 0, i_gw = 0, i_ip6 = [], i_millis = 0, i_write = (\<lambda>cfg. (0, cfg)), i_page = (\<lambda>_. 0)\<rparr>"

definition shell0 :: shell where
  "shell0 = \<lparr>cl_enabled = True, cl_buf = replicate 64 0, cl_count = 0, tok_last = None, cli_cfg = replicate 120 0,
     cli_snum = replicate 8 0, terminal = [], was_reset = False, cl_out = 0\<rparr>"

lemma samples_ok: "env_ok env0" "shell_ok shell0"
  by (simp_all add: env_ok_def env0_def shell_ok_def shell0_def)

lemma typed_line_run:
  assumes "n \<le> 64"
  shows "\<exists>s'. cli_run env0 (replicate n 97) shell0 = Inr s' \<and> cl_count s' = n"
proof -
  have a: "cl_enabled shell0" "length (cl_buf shell0) = 64" "cl_count shell0 = 0" by (simp_all add: shell0_def)
  have "cli_run env0 (replicate n 97) shell0 = Inr (shell0\<lparr>cl_buf := copy_into (cl_buf shell0) (cl_count shell0) (replicate n 97),
      cl_count := cl_count shell0 + length (replicate n (97 :: u8)), terminal := terminal shell0 @ replicate n 97\<rparr>)"
    by (rule cli_run_type) (use a assms in \<open>auto simp: typable_def list_all_iff hd_replicate\<close>)
  then show ?thesis using a by auto
qed

theorem cli_stream_safe_witness:
  "cli_run env0 (replicate 64 97 @ [13]) shell0 = Inl (Oob ''cl_buf'')
   \<and> (\<exists>s'. cli_run env0 (replicate 63 97 @ [13]) shell0 = Inr s' \<and> shell_ok s')"
proof
  obtain s' where "cli_run env0 (replicate 64 97) shell0 = Inr s'" "cl_count s' = 64" using typed_line_run [of 64] by auto
  then have "enters_full env0 (replicate 64 97 @ [13]) shell0" unfolding enters_full_def by blast
  then show "cli_run env0 (replicate 64 97 @ [13]) shell0 = Inl (Oob ''cl_buf'')"
    using cli_stream_safe [OF samples_ok] by blast
  have "\<not> enters_full env0 (replicate 63 97 @ [13]) shell0"
    unfolding enters_full_def
  proof (intro notI, elim exE conjE)
    fix as c bs s'
    assume e: "replicate 63 97 @ [13] = as @ c # bs" "cli_run env0 as shell0 = Inr s'" "cl_count s' = 64"
    have l: "length as \<le> 63" using arg_cong [OF e(1), of length] by simp
    have "as = take (length as) (replicate 63 97 @ [13])" unfolding e(1) by simp
    with l have "as = replicate (length as) 97" by (simp add: min_def)
    then show False using typed_line_run [of "length as"] e(2,3) l by auto
  qed
  then show "\<exists>s'. cli_run env0 (replicate 63 97 @ [13]) shell0 = Inr s' \<and> shell_ok s'"
    using cli_stream_safe [OF samples_ok] by blast
qed

text \<open>The words that switch a flag on and off.\<close>

definition on_words :: "u8 list set" where "on_words = {ascii ''on'', ascii ''yes'', ascii ''true''}"

definition off_words :: "u8 list set" where "off_words = {ascii ''off'', ascii ''no'', ascii ''false''}"

lemma typed_flag:
  assumes v: "vtype v = VAR_FLAG" "var_ok v (length m)" and b: "var_bit v i b" "b < 8" and w: "w \<in> on_words \<union> off_words"
    and c: "cliSetVar v (w @ 0 # rest) m = Inr cfg"
  shows "bit (cfg ! i) b \<longleftrightarrow> w \<in> on_words"
proof -
  obtain k where k: "k < 32" "vlen v = 2 ^ k" and p: "vptr v + 4 \<le> length m" using v by (auto simp: var_ok_def var_size_def)
  have i: "vptr v \<le> i" "i < vptr v + 4" "(2 :: nat) ^ k = 2 ^ (8 * (i - vptr v) + b)"
    using b(1) v(1) k(2) by (simp_all add: var_bit_def var_size_def)
  then have kb: "8 * (i - vptr v) + b = k" by simp
  let ?g = "get32 m (vptr v)"
  have on: "w \<in> on_words \<Longrightarrow> set_flag (vlen v) ?g (w @ 0 # rest) = Inr (?g OR 2 ^ k)"
    using k(2) unfolding on_words_def by (elim insertE emptyE) (simp_all add: set_flag_def peek_def ascii_def)
  have off: "w \<in> off_words \<Longrightarrow> set_flag (vlen v) ?g (w @ 0 # rest) = Inr (?g AND NOT (2 ^ k))"
    using k(2) unfolding off_words_def by (elim insertE emptyE) (simp_all add: set_flag_def peek_def ascii_def)
  have "set_flag (vlen v) ?g (w @ 0 # rest) = Inr (if w \<in> on_words then ?g OR 2 ^ k else ?g AND NOT (2 ^ k))"
    using on off w by (cases "w \<in> on_words") simp_all
  then have "cfg = copy_into m (vptr v) (bytes32 (if w \<in> on_words then ?g OR 2 ^ k else ?g AND NOT (2 ^ k)))"
    using c v(1) by (simp add: cliSetVar_def)
  then have "bit (cfg ! i) b = bit (if w \<in> on_words then ?g OR 2 ^ k else ?g AND NOT (2 ^ k)) (8 * (i - vptr v) + b)"
    using p i b(2) bytes32_nth [of "i - vptr v" b] by (simp add: copy_into_nth)
  then show ?thesis using k(1) unfolding kb by (auto simp: bit_or_iff bit_and_iff bit_not_iff power_of_two_bit)
qed

text \<open>C15. A setting that is typed is set: at the prompt, typing \<open>set name=value\<close> and Enter, with the
  name of a setting and a value that fits on the line, gives the configuration that \<open>cliSetVar\<close> makes of the
  value, prints it, and leaves the editor at a new prompt. Whatever the value is, every bit of the configuration
  that does not belong to the setting is as it was; a flag is switched by the words for on and off; and a value
  that was printed before is restored.\<close>

theorem cli_typed_setting:
  assumes v: "v \<in> set value_table" and s: "cl_enabled s" "length (cl_buf s) = 64" "cl_count s = 0" "length (cli_cfg s) = 120"
    and w: "list_all typable w" "32 \<notin> set w" "length (vname v) + length w < 59"
  shows "\<exists>s' cfg rest. cli_run e (ascii ''set '' @ vname v @ 61 # w @ [13]) s = Inr s'
    \<and> cliSetVar v (w @ 0 # rest) (cli_cfg s) = Inr cfg \<and> cli_cfg s' = cfg
    \<and> terminal s' = terminal s @ ascii ''set '' @ vname v @ 61 # w @ crlf @ cli_printf (vname v @ ascii '' set to '') @ cliPrintVar v cfg @ crlf @ ascii ''# ''
    \<and> cl_enabled s' \<and> cl_count s' = 0
    \<and> unchanged_but v (cli_cfg s) cfg
    \<and> (vtype v = VAR_FLAG \<and> w \<in> on_words \<union> off_words \<longrightarrow> (\<forall>i. \<forall>b < 8. var_bit v i b \<longrightarrow> (bit (cfg ! i) b \<longleftrightarrow> w \<in> on_words)))
    \<and> (\<forall>m. length m = 120 \<and> w = cliPrintVar v m \<longrightarrow> overlaid (var_bit v) m (cli_cfg s) cfg)"
proof -
  let ?n = "vname v" let ?line = "ascii ''set '' @ ?n @ 61 # w"
  have name: "?n \<noteq> []" "0 \<notin> set ?n" "61 \<notin> set ?n" "32 \<notin> set ?n" "list_all typable ?n"
    using v value_table_names value_table_typable by auto
  have w0: "0 \<notin> set w" using w(1) typable_key by (auto simp: list_all_iff)
  have "list_all typable ?line" using name(5) w(1) by (simp add: ascii_def typable_def)
  then have run: "cli_run e (?line @ [13]) s = rbind (cli_line e (s\<lparr>cl_buf := ?line @ drop (length ?line) (cl_buf s), cl_count := length ?line, terminal := terminal s @ ?line\<rparr>))
    (\<lambda>s. Inr ((if cl_enabled s then cli_prompt s else s)\<lparr>cl_buf := (cl_buf (if cl_enabled s then cli_prompt s else s))[0 := 13]\<rparr>))"
    by (rule type_line) (use s w(3) in \<open>simp_all add: ascii_def\<close>)
  obtain x rest where x: "drop (length ?line) (cl_buf s) = x # rest" using s(2) w(3) by (cases "drop (length ?line) (cl_buf s)") (auto simp: ascii_def)
  let ?s = "s\<lparr>cl_buf := ?line @ x # rest, cl_count := length ?line, terminal := terminal s @ ?line\<rparr>"
  let ?set = "ascii ''set''"
  have cut: "(?line @ x # rest)[length ?line := 0] = ?set @ 32 # (?n @ 61 # w) @ 0 # rest"
    by (simp only: list_update_length) (simp add: ascii_def)
  have sset: "0 \<notin> set ?set" "32 \<notin> set ?set" by (simp_all add: ascii_def)
  have arg0: "0 \<notin> set (?n @ 61 # w)" using name(2) w0 by simp
  obtain cfg where cfg: "cliSetVar v (w @ 0 # rest) (cli_cfg s) = Inr cfg" "length cfg = 120" "unchanged_but v (cli_cfg s) cfg"
    using cliSetVar_safe [of v "cli_cfg s" "w @ 0 # rest"] value_table_ok v s(4) by (auto simp: unchanged_but_def)
  let ?out = "cli_printf (?n @ ascii '' set to '') @ cliPrintVar v cfg"
  have cmd: "cli_cmd_set ((?set @ [0]) @ ?n @ 61 # w @ 0 # rest) (length (?set @ [0])) (cli_cfg s) = Inr (?out, (?set @ [0]) @ ?n @ 0 # w @ 0 # rest, cfg)"
    using cli_cmd_set_value [of "(?set @ [0]) @ ?n @ 61 # w @ 0 # rest" "?set @ [0]" v w rest "cli_cfg s"] cfg(1) name w0 w(2)
      find_distinct [OF value_table_distinct v] value_table_names by (cases w) auto
  have line: "cli_line e ?s = Inr ((cli_puts ?out (cli_puts crlf ?s))\<lparr>cl_buf := replicate 64 0, tok_last := None, cli_cfg := cfg\<rparr>)"
  proof -
    have p: "cl_buf (cli_puts crlf ?s) = ?line @ x # rest" "cl_count (cli_puts crlf ?s) = length ?line" "tok_last (cli_puts crlf ?s) = tok_last s"
      "cli_cfg (cli_puts crlf ?s) = cli_cfg s" by (simp_all add: cli_puts_def)
    have wrt: "wr ''cl_buf'' (?line @ x # rest) (length ?line) 0 = Inr (?set @ 32 # (?n @ 61 # w) @ 0 # rest)"
      unfolding cut [symmetric] by (rule wr_in) simp
    have fw: "strtok_s (Some 0) 32 (?set @ 32 # (?n @ 61 # w) @ 0 # rest) (tok_last s) = Inr (Some 0, ?set @ 0 # (?n @ 61 # w) @ 0 # rest, Some (length ?set + 1))"
      by (rule first_word [OF sset])
    have lw: "strtok_s None 0 (?set @ 0 # (?n @ 61 # w) @ 0 # rest) (Some (length ?set + 1)) = Inr (Some (length ?set + 1), ?set @ 0 # (?n @ 61 # w) @ 0 # rest, None)"
      by (rule last_word [OF arg0])
    have fc: "find_command cmd_table (?set @ 0 # (?n @ 61 # w) @ 0 # rest) 0 = Inr (Some Set_cmd)" by (rule set_is_set)
    have cmd': "cli_cmd_set (?set @ 0 # (?n @ 61 # w) @ 0 # rest) (length ?set + 1) (cli_cfg s) = Inr (?out, ?set @ 0 # ?n @ 0 # w @ 0 # rest, cfg)"
      using cmd by simp
    show ?thesis
      unfolding cli_line_def Let_def p wrt rbind_simps fw case_prod_conv option.sel fc option.case lw
      by (simp add: run_command_def cmd' [simplified] p cli_puts_def)
  qed
  let ?s2 = "(cli_puts ?out (cli_puts crlf ?s))\<lparr>cl_buf := replicate 64 0, tok_last := None, cli_cfg := cfg\<rparr>"
  let ?s' = "(cli_prompt ?s2)\<lparr>cl_buf := (cl_buf (cli_prompt ?s2))[0 := 13]\<rparr>"
  have en: "cl_enabled ?s2" using s(1) by (simp add: cli_puts_def)
  have "cli_run e (?line @ [13]) s = Inr ?s'" unfolding run x using line en by simp
  moreover have "cli_cfg ?s' = cfg" "cl_enabled ?s'" "cl_count ?s' = 0"
    "terminal ?s' = terminal s @ ?line @ crlf @ ?out @ crlf @ ascii ''# ''" by (simp_all add: cli_prompt_def cli_puts_def)
  moreover have "overlaid (var_bit v) m (cli_cfg s) cfg" if "length m = 120 \<and> w = cliPrintVar v m" for m
  proof -
    have "var_ok v (length m)" "length (cli_cfg s) = length m" using value_table_ok v that s(4) by auto
    from cliSetVar_printed [OF this, of rest] that cfg(1) show ?thesis by auto
  qed
  moreover have "vtype v = VAR_FLAG \<and> w \<in> on_words \<union> off_words \<longrightarrow> (\<forall>i. \<forall>b < 8. var_bit v i b \<longrightarrow> (bit (cfg ! i) b \<longleftrightarrow> w \<in> on_words))"
    using typed_flag [OF _ _ _ _ _ cfg(1)] value_table_ok v s(4) by auto
  ultimately show ?thesis using cfg(1,3) by fastforce
qed

lemma shell0_sets: "\<exists>v \<in> set value_table. vname v = ascii ''holdover_time'' \<and> vtype v = VAR_UINT32"
  by (simp add: value_table_def cli_value_def ascii_def)

theorem cli_typed_setting_witness:
  "\<exists>v s' cfg rest. v \<in> set value_table \<and> vname v = ascii ''holdover_time''
     \<and> cli_run env0 (ascii ''set holdover_time=60'' @ [13]) shell0 = Inr s'
     \<and> cliSetVar v (ascii ''60'' @ 0 # rest) (cli_cfg shell0) = Inr cfg \<and> cli_cfg s' = cfg"
proof -
  obtain v where v: "v \<in> set value_table" "vname v = ascii ''holdover_time''" using shell0_sets by blast
  have w: "list_all typable (ascii ''60'')" "32 \<notin> set (ascii ''60'')" "length (vname v) + length (ascii ''60'') < 59"
    by (simp_all add: v ascii_def typable_def)
  have s: "cl_enabled shell0" "length (cl_buf shell0) = 64" "cl_count shell0 = 0" "length (cli_cfg shell0) = 120"
    by (simp_all add: shell0_def)
  obtain s' cfg rest where r: "cli_run env0 (ascii ''set '' @ vname v @ 61 # ascii ''60'' @ [13]) shell0 = Inr s'"
    "cliSetVar v (ascii ''60'' @ 0 # rest) (cli_cfg shell0) = Inr cfg" "cli_cfg s' = cfg"
    using cli_typed_setting [OF v(1) s w, of env0] by blast
  have eq: "ascii ''set '' @ vname v @ 61 # ascii ''60'' @ [13] = ascii ''set holdover_time=60'' @ [13]"
    by (simp add: v ascii_def)
  show ?thesis using v r(2,3) r(1) [unfolded eq] by blast
qed

section \<open>Saving\<close>

lemma get32_put:
  assumes "length m = 120"
  shows "get32 (copy_into m CFG_flags (bytes32 v)) CFG_flags = v"
proof (rule bit_eqI)
  fix n assume "possible_bit TYPE(32 word) n"
  then have n: "n < 32" by (simp add: possible_bit_word)
  then have j: "n div 8 < 4" "n mod 8 < 8" "8 * (n div 8) + n mod 8 = n" by auto
  have "bit (get32 (copy_into m CFG_flags (bytes32 v)) CFG_flags) (8 * (n div 8) + n mod 8)
      = bit (copy_into m CFG_flags (bytes32 v) ! (CFG_flags + n div 8)) (n mod 8)" by (rule get32_nth [OF j(1,2)])
  also have "\<dots> = bit (bytes32 v ! (n div 8)) (n mod 8)" using assms j(1) by (simp add: copy_into_nth CFG_flags_def)
  also have "\<dots> = bit v (8 * (n div 8) + n mod 8)" by (rule bytes32_nth [OF j(1,2)])
  finally show "bit (get32 (copy_into m CFG_flags (bytes32 v)) CFG_flags) n = bit v n" unfolding j(3) .
qed

lemma put_put:
  "length m = 120 \<Longrightarrow> copy_into (copy_into m CFG_flags (bytes32 v)) CFG_flags (bytes32 w) = copy_into m CFG_flags (bytes32 w)"
  by (simp add: copy_into_def CFG_flags_def)

lemma put_get: "length m = 120 \<Longrightarrow> copy_into m CFG_flags (bytes32 (get32 m CFG_flags)) = m"
proof -
  assume l: "length m = 120"
  have "bytes32 (get32 m CFG_flags) = take 4 (drop CFG_flags m)" by (rule bytes32_get32) (simp add: l CFG_flags_def)
  moreover have "take CFG_flags m @ take 4 (drop CFG_flags m) @ drop 4 (drop CFG_flags m) = m"
    by (simp only: append_take_drop_id)
  ultimately show ?thesis using l by (simp add: copy_into_def CFG_flags_def)
qed

text \<open>The flags that are left, and that nothing else changes: bit 0 is \<open>FLAG_PPSEN\<close>, 1 \<open>FLAG_GPSEXT\<close>, 2
  \<open>FLAG_GPSOUT\<close>, 3 and 4 the two kinds of NTP key.\<close>

definition sane_flags :: "bool \<Rightarrow> u32 \<Rightarrow> u32 \<Rightarrow> bool" where
  "sane_flags pps f f' \<longleftrightarrow> (\<forall>n. bit f' n = (bit f n \<and> (n = 0 \<longrightarrow> pps) \<and> (n = 2 \<longrightarrow> \<not> bit f 1) \<and> (n = 3 \<longrightarrow> \<not> bit f 4) \<and> (n = 4 \<longrightarrow> \<not> bit f 3)))"

definition step_pps :: "bool \<Rightarrow> u32 \<Rightarrow> u32" where
  "step_pps pps f = (if \<not> pps \<and> f AND FLAG_PPSEN \<noteq> 0 then f AND NOT FLAG_PPSEN else f)"

definition step_gps :: "u32 \<Rightarrow> u32" where
  "step_gps f = (if f AND (FLAG_GPSEXT OR FLAG_GPSOUT) = FLAG_GPSEXT OR FLAG_GPSOUT then f AND NOT FLAG_GPSOUT else f)"

definition step_key :: "u32 \<Rightarrow> u32" where
  "step_key f = (if f AND FLAG_NTPKEY_MD5 \<noteq> 0 \<and> f AND FLAG_NTPKEY_SHA1 \<noteq> 0 then f AND NOT (FLAG_NTPKEY_MD5 OR FLAG_NTPKEY_SHA1) else f)"

lemma flag_bit: "(f :: u32) AND 2 ^ k \<noteq> 0 \<longleftrightarrow> bit f k"
  by (simp add: bit_iff_and_push_bit_not_eq_0 [of f k] push_bit_eq_mult)

lemma flag_powers: "FLAG_PPSEN = 2 ^ 0" "FLAG_GPSEXT = 2 ^ 1" "FLAG_GPSOUT = 2 ^ 2" "FLAG_NTPKEY_MD5 = 2 ^ 3" "FLAG_NTPKEY_SHA1 = 2 ^ 4"
  by (simp_all add: FLAG_PPSEN_def FLAG_GPSEXT_def FLAG_GPSOUT_def FLAG_NTPKEY_MD5_def FLAG_NTPKEY_SHA1_def)

lemma both_flags: "(f :: u32) AND (2 ^ j OR 2 ^ k) = 2 ^ j OR 2 ^ k \<longleftrightarrow> (j < 32 \<longrightarrow> bit f j) \<and> (k < 32 \<longrightarrow> bit f k)"
proof
  assume e: "f AND (2 ^ j OR 2 ^ k) = 2 ^ j OR 2 ^ k"
  have "bit f n \<and> (n = j \<and> j < 32 \<or> n = k \<and> k < 32) \<longleftrightarrow> n = j \<and> j < 32 \<or> n = k \<and> k < 32" for n
    using arg_cong [OF e, of "\<lambda>x. bit x n"] unfolding bit_and_iff bit_or_iff power_of_two_bit .
  from this [of j] this [of k] show "(j < 32 \<longrightarrow> bit f j) \<and> (k < 32 \<longrightarrow> bit f k)" by blast
next
  assume "(j < 32 \<longrightarrow> bit f j) \<and> (k < 32 \<longrightarrow> bit f k)"
  then show "f AND (2 ^ j OR 2 ^ k) = 2 ^ j OR 2 ^ k"
    by (intro bit_eqI) (auto simp: bit_and_iff bit_or_iff power_of_two_bit)
qed

lemma clear_bit: "k < 32 \<Longrightarrow> bit ((f :: u32) AND NOT (2 ^ k)) n \<longleftrightarrow> bit f n \<and> n \<noteq> k"
  "k < 32 \<Longrightarrow> j < 32 \<Longrightarrow> bit (f AND NOT (2 ^ j OR 2 ^ k)) n \<longleftrightarrow> bit f n \<and> n \<noteq> j \<and> n \<noteq> k"
  by (auto simp: bit_and_iff bit_not_iff bit_or_iff power_of_two_bit possible_bit_word dest: u32_bit_bound)

lemma sane_steps: "sane_flags pps f (step_key (step_gps (step_pps pps f)))"
proof -
  have p: "bit (step_pps pps f) n = (bit f n \<and> (n = 0 \<longrightarrow> pps))" for f n
    unfolding step_pps_def flag_powers flag_bit by (auto simp del: power_0 simp: clear_bit)
  have g: "bit (step_gps f) n = (bit f n \<and> (n = 2 \<longrightarrow> \<not> bit f 1))" for f n
    unfolding step_gps_def flag_powers both_flags by (auto simp: clear_bit(1) [of 2 f n, simplified])
  have k: "bit (step_key f) n = (bit f n \<and> (n = 3 \<longrightarrow> \<not> bit f 4) \<and> (n = 4 \<longrightarrow> \<not> bit f 3))" for f n
    unfolding step_key_def flag_powers flag_bit by (auto simp: clear_bit(2) [of 4 3 f n, simplified])
  show ?thesis unfolding sane_flags_def by (simp add: p g k)
qed

definition saved_flags :: "u16 \<Rightarrow> u32 \<Rightarrow> u32" where
  "saved_flags hw f = step_key (step_gps (step_pps (has_pps hw) f))"

lemma check_flags_cfg:
  assumes "length (cli_cfg s) = 120"
  shows "cli_cfg (check_flags hw s) = copy_into (cli_cfg s) CFG_flags (bytes32 (saved_flags hw (get32 (cli_cfg s) CFG_flags)))"
proof -
  let ?m = "cli_cfg s" let ?put = "\<lambda>v. copy_into ?m CFG_flags (bytes32 v)"
  define holds where "holds = (\<lambda>v (t :: shell). cli_cfg t = ?put v)"
  have put: "holds w (set_cfg_flags w t)" and puts: "holds v (cli_puts x t)" and flags: "shell_flags t = v" if "holds v t" for v w t x
    using that assms by (simp_all add: holds_def set_cfg_flags_def cli_puts_def shell_flags_def put_put get32_put)
  have both: "holds w (set_cfg_flags w (cli_puts x t))" if "holds v t" for v w t x using put [OF puts [OF that]] .
  have still: "shell_flags (cli_puts x t) = shell_flags t" for x t by (simp add: shell_flags_def cli_puts_def)
  let ?f = "get32 ?m CFG_flags"
  have s0: "holds ?f s" using assms by (simp add: holds_def put_get)
  define s1 where "s1 = (if \<not> has_pps hw \<and> shell_flags s AND FLAG_PPSEN \<noteq> 0
      then let s = cli_puts (ascii ''WARNING: PPS output not available on this hardware'' @ crlf) s in set_cfg_flags (shell_flags s AND NOT FLAG_PPSEN) s else s)"
  have s1: "holds (step_pps (has_pps hw) ?f) s1"
    using s0 flags [OF s0] by (auto simp: s1_def step_pps_def Let_def still both [OF s0])
  define s2 where "s2 = (if shell_flags s1 AND (FLAG_GPSEXT OR FLAG_GPSOUT) = FLAG_GPSEXT OR FLAG_GPSOUT
      then let s = cli_puts (ascii ''WARNING: gps_ext_in and gps_ext_out are mutually exclusive.'' @ crlf) s1 in set_cfg_flags (shell_flags s AND NOT FLAG_GPSOUT) s else s1)"
  have s2: "holds (step_gps (step_pps (has_pps hw) ?f)) s2"
    using s1 flags [OF s1] by (auto simp: s2_def step_gps_def Let_def still both [OF s1])
  define key where "key = (\<lambda>s. let result = 0; result = (if shell_flags s AND FLAG_NTPKEY_MD5 \<noteq> 0 then result + 1 else result);
          result = (if shell_flags s AND FLAG_NTPKEY_SHA1 \<noteq> 0 then result + 1 else result) in
      if result > (1::int)
      then let s = cli_puts (ascii ''WARNING: More than one ntpkey type specified'' @ crlf) s in
           set_cfg_flags (shell_flags s AND NOT (FLAG_NTPKEY_MD5 OR FLAG_NTPKEY_SHA1)) s
      else s)"
  have "check_flags hw s = key s2"
    unfolding check_flags_def s2_def s1_def key_def Let_def by (rule refl)
  also have "key s2 = (if shell_flags s2 AND FLAG_NTPKEY_MD5 \<noteq> 0 \<and> shell_flags s2 AND FLAG_NTPKEY_SHA1 \<noteq> 0
      then let s = cli_puts (ascii ''WARNING: More than one ntpkey type specified'' @ crlf) s2 in
           set_cfg_flags (shell_flags s AND NOT (FLAG_NTPKEY_MD5 OR FLAG_NTPKEY_SHA1)) s else s2)"
    by (simp add: key_def)
  finally have k: "check_flags hw s = (if shell_flags s2 AND FLAG_NTPKEY_MD5 \<noteq> 0 \<and> shell_flags s2 AND FLAG_NTPKEY_SHA1 \<noteq> 0
      then let s = cli_puts (ascii ''WARNING: More than one ntpkey type specified'' @ crlf) s2 in
           set_cfg_flags (shell_flags s AND NOT (FLAG_NTPKEY_MD5 OR FLAG_NTPKEY_SHA1)) s else s2)" .
  have "holds (saved_flags hw ?f) (check_flags hw s)"
    unfolding k saved_flags_def using s2 flags [OF s2] by (auto simp: step_key_def Let_def still both [OF s2])
  then show ?thesis by (simp add: holds_def)
qed

lemma cli_save_written:
  assumes "length (cli_cfg s) = 120"
  shows "\<exists>f'. sane_flags (has_pps (i_hwver e)) (get32 (cli_cfg s) CFG_flags) f'
    \<and> (let written = copy_into (cli_cfg s) CFG_flags (bytes32 f'); (result, cfg) = i_write e written in
       cli_cfg (cliSave e s) = cfg \<and> was_reset (cliSave e s) = (was_reset s \<or> result = EERR_OK))"
proof -
  let ?f = "saved_flags (i_hwver e) (get32 (cli_cfg s) CFG_flags)"
  let ?w = "copy_into (cli_cfg s) CFG_flags (bytes32 ?f)"
  let ?s = "cli_puts (ascii ''Writing EEPROM...'' @ crlf) (check_flags (i_hwver e) s)"
  have c: "cli_cfg ?s = ?w" using check_flags_cfg [OF assms] by (simp add: cli_puts_def)
  have r: "was_reset ?s = was_reset s"
    by (simp add: check_flags_def Let_def set_cfg_flags_def cli_puts_def)
  obtain res cfg where w: "i_write e ?w = (res, cfg)" by (cases "i_write e ?w")
  have "cliSave e s = (if res = EERR_OK then (cli_puts (ascii ''OK'' @ crlf) (?s\<lparr>cli_cfg := cfg\<rparr>))\<lparr>was_reset := True\<rparr>
      else show_eeprom_error res (?s\<lparr>cli_cfg := cfg\<rparr>))"
    using w by (simp add: cliSave_def cliWriteConfig_def Let_def c)
  then have "cli_cfg (cliSave e s) = cfg" "was_reset (cliSave e s) = (was_reset s \<or> res = EERR_OK)"
    using r by (auto simp: show_eeprom_error_def cli_puts_def)
  moreover have "sane_flags (has_pps (i_hwver e)) (get32 (cli_cfg s) CFG_flags) ?f"
    unfolding saved_flags_def by (rule sane_steps)
  ultimately show ?thesis using w by (intro exI [of _ ?f]) simp
qed



section \<open>Leaving the command line\<close>

text \<open>
  \<open>exit\<close> leaves \<open>cl_count\<close> as it is, so the line feed of the CR LF that ended the line runs a line that
  nobody typed, the carriage return that was kept in the buffer: the unit answers with an error message and the
  command line is enabled again.
\<close>

lemma exit_then_line_feed:
  "(case cli_run env0 (ascii ''exit'' @ [13, 10]) shell0 of
      Inl _ \<Rightarrow> False
    | Inr s \<Rightarrow> cl_enabled s \<and>
        terminal s = ascii ''exit'' @ crlf @ ascii ''Exiting cmdline mode.'' @ crlf
          @ ascii ''Configuration changes have not been saved.'' @ crlf @ ascii ''Press Enter to enable cmdline.'' @ crlf
          @ crlf @ ascii ''ERR: Unknown command, try '' @ 39 # ascii ''help'' @ 39 # crlf @ crlf @ ascii ''# '')"
  by code_simp

end
