(* ===== verification/Serial.thy ===== *)
theory Serial
  imports Dma
begin

text \<open>
  The serial ports, \<open>src/lib/stm32/serial.c\<close>. A port without a DMA channel is written through a queue that its
  interrupt empties; the writer turns the interrupt on after each byte with a read and a write of the control
  register, between which the interrupt may run. The theory shows that nothing that is written is lost, reordered
  or left in the queue with the interrupt off. A port with a DMA channel is written in one transfer.
\<close>

section \<open>State\<close>

definition SERIAL_TX_SIZE :: nat where "SERIAL_TX_SIZE = 16"
definition SERIAL_RX_SIZE :: nat where "SERIAL_RX_SIZE = 16"
definition USART_SR_RXNE :: u32 where "USART_SR_RXNE = 0x20"
definition USART_SR_TC :: u32 where "USART_SR_TC = 0x40"
definition USART_SR_TXE :: u32 where "USART_SR_TXE = 0x80"
definition USART_CR1_RE :: u32 where "USART_CR1_RE = 0x04"
definition USART_CR1_TE :: u32 where "USART_CR1_TE = 0x08"
definition USART_CR1_RXNEIE :: u32 where "USART_CR1_RXNEIE = 0x20"
definition USART_CR1_TXEIE :: u32 where "USART_CR1_TXEIE = 0x80"
definition USART_CR1_UE :: u32 where "USART_CR1_UE = 0x2000"
definition USART_CR3_DMAT :: u32 where "USART_CR3_DMAT = 0x80"
definition IRQ_PRIO_USART :: u32 where "IRQ_PRIO_USART = 12"

datatype serial_port = Serial1 | Serial4 | Serial5
datatype serial_fn = Usart_tcie

text \<open>
  \<open>wire\<close> is what has been given to the transmitter, \<open>tcie_sem\<close> the semaphore of the DMA ports, \<open>in_set\<close> whether
  the receive queue is a member of the main loop's queue set, \<open>clocked\<close> whether the port's clock is on.
\<close>

record serial =
  usart_sr :: u32
  usart_cr1 :: u32
  usart_cr3 :: u32
  usart_brr :: u32
  speed :: u32
  tx_q :: "u8 list option"
  rx_q :: "u8 list option"
  in_set :: bool
  tcie_sem :: "nat option"
  ser_dma :: "nat option"
  clocked :: bool
  irq_on :: bool
  wire :: "u8 list"

section \<open>Set-up\<close>

text \<open>A division by zero is undefined.\<close>

definition serial_set_speed :: "serial_port \<Rightarrow> u32 \<Rightarrow> serial \<Rightarrow> serial res" where
  "serial_set_speed port system_frequency s =
     (if speed s = 0 then Inl (Undef ''division'')
      else Inr (s\<lparr>usart_brr := (if port = Serial1 then system_frequency div speed s else system_frequency div 2 div speed s)\<rparr>))"

definition serial_start :: "serial_port \<Rightarrow> u32 \<Rightarrow> bool \<Rightarrow> u32 \<Rightarrow> nat \<Rightarrow> nat \<Rightarrow> serial \<Rightarrow> serial_fn dma \<Rightarrow> (serial \<times> serial_fn dma) res" where
  "serial_start port spd queue_set system_frequency dr self s d =
     (let s = s\<lparr>rx_q := Some [], in_set := queue_set, speed := spd, ser_dma := None\<rparr>;
          s = (case port of
                 Serial1 \<Rightarrow> s\<lparr>clocked := True, ser_dma := Some 3\<rparr>
               | Serial4 \<Rightarrow> s\<lparr>clocked := True, ser_dma := Some 11\<rparr>
               | Serial5 \<Rightarrow> s\<lparr>clocked := True\<rparr>);
          s = s\<lparr>irq_on := True\<rparr> in
      rbind (serial_set_speed port system_frequency s) (\<lambda>s.
      let s = s\<lparr>usart_cr3 := 0\<rparr>;
          (s, d) = (case ser_dma s of
             Some i \<Rightarrow>
               let d = dma_allocate (dma_streams ! i) IRQ_PRIO_USART (Some Usart_tcie) self d;
                   d = d\<lparr>d_cpar := (d_cpar d)[i := dr]\<rparr> in
               (s\<lparr>usart_cr3 := usart_cr3 s OR USART_CR3_DMAT, tx_q := None, tcie_sem := Some 0\<rparr>, d)
           | None \<Rightarrow> (s\<lparr>tx_q := Some [], tcie_sem := None\<rparr>, d)) in
      Inr (s\<lparr>usart_cr1 := USART_CR1_UE OR USART_CR1_TE OR USART_CR1_RE OR USART_CR1_RXNEIE\<rparr>, d)))"

section \<open>The interrupt\<close>

text \<open>\<open>sr\<close> and \<open>dr\<close> are what the registers read. A byte that finds the receive queue full is dropped.\<close>

definition usart_rx :: "u32 \<Rightarrow> u8 \<Rightarrow> serial \<Rightarrow> serial" where
  "usart_rx sr dr s =
     (case rx_q s of
        Some q \<Rightarrow> if sr AND USART_SR_RXNE \<noteq> 0 \<and> length q < SERIAL_RX_SIZE then s\<lparr>rx_q := Some (q @ [dr])\<rparr> else s
      | None \<Rightarrow> s)"

definition usart_tx :: "u32 \<Rightarrow> serial \<Rightarrow> serial" where
  "usart_tx sr s =
     (if sr AND USART_SR_TXE \<noteq> 0
      then (case tx_q s of
              Some (val # q) \<Rightarrow> s\<lparr>tx_q := Some q, wire := wire s @ [val]\<rparr>
            | _ \<Rightarrow> s\<lparr>usart_cr1 := usart_cr1 s AND NOT USART_CR1_TXEIE\<rparr>)
      else s)"

definition usart_irq :: "u32 \<Rightarrow> u8 \<Rightarrow> serial \<Rightarrow> serial" where
  "usart_irq sr dr s = usart_tx sr (usart_rx sr dr s)"

text \<open>\<open>serial_get\<close> without waiting: \<open>None\<close> is \<open>EERR_TIMEOUT\<close>.\<close>

definition serial_get :: "serial \<Rightarrow> u8 option \<times> serial" where
  "serial_get s = (case rx_q s of Some (v # q) \<Rightarrow> (Some v, s\<lparr>rx_q := Some q\<rparr>) | _ \<Rightarrow> (None, s))"

definition serial_drain_done :: "serial \<Rightarrow> bool" where
  "serial_drain_done s \<longleftrightarrow> usart_sr s AND USART_SR_TC \<noteq> 0"

section \<open>Writing with DMA\<close>

definition usart_tcie :: "serial \<times> serial_fn dma \<Rightarrow> serial \<times> serial_fn dma" where
  "usart_tcie = (\<lambda>(s, d). (s\<lparr>tcie_sem := Some 1\<rparr>, dma_disable (dma_streams ! the (ser_dma s)) d))"

definition dma_write_setup :: "nat \<Rightarrow> u16 \<Rightarrow> serial \<Rightarrow> serial_fn dma \<Rightarrow> serial \<times> serial_fn dma" where
  "dma_write_setup addr len s d =
     (let s = s\<lparr>usart_sr := usart_sr s AND NOT USART_SR_TC\<rparr>;
          i = the (ser_dma s); ch = dma_streams ! i;
          d = dma_disable ch d;
          d = set_ccr ch (DMA_CCR1_DIR OR DMA_CCR1_MINC OR DMA_CCR1_TEIE OR DMA_CCR1_TCIE) d;
          d = d\<lparr>d_cmar := (d_cmar d)[i := addr], d_cndtr := (d_cndtr d)[i := ucast len]\<rparr> in
      (s, dma_enable ch d))"

text \<open>
  The controller gives the bytes from the address on to the transmitter, raises its flags and interrupts; with nothing
  to move it does nothing, and a wait that nothing ends is \<open>Fuel\<close>.
\<close>

definition dma_tx_hw :: "(nat \<Rightarrow> u8) \<Rightarrow> serial \<times> serial_fn dma \<Rightarrow> serial \<times> serial_fn dma" where
  "dma_tx_hw mem = (\<lambda>(s, d).
     (let i = the (ser_dma s); n = unat (d_cndtr d ! i) in
      if n = 0 \<or> d_ccr d ! i AND DMA_CCR1_EN = 0 \<or> usart_cr3 s AND USART_CR3_DMAT = 0 then (s, d)
      else let s = s\<lparr>wire := wire s @ map (\<lambda>k. mem (d_cmar d ! i + (if d_ccr d ! i AND DMA_CCR1_MINC \<noteq> 0 then k else 0))) [0..<n]\<rparr>;
               d = raise_tc (dma_streams ! i) (d\<lparr>d_cndtr := (d_cndtr d)[i := 0]\<rparr>) in
           if d_ccr d ! i AND DMA_CCR1_TCIE \<noteq> 0 \<and> dc_vector (dma_streams ! i) \<in> nvic d
           then let (call, d) = DMA_IRQHandler i d in
                (case call of None \<Rightarrow> (s, d) | Some (Usart_tcie, _, _) \<Rightarrow> usart_tcie (s, d))
           else (s, d)))"

definition dma_write :: "(nat \<Rightarrow> u8) \<Rightarrow> nat \<Rightarrow> u16 \<Rightarrow> serial \<Rightarrow> serial_fn dma \<Rightarrow> (serial \<times> serial_fn dma) res" where
  "dma_write mem addr len s d =
     (let (s, d) = dma_tx_hw mem (dma_write_setup addr len s d) in
      if tcie_sem s = Some 1 then Inr (s\<lparr>tcie_sem := Some 0\<rparr>, d) else Inl Fuel)"

section \<open>Writing through the queue\<close>

text \<open>
  Where the thread is that holds the port's mutex: between calls; about to queue the next byte of a string; about
  to read the control register; about to write it back.
\<close>

datatype writer = W_idle | W_put "u8 list" | W_load "u8 list" | W_store "u8 list" u32

record port =
  uart :: serial
  wr_at :: writer

definition write_start :: "u8 list \<Rightarrow> port \<Rightarrow> port" where
  "write_start value p = p\<lparr>uart := (uart p)\<lparr>usart_sr := usart_sr (uart p) AND NOT USART_SR_TC\<rparr>, wr_at := W_put value\<rparr>"

definition putc_send :: "u8 \<Rightarrow> u8 list \<Rightarrow> port \<Rightarrow> port" where
  "putc_send b bs p = p\<lparr>uart := (uart p)\<lparr>tx_q := map_option (\<lambda>q. q @ [b]) (tx_q (uart p))\<rparr>, wr_at := W_load bs\<rparr>"

definition putc_load :: "u8 list \<Rightarrow> port \<Rightarrow> port" where
  "putc_load bs p = p\<lparr>wr_at := W_store bs (usart_cr1 (uart p))\<rparr>"

definition putc_store :: "u8 list \<Rightarrow> u32 \<Rightarrow> port \<Rightarrow> port" where
  "putc_store bs v p = p\<lparr>uart := (uart p)\<lparr>usart_cr1 := v OR USART_CR1_TXEIE\<rparr>, wr_at := W_put bs\<rparr>"

text \<open>The interrupt is requested when a flag is set whose interrupt is enabled.\<close>

definition irq_wanted :: "u32 \<Rightarrow> serial \<Rightarrow> bool" where
  "irq_wanted sr s \<longleftrightarrow> sr AND USART_SR_TXE \<noteq> 0 \<and> usart_cr1 s AND USART_CR1_TXEIE \<noteq> 0
     \<or> sr AND USART_SR_RXNE \<noteq> 0 \<and> usart_cr1 s AND USART_CR1_RXNEIE \<noteq> 0"

datatype tx_label = Write "u8 list" | Tau | Irq u32 u8

inductive tx_step :: "port \<Rightarrow> tx_label \<Rightarrow> port \<Rightarrow> bool" where
  begin_write: "wr_at p = W_idle \<Longrightarrow> tx_step p (Write bs) (write_start bs p)"
| send: "wr_at p = W_put (b # bs) \<Longrightarrow> tx_q (uart p) = Some q \<Longrightarrow> length q < SERIAL_TX_SIZE \<Longrightarrow> tx_step p Tau (putc_send b bs p)"
| load: "wr_at p = W_load bs \<Longrightarrow> tx_step p Tau (putc_load bs p)"
| store: "wr_at p = W_store bs v \<Longrightarrow> tx_step p Tau (putc_store bs v p)"
| finish: "wr_at p = W_put [] \<Longrightarrow> tx_step p Tau (p\<lparr>wr_at := W_idle\<rparr>)"
| irq: "irq_wanted sr (uart p) \<Longrightarrow> tx_step p (Irq sr dr) (p\<lparr>uart := usart_irq sr dr (uart p)\<rparr>)"

inductive tx_run :: "port \<Rightarrow> tx_label list \<Rightarrow> port \<Rightarrow> bool" where
  nil: "tx_run p [] p"
| snoc: "tx_run p es q \<Longrightarrow> tx_step q e r \<Longrightarrow> tx_run p (es @ [e]) r"

text \<open>What was written in a run, and what of it the writer has still to queue.\<close>

fun written :: "tx_label list \<Rightarrow> u8 list" where
  "written [] = []"
| "written (Write bs # es) = bs @ written es"
| "written (e # es) = written es"

fun pending :: "writer \<Rightarrow> u8 list" where
  "pending W_idle = []"
| "pending (W_put bs) = bs"
| "pending (W_load bs) = bs"
| "pending (W_store bs v) = bs"

lemma written_append [simp]: "written (es @ fs) = written es @ written fs"
  by (induction es rule: written.induct) auto

section \<open>The invariant\<close>

definition txeie :: "serial \<Rightarrow> bool" where
  "txeie s \<longleftrightarrow> usart_cr1 s AND USART_CR1_TXEIE \<noteq> 0"

definition tx_inv :: "u8 list \<Rightarrow> port \<Rightarrow> bool" where
  "tx_inv all p \<longleftrightarrow> (\<exists>q. tx_q (uart p) = Some q \<and> length q \<le> SERIAL_TX_SIZE \<and> wire (uart p) @ q @ pending (wr_at p) = all
     \<and> (q \<noteq> [] \<longrightarrow> txeie (uart p) \<or> (\<exists>bs. wr_at p = W_load bs) \<or> (\<exists>bs v. wr_at p = W_store bs v)))"

lemma txeie_or: "txeie (s\<lparr>usart_cr1 := v OR USART_CR1_TXEIE\<rparr>)"
proof -
  have "bit ((v OR USART_CR1_TXEIE) AND USART_CR1_TXEIE) 7" by (simp add: bit_and_iff bit_or_iff USART_CR1_TXEIE_def)
  then show ?thesis unfolding txeie_def by (metis bit_0_eq bot_apply bot_bool_def serial.select_convs(2) serial.surjective serial.update_convs(2))
qed

lemma tx_inv_step:
  assumes "tx_step p e r" "tx_inv all p"
  shows "tx_inv (all @ written [e]) r"
  using assms
proof (cases rule: tx_step.cases)
  case (begin_write bs)
  then show ?thesis using assms(2) by (auto simp: tx_inv_def write_start_def txeie_def)
next
  case (send b bs q)
  then show ?thesis using assms(2) by (auto simp: tx_inv_def putc_send_def)
next
  case (load bs)
  then show ?thesis using assms(2) by (auto simp: tx_inv_def putc_load_def)
next
  case (store bs v)
  then show ?thesis using assms(2) by (auto simp: tx_inv_def putc_store_def txeie_or)
next
  case finish
  then show ?thesis using assms(2) by (auto simp: tx_inv_def)
next
  case (irq sr dr)
  let ?s = "usart_rx sr dr (uart p)"
  have s: "tx_q ?s = tx_q (uart p)" "wire ?s = wire (uart p)" "usart_cr1 ?s = usart_cr1 (uart p)"
    by (auto simp: usart_rx_def split: option.split)
  show ?thesis using irq assms(2) unfolding tx_inv_def usart_irq_def usart_tx_def by (auto simp: s txeie_def split: list.split)
qed

lemma tx_inv_run: "tx_run p es r \<Longrightarrow> tx_inv all p \<Longrightarrow> tx_inv (all @ written es) r"
  by (induction rule: tx_run.induct) (auto dest: tx_inv_step)

text \<open>With the writer out of the way, interrupts alone empty the queue.\<close>

lemma one_irq:
  assumes "tx_q (uart p) = Some (b # q)" "txeie (uart p)"
  shows "\<exists>r. tx_step p (Irq USART_SR_TXE 0) r \<and> tx_q (uart r) = Some q \<and> wire (uart r) = wire (uart p) @ [b] \<and> txeie (uart r) \<and> wr_at r = wr_at p"
proof -
  have z: "USART_SR_TXE AND USART_SR_TXE \<noteq> 0" "\<not> USART_SR_TXE AND USART_SR_RXNE \<noteq> 0" by (simp_all add: USART_SR_TXE_def USART_SR_RXNE_def)
  have u: "usart_irq USART_SR_TXE 0 (uart p) = (uart p)\<lparr>tx_q := Some q, wire := wire (uart p) @ [b]\<rparr>"
    using assms z by (simp add: usart_irq_def usart_rx_def usart_tx_def split: option.split)
  have "irq_wanted USART_SR_TXE (uart p)" using assms(2) z by (simp add: irq_wanted_def txeie_def)
  then show ?thesis using irq [of USART_SR_TXE p 0] assms(2) u by (intro exI [of _ "p\<lparr>uart := usart_irq USART_SR_TXE 0 (uart p)\<rparr>"]) (simp add: txeie_def)
qed

lemma tx_run_append: "tx_run q fs r \<Longrightarrow> tx_run p es q \<Longrightarrow> tx_run p (es @ fs) r"
  by (induction rule: tx_run.induct) (auto simp flip: append_assoc intro: snoc)

lemma tx_run_one: "tx_step p e r \<Longrightarrow> tx_run p [e] r"
  using snoc [OF nil] by fastforce

lemma irqs_empty:
  "tx_q (uart p) = Some q \<Longrightarrow> txeie (uart p) \<Longrightarrow>
   \<exists>fs r. tx_run p fs r \<and> written fs = [] \<and> tx_q (uart r) = Some [] \<and> wire (uart r) = wire (uart p) @ q \<and> wr_at r = wr_at p"
proof (induction q arbitrary: p)
  case Nil
  then show ?case using nil [of p] by (intro exI [of _ "[]"] exI [of _ p]) simp
next
  case (Cons b q)
  obtain r where r: "tx_step p (Irq USART_SR_TXE 0) r" "tx_q (uart r) = Some q" "wire (uart r) = wire (uart p) @ [b]" "txeie (uart r)" "wr_at r = wr_at p"
    using one_irq [OF Cons.prems] by blast
  obtain fs t where t: "tx_run r fs t" "written fs = []" "tx_q (uart t) = Some []" "wire (uart t) = wire (uart r) @ q" "wr_at t = wr_at r"
    using Cons.IH [OF r(2,4)] by blast
  show ?case using tx_run_append [OF t(1) tx_run_one [OF r(1)]] t r by (intro exI [of _ "[Irq USART_SR_TXE 0] @ fs"] exI [of _ t]) simp
qed

text \<open>The writer gets on: it queues what is pending, waiting for the interrupt when the queue is full.\<close>

lemma writer_done:
  "tx_inv all p \<Longrightarrow> \<exists>fs r. tx_run p fs r \<and> written fs = [] \<and> wr_at r = W_idle"
proof (induction "length (pending (wr_at p))" arbitrary: p rule: less_induct)
  case less
  have put: "\<exists>fs r. tx_run p fs r \<and> written fs = [] \<and> wr_at r = W_idle" if p: "wr_at p = W_put bs" "tx_inv all p" "length bs \<le> n"
    and ih: "\<And>r. tx_inv all r \<Longrightarrow> length (pending (wr_at r)) < n \<Longrightarrow> \<exists>fs t. tx_run r fs t \<and> written fs = [] \<and> wr_at t = W_idle" for p bs n
  proof (cases bs)
    case Nil
    then show ?thesis using p tx_run_one [OF finish [of p]] by (intro exI [of _ "[Tau]"] exI [of _ "p\<lparr>wr_at := W_idle\<rparr>"]) simp
  next
    case (Cons b cs)
    obtain q where q: "tx_q (uart p) = Some q" "length q \<le> SERIAL_TX_SIZE" "q \<noteq> [] \<Longrightarrow> txeie (uart p)" using p by (auto simp: tx_inv_def)
    obtain fs r where r: "tx_run p fs r" "written fs = []" "wr_at r = wr_at p" "\<exists>q'. tx_q (uart r) = Some q' \<and> length q' < SERIAL_TX_SIZE"
    proof (cases "length q < SERIAL_TX_SIZE")
      case True
      then show ?thesis using that [OF nil] q by simp
    next
      case False
      then have "q \<noteq> []" by (auto simp: SERIAL_TX_SIZE_def)
      then show ?thesis using irqs_empty [OF q(1)] q(3) that by (force simp: SERIAL_TX_SIZE_def)
    qed
    then obtain q' where q': "tx_q (uart r) = Some q'" "length q' < SERIAL_TX_SIZE" by blast
    have "tx_step r Tau (putc_send b cs r)" using send [of r b cs q'] r(3) p(1) Cons q' by simp
    then have run: "tx_run p (fs @ [Tau]) (putc_send b cs r)" by (rule snoc [OF r(1)])
    moreover have "tx_inv (all @ written (fs @ [Tau])) (putc_send b cs r)" by (rule tx_inv_run [OF run p(2)])
    ultimately obtain gs t where "tx_run (putc_send b cs r) gs t" "written gs = []" "wr_at t = W_idle"
      using ih [of "putc_send b cs r"] Cons p(3) r(2) by (auto simp: putc_send_def)
    then show ?thesis using tx_run_append [OF _ run] r(2) by (intro exI [of _ "(fs @ [Tau]) @ gs"] exI [of _ t]) simp
  qed
  show ?case
  proof (cases "wr_at p")
    case W_idle
    then show ?thesis using nil [of p] by (intro exI [of _ "[]"] exI [of _ p]) simp
  next
    case (W_put bs)
    then show ?thesis using put [OF W_put less.prems, of "length bs"] less.hyps by simp
  next
    case (W_load bs)
    define r where "r = putc_store bs (usart_cr1 (uart p)) (putc_load bs p)"
    have "tx_step p Tau (putc_load bs p)" "tx_step (putc_load bs p) Tau r"
      unfolding r_def by (rule load [OF W_load], rule store) (simp add: putc_load_def)
    then have run: "tx_run p ([Tau] @ [Tau]) r" using snoc [OF tx_run_one] by blast
    have inv: "tx_inv all r" using tx_inv_run [OF run less.prems] by simp
    have "wr_at r = W_put bs" by (simp add: r_def putc_store_def)
    from put [OF this inv, of "length bs"] obtain fs t where "tx_run r fs t" "written fs = []" "wr_at t = W_idle"
      using less.hyps W_load by auto
    then show ?thesis using tx_run_append [OF _ run] by (intro exI [of _ "([Tau] @ [Tau]) @ fs"] exI [of _ t]) simp
  next
    case (W_store bs v)
    define r where "r = putc_store bs v p"
    have run: "tx_run p [Tau] r" unfolding r_def by (rule tx_run_one [OF store [OF W_store]])
    have inv: "tx_inv all r" using tx_inv_run [OF run less.prems] by simp
    have "wr_at r = W_put bs" by (simp add: r_def putc_store_def)
    from put [OF this inv, of "length bs"] obtain fs t where "tx_run r fs t" "written fs = []" "wr_at t = W_idle"
      using less.hyps W_store by auto
    then show ?thesis using tx_run_append [OF _ run] by (intro exI [of _ "[Tau] @ fs"] exI [of _ t]) simp
  qed
qed

section \<open>The DMA ports\<close>

definition dma_port :: "serial \<Rightarrow> serial_fn dma \<Rightarrow> bool" where
  "dma_port s d \<longleftrightarrow> (\<exists>i < 12. ser_dma s = Some i \<and> dma_ok d \<and> isr_funcs d ! i = Some Usart_tcie \<and> dc_vector (dma_streams ! i) \<in> nvic d
     \<and> tcie_sem s = Some 0 \<and> usart_cr3 s AND USART_CR3_DMAT \<noteq> 0)"

lemma serial_start_dma:
  assumes "port \<noteq> Serial5" "dma_ok d0" "serial_start port spd qs freq dr self s0 d0 = Inr (s, d)"
  shows "dma_port s d" "wire s = wire s0"
proof -
  let ?i = "if port = Serial1 then 3 else 11 :: nat"
  have i: "ser_dma s = Some ?i" "tcie_sem s = Some 0" "usart_cr3 s = USART_CR3_DMAT" "wire s = wire s0"
    "d = (dma_allocate (dma_streams ! ?i) IRQ_PRIO_USART (Some Usart_tcie) self d0)\<lparr>d_cpar := (d_cpar (dma_allocate (dma_streams ! ?i) IRQ_PRIO_USART (Some Usart_tcie) self d0))[?i := dr]\<rparr>"
    using assms(1,3) by (cases port; auto simp: serial_start_def Let_def serial_set_speed_def split: if_splits)+
  have k: "?i < 12" "dc_index (dma_streams ! ?i) = ?i" using stream_nth [of ?i] by auto
  have "isr_funcs d ! ?i = Some Usart_tcie" "dc_vector (dma_streams ! ?i) \<in> nvic d" "dma_ok d"
    using assms(2) k unfolding i(5) by (simp_all add: dma_allocate_def dma_disable_def set_ccr_def write_ifcr_def Let_def dma_ok_def)
  then show "dma_port s d" "wire s = wire s0" using i k by (auto simp: dma_port_def USART_CR3_DMAT_def)
qed

lemma dma_write_all:
  assumes "dma_port s d" "0 < len"
  shows "\<exists>s' d'. dma_write mem addr len s d = Inr (s', d') \<and> dma_port s' d' \<and> wire s' = wire s @ map (\<lambda>k. mem (addr + k)) [0..<unat len]"
proof -
  obtain i where i: "i < 12" "ser_dma s = Some i" "dma_ok d" "isr_funcs d ! i = Some Usart_tcie" "dc_vector (dma_streams ! i) \<in> nvic d"
    "tcie_sem s = Some 0" "usart_cr3 s AND USART_CR3_DMAT \<noteq> 0" using assms(1) by (auto simp: dma_port_def)
  have k: "dc_index (dma_streams ! i) = i" using stream_nth [OF i(1)] by simp
  obtain s1 d1 where s1: "dma_write_setup addr len s d = (s1, d1)" by (cases "dma_write_setup addr len s d")
  have e: "ser_dma s1 = Some i" "wire s1 = wire s" "usart_cr3 s1 = usart_cr3 s" "tcie_sem s1 = Some 0"
    "d_cndtr d1 ! i = ucast len" "d_cmar d1 ! i = addr" "d_ccr d1 ! i = DMA_CCR1_DIR OR DMA_CCR1_MINC OR DMA_CCR1_TEIE OR DMA_CCR1_TCIE OR DMA_CCR1_EN"
    "isr_funcs d1 = isr_funcs d" "nvic d1 = nvic d" "dma_ok d1"
    using s1 i k by (auto simp: dma_write_setup_def Let_def dma_enable_def dma_disable_def set_ccr_def write_ifcr_def dma_ok_def or.assoc)
  have b: "d_ccr d1 ! i AND DMA_CCR1_EN \<noteq> 0" "d_ccr d1 ! i AND DMA_CCR1_MINC \<noteq> 0" "d_ccr d1 ! i AND DMA_CCR1_TCIE \<noteq> 0"
    unfolding e(7) by (simp_all add: dma_bits)
  have n: "unat (d_cndtr d1 ! i) = unat len" "unat len \<noteq> 0" using e(5) len_up [of len] assms(2) by (simp_all add: unat_eq_0 word_gt_0)
  define s2 where "s2 = s1\<lparr>wire := wire s1 @ map (\<lambda>k. mem (addr + k)) [0..<unat len]\<rparr>"
  define d2 where "d2 = raise_tc (dma_streams ! i) (d1\<lparr>d_cndtr := (d_cndtr d1)[i := 0]\<rparr>)"
  have d2: "isr_funcs d2 = isr_funcs d" "nvic d2 = nvic d" "d_ccr d2 = d_ccr d1" "dma_ok d2"
    using e by (simp_all add: d2_def) (simp add: dma_ok_def raise_tc_def)
  obtain d3 where h: "DMA_IRQHandler i d2 = (Some (Usart_tcie, isr_params d2 ! i, drop_bit (4 * (i mod 7)) (d_isr d2 DMA1) AND 0xF), d3)"
    using handler_clears(2) [OF i(1), of d2] d2(1) i(4) by (cases "DMA_IRQHandler i d2") simp
  have d3: "isr_funcs d3 = isr_funcs d" "nvic d3 = nvic d" "dma_ok d3"
    using handler_frame [where i = i and d = d2] h d2 by simp_all
  let ?d = "dma_disable (dma_streams ! i) d3"
  have "dma_tx_hw mem (s1, d1) = (s2\<lparr>tcie_sem := Some 1\<rparr>, ?d)"
    using n b i e h d2 by (simp add: dma_tx_hw_def Let_def d2_def [symmetric] s2_def usart_tcie_def)
  then have "dma_write mem addr len s d = Inr (s2\<lparr>tcie_sem := Some 1, tcie_sem := Some 0\<rparr>, ?d)" by (simp add: dma_write_def s1)
  moreover have "dma_port (s2\<lparr>tcie_sem := Some 1, tcie_sem := Some 0\<rparr>) ?d" using i e d3 by (auto simp: dma_port_def s2_def)
  ultimately show ?thesis using e by (intro exI [of _ "s2\<lparr>tcie_sem := Some 1, tcie_sem := Some 0\<rparr>"] exI [of _ ?d]) (simp add: s2_def)
qed

section \<open>Properties\<close>

text \<open>C31. Nothing that is written to a queued port is lost or reordered, and the interrupt is never left off: in every
  interleaving of the writer's steps with the interrupt, what has been transmitted, what is queued and what the writer
  still holds are together what was written, in order; and from every state the writer can finish and interrupts alone
  can transmit everything.\<close>

theorem serial_tx_complete:
  assumes start: "serial_start Serial5 spd qs freq dr self s0 d0 = Inr (s, d)" "wire s0 = []"
    and run: "tx_run \<lparr>uart = s, wr_at = W_idle\<rparr> es p"
  shows "(\<exists>q. tx_q (uart p) = Some q \<and> length q \<le> SERIAL_TX_SIZE \<and> wire (uart p) @ q @ pending (wr_at p) = written es)
    \<and> (\<exists>fs r. tx_run \<lparr>uart = s, wr_at = W_idle\<rparr> (es @ fs) r \<and> written fs = [] \<and> wr_at r = W_idle \<and> wire (uart r) = written es)"
proof -
  have "tx_q s = Some []" "wire s = []" using start by (auto simp: serial_start_def Let_def serial_set_speed_def split: if_splits)
  then have "tx_inv [] \<lparr>uart = s, wr_at = W_idle\<rparr>" by (simp add: tx_inv_def)
  then have inv: "tx_inv (written es) p" using tx_inv_run [OF run] by fastforce
  obtain fs r where r: "tx_run p fs r" "written fs = []" "wr_at r = W_idle" using writer_done [OF inv] by blast
  have "tx_inv (written es) r" using tx_inv_run [OF r(1) inv] r(2) by simp
  then obtain q where q: "tx_q (uart r) = Some q" "wire (uart r) @ q = written es" "q \<noteq> [] \<Longrightarrow> txeie (uart r)" using r(3) by (auto simp: tx_inv_def)
  have "\<exists>fs r. tx_run \<lparr>uart = s, wr_at = W_idle\<rparr> (es @ fs) r \<and> written fs = [] \<and> wr_at r = W_idle \<and> wire (uart r) = written es"
  proof (cases "q = []")
    case True
    then show ?thesis using tx_run_append [OF r(1) run] r q by auto
  next
    case False
    obtain gs t where t: "tx_run r gs t" "written gs = []" "wire (uart t) = wire (uart r) @ q" "wr_at t = wr_at r"
      using irqs_empty [OF q(1) q(3) [OF False]] by blast
    show ?thesis using tx_run_append [OF t(1) tx_run_append [OF r(1) run]] r t q
      by (intro exI [of _ "fs @ gs"] exI [of _ t]) simp
  qed
  moreover have "\<exists>q. tx_q (uart p) = Some q \<and> length q \<le> SERIAL_TX_SIZE \<and> wire (uart p) @ q @ pending (wr_at p) = written es"
    using inv by (auto simp: tx_inv_def)
  ultimately show ?thesis by blast
qed

definition serial0 :: serial where
  "serial0 = \<lparr>usart_sr = 0, usart_cr1 = 0, usart_cr3 = 0, usart_brr = 0, speed = 0, tx_q = None, rx_q = None, in_set = False, tcie_sem = None,
     ser_dma = None, clocked = False, irq_on = False, wire = []\<rparr>"

definition dma0 :: "'f dma" where
  "dma0 = \<lparr>d_isr = (\<lambda>_. 0), d_ccr = replicate 12 0, d_cndtr = replicate 12 0, d_cpar = replicate 12 0, d_cmar = replicate 12 0,
     isr_funcs = replicate 12 None, isr_params = replicate 12 0, nvic = {}, nvic_prio = (\<lambda>_. 0)\<rparr>"

theorem serial_tx_complete_witness:
  "\<exists>s d fs r. serial_start Serial5 57600 True 72000000 0 0 serial0 dma0 = Inr (s, d)
     \<and> tx_run \<lparr>uart = s, wr_at = W_idle\<rparr> ([Write [104, 105]] @ fs) r \<and> wire (uart r) = [104, 105]"
proof -
  obtain s d where s: "serial_start Serial5 57600 True 72000000 0 0 serial0 dma0 = Inr (s, d)"
    by (simp add: serial_start_def Let_def serial_set_speed_def serial0_def)
  have w: "wire serial0 = []" by (simp add: serial0_def)
  have "tx_run \<lparr>uart = s, wr_at = W_idle\<rparr> [Write [104, 105]] (write_start [104, 105] \<lparr>uart = s, wr_at = W_idle\<rparr>)"
    by (rule tx_run_one, rule begin_write) simp
  from serial_tx_complete [OF s w this] s show ?thesis by auto
qed

end
