(* ===== verification/Mainloop.thy ===== *)
theory Mainloop
  imports Cmdline Gps_Parser Serial
begin

text \<open>
  The main thread, \<open>src/src/main.c\<close>: it starts the serial ports, completes the configuration, and then
  hands each received byte to the command line or to the GPS parsers. The receive queues of all three ports are members of one
  queue set, also that of the port it never reads. The theory composes the interrupts of theory \<open>Serial\<close> with
  the command line and the parsers: every byte that a queue accepted reaches its consumer once and in order, no assertion
  fails and the queue set does not overflow.
\<close>

section \<open>State\<close>

text \<open>\<open>qset\<close> has the handles in the queue set; \<open>repeated\<close> is what was written to \<open>Serial5\<close>,
  \<open>to_receiver\<close> what \<open>ublox_configure\<close> wrote.\<close>

record main_sys =
  ports :: "serial_port \<Rightarrow> serial"
  qset :: "serial_port list"
  gps_serial :: serial_port
  main_shell :: shell
  main_gps :: gps_sys
  repeated :: "u8 list"
  to_receiver :: "u8 list list"
  watchdog_main :: u8
  did_watchdog :: bool

section \<open>Starting\<close>

text \<open>\<open>rc\<close> and \<open>cfg\<close> are what \<open>eeprom_read_cfg\<close> returns and leaves in the configuration.\<close>

definition load_eeprom :: "int \<Rightarrow> u8 list \<Rightarrow> shell \<Rightarrow> shell" where
  "load_eeprom rc cfg s =
     (let s = s\<lparr>cli_cfg := cfg\<rparr> in
      if rc \<noteq> EERR_OK
      then let s = s\<lparr>cli_cfg := replicate 120 0\<rparr>;
               s = s\<lparr>cli_cfg := copy_into (cli_cfg s) CFG_version (bytes16 CFG_VERSION)\<rparr> in
           cli_puts (ascii ''ERROR: EEPROM is invalid, run '' @ 39 # ascii ''save'' @ 39 # ascii '' or '' @ 39 # ascii ''defaults'' @ 39 # ascii '' to clear'' @ crlf) s
      else s)"

definition RCC_CSR_RMVF :: u32 where "RCC_CSR_RMVF = 0x01000000"
definition RCC_CSR_IWDGRSTF :: u32 where "RCC_CSR_IWDGRSTF = 0x20000000"
definition RCC_CSR_WWDGRSTF :: u32 where "RCC_CSR_WWDGRSTF = 0x40000000"

text \<open>\<open>sr\<close> is what \<open>CSR\<close> reads; the result has what is written to it.\<close>

definition test_reset :: "u32 \<Rightarrow> main_sys \<Rightarrow> u32 \<times> main_sys" where
  "test_reset sr m =
     (RCC_CSR_RMVF,
      if sr AND (RCC_CSR_WWDGRSTF OR RCC_CSR_IWDGRSTF) \<noteq> 0
      then m\<lparr>main_shell := cli_puts (crlf @ crlf @ ascii ''ERROR: Device was reset by watchdog timer!'' @ crlf) (main_shell m), did_watchdog := True\<rparr>
      else m)"

text \<open>The configuration as the rest of the firmware sees it.\<close>

definition main_config :: "shell \<Rightarrow> shell" where
  "main_config s =
     (let s = set_cfg_flags (shell_flags s AND NOT FLAG_HOLDOVER_TEST) s;
          s = (if get32 (cli_cfg s) CFG_holdover = 0 then s\<lparr>cli_cfg := copy_into (cli_cfg s) CFG_holdover (bytes32 60)\<rparr> else s) in
      if get16 (cli_cfg s) CFG_loopstats_interval = 0 then s\<lparr>cli_cfg := copy_into (cli_cfg s) CFG_loopstats_interval (bytes16 60)\<rparr> else s)"

text \<open>
  The ports are started before the configuration is read, so the speed of \<open>Serial5\<close> is that of a zero
  configuration. The address of a port is its number. \<open>csr\<close> is what the reset register reads. The PPS
  capture, the clock and the network, which are started in between, and the pin that turns the PPS output on have no part in
  this state.
\<close>

definition main_start :: "sysinfo \<Rightarrow> u8 list \<Rightarrow> u32 \<Rightarrow> u32 \<Rightarrow> int \<Rightarrow> u8 list \<Rightarrow> serial_fn dma \<Rightarrow> main_sys \<Rightarrow> (main_sys \<times> serial_fn dma) res" where
  "main_start e board csr freq rc cfg d m =
     rbind (serial_start Serial1 115200 True freq 0 1 (ports m Serial1) d) (\<lambda>(s1, d).
     rbind (serial_start Serial4 57600 True freq 0 4 (ports m Serial4) d) (\<lambda>(s4, d).
     let baud = get32 (cli_cfg (main_shell m)) CFG_gps_baud_rate in
     rbind (serial_start Serial5 (if baud \<noteq> 0 then baud else 57600) True freq 0 5 (ports m Serial5) d) (\<lambda>(s5, d).
     let m = m\<lparr>ports := (ports m)(Serial1 := s1, Serial4 := s4, Serial5 := s5), qset := []\<rparr>;
         s = (cli_set_output 1 (main_shell m))\<lparr>cl_enabled := True\<rparr>;
         s = load_eeprom rc cfg s;
         gps = (if shell_flags (set_cfg_flags (shell_flags s AND NOT FLAG_HOLDOVER_TEST) s) AND FLAG_GPSEXT \<noteq> 0 then Serial5 else Serial4);
         s = main_config s;
         m = snd (test_reset csr (m\<lparr>main_shell := s, gps_serial := gps\<rparr>));
         m = m\<lparr>main_shell := cli_banner board e (main_shell m)\<rparr>;
         m = (if shell_flags (main_shell m) AND FLAG_GPSEXT = 0 then m\<lparr>to_receiver := to_receiver m @ ublox_configure\<rparr> else m) in
     Inr (m\<lparr>main_shell := (main_shell m)\<lparr>cl_enabled := False\<rparr>\<rparr>, d))))"

section \<open>The loop\<close>

text \<open>
  An interrupt of a port; a byte that is queued puts the queue's handle into the set, which has room for 48
  and asserts that it has.
\<close>

definition rx_len :: "serial \<Rightarrow> nat" where
  "rx_len s = (case rx_q s of None \<Rightarrow> 0 | Some q \<Rightarrow> length q)"

definition main_irq :: "serial_port \<Rightarrow> u32 \<Rightarrow> u8 \<Rightarrow> main_sys \<Rightarrow> (bool \<times> main_sys) res" where
  "main_irq p sr dr m =
     (let u = usart_irq sr dr (ports m p); got = rx_len (ports m p) < rx_len u; m = m\<lparr>ports := (ports m)(p := u)\<rparr> in
      if got \<and> in_set u
      then rbind (ASSERT (length (qset m) < SERIAL_RX_SIZE * 3)) (\<lambda>_. Inr (got, m\<lparr>qset := qset m @ [p]\<rparr>))
      else Inr (got, m))"

text \<open>A round takes the first handle of the set, if there is one; it says which byte it took.\<close>

definition main_round :: "sysinfo \<Rightarrow> feed_env \<Rightarrow> main_sys \<Rightarrow> ((serial_port \<times> u8) option \<times> main_sys) res" where
  "main_round e t m =
     (let m = m\<lparr>watchdog_main := 5\<rparr> in
      case qset m of
        [] \<Rightarrow> Inr (None, m)
      | active # rest \<Rightarrow>
          let m = m\<lparr>qset := rest\<rparr> in
          if active = Serial1
          then let (val, u) = serial_get (ports m Serial1); m = m\<lparr>ports := (ports m)(Serial1 := u)\<rparr> in
               rbind (ASSERT (val \<noteq> None)) (\<lambda>_.
               rbind (cli_feed e (the val) (main_shell m)) (\<lambda>s. Inr (Some (Serial1, the val), m\<lparr>main_shell := s\<rparr>)))
          else if active = gps_serial m
          then let (val, u) = serial_get (ports m (gps_serial m)); m = m\<lparr>ports := (ports m)(gps_serial m := u)\<rparr> in
               rbind (ASSERT (val \<noteq> None)) (\<lambda>_.
               rbind (gps_byte_received (t\<lparr>env_flags := shell_flags (main_shell m)\<rparr>) (the val) (main_gps m)) (\<lambda>g.
               let m = m\<lparr>main_gps := g\<rparr> in
               Inr (Some (gps_serial m, the val),
                 if shell_flags (main_shell m) AND FLAG_GPSOUT \<noteq> 0 then m\<lparr>repeated := repeated m @ [the val]\<rparr> else m)))
          else Inr (None, m))"


section \<open>Runs\<close>

text \<open>The parsers read the flags that the configuration has at the time.\<close>

datatype main_label = Rx serial_port u8 bool | Round sysinfo feed_env "(serial_port \<times> u8) option"

inductive main_step :: "main_sys \<Rightarrow> main_label \<Rightarrow> main_sys \<Rightarrow> bool" where
  rx: "main_irq p sr dr m = Inr (got, m') \<Longrightarrow> main_step m (Rx p dr got) m'"
| round: "env_flags t = shell_flags (main_shell m) \<Longrightarrow> main_round e t m = Inr (tk, m') \<Longrightarrow> main_step m (Round e t tk) m'"

inductive main_run :: "main_sys \<Rightarrow> main_label list \<Rightarrow> main_sys \<Rightarrow> bool" where
  nil: "main_run m [] m"
| snoc: "main_run m es n \<Longrightarrow> main_step n e n' \<Longrightarrow> main_run m (es @ [e]) n'"

text \<open>The bytes that a queue accepted and that rounds took from it; what the two consumers were given.\<close>

definition accepted :: "serial_port \<Rightarrow> main_label list \<Rightarrow> u8 list" where
  "accepted p es = concat (map (\<lambda>l. case l of Rx q b got \<Rightarrow> if got \<and> q = p then [b] else [] | _ \<Rightarrow> []) es)"

definition taken :: "serial_port \<Rightarrow> main_label list \<Rightarrow> u8 list" where
  "taken p es = concat (map (\<lambda>l. case l of Round e t (Some (q, b)) \<Rightarrow> if q = p then [b] else [] | _ \<Rightarrow> []) es)"

definition cli_log :: "main_label list \<Rightarrow> (sysinfo \<times> u8) list" where
  "cli_log es = concat (map (\<lambda>l. case l of Round e t (Some (q, b)) \<Rightarrow> if q = Serial1 then [(e, b)] else [] | _ \<Rightarrow> []) es)"

definition gps_log :: "main_label list \<Rightarrow> (feed_env \<times> u8) list" where
  "gps_log es = concat (map (\<lambda>l. case l of Round e t (Some (q, b)) \<Rightarrow> if q \<noteq> Serial1 then [(t, b)] else [] | _ \<Rightarrow> []) es)"

lemmas log_defs = accepted_def taken_def cli_log_def gps_log_def

lemma log_simps [simp]:
  "accepted p [] = []" "taken p [] = []" "cli_log [] = []" "gps_log [] = []"
  "accepted p (es @ [Rx q b got]) = accepted p es @ (if got \<and> q = p then [b] else [])" "accepted p (es @ [Round e t tk]) = accepted p es"
  "taken p (es @ [Rx q b got]) = taken p es" "cli_log (es @ [Rx q b got]) = cli_log es" "gps_log (es @ [Rx q b got]) = gps_log es"
  "taken p (es @ [Round e t None]) = taken p es" "cli_log (es @ [Round e t None]) = cli_log es" "gps_log (es @ [Round e t None]) = gps_log es"
  "taken p (es @ [Round e t (Some (q, b))]) = taken p es @ (if q = p then [b] else [])"
  "cli_log (es @ [Round e t (Some (q, b))]) = cli_log es @ (if q = Serial1 then [(e, b)] else [])"
  "gps_log (es @ [Round e t (Some (q, b))]) = gps_log es @ (if q \<noteq> Serial1 then [(t, b)] else [])"
  by (simp_all add: log_defs)

fun cli_bytes :: "(sysinfo \<times> u8) list \<Rightarrow> shell \<Rightarrow> shell res" where
  "cli_bytes [] s = Inr s"
| "cli_bytes ((e, b) # bs) s = rbind (cli_feed e b s) (cli_bytes bs)"

lemma cli_bytes_append: "cli_bytes (as @ bs) s = rbind (cli_bytes as s) (cli_bytes bs)"
  by (induction as arbitrary: s) (auto simp: rbind_def split: sum.split)

lemma gps_bytes_append: "gps_bytes (as @ bs) s = rbind (gps_bytes as s) (gps_bytes bs)"
  by (induction as arbitrary: s) (auto simp: rbind_def split: sum.split)

section \<open>The invariant\<close>

definition queued :: "main_sys \<Rightarrow> serial_port \<Rightarrow> u8 list" where
  "queued m p = (case rx_q (ports m p) of None \<Rightarrow> [] | Some q \<Rightarrow> q)"

definition port_inv :: "main_sys \<Rightarrow> serial_port \<Rightarrow> bool" where
  "port_inv m p \<longleftrightarrow> rx_q (ports m p) \<noteq> None \<and> length (queued m p) \<le> 16 \<and> in_set (ports m p)
     \<and> count_list (qset m) p \<le> length (queued m p) \<and> (p = Serial1 \<or> p = gps_serial m \<longrightarrow> count_list (qset m) p = length (queued m p))"

definition main_inv :: "main_sys \<Rightarrow> bool" where
  "main_inv m \<longleftrightarrow> gps_serial m \<noteq> Serial1 \<and> (\<forall>p. port_inv m p)"

lemma handles_of_ports: "length xs = count_list xs Serial1 + count_list xs Serial4 + count_list xs Serial5"
  by (induction xs) (use serial_port.exhaust in auto)

lemma set_size: "main_inv m \<Longrightarrow> length (qset m) \<le> 48"
proof -
  assume "main_inv m"
  then have "count_list (qset m) p \<le> 16" for p by (auto simp: main_inv_def port_inv_def dest: spec [of _ p] intro: order_trans)
  from this [of Serial1] this [of Serial4] this [of Serial5] show ?thesis using handles_of_ports [of "qset m"] by simp
qed

lemma usart_irq_rx:
  "rx_q (usart_irq sr dr s) = (case rx_q s of None \<Rightarrow> None | Some q \<Rightarrow> Some (if sr AND USART_SR_RXNE \<noteq> 0 \<and> length q < 16 then q @ [dr] else q))"
  "in_set (usart_irq sr dr s) = in_set s"
  by (auto simp: usart_irq_def usart_rx_def usart_tx_def SERIAL_RX_SIZE_def split: option.split list.split)

lemma count_list_snoc: "count_list (xs @ [x]) y = count_list xs y + (if x = y then 1 else 0)"
  by (induction xs) auto

lemma irq_inv:
  assumes "main_inv m"
  obtains got m' where "main_irq p sr dr m = Inr (got, m')" "main_inv m'" "gps_serial m' = gps_serial m" "main_shell m' = main_shell m" "main_gps m' = main_gps m"
    "repeated m' = repeated m" "\<And>q. queued m' q = queued m q @ (if got \<and> p = q then [dr] else [])"
proof -
  have pi: "port_inv m q" for q using assms by (simp add: main_inv_def)
  obtain b where b: "rx_q (ports m p) = Some b" "length b \<le> 16" "in_set (ports m p)" "count_list (qset m) p \<le> length b"
    using pi [of p] by (auto simp: port_inv_def queued_def)
  let ?u = "usart_irq sr dr (ports m p)"
  define got where "got = (sr AND USART_SR_RXNE \<noteq> 0 \<and> length b < 16)"
  have u: "rx_q ?u = Some (if got then b @ [dr] else b)" "in_set ?u" using b by (simp_all add: usart_irq_rx got_def)
  define m' where "m' = m\<lparr>ports := (ports m)(p := ?u), qset := (if got then qset m @ [p] else qset m)\<rparr>"
  have room: "length (qset m) < 48" if got
  proof -
    have a: "count_list (qset m) q \<le> 16" for q using pi [of q] by (auto simp: port_inv_def)
    have "count_list (qset m) p < 16" using that b(4) by (simp add: got_def)
    then show ?thesis using handles_of_ports [of "qset m"] a [of Serial1] a [of Serial4] a [of Serial5] by (cases p) auto
  qed
  have irq: "main_irq p sr dr m = Inr (got, m')"
    using u room b(1) by (auto simp: main_irq_def Let_def rx_len_def m'_def SERIAL_RX_SIZE_def)
  have q: "queued m' q = queued m q @ (if got \<and> p = q then [dr] else [])" for q using u(1) b(1) by (simp add: m'_def queued_def)
  have "port_inv m' q" for q
    using pi [of q] u b got_def by (auto simp: port_inv_def m'_def queued_def count_list_snoc)
  then have "main_inv m'" using assms by (simp add: main_inv_def m'_def)
  then show thesis using that [OF irq] q by (simp add: m'_def)
qed


lemma get_some: "rx_q s = Some (b # q) \<Longrightarrow> serial_get s = (Some b, s\<lparr>rx_q := Some q\<rparr>)"
  by (simp add: serial_get_def)

text \<open>
  A round from a good state: it takes nothing, or the first byte of a queue that is read, and it faults only where
  the consumer of that byte does.
\<close>

lemma round_nothing:
  assumes "main_inv m" "qset m = [] \<or> (\<exists>p rest. qset m = p # rest \<and> p \<noteq> Serial1 \<and> p \<noteq> gps_serial m)"
  obtains m' where "main_round e t m = Inr (None, m')" "main_inv m'" "gps_serial m' = gps_serial m" "main_shell m' = main_shell m" "main_gps m' = main_gps m"
    "repeated m' = repeated m" "\<And>q. queued m' q = queued m q"
  using assms(2)
proof
  assume q: "qset m = []"
  have "main_inv (m\<lparr>watchdog_main := 5\<rparr>)" using assms(1) by (simp add: main_inv_def port_inv_def queued_def)
  then show thesis using that [of "m\<lparr>watchdog_main := 5\<rparr>"] q by (simp add: main_round_def Let_def queued_def)
next
  assume "\<exists>p rest. qset m = p # rest \<and> p \<noteq> Serial1 \<and> p \<noteq> gps_serial m"
  then obtain p rest where q: "qset m = p # rest" "p \<noteq> Serial1" "p \<noteq> gps_serial m" by blast
  let ?m = "m\<lparr>watchdog_main := 5, qset := rest\<rparr>"
  have "port_inv ?m r" for r
  proof -
    have "port_inv m r" using assms(1) by (simp add: main_inv_def)
    then show ?thesis using q by (cases "r = p") (auto simp: port_inv_def queued_def split: if_splits)
  qed
  then have "main_inv ?m" using assms(1) by (simp add: main_inv_def)
  then show thesis using that [of ?m] q by (simp add: main_round_def Let_def queued_def)
qed

lemma round_takes:
  assumes inv: "main_inv m" and q: "qset m = p # rest" "p = Serial1 \<or> p = gps_serial m"
  obtains b u where "queued m p = b # u" "serial_get (ports m p) = (Some b, (ports m p)\<lparr>rx_q := Some u\<rparr>)"
    "main_inv (m\<lparr>watchdog_main := 5, qset := rest, ports := (ports m)(p := (ports m p)\<lparr>rx_q := Some u\<rparr>)\<rparr>)"
proof -
  have pi: "port_inv m r" for r using inv by (simp add: main_inv_def)
  have "count_list (qset m) p \<noteq> 0" using q(1) by simp
  then have "length (queued m p) \<noteq> 0" using pi [of p] q(2) by (auto simp: port_inv_def)
  then obtain b u where b: "queued m p = b # u" "rx_q (ports m p) = Some (b # u)"
    using pi [of p] by (cases "rx_q (ports m p)"; cases "queued m p") (auto simp: port_inv_def queued_def)
  let ?m = "m\<lparr>watchdog_main := 5, qset := rest, ports := (ports m)(p := (ports m p)\<lparr>rx_q := Some u\<rparr>)\<rparr>"
  have "port_inv ?m r" for r
    using pi [of r] pi [of p] q b by (cases "r = p") (auto simp: port_inv_def queued_def split: if_splits)
  then have "main_inv ?m" using inv by (simp add: main_inv_def)
  then show thesis using that b get_some by blast
qed

lemma round_cli:
  assumes inv: "main_inv m" and q: "qset m = Serial1 # rest"
  obtains b u where "queued m Serial1 = b # u" "main_inv (m\<lparr>watchdog_main := 5, qset := rest, ports := (ports m)(Serial1 := (ports m Serial1)\<lparr>rx_q := Some u\<rparr>)\<rparr>)"
    "main_round e t m = rbind (cli_feed e b (main_shell m)) (\<lambda>s. Inr (Some (Serial1, b),
       m\<lparr>watchdog_main := 5, qset := rest, ports := (ports m)(Serial1 := (ports m Serial1)\<lparr>rx_q := Some u\<rparr>), main_shell := s\<rparr>))"
proof -
  obtain b u where b: "queued m Serial1 = b # u" "serial_get (ports m Serial1) = (Some b, (ports m Serial1)\<lparr>rx_q := Some u\<rparr>)"
    "main_inv (m\<lparr>watchdog_main := 5, qset := rest, ports := (ports m)(Serial1 := (ports m Serial1)\<lparr>rx_q := Some u\<rparr>)\<rparr>)"
    using round_takes [OF inv q] by blast
  show thesis by (rule that [OF b(1,3)]) (use b q in \<open>simp add: main_round_def Let_def\<close>)
qed

lemma round_gps:
  assumes inv: "main_inv m" and q: "qset m = gps_serial m # rest" and t: "env_flags t = shell_flags (main_shell m)"
  obtains b u where "queued m (gps_serial m) = b # u"
    "main_inv (m\<lparr>watchdog_main := 5, qset := rest, ports := (ports m)(gps_serial m := (ports m (gps_serial m))\<lparr>rx_q := Some u\<rparr>)\<rparr>)"
    "main_round e t m = rbind (gps_byte_received t b (main_gps m)) (\<lambda>g. Inr (Some (gps_serial m, b),
       (m\<lparr>watchdog_main := 5, qset := rest, ports := (ports m)(gps_serial m := (ports m (gps_serial m))\<lparr>rx_q := Some u\<rparr>)\<rparr>)
         \<lparr>main_gps := g, repeated := repeated m @ (if env_flags t AND FLAG_GPSOUT \<noteq> 0 then [b] else [])\<rparr>))"
proof -
  have g: "gps_serial m \<noteq> Serial1" using inv by (simp add: main_inv_def)
  have e: "t\<lparr>env_flags := shell_flags (main_shell m)\<rparr> = t" using t by simp
  let ?p = "gps_serial m"
  obtain b u where b: "queued m ?p = b # u" "serial_get (ports m ?p) = (Some b, (ports m ?p)\<lparr>rx_q := Some u\<rparr>)"
    "main_inv (m\<lparr>watchdog_main := 5, qset := rest, ports := (ports m)(?p := (ports m ?p)\<lparr>rx_q := Some u\<rparr>)\<rparr>)"
    using round_takes [OF inv q] by blast
  show thesis
    by (rule that [OF b(1,3)]) (use b(2) q g in \<open>auto simp: main_round_def Let_def rbind_def e t split: sum.split\<close>)
qed

section \<open>The start\<close>

lemma serial_start_rx:
  "serial_start p spd qs freq dr self s d = Inr (s', d') \<Longrightarrow> rx_q s' = Some [] \<and> in_set s' = qs"
  by (cases p) (auto simp: serial_start_def Let_def serial_set_speed_def split: if_splits)

lemma main_start_inv:
  assumes "main_start e board csr freq rc cfg d m = Inr (m0, d')"
  shows "main_inv m0" "queued m0 p = []" "main_gps m0 = main_gps m" "repeated m0 = repeated m"
proof -
  obtain s1 d1 s4 d4 s5 baud where s: "serial_start Serial1 115200 True freq 0 1 (ports m Serial1) d = Inr (s1, d1)"
    "serial_start Serial4 57600 True freq 0 4 (ports m Serial4) d1 = Inr (s4, d4)" "serial_start Serial5 baud True freq 0 5 (ports m Serial5) d4 = Inr (s5, d')"
    "ports m0 = (ports m)(Serial1 := s1, Serial4 := s4, Serial5 := s5)" "qset m0 = []" "gps_serial m0 = Serial5 \<or> gps_serial m0 = Serial4"
    "main_gps m0 = main_gps m" "repeated m0 = repeated m"
    using assms by (auto simp: main_start_def Let_def test_reset_def)
  have r: "rx_q s1 = Some []" "in_set s1" "rx_q s4 = Some []" "in_set s4" "rx_q s5 = Some []" "in_set s5"
    using serial_start_rx s(1,2,3) by auto
  show q: "queued m0 p = []" for p using r s(4) by (cases p) (simp_all add: queued_def)
  have "port_inv m0 p" for p using r s(4,5) q [of p] by (cases p) (simp_all add: port_inv_def)
  then show "main_inv m0" using s(6) by (auto simp: main_inv_def)
  show "main_gps m0 = main_gps m" "repeated m0 = repeated m" by fact+
qed

section \<open>Properties\<close>

definition delivered :: "main_sys \<Rightarrow> main_label list \<Rightarrow> main_sys \<Rightarrow> bool" where
  "delivered m0 es m \<longleftrightarrow> gps_serial m = gps_serial m0 \<and> (\<forall>p \<in> {Serial1, gps_serial m0}. accepted p es = taken p es @ queued m p)
     \<and> map snd (cli_log es) = taken Serial1 es \<and> map snd (gps_log es) = taken (gps_serial m0) es
     \<and> cli_bytes (cli_log es) (main_shell m0) = Inr (main_shell m) \<and> gps_bytes (gps_log es) (main_gps m0) = Inr (main_gps m)
     \<and> repeated m = repeated m0 @ map snd (filter (\<lambda>(t, b). env_flags t AND FLAG_GPSOUT \<noteq> 0) (gps_log es))"

lemma step_delivers:
  assumes "main_step m l m'" "main_inv m" "delivered m0 es m" "gps_serial m0 \<noteq> Serial1"
  shows "main_inv m' \<and> delivered m0 (es @ [l]) m'"
  using assms(1)
proof (cases rule: main_step.cases)
  case (rx p sr dr got)
  obtain got' m'' where r: "main_irq p sr dr m = Inr (got', m'')" "main_inv m''" "gps_serial m'' = gps_serial m" "main_shell m'' = main_shell m"
    "main_gps m'' = main_gps m" "repeated m'' = repeated m" "\<And>q. queued m'' q = queued m q @ (if got' \<and> p = q then [dr] else [])"
    using irq_inv [OF assms(2)] by blast
  then show ?thesis using rx assms(3) by (auto simp: delivered_def)
next
  case (round t e tk)
  have d: "gps_serial m = gps_serial m0" using assms(3) by (simp add: delivered_def)
  consider (cli) rest where "qset m = Serial1 # rest" | (gps) rest where "qset m = gps_serial m # rest"
    | (none) "qset m = [] \<or> (\<exists>p rest. qset m = p # rest \<and> p \<noteq> Serial1 \<and> p \<noteq> gps_serial m)" by (cases "qset m") blast+
  then show ?thesis
  proof cases
    case cli
    obtain b u where b: "queued m Serial1 = b # u" "main_inv (m\<lparr>watchdog_main := 5, qset := rest, ports := (ports m)(Serial1 := (ports m Serial1)\<lparr>rx_q := Some u\<rparr>)\<rparr>)"
      "main_round e t m = rbind (cli_feed e b (main_shell m)) (\<lambda>s. Inr (Some (Serial1, b),
         m\<lparr>watchdog_main := 5, qset := rest, ports := (ports m)(Serial1 := (ports m Serial1)\<lparr>rx_q := Some u\<rparr>), main_shell := s\<rparr>))"
      using round_cli [OF assms(2) cli] by blast
    then obtain s where s: "cli_feed e b (main_shell m) = Inr s" "tk = Some (Serial1, b)"
      "m' = m\<lparr>watchdog_main := 5, qset := rest, ports := (ports m)(Serial1 := (ports m Serial1)\<lparr>rx_q := Some u\<rparr>), main_shell := s\<rparr>" using round(3) unfolding b(3) by (auto simp: rbind_def split: sum.splits)
    have "main_inv m'" using b(2) unfolding s(3) main_inv_def port_inv_def queued_def by simp
    then show ?thesis using assms(3,4) round(1) s b(1) d by (auto simp: delivered_def queued_def cli_bytes_append)
  next
    case gps
    let ?p = "gps_serial m"
    obtain b u where b: "queued m ?p = b # u" "main_inv (m\<lparr>watchdog_main := 5, qset := rest, ports := (ports m)(?p := (ports m ?p)\<lparr>rx_q := Some u\<rparr>)\<rparr>)"
      "main_round e t m = rbind (gps_byte_received t b (main_gps m)) (\<lambda>g. Inr (Some (?p, b),
         (m\<lparr>watchdog_main := 5, qset := rest, ports := (ports m)(?p := (ports m ?p)\<lparr>rx_q := Some u\<rparr>)\<rparr>)
           \<lparr>main_gps := g, repeated := repeated m @ (if env_flags t AND FLAG_GPSOUT \<noteq> 0 then [b] else [])\<rparr>))"
      using round_gps [OF assms(2) gps round(2)] by blast
    then obtain g where g: "gps_byte_received t b (main_gps m) = Inr g" "tk = Some (?p, b)"
      "m' = (m\<lparr>watchdog_main := 5, qset := rest, ports := (ports m)(?p := (ports m ?p)\<lparr>rx_q := Some u\<rparr>)\<rparr>)
           \<lparr>main_gps := g, repeated := repeated m @ (if env_flags t AND FLAG_GPSOUT \<noteq> 0 then [b] else [])\<rparr>" using round(3) unfolding b(3) by (auto simp: rbind_def split: sum.splits)
    have "main_inv m'" using b(2) unfolding g(3) main_inv_def port_inv_def queued_def by simp
    moreover have "queued m' Serial1 = queued m Serial1" using assms(4) d g(3) by (simp add: queued_def)
    ultimately show ?thesis using assms(3,4) round(1) g b(1) d by (auto simp: delivered_def gps_bytes_append) (auto simp: queued_def)
  next
    case none
    obtain m'' where "main_round e t m = Inr (None, m'')" "main_inv m''" "gps_serial m'' = gps_serial m" "main_shell m'' = main_shell m"
      "main_gps m'' = main_gps m" "repeated m'' = repeated m" "\<And>q. queued m'' q = queued m q" using round_nothing [OF assms(2) none] by blast
    then show ?thesis using round assms(3) by (auto simp: delivered_def)
  qed
qed


lemma run_delivers:
  assumes "main_run m0 es m" "main_inv m0" "\<And>p. queued m0 p = []"
  shows "main_inv m \<and> delivered m0 es m"
  using assms
proof (induction rule: main_run.induct)
  case (nil m)
  then show ?case by (simp add: delivered_def)
next
  case (snoc m es n e n')
  then show ?case using step_delivers [of n e n' m es] by (auto simp: main_inv_def)
qed

text \<open>
  C29. From the start of the main thread, after any interleaving of interrupts and rounds: the bytes that the queue
  of a port accepted are the bytes that rounds took from it, in order, followed by those that still wait. The command line was fed
  all bytes taken from \<open>Serial1\<close> and no others, the parsers all those of the receiver's port, and what is repeated
  on \<open>Serial5\<close> is what the parsers got while the flag was set.
\<close>

theorem main_delivers:
  assumes "main_start e board csr freq rc cfg d m = Inr (m0, d')" "main_run m0 es n"
  shows "(\<forall>p \<in> {Serial1, gps_serial n}. accepted p es = taken p es @ queued n p)
    \<and> map snd (cli_log es) = taken Serial1 es \<and> map snd (gps_log es) = taken (gps_serial n) es
    \<and> cli_bytes (cli_log es) (main_shell m0) = Inr (main_shell n) \<and> gps_bytes (gps_log es) (main_gps m) = Inr (main_gps n)
    \<and> repeated n = repeated m @ map snd (filter (\<lambda>(t, b). env_flags t AND FLAG_GPSOUT \<noteq> 0) (gps_log es))"
  using run_delivers [OF assms(2) main_start_inv(1,2) [OF assms(1)]] main_start_inv(3,4) [OF assms(1)] by (simp add: delivered_def)

text \<open>
  C30. After any such run, an interrupt of any port does not fail its assertion, so the queue set never overflows; a round takes the
  byte that the handle promised, so it fails only where the command line or the parser fails on that byte.
\<close>

theorem main_never_asserts:
  assumes "main_start e board csr freq rc cfg d m = Inr (m0, d')" "main_run m0 es n"
  shows "length (qset n) \<le> 48 \<and> (\<exists>got n'. main_irq p sr dr n = Inr (got, n'))
    \<and> (env_flags t = shell_flags (main_shell n) \<longrightarrow>
        (case main_round e' t n of Inr _ \<Rightarrow> True | Inl f \<Rightarrow> \<exists>b. cli_feed e' b (main_shell n) = Inl f \<or> gps_byte_received t b (main_gps n) = Inl f))"
proof -
  have inv: "main_inv n" using run_delivers [OF assms(2) main_start_inv(1,2) [OF assms(1)]] by blast
  have "case main_round e' t n of Inr _ \<Rightarrow> True | Inl f \<Rightarrow> \<exists>b. cli_feed e' b (main_shell n) = Inl f \<or> gps_byte_received t b (main_gps n) = Inl f"
    if t: "env_flags t = shell_flags (main_shell n)"
  proof -
    consider (cli) rest where "qset n = Serial1 # rest" | (gps) rest where "qset n = gps_serial n # rest"
      | (none) "qset n = [] \<or> (\<exists>p rest. qset n = p # rest \<and> p \<noteq> Serial1 \<and> p \<noteq> gps_serial n)" by (cases "qset n") blast+
    then show ?thesis
    proof cases
      case cli
      show ?thesis by (rule round_cli [OF inv cli, of e' t]) (auto simp: rbind_def split: sum.splits)
    next
      case gps
      show ?thesis by (rule round_gps [OF inv gps t, of e']) (auto simp: rbind_def split: sum.splits)
    next
      case none
      show ?thesis by (rule round_nothing [OF inv none, of e' t]) auto
    qed
  qed
  moreover have "\<exists>got n'. main_irq p sr dr n = Inr (got, n')" using irq_inv [OF inv] by metis
  ultimately show ?thesis using set_size [OF inv] by blast
qed


section \<open>Examples\<close>

definition main0 :: main_sys where
  "main0 = \<lparr>ports = (\<lambda>_. serial0), qset = [], gps_serial = Serial4, main_shell = shell0, main_gps = gps_sys0, repeated = [], to_receiver = [],
     watchdog_main = 5, did_watchdog = False\<rparr>"

lemma main_starts:
  "\<exists>m0 d'. main_start env0 [] 0 72000000 0 (replicate 120 0) dma0 main0 = Inr (m0, d') \<and> \<not> cl_enabled (main_shell m0)"
  by (simp add: main_start_def Let_def serial_start_def serial_set_speed_def main0_def serial0_def)

lemma start_then_irq:
  assumes "main_start e board csr freq rc cfg d m = Inr (m0, d')"
  obtains n where "main_irq Serial1 USART_SR_RXNE b m0 = Inr (True, n)" "main_shell n = main_shell m0" "main_inv n" "qset n = [Serial1]"
    "queued n Serial1 = [b]"
proof -
  have i: "main_inv m0" "queued m0 Serial1 = []" using main_start_inv [OF assms] by blast+
  obtain got n where n: "main_irq Serial1 USART_SR_RXNE b m0 = Inr (got, n)" "main_inv n" "main_shell n = main_shell m0"
    "\<And>q. queued n q = queued m0 q @ (if got \<and> Serial1 = q then [b] else [])" using irq_inv [OF i(1)] by blast
  have r: "rx_q (ports m0 Serial1) = Some []" "in_set (ports m0 Serial1)" using i by (auto simp: main_inv_def port_inv_def queued_def)
  have got: "got" using n(1) r by (auto simp: main_irq_def Let_def rx_len_def usart_irq_rx USART_SR_RXNE_def rbind_def split: sum.splits if_splits)
  have "qset m0 = []" using assms by (auto simp: main_start_def Let_def test_reset_def)
  then have "qset n = [Serial1]" using n(1) got r(2) by (auto simp: usart_irq_rx(2) main_irq_def Let_def rbind_def split: sum.splits if_splits)
  then show thesis using that [of n] n i(2) got by simp
qed

lemma start_then_round:
  assumes "main_start e board csr freq rc cfg d m = Inr (m0, d')" "\<not> cl_enabled (main_shell m0)"
  obtains n t where "main_run m0 [Rx Serial1 120 True, Round env0 t (Some (Serial1, 120))] n" "queued n Serial1 = []"
proof -
  obtain n where n: "main_irq Serial1 USART_SR_RXNE 120 m0 = Inr (True, n)" "main_shell n = main_shell m0" "main_inv n" "qset n = [Serial1]"
    "queued n Serial1 = [120]" using start_then_irq [OF assms(1)] by blast
  let ?t = "\<lparr>env_tick = (\<lambda>_. 0), env_flags = shell_flags (main_shell n)\<rparr> :: feed_env"
  obtain b u where b: "queued n Serial1 = b # u" "main_round env0 ?t n = rbind (cli_feed env0 b (main_shell n)) (\<lambda>s. Inr (Some (Serial1, b),
       n\<lparr>watchdog_main := 5, qset := [], ports := (ports n)(Serial1 := (ports n Serial1)\<lparr>rx_q := Some u\<rparr>), main_shell := s\<rparr>))"
    by (rule round_cli [OF n(3,4), of env0 ?t])
  have u: "b = 120" "u = []" using b(1) n(5) by simp_all
  have "cli_feed env0 120 (main_shell n) = Inr (main_shell n)" using assms(2) n(2) by (simp add: cli_feed_def)
  then obtain n' where n': "main_round env0 ?t n = Inr (Some (Serial1, 120), n')" "queued n' Serial1 = []"
    using b(2) u by (simp add: queued_def)
  have "main_run m0 ([] @ [Rx Serial1 120 True]) n" by (rule main_run.snoc [OF main_run.nil]) (rule main_step.rx [OF n(1)])
  then have "main_run m0 (([] @ [Rx Serial1 120 True]) @ [Round env0 ?t (Some (Serial1, 120))]) n'"
    by (rule main_run.snoc) (rule main_step.round [OF _ n'(1)], simp)
  then show thesis using that n'(2) by simp
qed

theorem main_delivers_witness:
  "\<exists>m0 d' t n. main_start env0 [] 0 72000000 0 (replicate 120 0) dma0 main0 = Inr (m0, d')
     \<and> main_run m0 [Rx Serial1 120 True, Round env0 t (Some (Serial1, 120))] n \<and> queued n Serial1 = []
     \<and> cli_bytes [(env0, 120)] (main_shell m0) = Inr (main_shell n)"
proof -
  obtain m0 d' where s: "main_start env0 [] 0 72000000 0 (replicate 120 0) dma0 main0 = Inr (m0, d')" "\<not> cl_enabled (main_shell m0)"
    using main_starts by blast
  obtain n t where n: "main_run m0 [Rx Serial1 120 True, Round env0 t (Some (Serial1, 120))] n" "queued n Serial1 = []"
    using start_then_round [OF s] by blast
  have "cli_log [Rx Serial1 120 True, Round env0 t (Some (Serial1, 120))] = [(env0, 120)]" by (simp add: cli_log_def)
  then show ?thesis using main_delivers [OF s(1) n(1)] s(1) n by auto
qed

theorem main_never_asserts_witness:
  "\<exists>m0 d' t n. main_start env0 [] 0 72000000 0 (replicate 120 0) dma0 main0 = Inr (m0, d')
     \<and> main_run m0 [Rx Serial1 120 True, Round env0 t (Some (Serial1, 120))] n
     \<and> length (qset n) \<le> 48 \<and> (\<exists>got n'. main_irq Serial4 USART_SR_RXNE 7 n = Inr (got, n'))"
proof -
  obtain m0 d' where s: "main_start env0 [] 0 72000000 0 (replicate 120 0) dma0 main0 = Inr (m0, d')" "\<not> cl_enabled (main_shell m0)"
    using main_starts by blast
  obtain n t where n: "main_run m0 [Rx Serial1 120 True, Round env0 t (Some (Serial1, 120))] n" "queued n Serial1 = []"
    using start_then_round [OF s] by blast
  show ?thesis using main_never_asserts [OF s(1) n(1)] s(1) n(1) by blast
qed

text \<open>The speed of the external port is that of the state before the start, whatever the configuration read then says.\<close>

lemma configured_speed_unused:
  assumes "main_start e board csr freq rc cfg d m = Inr (m0, d')" "main_start e board csr freq rc' cfg' d m = Inr (m1, d'')"
  shows "ports m0 Serial5 = ports m1 Serial5"
  using assms by (auto simp: main_start_def Let_def test_reset_def)

end
