(* ===== verification/Logging.thy ===== *)
theory Logging
  imports Vtimer Format
begin

text \<open>
  The log, \<open>src/src/logging.c\<close>: each message is formatted twice into one buffer, as a syslog datagram and, while the
  command line is off, as a line for the terminal. \<open>snprintf\<close> writes what fits and returns the length of the whole
  text; the theory shows for which messages that is right and where the buffer is left.
\<close>

section \<open>State\<close>

text \<open>
  \<open>log_serial\<close> is whether the port is set, \<open>syslog_pcb\<close> the server, \<open>log_link\<close> whether the interface is up.
  \<open>datagrams\<close> and \<open>printed\<close> are what was sent and printed.
\<close>

record log =
  log_fmtbuf :: "u8 list"
  log_hostname :: "u8 list"
  log_facility :: nat
  log_serial :: bool
  syslog_pcb :: "u32 option"
  log_link :: bool
  datagrams :: "u8 list list"
  printed :: "u8 list"

definition level_names :: "u8 list list" where
  "level_names = map ascii [''EMERG'', ''ALERT'', ''CRIT'', ''ERROR'', ''WARN'', ''NOTE'', ''INFO'', ''DEBUG'']"

definition LOG_KERN :: nat where "LOG_KERN = 0"
definition NTP_TO_US :: u64 where "NTP_TO_US = 4295"

section \<open>Formatting\<close>

text \<open>\<open>%0wd\<close>.\<close>

definition fmt_0d :: "nat \<Rightarrow> int \<Rightarrow> u8 list" where
  "fmt_0d w i =
     (if i < 0 then let ds = fmt_u (nat (- i)) in 45 # replicate (w - 1 - length ds) 48 @ ds
      else let ds = fmt_u (nat i) in replicate (w - length ds) 48 @ ds)"

text \<open>A store of consecutive bytes; \<open>snprintf\<close> at an offset, whose bound becomes a \<open>size_t\<close>. The text has no NUL.\<close>

definition put_bytes :: "nat \<Rightarrow> u8 list \<Rightarrow> u8 list \<Rightarrow> u8 list res" where
  "put_bytes off bs buf = (if off + length bs \<le> length buf then Inr (copy_into buf off bs) else Inl (Oob ''log_fmtbuf''))"

definition snprintf :: "nat \<Rightarrow> int \<Rightarrow> u8 list \<Rightarrow> u8 list \<Rightarrow> (int \<times> u8 list) res" where
  "snprintf off n txt buf =
     (let n = nat (n mod 2 ^ 32) in
      if n = 0 then Inr (int (length txt), buf)
      else rbind (put_bytes off (take (n - 1) txt @ [0]) buf) (\<lambda>buf. Inr (int (length txt), buf)))"

definition cstring :: "u8 list \<Rightarrow> u8 list" where
  "cstring = takeWhile (\<lambda>c. c \<noteq> 0)"

section \<open>Operations\<close>

definition log_sethostname :: "u8 list \<Rightarrow> log \<Rightarrow> log" where
  "log_sethostname hostname l =
     (let s = take 15 (cstring hostname) in
      l\<lparr>log_hostname := copy_into (log_hostname l) 0 (s @ replicate (15 - length s) 0)\<rparr>)"

definition log_start :: "log \<Rightarrow> log" where
  "log_start l = log_sethostname (ascii ''-'') (l\<lparr>log_serial := True, log_facility := LOG_KERN\<rparr>)"

definition syslog_start :: "u32 \<Rightarrow> log \<Rightarrow> log" where
  "syslog_start addr l = l\<lparr>syslog_pcb := Some addr\<rparr>"

definition syslog_send :: "nat \<Rightarrow> log \<Rightarrow> log" where
  "syslog_send len l =
     (if syslog_pcb l = None \<or> \<not> log_link l then l
      else l\<lparr>datagrams := datagrams l @ [take (len mod 2 ^ 16) (log_fmtbuf l)]\<rparr>)"

definition log_stamp :: "tm \<Rightarrow> int \<Rightarrow> u8 list" where
  "log_stamp t us =
     fmt_0d 4 (tm_year t) @ ascii ''-'' @ fmt_0d 2 (tm_mon t) @ ascii ''-'' @ fmt_0d 2 (tm_mday t) @ ascii ''T''
     @ fmt_0d 2 (tm_hour t) @ ascii '':'' @ fmt_0d 2 (tm_min t) @ ascii '':'' @ fmt_0d 2 (tm_sec t)
     @ ascii ''.'' @ fmt_0d 6 us @ ascii ''Z''"

text \<open>The two headers.\<close>

definition syslog_head :: "nat \<Rightarrow> tm \<Rightarrow> int \<Rightarrow> u8 list \<Rightarrow> log \<Rightarrow> u8 list" where
  "syslog_head pri t us app l =
     ascii ''<'' @ fmt_d (int (pri OR log_facility l)) @ ascii ''>1 '' @ log_stamp t us @ ascii '' '' @ cstring (log_hostname l)
     @ ascii '' '' @ app @ ascii '' - - - ''"

definition serial_head :: "nat \<Rightarrow> tm \<Rightarrow> int \<Rightarrow> u8 list \<Rightarrow> u8 list" where
  "serial_head pri t us app = log_stamp t us @ ascii '' '' @ app @ ascii '' '' @ level_names ! pri @ ascii '' ''"

text \<open>\<open>write_syslog\<close> and \<open>write_serial\<close> are the two halves of \<open>log_write\<close>; \<open>msg\<close> is the text that the format and
  its arguments give.\<close>

definition write_syslog :: "nat \<Rightarrow> tm \<Rightarrow> int \<Rightarrow> u8 list \<Rightarrow> u8 list \<Rightarrow> log \<Rightarrow> log res" where
  "write_syslog pri t us app msg l =
     rbind (snprintf 0 (256 - 1) (syslog_head pri t us app l) (log_fmtbuf l)) (\<lambda>(used, buf).
     let ptr = nat used; sz = 256 - used in
     rbind (snprintf ptr (sz - 1) msg buf) (\<lambda>(used, buf).
     let ptr = ptr + nat used in
     rbind (put_bytes ptr [0] buf) (\<lambda>buf. Inr (syslog_send ptr (l\<lparr>log_fmtbuf := buf\<rparr>)))))"

definition write_serial :: "nat \<Rightarrow> tm \<Rightarrow> int \<Rightarrow> u8 list \<Rightarrow> u8 list \<Rightarrow> log \<Rightarrow> log res" where
  "write_serial pri t us app msg l =
     (if length level_names \<le> pri then Inl (Oob ''level_names'')
      else
     rbind (snprintf 0 (256 - 3) (serial_head pri t us app) (log_fmtbuf l)) (\<lambda>(used, buf).
     let ptr = nat used; sz = 256 - used in
     rbind (snprintf ptr (sz - 3) msg buf) (\<lambda>(used, buf).
     let ptr = ptr + nat used in
     rbind (put_bytes ptr [13] buf) (\<lambda>buf.
     rbind (put_bytes (ptr + 1) [10] buf) (\<lambda>buf.
     rbind (put_bytes (ptr + 2) [0] buf) (\<lambda>buf. Inr (l\<lparr>log_fmtbuf := buf, printed := printed l @ cstring buf\<rparr>)))))))"

definition log_write :: "bool \<Rightarrow> u64 \<Rightarrow> nat \<Rightarrow> u8 list \<Rightarrow> u8 list \<Rightarrow> log \<Rightarrow> log res" where
  "log_write cl_on tstamp pri app msg l =
     rbind (ASSERT (log_serial l)) (\<lambda>_.
     let us = sint (ucast ((tstamp AND NTP_MASK_FRAC) div NTP_TO_US) :: u32) in
     rbind (epoch_to_datetime (drop_bit 32 tstamp)) (\<lambda>t.
     rbind (write_syslog pri t us app msg l) (\<lambda>l.
     if \<not> cl_on then write_serial pri t us app msg l else Inr l)))"

section \<open>Which messages fit\<close>

lemma put_bytes_fits: "off + length bs \<le> length buf \<Longrightarrow> put_bytes off bs buf = Inr (take off buf @ bs @ drop (off + length bs) buf)"
  by (simp add: put_bytes_def copy_into_def)

lemma snprintf_fits:
  assumes "length txt < nat n" "n < 2 ^ 32" "off + length txt < length buf"
  shows "snprintf off n txt buf = Inr (int (length txt), take off buf @ txt @ 0 # drop (off + length txt + 1) buf)"
proof -
  have "n mod 2 ^ 32 = n" using assms(1,2) by (intro mod_pos_pos_trivial) auto
  moreover have "nat n \<noteq> 0" "take (nat n - 1) txt = txt" using assms(1) by auto
  ultimately show ?thesis using assms(3) by (simp add: snprintf_def Let_def put_bytes_fits)
qed

lemma write_syslog_fits:
  assumes "length (log_fmtbuf l) = 256" "length (syslog_head pri t us app l) + length msg \<le> 254"
  defines "all \<equiv> syslog_head pri t us app l @ msg"
  obtains buf where "length buf = 256" "write_syslog pri t us app msg l = Inr (l\<lparr>log_fmtbuf := buf,
      datagrams := (if syslog_pcb l = None \<or> \<not> log_link l then datagrams l else datagrams l @ [all])\<rparr>)"
proof -
  let ?h = "syslog_head pri t us app l"
  define buf1 where "buf1 = ?h @ 0 # drop (length ?h + 1) (log_fmtbuf l)"
  have 1: "snprintf 0 (256 - 1) ?h (log_fmtbuf l) = Inr (int (length ?h), buf1)"
    by (subst snprintf_fits) (use assms(1,2) in \<open>auto simp: buf1_def\<close>)
  have l1: "length buf1 = 256" using assms(1,2) by (simp add: buf1_def)
  define buf2 where "buf2 = ?h @ msg @ 0 # drop (length ?h + length msg + 1) buf1"
  have 2: "snprintf (length ?h) (256 - int (length ?h) - 1) msg buf1 = Inr (int (length msg), buf2)"
    by (subst snprintf_fits) (use assms(2) l1 in \<open>auto simp: buf2_def buf1_def\<close>)
  have l2: "length buf2 = 256" using assms(2) l1 by (simp add: buf2_def)
  define buf3 where "buf3 = all @ 0 # drop (length all + 1) buf2"
  have 3: "put_bytes (length ?h + length msg) [0] buf2 = Inr buf3"
    using assms(2) l2 by (simp add: put_bytes_fits buf3_def all_def) (simp add: buf2_def)
  have l3: "length buf3 = 256" using assms(2) l2 by (simp add: buf3_def all_def)
  have w: "write_syslog pri t us app msg l = Inr (syslog_send (length all) (l\<lparr>log_fmtbuf := buf3\<rparr>))"
    using 1 2 3 by (simp add: write_syslog_def Let_def all_def)
  have "take (length all mod 2 ^ 16) buf3 = all" using assms(2) by (simp add: buf3_def all_def)
  then show thesis using that [OF l3] w by (simp add: syslog_send_def)
qed


lemma cstring_prefix: "0 \<notin> set s \<Longrightarrow> cstring (s @ 0 # r) = s"
  by (induction s) (auto simp: cstring_def)

lemma write_serial_fits:
  assumes "length (log_fmtbuf l) = 256" "length (serial_head pri t us app) + length msg \<le> 252" "pri < 8" "0 \<notin> set (serial_head pri t us app)" "0 \<notin> set msg"
  obtains buf where "length buf = 256" "write_serial pri t us app msg l = Inr (l\<lparr>log_fmtbuf := buf,
      printed := printed l @ serial_head pri t us app @ msg @ [13, 10]\<rparr>)"
proof -
  let ?h = "serial_head pri t us app"
  let ?n = "length ?h + length msg"
  define buf1 where "buf1 = ?h @ 0 # drop (length ?h + 1) (log_fmtbuf l)"
  have 1: "snprintf 0 (256 - 3) ?h (log_fmtbuf l) = Inr (int (length ?h), buf1)"
    by (subst snprintf_fits) (use assms(1,2) in \<open>auto simp: buf1_def\<close>)
  have l1: "length buf1 = 256" using assms(1,2) by (simp add: buf1_def)
  define buf2 where "buf2 = ?h @ msg @ 0 # drop (?n + 1) buf1"
  have 2: "snprintf (length ?h) (256 - int (length ?h) - 3) msg buf1 = Inr (int (length msg), buf2)"
    by (subst snprintf_fits) (use assms(2) l1 in \<open>auto simp: buf2_def buf1_def\<close>)
  have l2: "length buf2 = 256" using assms(2) l1 by (simp add: buf2_def)
  define buf3 where "buf3 = (?h @ msg @ [13]) @ drop (?n + 1) buf2"
  have 3: "put_bytes ?n [13] buf2 = Inr buf3" using assms(2) l2 by (simp add: put_bytes_fits buf3_def) (simp add: buf2_def)
  have l3: "length buf3 = 256" using assms(2) l2 by (simp add: buf3_def)
  define buf4 where "buf4 = (?h @ msg @ [13, 10]) @ drop (?n + 2) buf3"
  have 4: "put_bytes (?n + 1) [10] buf3 = Inr buf4" using assms(2) l3 by (simp add: put_bytes_fits buf4_def) (simp add: buf3_def)
  have l4: "length buf4 = 256" using assms(2) l3 by (simp add: buf4_def)
  define buf5 where "buf5 = (?h @ msg @ [13, 10]) @ 0 # drop (?n + 3) buf4"
  have 5: "put_bytes (?n + 2) [0] buf4 = Inr buf5" using assms(2) l4 by (simp add: put_bytes_fits buf5_def) (simp add: buf4_def)
  have l5: "length buf5 = 256" using assms(2) l4 by (simp add: buf5_def)
  have "cstring buf5 = ?h @ msg @ [13, 10]" unfolding buf5_def by (rule cstring_prefix) (use assms(4,5) in auto)
  then show thesis using that [OF l5] 1 2 3 4 5 assms(3) by (simp add: write_serial_def Let_def level_names_def ac_simps)
qed

text \<open>A longer message moves the pointer out of the buffer.\<close>

lemma snprintf_result: "snprintf off n txt buf = Inr (used, buf') \<Longrightarrow> used = int (length txt) \<and> length buf' = length buf"
  by (auto simp: snprintf_def Let_def put_bytes_def copy_into_length split: if_splits)

lemma snprintf_fault: "snprintf off n txt buf = Inl f \<Longrightarrow> f = Oob ''log_fmtbuf''"
  by (auto simp: snprintf_def Let_def put_bytes_def split: if_splits)

lemma write_syslog_overruns:
  assumes "length (log_fmtbuf l) = 256" "256 \<le> length (syslog_head pri t us app l) + length msg"
  shows "write_syslog pri t us app msg l = Inl (Oob ''log_fmtbuf'')"
proof -
  let ?h = "syslog_head pri t us app l"
  show ?thesis
  proof (cases "snprintf 0 (256 - 1) ?h (log_fmtbuf l)")
    case (Inl f)
    then show ?thesis using snprintf_fault [OF Inl] by (simp add: write_syslog_def)
  next
    case 1: (Inr r)
    obtain buf1 where r: "r = (int (length ?h), buf1)" "length buf1 = 256" using snprintf_result [of _ _ _ _ "fst r" "snd r"] 1 assms(1) by (cases r) auto
    show ?thesis
    proof (cases "snprintf (length ?h) (256 - int (length ?h) - 1) msg buf1")
      case (Inl f)
      then show ?thesis using snprintf_fault [OF Inl] 1 r by (simp add: write_syslog_def Let_def)
    next
      case (Inr r2)
      obtain buf2 where r2: "r2 = (int (length msg), buf2)" "length buf2 = 256" using snprintf_result [of _ _ _ _ "fst r2" "snd r2"] Inr r(2) by (cases r2) auto
      have "put_bytes (length ?h + length msg) [0] buf2 = Inl (Oob ''log_fmtbuf'')" using assms(2) r2(2) by (simp add: put_bytes_def)
      then show ?thesis using 1 r Inr r2 by (simp add: write_syslog_def Let_def)
    qed
  qed
qed

section \<open>The headers\<close>

lemma fmt_u_no_nul: "0 \<notin> set (fmt_u n)"
  using fmt_u_digits [of n] by (auto simp: list_all_iff is_digit_def)

lemma fmt_0d_no_nul: "0 \<notin> set (fmt_0d w i)"
  using fmt_u_no_nul by (auto simp: fmt_0d_def Let_def)

lemma level_no_nul: "pri < 8 \<Longrightarrow> 0 \<notin> set (level_names ! pri) \<and> length (level_names ! pri) \<le> 5"
proof -
  have "\<forall>n \<in> {0..<8}. 0 \<notin> set (level_names ! n) \<and> length (level_names ! n) \<le> 5" by code_simp
  then show "pri < 8 \<Longrightarrow> ?thesis" by simp
qed

lemma serial_head_no_nul: "pri < 8 \<Longrightarrow> 0 \<notin> set app \<Longrightarrow> 0 \<notin> set (serial_head pri t us app)"
  using level_no_nul [of pri] fmt_0d_no_nul by (auto simp: serial_head_def log_stamp_def ascii_def)

lemma serial_head_shorter: "pri < 8 \<Longrightarrow> length (serial_head pri t us app) + 6 \<le> length (syslog_head pri t us app l)"
  using level_no_nul [of pri] fmt_u_nonempty [of "pri OR log_facility l"]
  by (cases "fmt_u (pri OR log_facility l)") (auto simp: serial_head_def syslog_head_def ascii_def fmt_d_def Suc_le_eq)

lemma micros_range:
  "0 \<le> sint (ucast ((tstamp AND NTP_MASK_FRAC) div NTP_TO_US) :: u32)" "sint (ucast ((tstamp AND NTP_MASK_FRAC) div NTP_TO_US) :: u32) < 1000000"
proof -
  let ?w = "(tstamp AND NTP_MASK_FRAC) div NTP_TO_US"
  have m: "tstamp AND NTP_MASK_FRAC = take_bit 32 tstamp" by (simp add: NTP_MASK_FRAC_def take_bit_eq_mask mask_eq_exp_minus_1)
  have "uint (take_bit 32 tstamp) < 2 ^ 32" by (simp only: unsigned_take_bit_eq) (simp add: take_bit_eq_mod)
  then have w: "uint ?w < 1000000" "0 \<le> uint ?w" unfolding m by (simp add: NTP_TO_US_def uint_div, simp only: uint_ge_0)
  have "uint (ucast ?w :: u32) = uint ?w" using w by (simp add: unsigned_ucast_eq unsigned_take_bit_eq take_bit_eq_mod)
  moreover have "sint (ucast ?w :: u32) = uint (ucast ?w :: u32)" using w calculation by (simp add: sint_uint signed_take_bit_eq_if_positive bit_iff_odd take_bit_int_eq_self)
  ultimately show "0 \<le> sint (ucast ?w :: u32)" "sint (ucast ?w :: u32) < 1000000" using w by simp_all
qed

text \<open>
  C32. A message whose datagram has at most 254 characters is sent as it is, and printed as it is while the command line is off;
  one whose datagram has 256 or more is written past the end of the buffer.
\<close>

theorem log_write_exact:
  assumes "length (log_fmtbuf l) = 256" "log_serial l" "pri < 8" "0 \<notin> set app" "0 \<notin> set msg"
  shows "\<exists>t us. epoch_to_datetime (drop_bit 32 tstamp) = Inr t \<and> 0 \<le> us \<and> us < 1000000 \<and>
     (let sys = syslog_head pri t us app l @ msg; line = serial_head pri t us app @ msg @ [13, 10] in
      (length sys \<le> 254 \<longrightarrow> (\<exists>buf. length buf = 256 \<and> log_write cl_on tstamp pri app msg l = Inr (l\<lparr>log_fmtbuf := buf,
           datagrams := (if syslog_pcb l = None \<or> \<not> log_link l then datagrams l else datagrams l @ [sys]),
           printed := (if cl_on then printed l else printed l @ line)\<rparr>)))
      \<and> (256 \<le> length sys \<longrightarrow> log_write cl_on tstamp pri app msg l = Inl (Oob ''log_fmtbuf'')))"
proof -
  let ?us = "sint (ucast ((tstamp AND NTP_MASK_FRAC) div NTP_TO_US) :: u32)"
  have small: "drop_bit 32 tstamp < 2 ^ 32"
  proof -
    have "uint (drop_bit 32 tstamp) = uint tstamp div 2 ^ 32" by (simp add: drop_bit_eq_div uint_div)
    moreover have "uint tstamp < 2 ^ 64" using uint_lt2p [of tstamp] by simp
    then have "uint tstamp div 2 ^ 32 < 2 ^ 32" by simp
    ultimately show ?thesis by (simp add: word_less_def)
  qed
  obtain t where t: "epoch_to_datetime (drop_bit 32 tstamp) = Inr t" using epoch_to_datetime_correct [OF small] by blast
  note us = micros_range [of tstamp]
  let ?sys = "syslog_head pri t ?us app l @ msg" and ?line = "serial_head pri t ?us app @ msg @ [13, 10]"
  have fits: "\<exists>buf. length buf = 256 \<and> log_write cl_on tstamp pri app msg l = Inr (l\<lparr>log_fmtbuf := buf,
           datagrams := (if syslog_pcb l = None \<or> \<not> log_link l then datagrams l else datagrams l @ [?sys]),
           printed := (if cl_on then printed l else printed l @ ?line)\<rparr>)" if "length ?sys \<le> 254"
  proof -
    let ?d = "if syslog_pcb l = None \<or> \<not> log_link l then datagrams l else datagrams l @ [?sys]"
    have n: "length (syslog_head pri t ?us app l) + length msg \<le> 254" using that by simp
    obtain b1 where b1: "length b1 = 256" "write_syslog pri t ?us app msg l = Inr (l\<lparr>log_fmtbuf := b1, datagrams := ?d\<rparr>)"
      using write_syslog_fits [OF assms(1) n] by blast
    let ?l = "l\<lparr>log_fmtbuf := b1, datagrams := ?d\<rparr>"
    have m: "length (serial_head pri t ?us app) + length msg \<le> 252" using n serial_head_shorter [OF assms(3), of t ?us app l] by linarith
    have lb: "length (log_fmtbuf ?l) = 256" using b1(1) by simp
    obtain b2 where b2: "length b2 = 256" "write_serial pri t ?us app msg ?l = Inr (?l\<lparr>log_fmtbuf := b2, printed := printed ?l @ ?line\<rparr>)"
      using write_serial_fits [OF lb m assms(3) serial_head_no_nul [OF assms(3,4)] assms(5)] by blast
    show ?thesis
    proof (cases cl_on)
      case True
      then show ?thesis using b1 assms(2) t by (intro exI [of _ b1]) (simp add: log_write_def Let_def)
    next
      case False
      then show ?thesis using b1 b2 assms(2) t by (intro exI [of _ b2]) (simp add: log_write_def Let_def)
    qed
  qed
  have over: "log_write cl_on tstamp pri app msg l = Inl (Oob ''log_fmtbuf'')" if "256 \<le> length ?sys"
    using write_syslog_overruns [OF assms(1), of pri t ?us app msg] that assms(2) t by (simp add: log_write_def Let_def)
  show ?thesis using t us fits over by (intro exI [of _ t] exI [of _ ?us]) (simp add: Let_def)
qed


section \<open>Example\<close>

lemma fmt_0d_length: "0 \<le> i \<Longrightarrow> i < 10 ^ w \<Longrightarrow> 0 < w \<Longrightarrow> length (fmt_0d w i) = w"
proof -
  assume i: "0 \<le> i" "i < 10 ^ w" "0 < w"
  then have "nat i < 10 ^ w" by (simp add: nat_less_iff)
  then show ?thesis using fmt_u_length [of "nat i" w] i by (simp add: fmt_0d_def Let_def)
qed

definition log0 :: log where
  "log0 = log_start \<lparr>log_fmtbuf = replicate 256 0, log_hostname = replicate 16 0, log_facility = 0, log_serial = False,
     syslog_pcb = Some 0x0100007F, log_link = True, datagrams = [], printed = []\<rparr>"

lemma log0_facts: "length (log_fmtbuf log0) = 256" "log_serial log0" "cstring (log_hostname log0) = [45]" "log_facility log0 = 0"
  "syslog_pcb log0 = Some 0x0100007F" "log_link log0" "datagrams log0 = []"
  by (simp_all add: log0_def log_start_def log_sethostname_def Let_def cstring_def ascii_def copy_into_def LOG_KERN_def)

lemma first_second: "epoch_to_datetime (drop_bit 32 (3686947200 * 4294967296)) = Inr \<lparr>tm_sec = 0, tm_min = 0, tm_hour = 0, tm_mday = 1, tm_mon = 11, tm_year = 2016\<rparr>"
  by code_simp

theorem log_write_exact_witness:
  "\<exists>t us buf. log_write True (3686947200 * 4294967296) 5 (ascii ''kernel'') (ascii ''started'') log0
     = Inr (log0\<lparr>log_fmtbuf := buf, datagrams := [syslog_head 5 t us (ascii ''kernel'') log0 @ ascii ''started'']\<rparr>)"
proof -
  let ?ts = "3686947200 * 4294967296 :: u64" and ?app = "ascii ''kernel''" and ?msg = "ascii ''started''"
  have z: "0 \<notin> set ?app" "0 \<notin> set ?msg" "(5 :: nat) < 8" by (simp_all add: ascii_def)
  obtain t us where t: "epoch_to_datetime (drop_bit 32 ?ts) = Inr t" "0 \<le> us" "us < 1000000"
    and w: "length (syslog_head 5 t us ?app log0 @ ?msg) \<le> 254 \<Longrightarrow> \<exists>buf. length buf = 256 \<and> log_write True ?ts 5 ?app ?msg log0
         = Inr (log0\<lparr>log_fmtbuf := buf, datagrams := (if syslog_pcb log0 = None \<or> \<not> log_link log0 then datagrams log0
             else datagrams log0 @ [syslog_head 5 t us ?app log0 @ ?msg]), printed := printed log0\<rparr>)"
    using log_write_exact [OF log0_facts(1,2) z(3,1,2), of ?ts True] by (auto simp: Let_def)
  have t': "t = \<lparr>tm_sec = 0, tm_min = 0, tm_hour = 0, tm_mday = 1, tm_mon = 11, tm_year = 2016\<rparr>" using first_second t(1) by simp
  have "length (log_stamp t us) = 27" using t(2,3) by (simp add: log_stamp_def ascii_def fmt_0d_length t')
  moreover have "length (fmt_d 5) = 1" by (simp add: fmt_d_def fmt_u.simps)
  ultimately have "length (syslog_head 5 t us ?app log0 @ ?msg) \<le> 254" by (simp add: syslog_head_def log0_facts ascii_def)
  from w [OF this] show ?thesis using log0_facts(5,6,7) by auto
qed

end
