(* ===== verification/Netif.thy ===== *)
theory Netif
  imports EthMac Settings Logging
begin

text \<open>
  The network interface, \<open>src/src/net/tcpip.c\<close>: its start, the check that runs once a second and the call-back for
  changes of the address. The check compares the link and the addresses with what it saw the last time. The theory
  shows that each change is reported exactly once, whatever the controller and lwIP answer, and that the start-up message is logged at most once.
\<close>

section \<open>State\<close>

text \<open>
  lwIP keeps the interface, whose state is a parameter; the functions of it that the check relies on are in a record.
  An address is whether it is valid, its four words and whether it is link-local.
\<close>

record 'n netif_fn =
  netif_is_link_up :: "'n \<Rightarrow> bool"
  netif_set_link_up :: "'n \<Rightarrow> 'n"
  netif_set_link_down :: "'n \<Rightarrow> 'n"

type_synonym ip6_addr = "bool \<times> u32 list \<times> bool"

text \<open>What is logged, and the calls that join or leave a group.\<close>

datatype net_event =
  Link_changed string
| Started
| Ip6_assigned nat "u32 list" bool
| Mld6_join "u32 list"
| Igmp_join
| Igmp_leave
| Dhcp_acquired u32

record 'n net =
  n_mac :: mac
  thisif :: 'n
  watchdog_net :: u8
  valid_ip6 :: u32
  did_startup :: bool
  eth_led_off :: bool
  n_log :: log
  events :: "net_event list"

text \<open>What a check or a call-back reads: the registers, the addresses, whether the interface has DHCP, the configured groups.\<close>

record net_in =
  regs :: "u32 list"
  addrs :: "ip6_addr list"
  dhcp_on :: bool
  ip6_manycast :: "u8 list"
  ip_manycast :: u32
  if_up :: bool
  if_addr :: u32

definition LWIP_IPV6_NUM_ADDRESSES :: nat where "LWIP_IPV6_NUM_ADDRESSES = 3"

definition net_event :: "net_event \<Rightarrow> 'n net \<Rightarrow> 'n net" where
  "net_event x s = s\<lparr>events := events s @ [x]\<rparr>"

section \<open>Operations\<close>

definition log_startup_once :: "'n net \<Rightarrow> 'n net" where
  "log_startup_once s = (if \<not> did_startup s then net_event Started (s\<lparr>did_startup := True\<rparr>) else s)"

definition link_changed :: "net_in \<Rightarrow> u32 list \<Rightarrow> 'n net \<Rightarrow> (u32 list \<times> 'n net) res" where
  "link_changed c ins s =
     rbind (smi_describe_link ins (n_mac s)) (\<lambda>(buf, ins, m).
     let s = net_event (Link_changed buf) (s\<lparr>n_mac := m\<rparr>) in
     Inr (ins, if \<not> dhcp_on c then log_startup_once s else s))"

definition check_link :: "'n netif_fn \<Rightarrow> net_in \<Rightarrow> 'n net \<Rightarrow> (bool \<times> 'n net) res" where
  "check_link F c s =
     rbind (smi_poll_link_status (regs c) (n_mac s)) (\<lambda>(up, ins, m).
     let s = s\<lparr>n_mac := m\<rparr> in
     if up
     then rbind (if \<not> netif_is_link_up F (thisif s)
                 then rbind (link_changed c ins s) (\<lambda>(ins, s). Inr (s\<lparr>thisif := netif_set_link_up F (thisif s)\<rparr>))
                 else Inr s) (\<lambda>s. Inr (up, s\<lparr>eth_led_off := True\<rparr>))
     else rbind (if netif_is_link_up F (thisif s)
                 then rbind (link_changed c ins s) (\<lambda>(ins, s). Inr (s\<lparr>thisif := netif_set_link_down F (thisif s)\<rparr>))
                 else Inr s) (\<lambda>s. Inr (up, s\<lparr>eth_led_off := False\<rparr>)))"

definition check_ip6 :: "net_in \<Rightarrow> nat \<Rightarrow> 'n net \<Rightarrow> 'n net" where
  "check_ip6 c i s =
     (let (valid, addr, local) = addrs c ! i in
      if valid
      then if drop_bit i (valid_ip6 s) AND 1 = 0
           then let s = s\<lparr>valid_ip6 := valid_ip6 s OR push_bit i 1\<rparr>;
                    s = net_event (Ip6_assigned i addr local) s in
                if i = 0 \<and> \<not> list_all ((=) 0) (ip6_manycast c) then net_event (Mld6_join addr) s else s
           else s
      else if drop_bit i (valid_ip6 s) AND 1 \<noteq> 0 then s\<lparr>valid_ip6 := valid_ip6 s AND NOT (push_bit i 1)\<rparr>
      else s)"

definition tcpip_checks :: "'n netif_fn \<Rightarrow> net_in \<Rightarrow> 'n net \<Rightarrow> (bool \<times> 'n net) res" where
  "tcpip_checks F c s =
     rbind (check_link F c (s\<lparr>watchdog_net := 5\<rparr>)) (\<lambda>(up, s).
     Inr (up, fold (check_ip6 c) [0..<LWIP_IPV6_NUM_ADDRESSES] s))"

text \<open>The call-back; \<open>log_sethostname\<close> is that of the log.\<close>

definition interface_changed :: "net_in \<Rightarrow> 'n net \<Rightarrow> 'n net" where
  "interface_changed c s =
     (let s = (if ip_manycast c \<noteq> 0 then net_event (if if_up c then Igmp_join else Igmp_leave) s else s) in
      if \<not> if_up c then s
      else let s = s\<lparr>n_log := log_sethostname (fmt_ip4 (if_addr c)) (n_log s)\<rparr> in
           if dhcp_on c then net_event (Dhcp_acquired (if_addr c)) (log_startup_once s) else s)"

text \<open>\<open>rc\<close> and \<open>hwaddr\<close> are what reading the address from the EEPROM gives.\<close>

definition configure_interface :: "int \<Rightarrow> u8 list \<Rightarrow> bool \<Rightarrow> u32 \<Rightarrow> u32 \<Rightarrow> u32 list \<Rightarrow> mac \<Rightarrow> mac res" where
  "configure_interface rc hwaddr sem rxa txa ins m =
     rbind (ASSERT (rc = EERR_OK)) (\<lambda>_.
     rbind (mac_start sem rxa txa ins m) (\<lambda>(ins, m). mac_set_hwaddr hwaddr m))"

section \<open>Runs\<close>

text \<open>
  A label says what the check found on the wire: what it read, whether the link is up and the text by which
  \<open>smi_describe_link\<close> describes it.
\<close>

datatype net_label = Check net_in bool string | Changed net_in

definition link_text :: "net_in \<Rightarrow> 'n net \<Rightarrow> string" where
  "link_text c s =
     (case smi_poll_link_status (regs c) (n_mac s) of
        Inl _ \<Rightarrow> []
      | Inr (up, ins, m) \<Rightarrow> (case smi_describe_link ins m of Inl _ \<Rightarrow> [] | Inr (buf, _, _) \<Rightarrow> buf))"

inductive net_step :: "'n netif_fn \<Rightarrow> 'n net \<Rightarrow> net_label \<Rightarrow> 'n net \<Rightarrow> bool" for F where
  check: "tcpip_checks F c s = Inr (up, s') \<Longrightarrow> net_step F s (Check c up (link_text c s)) s'"
| changed: "net_step F s (Changed c) (interface_changed c s)"

inductive net_run :: "'n netif_fn \<Rightarrow> 'n net \<Rightarrow> net_label list \<Rightarrow> 'n net \<Rightarrow> bool" for F where
  nil: "net_run F s [] s"
| snoc: "net_run F s ls t \<Longrightarrow> net_step F t l u \<Longrightarrow> net_run F s (ls @ [l]) u"

text \<open>What the checks saw of the link and of an address, and how often a sequence of booleans changes or rises.\<close>

definition links :: "net_label list \<Rightarrow> bool list" where
  "links ls = concat (map (\<lambda>l. case l of Check c up _ \<Rightarrow> [up] | _ \<Rightarrow> []) ls)"

definition valids :: "nat \<Rightarrow> net_label list \<Rightarrow> bool list" where
  "valids i ls = concat (map (\<lambda>l. case l of Check c up _ \<Rightarrow> [fst (addrs c ! i)] | _ \<Rightarrow> []) ls)"

fun changes :: "bool \<Rightarrow> bool list \<Rightarrow> nat" where
  "changes b [] = 0"
| "changes b (x # xs) = (if x \<noteq> b then 1 else 0) + changes x xs"

fun rises :: "bool \<Rightarrow> bool list \<Rightarrow> nat" where
  "rises b [] = 0"
| "rises b (x # xs) = (if x \<and> \<not> b then 1 else 0) + rises x xs"

fun is_link :: "net_event \<Rightarrow> bool" where
  "is_link (Link_changed t) = True"
| "is_link _ = False"

fun is_ip6 :: "nat \<Rightarrow> net_event \<Rightarrow> bool" where
  "is_ip6 i (Ip6_assigned j a l) = (i = j)"
| "is_ip6 i _ = False"

definition tally :: "(net_event \<Rightarrow> bool) \<Rightarrow> 'n net \<Rightarrow> nat" where
  "tally P s = length (filter P (events s))"

lemma changes_snoc: "changes b (xs @ [x]) = changes b xs + (if x \<noteq> last (b # xs) then 1 else 0)"
  by (induction xs arbitrary: b) auto

lemma rises_snoc: "rises b (xs @ [x]) = rises b xs + (if x \<and> \<not> last (b # xs) then 1 else 0)"
  by (induction xs arbitrary: b) auto

lemma label_simps [simp]:
  "links [] = []" "links (ls @ [Check c up b]) = links ls @ [up]" "links (ls @ [Changed c]) = links ls"
  "valids i [] = []" "valids i (ls @ [Check c up b]) = valids i ls @ [fst (addrs c ! i)]" "valids i (ls @ [Changed c]) = valids i ls"
  by (simp_all add: links_def valids_def)


section \<open>Each change is reported once\<close>

lemma tally_event [simp]: "tally P (net_event x s) = tally P s + (if P x then 1 else 0)"
  by (simp add: tally_def net_event_def)

lemma event_keeps [simp]:
  "thisif (net_event x s) = thisif s" "valid_ip6 (net_event x s) = valid_ip6 s" "did_startup (net_event x s) = did_startup s"
  by (simp_all add: net_event_def)

lemma tally_keeps [simp]:
  "tally P (s\<lparr>n_mac := a\<rparr>) = tally P s" "tally P (s\<lparr>thisif := b\<rparr>) = tally P s" "tally P (s\<lparr>watchdog_net := w\<rparr>) = tally P s"
  "tally P (s\<lparr>valid_ip6 := v\<rparr>) = tally P s" "tally P (s\<lparr>did_startup := d\<rparr>) = tally P s" "tally P (s\<lparr>eth_led_off := l\<rparr>) = tally P s"
  "tally P (s\<lparr>n_log := n\<rparr>) = tally P s"
  by (simp_all add: tally_def)

lemma shift_bit: "(drop_bit i (v :: u32) AND 1 = 0) = (\<not> bit v i)"
  by (simp add: bit_iff_odd_drop_bit and_one_eq odd_iff_mod_2_eq_one)

definition once :: "'n net \<Rightarrow> bool" where
  "once s \<longleftrightarrow> tally ((=) Started) s = (if did_startup s then 1 else 0)"

lemma startup_once:
  "once s \<Longrightarrow> once (log_startup_once s)" "tally is_link (log_startup_once s) = tally is_link s" "tally (is_ip6 i) (log_startup_once s) = tally (is_ip6 i) s"
  "thisif (log_startup_once s) = thisif s" "valid_ip6 (log_startup_once s) = valid_ip6 s"
  by (auto simp: once_def log_startup_once_def)

lemma check_ip6_effect:
  assumes "i < 32"
  shows "bit (valid_ip6 (check_ip6 c i s)) j = (if j = i then fst (addrs c ! i) else bit (valid_ip6 s) j)"
    "tally (is_ip6 j) (check_ip6 c i s) = tally (is_ip6 j) s + (if j = i \<and> fst (addrs c ! i) \<and> \<not> bit (valid_ip6 s) i then 1 else 0)"
    "tally is_link (check_ip6 c i s) = tally is_link s" "thisif (check_ip6 c i s) = thisif s" "once s \<Longrightarrow> once (check_ip6 c i s)"
  using assms by (auto simp: check_ip6_def Let_def shift_bit once_def bit_simps split: prod.split dest: bit_imp_le_length)

definition netif_ok :: "'n netif_fn \<Rightarrow> bool" where
  "netif_ok F \<longleftrightarrow> (\<forall>n. netif_is_link_up F (netif_set_link_up F n) \<and> \<not> netif_is_link_up F (netif_set_link_down F n))"

lemma link_changed_effect:
  assumes "link_changed c ins s = Inr (ins', s')"
  shows "tally is_link s' = tally is_link s + 1" "tally (is_ip6 i) s' = tally (is_ip6 i) s" "thisif s' = thisif s" "valid_ip6 s' = valid_ip6 s"
    "once s \<Longrightarrow> once s'"
  using assms by (auto simp: link_changed_def Let_def startup_once once_def rbind_eq_Inr split: if_splits) (auto simp: log_startup_once_def)

lemma check_link_effect:
  assumes "check_link F c s = Inr (up, s')" "netif_ok F"
  shows "netif_is_link_up F (thisif s') = up"
    "tally is_link s' = tally is_link s + (if up \<noteq> netif_is_link_up F (thisif s) then 1 else 0)"
    "tally (is_ip6 i) s' = tally (is_ip6 i) s" "valid_ip6 s' = valid_ip6 s" "once s \<Longrightarrow> once s'"
proof -
  let ?b = "netif_is_link_up F (thisif s)"
  obtain ins m where p: "smi_poll_link_status (regs c) (n_mac s) = Inr (up, ins, m)"
    using assms(1) by (auto simp: check_link_def Let_def rbind_eq_Inr split: if_splits)
  consider (same) "up = ?b" "s' = s\<lparr>n_mac := m, eth_led_off := up\<rparr>"
    | (other) ins' t where "up \<noteq> ?b" "link_changed c ins (s\<lparr>n_mac := m\<rparr>) = Inr (ins', t)"
        "s' = t\<lparr>thisif := (if up then netif_set_link_up F (thisif t) else netif_set_link_down F (thisif t)), eth_led_off := up\<rparr>"
    using assms(1) p by (cases up; cases ?b) (auto simp: check_link_def rbind_eq_Inr)
  note cases = this
  have once_led: "once (t\<lparr>thisif := x, eth_led_off := l\<rparr>) = once t" "once (t\<lparr>n_mac := m, eth_led_off := l\<rparr>) = once t" "once (t\<lparr>n_mac := m\<rparr>) = once t"
    for t :: "'a net" and x l m by (simp_all add: once_def)
  show "netif_is_link_up F (thisif s') = up" using assms(2) by (rule_tac cases) (auto simp: netif_ok_def)
  show "tally is_link s' = tally is_link s + (if up \<noteq> ?b then 1 else 0)" by (rule cases) (auto dest: link_changed_effect(1))
  show "tally (is_ip6 i) s' = tally (is_ip6 i) s" by (rule cases) (auto dest: link_changed_effect(2))
  show "valid_ip6 s' = valid_ip6 s" by (rule cases) (auto dest: link_changed_effect(4))
  show "once s'" if "once s" using that by (rule_tac cases) (auto simp: once_led dest: link_changed_effect(5))
qed

lemma tcpip_checks_effect:
  assumes "tcpip_checks F c s = Inr (up, s')" "netif_ok F"
  shows "netif_is_link_up F (thisif s') = up"
    "tally is_link s' = tally is_link s + (if up \<noteq> netif_is_link_up F (thisif s) then 1 else 0)"
    "j < 3 \<Longrightarrow> bit (valid_ip6 s') j = fst (addrs c ! j)"
    "j < 3 \<Longrightarrow> tally (is_ip6 j) s' = tally (is_ip6 j) s + (if fst (addrs c ! j) \<and> \<not> bit (valid_ip6 s) j then 1 else 0)"
    "once s \<Longrightarrow> once s'"
proof -
  obtain t where t: "check_link F c (s\<lparr>watchdog_net := 5\<rparr>) = Inr (up, t)" "s' = check_ip6 c 2 (check_ip6 c (Suc 0) (check_ip6 c 0 t))"
    using assms(1) by (auto simp: tcpip_checks_def rbind_eq_Inr LWIP_IPV6_NUM_ADDRESSES_def upt_rec numeral_2_eq_2)
  note e = check_link_effect [OF t(1) assms(2)]
  note i = check_ip6_effect [of 0] check_ip6_effect [of "Suc 0"] check_ip6_effect [of 2]
  show "netif_is_link_up F (thisif s') = up" using e(1) by (simp add: t(2) i)
  show "tally is_link s' = tally is_link s + (if up \<noteq> netif_is_link_up F (thisif s) then 1 else 0)" using e(2) by (simp add: t(2) i)
  have "once (s\<lparr>watchdog_net := 5\<rparr>) = once s" by (simp add: once_def)
  then show "once s'" if "once s" using e(5) that by (simp add: t(2) i)
  assume "j < 3"
  then have j: "j = 0 \<or> j = 1 \<or> j = 2" by auto
  show "bit (valid_ip6 s') j = fst (addrs c ! j)" using j by (auto simp: t(2) i)
  show "tally (is_ip6 j) s' = tally (is_ip6 j) s + (if fst (addrs c ! j) \<and> \<not> bit (valid_ip6 s) j then 1 else 0)"
    using j e(3,4) by (auto simp: t(2) i)
qed


definition net_inv :: "'n netif_fn \<Rightarrow> bool \<Rightarrow> net_label list \<Rightarrow> 'n net \<Rightarrow> bool" where
  "net_inv F b ls s \<longleftrightarrow> netif_is_link_up F (thisif s) = last (b # links ls) \<and> tally is_link s = changes b (links ls)
     \<and> (\<forall>i < 3. bit (valid_ip6 s) i = last (False # valids i ls) \<and> tally (is_ip6 i) s = rises False (valids i ls)) \<and> once s"

lemma interface_changed_effect:
  "thisif (interface_changed c s) = thisif s" "valid_ip6 (interface_changed c s) = valid_ip6 s" "tally is_link (interface_changed c s) = tally is_link s"
  "tally (is_ip6 i) (interface_changed c s) = tally (is_ip6 i) s" "once s \<Longrightarrow> once (interface_changed c s)"
  by (auto simp: interface_changed_def Let_def log_startup_once_def once_def)

lemma net_step_inv:
  assumes "net_step F s l s'" "net_inv F b ls s" "netif_ok F"
  shows "net_inv F b (ls @ [l]) s'"
  using assms(1)
proof (cases rule: net_step.cases)
  case (check c up)
  note e = tcpip_checks_effect [OF check(2) assms(3)]
  have "bit (valid_ip6 s') i = last (False # valids i (ls @ [l])) \<and> tally (is_ip6 i) s' = rises False (valids i (ls @ [l]))" if "i < 3" for i
    using assms(2) e(3,4) [OF that] that by (simp add: check(1) rises_snoc net_inv_def)
  then show ?thesis using assms(2) e(1,2,5) by (simp add: check(1) changes_snoc net_inv_def)
next
  case (changed c)
  then show ?thesis using assms(2) by (simp add: net_inv_def interface_changed_effect)
qed

lemma net_run_inv:
  assumes "net_run F s ls t" "net_inv F b [] s" "netif_ok F"
  shows "net_inv F b ls t"
  using assms
proof (induction rule: net_run.induct)
  case (nil s)
  then show ?case by simp
next
  case (snoc s ls t l u)
  then show ?case using net_step_inv by blast
qed

section \<open>The reports\<close>

text \<open>
  What has to be reported, from what was seen alone: whether the link was up, which addresses were valid and
  whether the start-up message was logged.
\<close>

type_synonym net_view = "bool \<times> (nat \<Rightarrow> bool) \<times> bool"

definition ip6_report :: "net_in \<Rightarrow> (nat \<Rightarrow> bool) \<Rightarrow> nat \<Rightarrow> net_event list" where
  "ip6_report c valid i =
     (case addrs c ! i of (now, addr, local) \<Rightarrow>
        if now \<and> \<not> valid i
        then Ip6_assigned i addr local # (if i = 0 \<and> (\<exists>b \<in> set (ip6_manycast c). b \<noteq> 0) then [Mld6_join addr] else [])
        else [])"

fun report :: "net_view \<Rightarrow> net_label \<Rightarrow> net_event list" where
  "report (link, valid, started) (Check c up descr) =
     (if up = link then [] else Link_changed descr # (if dhcp_on c \<or> started then [] else [Started]))
     @ ip6_report c valid 0 @ ip6_report c valid 1 @ ip6_report c valid 2"
| "report (link, valid, started) (Changed c) =
     (if ip_manycast c = 0 then [] else if if_up c then [Igmp_join] else [Igmp_leave])
     @ (if if_up c \<and> dhcp_on c then (if started then [] else [Started]) @ [Dhcp_acquired (if_addr c)] else [])"

fun next_view :: "net_view \<Rightarrow> net_label \<Rightarrow> net_view" where
  "next_view (link, valid, started) (Check c up descr) =
     (up, (\<lambda>i. if i < 3 then fst (addrs c ! i) else valid i), started \<or> up \<noteq> link \<and> \<not> dhcp_on c)"
| "next_view (link, valid, started) (Changed c) = (link, valid, started \<or> if_up c \<and> dhcp_on c)"

fun reports :: "net_view \<Rightarrow> net_label list \<Rightarrow> net_event list" where
  "reports w [] = []"
| "reports w (l # ls) = report w l @ reports (next_view w l) ls"

lemma reports_snoc: "reports w (ls @ [l]) = reports w ls @ report (foldl next_view w ls) l"
  by (induction ls arbitrary: w) simp_all

text \<open>The description of a link: from the registers of the PHY, read again after those of the poll.\<close>

definition phy_text :: "u32 \<Rightarrow> u32 \<Rightarrow> u32 \<Rightarrow> string" where
  "phy_text bmsr bmcr lpa =
     (if phy_up bmsr bmcr
      then (if bit bmcr 12 then ''Auto '' else ''Manual '') @ (if phy_fast bmcr lpa then ''100M '' else ''10M '')
        @ (if phy_full bmcr lpa then ''Full'' else ''Half'')
      else ''Down'')"

lemma describe_link:
  assumes "mac_flags m AND MFL_RUN \<noteq> 0"
  shows "\<exists>m'. smi_describe_link [0, bmsr, 0, bmcr, 0, lpa] m = Inr (phy_text bmsr bmcr lpa, [], m')"
proof -
  have b: "bmcr AND BMCR_ANENABLE = 0 \<longleftrightarrow> \<not> bit bmcr 12" "bmsr AND BMSR_LSTATUS = 0 \<longleftrightarrow> \<not> bit bmsr 2"
    "bmcr AND BMCR_SPEED100 = 0 \<longleftrightarrow> \<not> bit bmcr 13" "bmcr AND BMCR_FULLDPLX = 0 \<longleftrightarrow> \<not> bit bmcr 8"
    using and_masks [of bmcr] and_masks [of bmsr] by (auto simp: mii_defs)
  show ?thesis using assms
    by (simp add: smi_describe_link_def smi_read_now Let_def b lpa_masks bmsr_masks phy_text_def phy_up_def phy_fast_def phy_full_def
        SMI_DESCRIBE_SIZE_def)
qed

lemma link_text_phy:
  assumes "mac_flags (n_mac s) AND MFL_RUN \<noteq> 0" "regs c = phy_reads maccr old bmsr0 bmcr0 lpa0 @ [0, bmsr, 0, bmcr, 0, lpa]"
  shows "link_text c s = phy_text bmsr bmcr lpa"
proof -
  have run: "(f AND NOT MFL_LINK) AND MFL_RUN = f AND MFL_RUN" "(f OR MFL_LINK) AND MFL_RUN = f AND MFL_RUN" for f
    by (rule bit_eqI; auto simp: bit_simps MFL_LINK_def MFL_RUN_def)+
  have "\<exists>up m. smi_poll_link_status (regs c) (n_mac s) = Inr (up, [0, bmsr, 0, bmcr, 0, lpa], m)
      \<and> mac_flags m AND MFL_RUN = mac_flags (n_mac s) AND MFL_RUN"
    using assms(1) unfolding assms(2) by (auto simp: phy_reads_def smi_poll_link_status_def smi_read_now Let_def run)
  then obtain up m where p: "smi_poll_link_status (regs c) (n_mac s) = Inr (up, [0, bmsr, 0, bmcr, 0, lpa], m)"
    and m: "mac_flags m AND MFL_RUN = mac_flags (n_mac s) AND MFL_RUN" by blast
  then obtain m' where "smi_describe_link [0, bmsr, 0, bmcr, 0, lpa] m = Inr (phy_text bmsr bmcr lpa, [], m')"
    using describe_link [of m bmsr bmcr lpa] assms(1) by auto
  then show ?thesis using p by (simp add: link_text_def)
qed

text \<open>The host name of the log is the address of the last call-back with the interface up.\<close>

definition hostname_after :: "net_label \<Rightarrow> log \<Rightarrow> log" where
  "hostname_after l n = (case l of Changed c \<Rightarrow> if if_up c then log_sethostname (fmt_ip4 (if_addr c)) n else n | _ \<Rightarrow> n)"

definition view :: "'n netif_fn \<Rightarrow> 'n net \<Rightarrow> net_view" where
  "view F s = (netif_is_link_up F (thisif s), bit (valid_ip6 s), did_startup s)"

lemma startup_report:
  "events (log_startup_once s) = events s @ (if did_startup s then [] else [Started])" "did_startup (log_startup_once s)"
  "thisif (log_startup_once s) = thisif s" "valid_ip6 (log_startup_once s) = valid_ip6 s" "n_log (log_startup_once s) = n_log s"
  by (auto simp: log_startup_once_def net_event_def)

lemma link_changed_report:
  assumes "link_changed c ins s = Inr (ins', s')"
  shows "\<exists>buf i m. smi_describe_link ins (n_mac s) = Inr (buf, i, m)
      \<and> events s' = events s @ Link_changed buf # (if dhcp_on c \<or> did_startup s then [] else [Started])"
    "did_startup s' = (did_startup s \<or> \<not> dhcp_on c)" "thisif s' = thisif s" "valid_ip6 s' = valid_ip6 s" "n_log s' = n_log s"
  using assms by (auto simp: link_changed_def rbind_eq_Inr Let_def startup_report net_event_def)

lemma check_link_report:
  assumes "check_link F c s = Inr (up, s')" "netif_ok F"
  shows "events s' = events s @ (if up = netif_is_link_up F (thisif s) then []
        else Link_changed (link_text c s) # (if dhcp_on c \<or> did_startup s then [] else [Started]))"
    "did_startup s' = (did_startup s \<or> up \<noteq> netif_is_link_up F (thisif s) \<and> \<not> dhcp_on c)" "n_log s' = n_log s"
proof -
  let ?b = "netif_is_link_up F (thisif s)"
  obtain ins m where p: "smi_poll_link_status (regs c) (n_mac s) = Inr (up, ins, m)"
    using assms(1) by (auto simp: check_link_def Let_def rbind_eq_Inr split: if_splits)
  consider (same) "up = ?b" "s' = s\<lparr>n_mac := m, eth_led_off := up\<rparr>"
    | (other) ins' t where "up \<noteq> ?b" "link_changed c ins (s\<lparr>n_mac := m\<rparr>) = Inr (ins', t)"
        "s' = t\<lparr>thisif := (if up then netif_set_link_up F (thisif t) else netif_set_link_down F (thisif t)), eth_led_off := up\<rparr>"
    using assms(1) p by (cases up; cases ?b) (auto simp: check_link_def rbind_eq_Inr)
  note cases = this
  have other: "events s' = events s @ Link_changed (link_text c s) # (if dhcp_on c \<or> did_startup s then [] else [Started])"
    if "link_changed c ins (s\<lparr>n_mac := m\<rparr>) = Inr (ins', t)" "events s' = events t" for ins' t
    using link_changed_report(1) [OF that(1)] that(2) by (auto simp: link_text_def p)
  show "events s' = events s @ (if up = ?b then [] else Link_changed (link_text c s) # (if dhcp_on c \<or> did_startup s then [] else [Started]))"
    by (rule cases) (simp, use other in simp)
  show "did_startup s' = (did_startup s \<or> up \<noteq> ?b \<and> \<not> dhcp_on c)" "n_log s' = n_log s"
    by (rule cases; auto dest: link_changed_report(2,5))+
qed

lemma check_ip6_report:
  "events (check_ip6 c i s) = events s @ ip6_report c (bit (valid_ip6 s)) i"
  "did_startup (check_ip6 c i s) = did_startup s" "n_log (check_ip6 c i s) = n_log s"
  unfolding check_ip6_def shift_bit by (auto simp: ip6_report_def net_event_def Let_def list_all_iff split: prod.split)

lemma ip6_report_cong: "valid i = valid' i \<Longrightarrow> ip6_report c valid i = ip6_report c valid' i"
  by (simp add: ip6_report_def)

lemma net_step_report:
  assumes "net_step F s l s'" "netif_ok F"
  shows "events s' = events s @ report (view F s) l" "view F s' = next_view (view F s) l" "n_log s' = hostname_after l (n_log s)"
  using assms(1)
proof -
  from assms(1) have "events s' = events s @ report (view F s) l \<and> view F s' = next_view (view F s) l \<and> n_log s' = hostname_after l (n_log s)"
  proof (cases rule: net_step.cases)
    case (check c up)
    let ?s = "s\<lparr>watchdog_net := 5\<rparr>"
    obtain t where t: "check_link F c ?s = Inr (up, t)" "s' = check_ip6 c 2 (check_ip6 c 1 (check_ip6 c 0 t))"
      using check(2) by (auto simp: tcpip_checks_def rbind_eq_Inr LWIP_IPV6_NUM_ADDRESSES_def upt_rec numeral_2_eq_2)
    have lt: "link_text c ?s = link_text c s" by (simp add: link_text_def)
    note l = check_link_report [OF t(1) assms(2), unfolded lt] and e = check_link_effect [OF t(1) assms(2)]
    have b: "bit (valid_ip6 (check_ip6 c i s)) j = (if j = i then fst (addrs c ! i) else bit (valid_ip6 s) j)" if "i < 3" for i j s
      using check_ip6_effect(1) [of i c s j] that by simp
    have v: "bit (valid_ip6 t) = bit (valid_ip6 s)" using e(4) by simp
    have i: "ip6_report c (bit (valid_ip6 (check_ip6 c 0 t))) 1 = ip6_report c (bit (valid_ip6 s)) 1"
      "ip6_report c (bit (valid_ip6 (check_ip6 c 1 (check_ip6 c 0 t)))) 2 = ip6_report c (bit (valid_ip6 s)) 2"
      by (rule ip6_report_cong, simp add: b v)+
    have "events s' = events s @ report (view F s) l"
      unfolding check(1) t(2) check_ip6_report i v using l(1) by (simp add: view_def)
    moreover have "bit (valid_ip6 s') = (\<lambda>i. if i < 3 then fst (addrs c ! i) else bit (valid_ip6 s) i)"
      by (rule ext) (auto simp: t(2) b v numeral_3_eq_3 less_Suc_eq numeral_2_eq_2)
    then have "view F s' = next_view (view F s) l"
      using tcpip_checks_effect(1) [OF check(2) assms(2)] l(2) by (simp add: view_def check(1) t(2) check_ip6_report)
    moreover have "n_log s' = n_log s" using l(3) by (simp add: t(2) check_ip6_report)
    ultimately show ?thesis by (simp add: check(1) hostname_after_def)
  next
    case (changed c)
    then show ?thesis
      by (auto simp: view_def interface_changed_def Let_def net_event_def startup_report hostname_after_def)
  qed
  then show "events s' = events s @ report (view F s) l" "view F s' = next_view (view F s) l" "n_log s' = hostname_after l (n_log s)"
    by blast+
qed

lemma net_run_report:
  assumes "net_run F s ls t" "netif_ok F"
  shows "events t = events s @ reports (view F s) ls \<and> view F t = foldl next_view (view F s) ls \<and> n_log t = fold hostname_after ls (n_log s)"
  using assms
proof (induction rule: net_run.induct)
  case (snoc s ls t l u)
  then show ?case using net_step_report [OF snoc.hyps(2) assms(2)] by (simp add: reports_snoc)
qed simp

definition net_fresh :: "'n net \<Rightarrow> bool" where
  "net_fresh s \<longleftrightarrow> events s = [] \<and> valid_ip6 s = 0 \<and> \<not> did_startup s"

text \<open>
  C34. From the start, after any sequence of checks and call-backs, exactly the following has been reported, in
  this order: each time a check finds the link other than the last one did, its description and, without DHCP,
  the start-up message if it was not logged; each address that has become valid, with its words and whether it is
  link-local, and the group joined with the first of them; at each call-back the group joined or left and, with
  DHCP and the interface up, the start-up message if it was not logged and the address acquired. The interface's
  link is what the last check found, and the log's host name the address of the last call-back with the interface
  up. In number: each change of the link is reported once, so is each time an address became valid, and the
  start-up message at most once. The description says what the registers of the PHY say at the moment of the
  report: down, or how the speed was set, the speed and the duplex mode.
\<close>

theorem net_changes_reported:
  assumes "netif_ok F" "net_fresh s" "net_run F s ls t"
  shows "events t = reports (netif_is_link_up F (thisif s), (\<lambda>_. False), False) ls
    \<and> n_log t = fold hostname_after ls (n_log s)
    \<and> netif_is_link_up F (thisif t) = last (netif_is_link_up F (thisif s) # links ls)
    \<and> length (filter is_link (events t)) = changes (netif_is_link_up F (thisif s)) (links ls)
    \<and> (\<forall>i < LWIP_IPV6_NUM_ADDRESSES. length (filter (is_ip6 i) (events t)) = rises False (valids i ls))
    \<and> length (filter ((=) Started) (events t)) \<le> 1
    \<and> (\<forall>c. \<forall>maccr old bmsr0 bmcr0 lpa0 bmsr bmcr lpa.
        mac_flags (n_mac t) AND MFL_RUN \<noteq> 0 \<and> regs c = phy_reads maccr old bmsr0 bmcr0 lpa0 @ [0, bmsr, 0, bmcr, 0, lpa]
          \<longrightarrow> link_text c t = phy_text bmsr bmcr lpa)"
proof -
  have "net_inv F (netif_is_link_up F (thisif s)) [] s" using assms(2) by (simp add: net_inv_def net_fresh_def tally_def once_def)
  note n = net_run_inv [OF assms(3) this assms(1)]
  have "view F s = (netif_is_link_up F (thisif s), (\<lambda>_. False), False)" "events s = []"
    using assms(2) by (simp_all add: view_def net_fresh_def fun_eq_iff)
  then show ?thesis using net_run_report [OF assms(3,1)] n
    by (simp add: net_inv_def tally_def once_def LWIP_IPV6_NUM_ADDRESSES_def) (use link_text_phy in blast)
qed

definition net0 :: "bool net" where
  "net0 = \<lparr>n_mac = mac0, thisif = False, watchdog_net = 5, valid_ip6 = 0, did_startup = False, eth_led_off = False, n_log = log0, events = []\<rparr>"

definition bool_if :: "bool netif_fn" where
  "bool_if = \<lparr>netif_is_link_up = (\<lambda>b. b), netif_set_link_up = (\<lambda>b. True), netif_set_link_down = (\<lambda>b. False)\<rparr>"

definition in0 :: net_in where
  "in0 = \<lparr>regs = [0], addrs = [(True, [1, 2, 3, 4], True), (False, [], False), (False, [], False)], dhcp_on = False, ip6_manycast = [255],
     ip_manycast = 0, if_up = True, if_addr = 0x0100007F\<rparr>"

definition in1 :: net_in where "in1 = in0\<lparr>dhcp_on := True\<rparr>"

theorem net_changes_reported_witness:
  "\<exists>t up text. net_run bool_if net0 [Check in0 up text, Changed in1] t
     \<and> events t = [Ip6_assigned 0 [1, 2, 3, 4] True, Mld6_join [1, 2, 3, 4], Started, Dhcp_acquired 0x0100007F]"
proof -
  have "\<exists>s. tcpip_checks bool_if in0 net0 = Inr (False, s)"
    by (simp add: tcpip_checks_def check_link_def smi_poll_link_status_def net0_def mac0_def in0_def bool_if_def rdreg.simps MFL_RUN_def)
  then obtain s where s: "tcpip_checks bool_if in0 net0 = Inr (False, s)" by blast
  let ?l = "Check in0 False (link_text in0 net0)"
  have "net_run bool_if net0 ([] @ [?l]) s" by (rule net_run.snoc [OF net_run.nil net_step.check [OF s]])
  then have r: "net_run bool_if net0 (([] @ [?l]) @ [Changed in1]) (interface_changed in1 s)" by (rule net_run.snoc) (rule net_step.changed)
  have ok: "netif_ok bool_if" "net_fresh net0" by (simp_all add: netif_ok_def bool_if_def net_fresh_def net0_def)
  have d: "netif_is_link_up bool_if (thisif net0) = False" by (simp add: bool_if_def net0_def)
  have "events (interface_changed in1 s) = [Ip6_assigned 0 [1, 2, 3, 4] True, Mld6_join [1, 2, 3, 4], Started, Dhcp_acquired 0x0100007F]"
    unfolding conjunct1 [OF net_changes_reported [OF ok r]] d by (simp add: ip6_report_def in0_def in1_def)
  with r show ?thesis by auto
qed

end
