(* ===== verification/Snmp.thy ===== *)
theory Snmp
  imports Gps
begin

text \<open>
  The objects that the SNMP agent asks for, \<open>src/src/net/snmp_app.c\<close>: the tree of nodes under \<open>private\<close> and, for each
  leaf, which object it is and what its value is. How the agent walks the tree is lwIP's; the theory shows that each leaf answers
  with its own value and that no identifier makes an accepted object read out of bounds.
\<close>

section \<open>Data\<close>

text \<open>
  An identifier is a list of numbers; the agent passes a pointer to the part that follows a node, here an index.
  \<open>id_inst_ptr\<close> is such an index as well.
\<close>

datatype mib_instance = MIB_OBJECT_NONE | MIB_OBJECT_SCALAR | MIB_OBJECT_TAB
datatype mib_access = MIB_OBJECT_READ_ONLY | Not_set

record obj_def =
  od_instance :: mib_instance
  od_access :: mib_access
  od_asn_type :: u8
  v_len :: nat
  id_inst_len :: u8
  id_inst_ptr :: nat

definition LOOPSTATS_VALUES :: nat where "LOOPSTATS_VALUES = 6"
definition ASN_INTEG :: u8 where "ASN_INTEG = 0x02"

datatype leaf = Loopstats | Gps | Serverstate
datatype mib_node = Scalar leaf | Array_node "int list" "mib_node list"

section \<open>Operations\<close>

text \<open>
  \<open>ident - 1\<close> is the last number of the node's own identifier. The type is \<open>UNIV | PRIMIT | INTEG\<close>, which is 2; a value
  is four bytes long.
\<close>

definition integer_object :: "mib_instance \<Rightarrow> u8 \<Rightarrow> nat \<Rightarrow> obj_def \<Rightarrow> obj_def" where
  "integer_object inst ident_len ident od =
     od\<lparr>id_inst_len := ident_len, id_inst_ptr := ident, od_instance := inst, od_access := MIB_OBJECT_READ_ONLY, od_asn_type := ASN_INTEG, v_len := 4\<rparr>"

definition step_back :: "int list \<Rightarrow> nat \<Rightarrow> nat res" where
  "step_back oid ident = (if ident = 0 \<or> length oid < ident then Inl (Oob ''ident'') else Inr (ident - 1))"

definition loopstats_get_object_def :: "u8 \<Rightarrow> int list \<Rightarrow> nat \<Rightarrow> obj_def \<Rightarrow> obj_def res" where
  "loopstats_get_object_def ident_len oid ident od =
     (let ident_len = ident_len + 1 in
      if ident_len \<noteq> 2 then Inr (od\<lparr>od_instance := MIB_OBJECT_NONE\<rparr>)
      else rbind (step_back oid ident) (\<lambda>ident.
           if oid ! ident \<in> {1, 2, 3, 4, 5, 6} then Inr (integer_object MIB_OBJECT_TAB ident_len ident od)
           else Inr (od\<lparr>id_inst_len := ident_len, id_inst_ptr := ident, od_instance := MIB_OBJECT_NONE\<rparr>)))"

definition gps_get_object_def :: "u8 \<Rightarrow> int list \<Rightarrow> nat \<Rightarrow> obj_def \<Rightarrow> obj_def res" where
  "gps_get_object_def ident_len oid ident od =
     (let ident_len = ident_len + 1 in
      if ident_len \<noteq> 2 then Inr (od\<lparr>od_instance := MIB_OBJECT_NONE\<rparr>)
      else rbind (step_back oid ident) (\<lambda>ident.
           if oid ! ident = 1 then Inr (integer_object MIB_OBJECT_TAB ident_len ident od)
           else Inr (od\<lparr>id_inst_len := ident_len, id_inst_ptr := ident, od_instance := MIB_OBJECT_NONE\<rparr>)))"

definition serverstate_get_object_def :: "u8 \<Rightarrow> int list \<Rightarrow> nat \<Rightarrow> obj_def \<Rightarrow> obj_def res" where
  "serverstate_get_object_def ident_len oid ident od =
     (let ident_len = ident_len + 1 in
      if ident_len = 2 then rbind (step_back oid ident) (\<lambda>ident. Inr (integer_object MIB_OBJECT_SCALAR ident_len ident od))
      else Inr (od\<lparr>od_instance := MIB_OBJECT_NONE\<rparr>))"

text \<open>The value, which is that of the parsers' state and its clock, or \<open>None\<close> where the function stores nothing. The first number is truncated to a byte.\<close>

definition inst_id :: "int list \<Rightarrow> obj_def \<Rightarrow> u8 res" where
  "inst_id oid od = (if id_inst_ptr od < length oid then Inr (word_of_int (oid ! id_inst_ptr od)) else Inl (Oob ''ident''))"

definition loopstats_get_value :: "gps \<Rightarrow> int list \<Rightarrow> obj_def \<Rightarrow> int option res" where
  "loopstats_get_value e oid od =
     rbind (inst_id oid od) (\<lambda>id.
     if 1 \<le> id \<and> unat id \<le> LOOPSTATS_VALUES + 1
     then (if unat id - 1 < LOOPSTATS_VALUES then Inr (Some (loopstats_values (gclk e) ! (unat id - 1))) else Inl (Oob ''loopstats_values''))
     else Inr None)"

definition gps_get_value :: "gps \<Rightarrow> int list \<Rightarrow> obj_def \<Rightarrow> int option res" where
  "gps_get_value e oid od = rbind (inst_id oid od) (\<lambda>id. Inr (if id = 1 then Some (gps_fix_svs e) else None))"

definition serverstate_get_value :: "gps \<Rightarrow> int list \<Rightarrow> obj_def \<Rightarrow> int option res" where
  "serverstate_get_value e oid od = Inr (Some (sint (status_flags (gclk e))))"

fun get_object_def :: "leaf \<Rightarrow> u8 \<Rightarrow> int list \<Rightarrow> nat \<Rightarrow> obj_def \<Rightarrow> obj_def res" where
  "get_object_def Loopstats = loopstats_get_object_def"
| "get_object_def Gps = gps_get_object_def"
| "get_object_def Serverstate = serverstate_get_object_def"

fun get_value :: "leaf \<Rightarrow> gps \<Rightarrow> int list \<Rightarrow> obj_def \<Rightarrow> int option res" where
  "get_value Loopstats = loopstats_get_value"
| "get_value Gps = gps_get_value"
| "get_value Serverstate = serverstate_get_value"

section \<open>The tree\<close>

definition mib_loopstats :: mib_node where
  "mib_loopstats = Array_node [1, 2, 3, 4, 5, 6]
     [Scalar Loopstats, Scalar Loopstats, Scalar Loopstats, Scalar Loopstats, Scalar Loopstats, Scalar Loopstats]"

definition mib_gps :: mib_node where "mib_gps = Array_node [1] [Scalar Gps]"

definition mib_ntpserver :: mib_node where "mib_ntpserver = Array_node [1, 2, 3] [Scalar Serverstate, mib_loopstats, mib_gps]"

definition mib_vendor :: mib_node where "mib_vendor = Array_node [1] [mib_ntpserver]"

definition mib_enterprises :: mib_node where "mib_enterprises = Array_node [29174] [mib_vendor]"

definition mib_private :: mib_node where "mib_private = Array_node [1] [mib_enterprises]"

text \<open>The leaves with their identifiers.\<close>

fun leaves :: "mib_node \<Rightarrow> (int list \<times> leaf) list" where
  "leaves (Scalar l) = [([], l)]"
| "leaves (Array_node ids nodes) =
     concat (map (\<lambda>(i, ls). map (\<lambda>(p, l). (i # p, l)) ls) (zip ids (map leaves nodes)))"

section \<open>Properties\<close>

text \<open>Asking for instance 0 of a node.\<close>

definition snmp_get :: "gps \<Rightarrow> obj_def \<Rightarrow> int list \<Rightarrow> leaf \<Rightarrow> (mib_instance \<times> int option) res" where
  "snmp_get e od path l =
     rbind (get_object_def l 1 (path @ [0]) (length path) od) (\<lambda>od.
     rbind (get_value l e (path @ [0]) od) (\<lambda>v. Inr (od_instance od, v)))"

lemmas snmp_defs = snmp_get_def loopstats_get_object_def_def gps_get_object_def_def serverstate_get_object_def_def loopstats_get_value_def gps_get_value_def
  serverstate_get_value_def integer_object_def step_back_def inst_id_def LOOPSTATS_VALUES_def

lemma mib_leaves:
  "leaves mib_private =
     ([1, 29174, 1, 1], Serverstate) # map (\<lambda>k. ([1, 29174, 1, 2, k], Loopstats)) [1, 2, 3, 4, 5, 6] @ [([1, 29174, 1, 3, 1], Gps)]"
  by (simp add: mib_private_def mib_enterprises_def mib_vendor_def mib_ntpserver_def mib_loopstats_def mib_gps_def)

text \<open>
  Instance 0 of each of the eight leaves under \<open>private\<close> is the value that the identifier stands for, and the
  tree has no other leaves.
\<close>

theorem snmp_values:
  "map (\<lambda>(path, l). (path, snmp_get e od path l)) (leaves mib_private) =
     ([1, 29174, 1, 1], Inr (MIB_OBJECT_SCALAR, Some (sint (status_flags (gclk e)))))
     # map (\<lambda>k. ([1, 29174, 1, 2, int k], Inr (MIB_OBJECT_TAB, Some (loopstats_values (gclk e) ! (k - 1))))) [1, 2, 3, 4, 5, 6]
     @ [([1, 29174, 1, 3, 1], Inr (MIB_OBJECT_TAB, Some (gps_fix_svs e)))]"
  by (simp add: mib_leaves snmp_defs Let_def)

text \<open>Whatever the identifier, an object that is accepted has a value, which is read within its array; the test of
  \<open>loopstats_get_value\<close> alone would let one more through.\<close>

lemma snmp_accepted:
  assumes "get_object_def l ident_len oid ident od = Inr od'" "od_instance od' \<noteq> MIB_OBJECT_NONE"
  shows "\<exists>v. get_value l e oid od' = Inr (Some v)"
  using assms by (cases l) (auto simp: snmp_defs Let_def rbind_def split: if_splits)

lemma value_past_the_end: "loopstats_get_value e [7] (od\<lparr>id_inst_ptr := 0\<rparr>) = Inl (Oob ''loopstats_values'')"
  by (simp add: snmp_defs)

end
