(* ===== verification/Ntpclient.thy ===== *)
theory Ntpclient
  imports Ntp Settings
begin

text \<open>
  The thread of the NTP client, \<open>src/src/net/ntpclient.c\<close>: it looks up four servers, asks each one for the time and
  waits. What the calls into the network answer is an argument. The theory shows that no answer changes what the thread
  does: it asks every server that it found again after the shorter wait.
\<close>

section \<open>State\<close>

text \<open>\<open>queries\<close> has the servers with what was sent to them, \<open>replies\<close> what was logged of an answer.\<close>

record ntp_client =
  ntp_servers :: "u32 list"
  query_buf :: "u8 list"
  queries :: "(u32 \<times> u8 list) list"
  replies :: "(u64 \<times> u64) option list"
  hostnames :: "u8 list list"

definition MAX_SERVERS_LOG2 :: nat where "MAX_SERVERS_LOG2 = 2"
definition MAX_SERVERS :: nat where "MAX_SERVERS = 2 ^ MAX_SERVERS_LOG2"
definition QUERY_INTERVAL :: nat where "QUERY_INTERVAL = 12"
definition RETRY_INTERVAL :: nat where "RETRY_INTERVAL = 6"

definition I2ST :: "nat \<Rightarrow> u32" where
  "I2ST x = pdMS_TO_TICKS (100 * (push_bit x 1))"

definition ntp_hosts :: "nat \<Rightarrow> u8 list" where
  "ntp_hosts i = fmt_u i @ ascii ''.pool.ntp.org''"

section \<open>Operations\<close>

text \<open>
  A reply: the two readings of the clock around it, and the buffer when the receive succeeds, with its length.
\<close>

record client_in =
  time_sent :: u64
  time_back :: u64
  got_reply :: "u8 list option"

definition client_query :: "u8 list" where
  "client_query = put 2 [of_nat QUERY_INTERVAL] (put 0 [VN_4 OR MODE_CLIENT] (replicate 48 0))"

definition ntp_query :: "client_in \<Rightarrow> nat \<Rightarrow> ntp_client \<Rightarrow> u64 \<times> ntp_client" where
  "ntp_query c index s =
     (let s = s\<lparr>query_buf := client_query\<rparr>;
          s = s\<lparr>queries := queries s @ [(ntp_servers s ! index, query_buf s)]\<rparr> in
      case got_reply c of
        Some b \<Rightarrow>
          let s = s\<lparr>query_buf := take 48 b @ drop (length b) (query_buf s)\<rparr> in
          if 48 \<le> length b
          then (0, s\<lparr>replies := replies s @ [Some (time_back c - time_sent c, ntp_stamp 40 (query_buf s))]\<rparr>)
          else (0, s\<lparr>replies := replies s @ [None]\<rparr>)
      | None \<Rightarrow> (0, s\<lparr>replies := replies s @ [None]\<rparr>))"

text \<open>The two loops over the servers; \<open>dns i\<close> is the address found, if any. \<open>accum\<close> starts with any value.\<close>

definition lookup_servers :: "(nat \<Rightarrow> u32 option) \<Rightarrow> ntp_client \<Rightarrow> ntp_client" where
  "lookup_servers dns s =
     fold (\<lambda>i s. s\<lparr>hostnames := hostnames s @ [take 31 (ntp_hosts i)],
                   ntp_servers := (ntp_servers s)[i := (case dns i of Some a \<Rightarrow> a | None \<Rightarrow> 0)]\<rparr>) [0..<MAX_SERVERS] s"

definition query_servers :: "(nat \<Rightarrow> client_in) \<Rightarrow> ntp_client \<Rightarrow> u64 \<Rightarrow> nat \<times> u64 \<times> ntp_client" where
  "query_servers c s accum =
     fold (\<lambda>i (num_responses, accum, s).
        if ntp_servers s ! i = 0 then (num_responses, accum, s)
        else let (result, s) = ntp_query (c i) i s in
             if result \<noteq> 0 then (num_responses + 1, accum + drop_bit MAX_SERVERS_LOG2 result, s)
             else (num_responses, accum, s)) [0..<MAX_SERVERS] (0, accum, s)"

text \<open>One round of the thread, with the time that it waits at the end.\<close>

definition ntpclient_round :: "(nat \<Rightarrow> u32 option) \<Rightarrow> (nat \<Rightarrow> client_in) \<Rightarrow> u64 \<Rightarrow> ntp_client \<Rightarrow> u32 \<times> u64 \<times> ntp_client" where
  "ntpclient_round dns c accum s =
     (let s = lookup_servers dns s; (num_responses, accum, s) = query_servers c s accum in
      if num_responses = 0 then (I2ST RETRY_INTERVAL, accum, s)
      else (I2ST QUERY_INTERVAL, push_bit MAX_SERVERS_LOG2 (accum div of_nat num_responses), s))"

section \<open>What a round does\<close>

lemma query_zero: "ntp_query c i s = (r, s') \<Longrightarrow> r = 0 \<and> ntp_servers s' = ntp_servers s \<and> queries s' = queries s @ [(ntp_servers s ! i, client_query)]"
  by (auto simp: ntp_query_def Let_def split: option.splits if_splits)

lemma query_servers_result:
  obtains s' where "query_servers c s accum = (0, accum, s')"
    "queries s' = queries s @ map (\<lambda>i. (ntp_servers s ! i, client_query)) (filter (\<lambda>i. ntp_servers s ! i \<noteq> 0) [0..<MAX_SERVERS])"
proof -
  let ?f = "\<lambda>i (num_responses, accum, s).
        if ntp_servers s ! i = 0 then (num_responses, accum, s)
        else let (result, s) = ntp_query (c i) i s in
             if result \<noteq> 0 then (num_responses + 1, accum + drop_bit MAX_SERVERS_LOG2 result, s)
             else (num_responses :: nat, accum, s)"
  have "\<exists>s'. fold ?f is (0, accum, s) = (0, accum, s') \<and> ntp_servers s' = ntp_servers s
    \<and> queries s' = queries s @ map (\<lambda>i. (ntp_servers s ! i, client_query)) (filter (\<lambda>i. ntp_servers s ! i \<noteq> 0) is)" for "is"
  proof (induction "is" arbitrary: s)
    case (Cons i "is")
    obtain r t where q: "ntp_query (c i) i s = (r, t)" by (cases "ntp_query (c i) i s")
    note z = query_zero [OF q]
    show ?case using Cons [of s] Cons [of t] q z by (auto simp: Let_def)
  qed simp
  then show thesis using that by (auto simp: query_servers_def)
qed

text \<open>
  Whatever the network answers, a round asks each server that it found once, counts no response and waits 6.4 seconds, that is 640 ticks.
\<close>

lemma client_never_counts:
  "\<exists>s'. ntpclient_round dns c accum s = (640, accum, s')
     \<and> queries s' = queries s @ map (\<lambda>i. (ntp_servers (lookup_servers dns s) ! i, client_query))
         (filter (\<lambda>i. ntp_servers (lookup_servers dns s) ! i \<noteq> 0) [0..<MAX_SERVERS])"
proof -
  have q: "queries (lookup_servers dns s) = queries s" by (simp add: lookup_servers_def MAX_SERVERS_def MAX_SERVERS_LOG2_def upt_rec)
  obtain s' where s': "query_servers c (lookup_servers dns s) accum = (0, accum, s')"
    "queries s' = queries (lookup_servers dns s) @ map (\<lambda>i. (ntp_servers (lookup_servers dns s) ! i, client_query))
         (filter (\<lambda>i. ntp_servers (lookup_servers dns s) ! i \<noteq> 0) [0..<MAX_SERVERS])" by (rule query_servers_result)
  have t: "I2ST RETRY_INTERVAL = 640" by (simp add: I2ST_def RETRY_INTERVAL_def pdMS_TO_TICKS_def)
  show ?thesis using s' q t by (simp add: ntpclient_round_def Let_def)
qed

end
