(* ===== verification/Bytequeue.thy ===== *)
theory Bytequeue
  imports Common
begin

text \<open>
  The byte queues between a thread and an interrupt, \<open>src/lib/util/queue.c\<close>: a ring buffer, and a flag that one side
  waits for. The theory states what a byte queue promises as a locale, shows that the ring keeps it, and proves of all
  interleavings of a thread with the interrupt that bytes are neither lost nor reordered and that no wake-up is missed. The file is written for another kernel
  and nothing in the firmware calls it any more. How long a wait lasts is not modelled.
\<close>

section \<open>State\<close>

text \<open>
  The pointers are offsets from \<open>p_bot\<close>. \<open>q_flag\<close> is the flag of the kernel, which a wait that it ends clears;
  \<open>cb_calls\<close> counts the calls of the function that was installed, which starts the device.
\<close>

record queue =
  q_flag :: bool
  q_size :: u8
  q_count :: u8
  q_wakeup :: u8
  q_buf :: "u8 list"
  p_top :: nat
  p_write :: nat
  p_read :: nat
  cb_func :: bool
  cb_calls :: nat

definition queue_init :: "u8 list \<Rightarrow> u8 \<Rightarrow> queue \<Rightarrow> queue" where
  "queue_init b sz q =
     q\<lparr>q_flag := False, q_buf := b, p_read := 0, p_write := 0, p_top := unat sz, q_size := sz, q_wakeup := sz,
       q_count := 0, cb_func := False\<rparr>"

definition queue_cb :: "bool \<Rightarrow> queue \<Rightarrow> queue" where
  "queue_cb f q = q\<lparr>cb_func := f\<rparr>"

text \<open>The two statements that every operation is made of.\<close>

definition ring_put :: "u8 \<Rightarrow> queue \<Rightarrow> queue" where
  "ring_put v q =
     (let q = q\<lparr>q_count := q_count q + 1, q_buf := (q_buf q)[p_write q := v], p_write := p_write q + 1\<rparr> in
      if p_write q = p_top q then q\<lparr>p_write := 0\<rparr> else q)"

definition ring_get :: "queue \<Rightarrow> u8 \<times> queue" where
  "ring_get q =
     (let v = q_buf q ! p_read q; q = q\<lparr>p_read := p_read q + 1\<rparr>;
          q = (if p_read q = p_top q then q\<lparr>p_read := 0\<rparr> else q) in
      (v, q\<lparr>q_count := q_count q - 1\<rparr>))"

definition call_cb :: "queue \<Rightarrow> queue" where
  "call_cb q = (if cb_func q then q\<lparr>cb_calls := cb_calls q + 1\<rparr> else q)"

section \<open>A byte queue\<close>

locale byte_fifo =
  fixes enq :: "u8 \<Rightarrow> 'q \<Rightarrow> 'q" and deq :: "'q \<Rightarrow> u8 \<times> 'q" and items :: "'q \<Rightarrow> u8 list" and room :: "'q \<Rightarrow> bool" and ok :: "'q \<Rightarrow> bool"
  assumes enq_items: "ok q \<Longrightarrow> room q \<Longrightarrow> items (enq v q) = items q @ [v]"
    and enq_ok: "ok q \<Longrightarrow> room q \<Longrightarrow> ok (enq v q)"
    and deq_items: "ok q \<Longrightarrow> items q \<noteq> [] \<Longrightarrow> items q = fst (deq q) # items (snd (deq q))"
    and deq_ok: "ok q \<Longrightarrow> items q \<noteq> [] \<Longrightarrow> ok (snd (deq q))"
begin

lemma take_out:
  assumes "ok q" "items q = v # vs"
  obtains q' where "deq q = (v, q')" "items q' = vs" "ok q'"
  using deq_items [OF assms(1)] deq_ok [OF assms(1)] assms(2) by (cases "deq q") auto

lemma put_then_get:
  assumes "ok q" "items q = []" "room q"
  obtains q' where "deq (enq v q) = (v, q')" "items q' = []" "ok q'"
proof -
  have "items (enq v q) = [v]" "ok (enq v q)" using enq_items [OF assms(1,3), of v] enq_ok [OF assms(1,3), of v] assms(2) by simp_all
  then show thesis using take_out [of "enq v q" v "[]"] that by blast
qed

end

definition items :: "queue \<Rightarrow> u8 list" where
  "items q = map (\<lambda>k. q_buf q ! ((p_read q + k) mod p_top q)) [0..<unat (q_count q)]"

definition ring_ok :: "queue \<Rightarrow> bool" where
  "ring_ok q \<longleftrightarrow> 0 < p_top q \<and> length (q_buf q) = p_top q \<and> p_top q = unat (q_size q) \<and> p_read q < p_top q
     \<and> unat (q_count q) \<le> p_top q \<and> p_write q = (p_read q + unat (q_count q)) mod p_top q"

definition not_full :: "queue \<Rightarrow> bool" where
  "not_full q \<longleftrightarrow> q_count q \<noteq> q_size q"

lemma items_length [simp]: "length (items q) = unat (q_count q)"
  by (simp add: items_def)

lemma wrap_suc: "p < n \<Longrightarrow> (if p + 1 = n then 0 else p + 1) = (p + 1) mod (n :: nat)"
  by simp

lemma count_suc:
  assumes "ring_ok q" "not_full q"
  shows "unat (q_count q + 1) = unat (q_count q) + 1" "unat (q_count q) < p_top q"
proof -
  have "unat (q_count q) \<noteq> unat (q_size q)" using assms(2) by (simp add: not_full_def word_unat_eq_iff)
  then show l: "unat (q_count q) < p_top q" using assms(1) by (simp add: ring_ok_def)
  have "p_top q < 256" proof -
    have "unat (q_size q) < 2 ^ 8" by (rule order_less_le_trans [OF unsigned_less]) simp
    then show ?thesis using assms(1) by (simp add: ring_ok_def)
  qed
  then show "unat (q_count q + 1) = unat (q_count q) + 1" using l by (simp add: unat_word_ariths)
qed

lemma ring_put_ok:
  assumes "ring_ok q" "not_full q"
  shows "ring_ok (ring_put v q)" "items (ring_put v q) = items q @ [v]"
proof -
  let ?n = "p_top q" and ?c = "unat (q_count q)" and ?r = "p_read q"
  have r: "0 < ?n" "length (q_buf q) = ?n" "?r < ?n" "p_write q = (?r + ?c) mod ?n" "p_top q = unat (q_size q)" using assms(1) by (simp_all add: ring_ok_def)
  note c = count_suc [OF assms]
  have w: "p_write q < ?n" using r by simp
  have p: "ring_put v q = q\<lparr>q_count := q_count q + 1, q_buf := (q_buf q)[p_write q := v], p_write := (p_write q + 1) mod ?n\<rparr>"
    using w by (auto simp: ring_put_def Let_def)
  show "ring_ok (ring_put v q)" using r c by (simp add: p ring_ok_def mod_Suc_eq)
  have d: "(?r + k) mod ?n \<noteq> (?r + ?c) mod ?n" if "k < ?c" for k
  proof
    assume "(?r + k) mod ?n = (?r + ?c) mod ?n"
    then have "?n dvd (?r + ?c) - (?r + k)" by (metis mod_eq_dvd_iff_nat add_le_cancel_left less_imp_le_nat that)
    then have "?n dvd ?c - k" by simp
    then show False using that c(2) by (meson dvd_imp_le not_le less_imp_diff_less zero_less_diff)
  qed
  have "map (\<lambda>k. (q_buf q)[p_write q := v] ! ((?r + k) mod ?n)) [0..<?c] = items q"
    unfolding items_def using d r(4) by (intro map_cong refl) (metis atLeastLessThan_iff nth_list_update_neq set_upt)
  then show "items (ring_put v q) = items q @ [v]" unfolding items_def [of "ring_put v q"] unfolding p using w r(2,4) by (simp add: c(1))
qed

lemma ring_get_ok:
  assumes "ring_ok q" "items q \<noteq> []"
  shows "ring_ok (snd (ring_get q))" "items q = fst (ring_get q) # items (snd (ring_get q))"
proof -
  let ?n = "p_top q" and ?c = "unat (q_count q)" and ?r = "p_read q"
  have r: "0 < ?n" "length (q_buf q) = ?n" "?r < ?n" "p_write q = (?r + ?c) mod ?n" "p_top q = unat (q_size q)" "?c \<le> ?n"
    using assms(1) by (simp_all add: ring_ok_def)
  have c: "0 < ?c" using assms(2) items_length [of q] by (metis length_greater_0_conv)
  then have u: "unat (q_count q - 1) = ?c - 1" by (simp add: unat_minus_one unat_gt_0 unat_eq_0)
  have g: "ring_get q = (q_buf q ! ?r, q\<lparr>p_read := (?r + 1) mod ?n, q_count := q_count q - 1\<rparr>)"
    using r by (auto simp: ring_get_def Let_def)
  have "((?r + 1) mod ?n + (?c - 1)) mod ?n = ((?r + 1) + (?c - 1)) mod ?n" by (rule mod_add_left_eq)
  then have "((?r + 1) mod ?n + (?c - 1)) mod ?n = (?r + ?c) mod ?n" using c by simp
  then show "ring_ok (snd (ring_get q))" using r u by (simp add: g ring_ok_def)
  have "[0..<?c] = 0 # map Suc [0..<?c - 1]" using c by (metis Suc_diff_1 map_Suc_upt upt_conv_Cons)
  then show "items q = fst (ring_get q) # items (snd (ring_get q))" using r u by (simp add: items_def g mod_simps)
qed

interpretation ring: byte_fifo ring_put ring_get items not_full ring_ok
  by unfold_locales (use ring_put_ok ring_get_ok in auto)


section \<open>Operations\<close>

text \<open>\<open>None\<close> is the result -1.\<close>

definition outqueue_getI :: "queue \<Rightarrow> u8 option \<times> queue" where
  "outqueue_getI q =
     (if q_count q = 0 then (None, q)
      else let (ret, q) = ring_get q in (Some ret, if q_count q \<le> q_wakeup q then q\<lparr>q_flag := True\<rparr> else q))"

definition outqueue_drained :: "queue \<Rightarrow> bool" where
  "outqueue_drained q \<longleftrightarrow> q_count q = 0"

definition inqueue_putI :: "u8 \<Rightarrow> queue \<Rightarrow> queue" where
  "inqueue_putI value q =
     (if q_count q = q_size q then q
      else let q = ring_put value q in if q_wakeup q \<le> q_count q then q\<lparr>q_flag := True\<rparr> else q)"

definition inqueue_flushI :: "queue \<Rightarrow> queue" where
  "inqueue_flushI q = (if 0 < q_count q then q\<lparr>q_flag := True\<rparr> else q)"

text \<open>
  A call of \<open>outqueue_put\<close> alternates between sections without interrupts, which copy until the buffer is full, and waits;
  its argument \<open>timeout\<close> says how long one lasts. The list has the bytes from \<open>value\<close> on that are left.
\<close>

datatype patience = NOBLOCK | TICKS | FOREVER

datatype putter = P_done | P_wait patience "u8 list"

fun out_copy :: "u8 list \<Rightarrow> queue \<Rightarrow> u8 list \<times> queue" where
  "out_copy [] q = ([], q)"
| "out_copy (v # vs) q = (if q_count q = q_size q then (v # vs, q) else out_copy vs (ring_put v q))"

definition out_wakeup :: "u8 list \<Rightarrow> queue \<Rightarrow> queue" where
  "out_wakeup rest q = q\<lparr>q_wakeup := (if unat (q_size q) < length rest then 0 else q_size q - of_nat (length rest))\<rparr>"

definition outqueue_put :: "patience \<Rightarrow> u8 list \<Rightarrow> queue \<Rightarrow> putter \<times> queue" where
  "outqueue_put timeout value q =
     (let (rest, q) = out_copy value q in
      if rest = [] then (P_done, call_cb q) else (P_wait timeout rest, call_cb (out_wakeup rest q)))"

text \<open>Likewise \<open>inqueue_get\<close>: one section takes a byte if there is one.\<close>

datatype getter = G_idle | G_wait patience

definition inqueue_get :: "queue \<Rightarrow> u8 option \<times> queue" where
  "inqueue_get q = (if q_count q = 0 then (None, q) else let (value, q) = ring_get q in (Some value, q))"

section \<open>Interleavings of a writer with the interrupt\<close>

record outq =
  oq :: queue
  writer :: putter

datatype out_label = Put "u8 list" | Woken | Left "u8 list" | Got "u8 option"

inductive out_step :: "outq \<Rightarrow> out_label \<Rightarrow> outq \<Rightarrow> bool" where
  put: "writer s = P_done \<Longrightarrow> outqueue_put w vs (oq s) = (a, q) \<Longrightarrow> out_step s (Put vs) (s\<lparr>oq := q, writer := a\<rparr>)"
| woken: "writer s = P_wait w rest \<Longrightarrow> w \<noteq> NOBLOCK \<Longrightarrow> q_flag (oq s) \<Longrightarrow> outqueue_put w rest ((oq s)\<lparr>q_flag := False\<rparr>) = (a, q) \<Longrightarrow>
    out_step s Woken (s\<lparr>oq := q, writer := a\<rparr>)"
| leave: "writer s = P_wait w rest \<Longrightarrow> w \<noteq> FOREVER \<Longrightarrow> out_step s (Left rest) (s\<lparr>writer := P_done\<rparr>)"
| irq: "outqueue_getI (oq s) = (r, q) \<Longrightarrow> out_step s (Got r) (s\<lparr>oq := q\<rparr>)"

inductive out_run :: "outq \<Rightarrow> out_label list \<Rightarrow> outq \<Rightarrow> bool" where
  nil: "out_run s [] s"
| snoc: "out_run s es t \<Longrightarrow> out_step t e u \<Longrightarrow> out_run s (es @ [e]) u"

text \<open>What the calls have put or still want to put, and what the interrupt got.\<close>

definition offered :: "out_label list \<Rightarrow> u8 list" where
  "offered = foldl (\<lambda>acc l. case l of Put vs \<Rightarrow> acc @ vs | Left rest \<Rightarrow> take (length acc - length rest) acc | _ \<Rightarrow> acc) []"

definition gotten :: "out_label list \<Rightarrow> u8 list" where
  "gotten es = concat (map (\<lambda>l. case l of Got (Some v) \<Rightarrow> [v] | _ \<Rightarrow> []) es)"

fun waiting :: "putter \<Rightarrow> u8 list" where
  "waiting P_done = []"
| "waiting (P_wait w rest) = rest"

lemma out_log_simps [simp]:
  "offered [] = []" "offered (es @ [Put vs]) = offered es @ vs" "offered (es @ [Woken]) = offered es" "offered (es @ [Got r]) = offered es"
  "offered (es @ [Left rest]) = take (length (offered es) - length rest) (offered es)"
  "gotten [] = []" "gotten (es @ [Put vs]) = gotten es" "gotten (es @ [Woken]) = gotten es" "gotten (es @ [Left rest]) = gotten es"
  "gotten (es @ [Got r]) = gotten es @ (case r of None \<Rightarrow> [] | Some v \<Rightarrow> [v])"
  by (simp_all add: offered_def gotten_def split: option.split)

lemma kept [simp]:
  "items (call_cb q) = items q" "ring_ok (call_cb q) = ring_ok q" "q_wakeup (call_cb q) = q_wakeup q" "q_count (call_cb q) = q_count q"
  "q_flag (call_cb q) = q_flag q" "q_size (call_cb q) = q_size q" "items (out_wakeup rest q) = items q" "ring_ok (out_wakeup rest q) = ring_ok q"
  "q_count (out_wakeup rest q) = q_count q" "q_flag (out_wakeup rest q) = q_flag q" "q_size (out_wakeup rest q) = q_size q"
  "items (q\<lparr>q_flag := f\<rparr>) = items q" "ring_ok (q\<lparr>q_flag := f\<rparr>) = ring_ok q"
  by (simp_all add: call_cb_def items_def ring_ok_def out_wakeup_def)

lemma ring_put_keeps [simp]: "q_size (ring_put v q) = q_size q" "q_flag (ring_put v q) = q_flag q" "q_wakeup (ring_put v q) = q_wakeup q"
  by (simp_all add: ring_put_def Let_def)

lemma ring_get_keeps [simp]: "q_size (snd (ring_get q)) = q_size q" "q_flag (snd (ring_get q)) = q_flag q" "q_wakeup (snd (ring_get q)) = q_wakeup q"
  by (simp_all add: ring_get_def Let_def)

lemma no_items: "items q = [] \<longleftrightarrow> q_count q = 0"
  using items_length [of q] by (metis length_0_conv unat_eq_0)

lemma out_copy_ok:
  "ring_ok q \<Longrightarrow> out_copy vs q = (rest, q') \<Longrightarrow>
     ring_ok q' \<and> items q' @ rest = items q @ vs \<and> (rest \<noteq> [] \<longrightarrow> q_count q' = q_size q') \<and> q_flag q' = q_flag q"
proof (induction vs q rule: out_copy.induct)
  case (2 v vs q)
  show ?case
  proof (cases "q_count q = q_size q")
    case False
    then have r: "ring_ok (ring_put v q)" "items (ring_put v q) = items q @ [v]" using ring.enq_ok ring.enq_items 2(2) by (auto simp: not_full_def)
    show ?thesis using 2(1) [OF False r(1)] 2(3) False r(2) by simp
  qed (use 2 in auto)
qed simp

lemma out_wakeup_below:
  assumes "ring_ok q" "rest \<noteq> []" "q_count q = q_size q"
  shows "q_wakeup (out_wakeup rest q) < q_count q"
proof (cases "unat (q_size q) < length rest")
  case True
  have "0 < q_size q" using assms(1) by (cases "q_size q = 0") (auto simp: ring_ok_def word_gt_0)
  then show ?thesis using True assms(3) by (simp add: out_wakeup_def)
next
  case False
  have n: "0 < length rest" using assms(2) by simp
  have "unat (q_size q) < 2 ^ 8" by (rule order_less_le_trans [OF unsigned_less]) simp
  then have u: "unat (of_nat (length rest) :: u8) = length rest" using False by (simp add: unat_of_nat)
  then have "unat (q_size q - of_nat (length rest)) = unat (q_size q) - length rest" using False by (simp add: unat_sub word_le_nat_alt)
  then have "unat (q_size q - of_nat (length rest)) < unat (q_size q)" using n False by linarith
  then show ?thesis using False assms(3) by (simp add: out_wakeup_def word_less_nat_alt)
qed

lemma outqueue_put_ok:
  assumes "ring_ok q" "outqueue_put w vs q = (a, q')"
  shows "ring_ok q' \<and> items q' @ waiting a = items q @ vs \<and> q_flag q' = q_flag q
    \<and> (a = P_done \<or> (\<exists>rest. a = P_wait w rest \<and> rest \<noteq> [] \<and> q_wakeup q' < q_count q'))"
proof -
  obtain rest q1 where c: "out_copy vs q = (rest, q1)" by (cases "out_copy vs q")
  note k = out_copy_ok [OF assms(1) c]
  show ?thesis using assms(2) c k out_wakeup_below [of q1 rest] by (auto simp: outqueue_put_def split: if_splits)
qed

lemma outqueue_getI_ok:
  assumes "ring_ok q" "outqueue_getI q = (r, q')"
  obtains (empty) "r = None" "q' = q" "items q = []"
    | (byte) v where "r = Some v" "ring_ok q'" "items q = v # items q'" "q_flag q' \<or> q_wakeup q' < q_count q'"
proof (cases "q_count q = 0")
  case True
  then show thesis using assms(2) empty by (simp add: outqueue_getI_def no_items)
next
  case False
  then obtain v vs where i: "items q = v # vs" using no_items by (cases "items q") auto
  obtain q1 where "ring_get q = (v, q1)" "items q1 = vs" "ring_ok q1" by (rule ring.take_out [OF assms(1) i])
  then show thesis using assms(2) False i byte [of v] by (force simp: outqueue_getI_def linorder_not_le split: if_splits)
qed

section \<open>No byte is lost and no wake-up is missed\<close>

definition out_inv :: "out_label list \<Rightarrow> outq \<Rightarrow> bool" where
  "out_inv es s \<longleftrightarrow> ring_ok (oq s) \<and> offered es = gotten es @ items (oq s) @ waiting (writer s)
     \<and> (\<forall>w rest. writer s = P_wait w rest \<longrightarrow> rest \<noteq> [] \<and> (q_flag (oq s) \<or> q_wakeup (oq s) < q_count (oq s)))"

lemma put_section_inv:
  assumes "ring_ok q" "outqueue_put w vs q = (a, q')" "offered es = gotten es @ items q @ vs"
  shows "out_inv es (s\<lparr>oq := q', writer := a\<rparr>)"
  using outqueue_put_ok [OF assms(1,2)] assms(3) by (auto simp: out_inv_def)

lemma out_step_inv:
  assumes "out_step s l s'" "out_inv es s"
  shows "out_inv (es @ [l]) s'"
  using assms(1)
proof (cases rule: out_step.cases)
  case (put w vs a q)
  have "offered es = gotten es @ items (oq s)" "ring_ok (oq s)" using assms(2) put(3) by (auto simp: out_inv_def)
  then show ?thesis using put outqueue_put_ok [of "oq s" w vs a q] by (auto simp: out_inv_def)
next
  case (woken w rest a q)
  have "offered es = gotten es @ items ((oq s)\<lparr>q_flag := False\<rparr>) @ rest" "ring_ok ((oq s)\<lparr>q_flag := False\<rparr>)" using assms(2) woken(3) by (auto simp: out_inv_def)
  from put_section_inv [OF this(2) woken(6) this(1), of s] show ?thesis using woken(1,2) by (auto simp: out_inv_def)
next
  case (leave w rest)
  then show ?thesis using assms(2) by (auto simp: out_inv_def)
next
  case (irq r q)
  have r: "ring_ok (oq s)" using assms(2) by (simp add: out_inv_def)
  show ?thesis
    by (rule outqueue_getI_ok [OF r irq(3)]) (use assms(2) irq(1,2) in \<open>simp_all add: out_inv_def\<close>)
qed

lemma out_run_inv:
  assumes "out_run s es t" "out_inv [] s"
  shows "out_inv es t"
  using assms
proof (induction rule: out_run.induct)
  case (nil s)
  then show ?case .
next
  case (snoc s es t e u)
  then show ?case using out_step_inv by blast
qed

lemma init_ok: "0 < sz \<Longrightarrow> length b = unat sz \<Longrightarrow> ring_ok (queue_cb f (queue_init b sz q)) \<and> items (queue_cb f (queue_init b sz q)) = []"
  by (simp add: ring_ok_def queue_init_def queue_cb_def items_def unat_gt_0)

text \<open>Only the interrupt and wake-ups are needed to finish: they make the following smaller.\<close>

definition todo :: "outq \<Rightarrow> nat" where
  "todo s = 2 * (length (items (oq s)) + length (waiting (writer s))) + (if q_flag (oq s) then 1 else 0)"

definition unattended :: "out_label list \<Rightarrow> bool" where
  "unattended es \<longleftrightarrow> (\<forall>l \<in> set es. l = Woken \<or> (\<exists>v. l = Got (Some v)))"

lemma out_run_cons:
  assumes "out_run t es u" "out_step s l t"
  shows "out_run s (l # es) u"
  using assms
proof (induction rule: out_run.induct)
  case (nil t)
  then show ?case using out_run.snoc [OF out_run.nil nil] by simp
next
  case (snoc t es v e u)
  then show ?case using out_run.snoc [of s "l # es" v e u] by simp
qed

lemma out_run_append:
  assumes "out_run t es' u" "out_run s es t"
  shows "out_run s (es @ es') u"
  using assms by (induction rule: out_run.induct) (auto simp flip: append_assoc intro: out_run.snoc)

lemma irq_progress:
  assumes "out_inv es s" "items (oq s) \<noteq> []"
  obtains v s' where "out_step s (Got (Some v)) s'" "todo s' < todo s" "writer s' = writer s"
proof -
  obtain r q where g: "outqueue_getI (oq s) = (r, q)" by (cases "outqueue_getI (oq s)")
  have ok: "ring_ok (oq s)" using assms(1) by (simp add: out_inv_def)
  obtain v where v: "r = Some v" "items (oq s) = v # items q" by (rule outqueue_getI_ok [OF ok g]) (use assms(2) in auto)
  have "length (items (oq s)) = Suc (length (items q))" unfolding v(2) by (simp del: items_length)
  then have "todo (s\<lparr>oq := q\<rparr>) < todo s" by (simp add: todo_def del: items_length)
  then show thesis using that out_step.irq [OF g] v by simp
qed

lemma can_finish:
  assumes "out_inv es s" "\<forall>rest. writer s \<noteq> P_wait NOBLOCK rest"
  shows "\<exists>es' s'. unattended es' \<and> out_run s es' s' \<and> writer s' = P_done \<and> items (oq s') = []"
  using assms
proof (induction "todo s" arbitrary: s es rule: less_induct)
  case less
  have next_step: ?case if st: "out_step s l t" "unattended [l]" "todo t < todo s" "\<forall>rest. writer t \<noteq> P_wait NOBLOCK rest" for l t
  proof -
    obtain es' s' where "unattended es'" "out_run t es' s'" "writer s' = P_done" "items (oq s') = []"
      using less(1) [OF st(3) out_step_inv [OF st(1) less(2)] st(4)] by blast
    then show ?thesis using out_run_cons [OF _ st(1)] st(2) by (intro exI [of _ "l # es'"] exI [of _ s']) (simp add: unattended_def)
  qed
  show ?case
  proof (cases "items (oq s) = []")
    case False
    then obtain v s' where "out_step s (Got (Some v)) s'" "todo s' < todo s" "writer s' = writer s" using irq_progress [OF less(2)] by blast
    then show ?thesis using next_step less(3) by (simp add: unattended_def)
  next
    case True
    show ?thesis
    proof (cases "writer s")
      case P_done
      then show ?thesis using True by (intro exI [of _ "[]"] exI [of _ s]) (simp add: unattended_def out_run.nil)
    next
      case (P_wait w rest)
      have f: "q_flag (oq s)" "w \<noteq> NOBLOCK" "ring_ok (oq s)" using less(2,3) P_wait True by (auto simp: out_inv_def no_items)
      obtain a q where p: "outqueue_put w rest ((oq s)\<lparr>q_flag := False\<rparr>) = (a, q)" by (cases "outqueue_put w rest ((oq s)\<lparr>q_flag := False\<rparr>)")
      note k = outqueue_put_ok [OF _ p, simplified, OF f(3)]
      have "length (items q @ waiting a) = length (items (oq s) @ rest)" using k by metis
      then have "length (items q) + length (waiting a) = length (items (oq s)) + length rest" by (simp del: items_length)
      then have "todo (s\<lparr>oq := q, writer := a\<rparr>) < todo s" using k f(1) P_wait by (simp add: todo_def del: items_length)
      then show ?thesis using next_step [OF out_step.woken [OF P_wait f(2,1) p]] k f(2) by (auto simp: unattended_def)
    qed
  qed
qed

text \<open>
  From an initialised queue, after any interleaving of a writer with the interrupt: what the calls put is what the interrupt
  got, in order, followed by what is in the buffer and what a waiting call still has. A call that waits with a time-out or forever never misses its
  wake-up: with nothing but interrupts and wake-ups it can always go on to its end, with every byte delivered.
\<close>

theorem outqueue_delivers:
  assumes "0 < sz" "length b = unat sz" "out_run \<lparr>oq = queue_cb f (queue_init b sz q), writer = P_done\<rparr> es s"
  shows "offered es = gotten es @ items (oq s) @ waiting (writer s)
    \<and> ((\<forall>rest. writer s \<noteq> P_wait NOBLOCK rest) \<longrightarrow>
        (\<exists>es' s'. unattended es' \<and> out_run s es' s' \<and> writer s' = P_done \<and> gotten (es @ es') = offered (es @ es')))"
proof -
  have inv: "out_inv es s" using out_run_inv [OF assms(3)] init_ok [OF assms(1,2)] by (simp add: out_inv_def)
  have "\<exists>es' s'. unattended es' \<and> out_run s es' s' \<and> writer s' = P_done \<and> gotten (es @ es') = offered (es @ es')"
    if nb: "\<forall>rest. writer s \<noteq> P_wait NOBLOCK rest"
  proof -
    obtain es' s' where r: "unattended es'" "out_run s es' s'" "writer s' = P_done" "items (oq s') = []" using can_finish [OF inv nb] by blast
    have "out_inv (es @ es') s'" using out_run_inv [OF out_run_append [OF r(2) assms(3)]] init_ok [OF assms(1,2)] by (simp add: out_inv_def)
    then show ?thesis using r(1,2,3) r(4) by (intro exI [of _ es'] exI [of _ s']) (simp add: out_inv_def)
  qed
  then show ?thesis using inv by (simp add: out_inv_def)
qed


definition queue0 :: queue where
  "queue0 = \<lparr>q_flag = False, q_size = 0, q_count = 0, q_wakeup = 0, q_buf = [], p_top = 0, p_write = 0, p_read = 0, cb_func = False, cb_calls = 0\<rparr>"

theorem outqueue_delivers_witness:
  "\<exists>s es' s'. out_run \<lparr>oq = queue_cb False (queue_init [0, 0] 2 queue0), writer = P_done\<rparr> [Put [1, 2, 3]] s
     \<and> out_run s es' s' \<and> writer s' = P_done \<and> gotten (Put [1, 2, 3] # es') = offered (Put [1, 2, 3] # es')"
proof -
  let ?s = "\<lparr>oq = queue_cb False (queue_init [0, 0] 2 queue0), writer = P_done\<rparr>"
  obtain a q where p: "outqueue_put FOREVER [1, 2, 3] (oq ?s) = (a, q)" by (cases "outqueue_put FOREVER [1, 2, 3] (oq ?s)")
  have st: "out_step ?s (Put [1, 2, 3]) (?s\<lparr>oq := q, writer := a\<rparr>)" by (rule out_step.put [OF _ p]) simp
  have r: "out_run ?s [Put [1, 2, 3]] (?s\<lparr>oq := q, writer := a\<rparr>)" using out_run.snoc [OF out_run.nil st] by simp
  have "ring_ok (oq ?s)" using init_ok [of 2 "[0, 0]" False queue0] by simp
  then have "\<forall>rest. a \<noteq> P_wait NOBLOCK rest" using outqueue_put_ok [OF _ p] by auto
  then have "\<forall>rest. writer (?s\<lparr>oq := q, writer := a\<rparr>) \<noteq> P_wait NOBLOCK rest" by simp
  with outqueue_delivers [OF _ _ r] obtain es' s' where
    "out_run (?s\<lparr>oq := q, writer := a\<rparr>) es' s'" "writer s' = P_done" "gotten ([Put [1, 2, 3]] @ es') = offered ([Put [1, 2, 3]] @ es')" by auto
  then show ?thesis using r by auto
qed

section \<open>Interleavings of a reader with the interrupt\<close>

record inq =
  iq :: queue
  reader :: getter

datatype in_label = In u8 bool | Flush | Took u8 | Asked | Gave_up

inductive in_step :: "inq \<Rightarrow> in_label \<Rightarrow> inq \<Rightarrow> bool" where
  arrive: "in_step s (In v (not_full (iq s))) (s\<lparr>iq := inqueue_putI v (iq s)\<rparr>)"
| flush: "in_step s Flush (s\<lparr>iq := inqueue_flushI (iq s)\<rparr>)"
| take_now: "reader s = G_idle \<Longrightarrow> inqueue_get (iq s) = (Some v, q) \<Longrightarrow> in_step s (Took v) (s\<lparr>iq := q\<rparr>)"
| ask: "reader s = G_idle \<Longrightarrow> inqueue_get (iq s) = (None, q) \<Longrightarrow> in_step s Asked (s\<lparr>iq := q, reader := G_wait w\<rparr>)"
| wake_take: "reader s = G_wait w \<Longrightarrow> w \<noteq> NOBLOCK \<Longrightarrow> q_flag (iq s) \<Longrightarrow> inqueue_get ((iq s)\<lparr>q_flag := False\<rparr>) = (Some v, q) \<Longrightarrow>
    in_step s (Took v) (s\<lparr>iq := q, reader := G_idle\<rparr>)"
| wake_wait: "reader s = G_wait w \<Longrightarrow> w \<noteq> NOBLOCK \<Longrightarrow> q_flag (iq s) \<Longrightarrow> inqueue_get ((iq s)\<lparr>q_flag := False\<rparr>) = (None, q) \<Longrightarrow>
    in_step s Asked (s\<lparr>iq := q\<rparr>)"
| leave: "reader s = G_wait w \<Longrightarrow> w \<noteq> FOREVER \<Longrightarrow> in_step s Gave_up (s\<lparr>reader := G_idle\<rparr>)"

inductive in_run :: "inq \<Rightarrow> in_label list \<Rightarrow> inq \<Rightarrow> bool" where
  nil: "in_run s [] s"
| snoc: "in_run s es t \<Longrightarrow> in_step t e u \<Longrightarrow> in_run s (es @ [e]) u"

definition arrived :: "in_label list \<Rightarrow> u8 list" where
  "arrived es = concat (map (\<lambda>l. case l of In v True \<Rightarrow> [v] | _ \<Rightarrow> []) es)"

definition read_by :: "in_label list \<Rightarrow> u8 list" where
  "read_by es = concat (map (\<lambda>l. case l of Took v \<Rightarrow> [v] | _ \<Rightarrow> []) es)"

lemma in_log_simps [simp]:
  "arrived [] = []" "arrived (es @ [In v b]) = arrived es @ (if b then [v] else [])" "arrived (es @ [Flush]) = arrived es"
  "arrived (es @ [Took v]) = arrived es" "arrived (es @ [Asked]) = arrived es" "arrived (es @ [Gave_up]) = arrived es"
  "read_by [] = []" "read_by (es @ [In v b]) = read_by es" "read_by (es @ [Flush]) = read_by es"
  "read_by (es @ [Took v]) = read_by es @ [v]" "read_by (es @ [Asked]) = read_by es" "read_by (es @ [Gave_up]) = read_by es"
  by (simp_all add: arrived_def read_by_def)

definition in_inv :: "in_label list \<Rightarrow> inq \<Rightarrow> bool" where
  "in_inv es s \<longleftrightarrow> ring_ok (iq s) \<and> q_wakeup (iq s) = q_size (iq s) \<and> arrived es = read_by es @ items (iq s)
     \<and> (reader s \<noteq> G_idle \<longrightarrow> q_count (iq s) = q_size (iq s) \<longrightarrow> q_flag (iq s))"

lemma inqueue_get_ok:
  assumes "ring_ok q" "inqueue_get q = (r, q')"
  obtains (empty) "r = None" "q' = q" "items q = []"
    | (byte) v where "r = Some v" "ring_ok q'" "items q = v # items q'" "q_size q' = q_size q" "q_wakeup q' = q_wakeup q"
proof (cases "q_count q = 0")
  case True
  then show thesis using assms(2) empty by (simp add: inqueue_get_def no_items)
next
  case False
  then obtain v vs where i: "items q = v # vs" using no_items by (cases "items q") auto
  obtain q1 where q1: "ring_get q = (v, q1)" "items q1 = vs" "ring_ok q1" by (rule ring.take_out [OF assms(1) i])
  have "q_size q1 = q_size q" "q_wakeup q1 = q_wakeup q" using ring_get_keeps [of q] q1(1) by simp_all
  then show thesis using assms(2) False i q1 byte [of v] by (simp add: inqueue_get_def)
qed

lemma inqueue_putI_ok:
  assumes "ring_ok q" "q_wakeup q = q_size q"
  shows "ring_ok (inqueue_putI v q)" "items (inqueue_putI v q) = items q @ (if not_full q then [v] else [])"
    "q_size (inqueue_putI v q) = q_size q" "q_wakeup (inqueue_putI v q) = q_size q"
    "q_count (inqueue_putI v q) = q_size q \<Longrightarrow> q_flag q \<or> not_full q \<Longrightarrow> q_flag (inqueue_putI v q)"
  using assms ring.enq_ok [of q v] ring.enq_items [of q v] by (auto simp: inqueue_putI_def Let_def not_full_def)

lemma flushI_ok:
  "items (inqueue_flushI q) = items q" "ring_ok (inqueue_flushI q) = ring_ok q" "q_size (inqueue_flushI q) = q_size q"
  "q_wakeup (inqueue_flushI q) = q_wakeup q" "q_count (inqueue_flushI q) = q_count q" "q_flag q \<Longrightarrow> q_flag (inqueue_flushI q)"
  by (simp_all add: inqueue_flushI_def)

lemma empty_not_full: "ring_ok q \<Longrightarrow> items q = [] \<Longrightarrow> q_count q \<noteq> q_size q"
  by (auto simp: no_items ring_ok_def)

lemma in_step_inv:
  assumes "in_step s l s'" "in_inv es s"
  shows "in_inv (es @ [l]) s'"
proof -
  have i: "ring_ok (iq s)" "q_wakeup (iq s) = q_size (iq s)" "arrived es = read_by es @ items (iq s)"
    "reader s \<noteq> G_idle \<Longrightarrow> q_count (iq s) = q_size (iq s) \<Longrightarrow> q_flag (iq s)" using assms(2) by (auto simp: in_inv_def)
  show ?thesis using assms(1)
  proof (cases rule: in_step.cases)
    case (arrive v)
    show ?thesis using arrive inqueue_putI_ok [OF i(1,2), of v] i by (auto simp: in_inv_def not_full_def)
  next
    case flush
    then show ?thesis using flushI_ok [of "iq s"] i by (auto simp: in_inv_def)
  next
    case (take_now v q)
    show ?thesis by (rule inqueue_get_ok [OF i(1) take_now(4)]) (use take_now i in \<open>auto simp: in_inv_def\<close>)
  next
    case (ask q w)
    show ?thesis by (rule inqueue_get_ok [OF i(1) ask(4)]) (use ask i empty_not_full in \<open>auto simp: in_inv_def\<close>)
  next
    case (wake_take w v q)
    have r: "ring_ok ((iq s)\<lparr>q_flag := False\<rparr>)" using i(1) by simp
    show ?thesis by (rule inqueue_get_ok [OF r wake_take(6)]) (use wake_take i in \<open>auto simp: in_inv_def\<close>)
  next
    case (wake_wait w q)
    have r: "ring_ok ((iq s)\<lparr>q_flag := False\<rparr>)" using i(1) by simp
    show ?thesis by (rule inqueue_get_ok [OF r wake_wait(6)]) (use wake_wait i empty_not_full in \<open>auto simp: in_inv_def\<close>)
  next
    case (leave w)
    then show ?thesis using i by (simp add: in_inv_def)
  qed
qed

lemma in_run_inv:
  assumes "in_run s es t" "in_inv [] s"
  shows "in_inv es t"
  using assms
proof (induction rule: in_run.induct)
  case (nil s)
  then show ?case .
next
  case (snoc s es t e u)
  then show ?case using in_step_inv by blast
qed

text \<open>
  The same for a reader: what the interrupt could put is what the reader took, in order, followed by what is in the
  buffer; a waiting reader gets the first byte once the buffer is full or has been flushed.
\<close>

lemma inqueue_delivers:
  assumes "0 < sz" "length b = unat sz" "in_run \<lparr>iq = queue_cb f (queue_init b sz q), reader = G_idle\<rparr> es s"
  shows "arrived es = read_by es @ items (iq s)
    \<and> (\<forall>w v vs. reader s = G_wait w \<and> w \<noteq> NOBLOCK \<and> items (iq s) = v # vs \<longrightarrow>
        (\<exists>s' s''. in_step s Flush s' \<and> in_step s' (Took v) s'') \<and> (\<not> not_full (iq s) \<longrightarrow> (\<exists>s'. in_step s (Took v) s')))"
proof -
  have inv: "in_inv es s" using in_run_inv [OF assms(3)] init_ok [OF assms(1,2)] by (simp add: in_inv_def queue_cb_def queue_init_def)
  have wakes: "\<exists>t'. in_step t (Took v) t'"
    if "reader t = G_wait w" "w \<noteq> NOBLOCK" "items (iq t) = v # vs" "ring_ok (iq t)" "q_flag (iq t)" for t w v vs
  proof -
    obtain r q where g: "inqueue_get ((iq t)\<lparr>q_flag := False\<rparr>) = (r, q)" by (cases "inqueue_get ((iq t)\<lparr>q_flag := False\<rparr>)")
    have "r = Some v" by (rule inqueue_get_ok [OF _ g]) (use that in auto)
    then show ?thesis using in_step.wake_take [OF that(1,2,5)] g by blast
  qed
  have "(\<exists>s' s''. in_step s Flush s' \<and> in_step s' (Took v) s'') \<and> (\<not> not_full (iq s) \<longrightarrow> (\<exists>s'. in_step s (Took v) s'))"
    if "reader s = G_wait w" "w \<noteq> NOBLOCK" "items (iq s) = v # vs" for w v vs
  proof -
    have ok: "ring_ok (iq s)" using inv by (simp add: in_inv_def)
    have "q_flag (inqueue_flushI (iq s))" using that(3) no_items [of "iq s"] by (simp add: inqueue_flushI_def word_gt_0)
    then have "\<exists>s''. in_step (s\<lparr>iq := inqueue_flushI (iq s)\<rparr>) (Took v) s''"
      using wakes [of "s\<lparr>iq := inqueue_flushI (iq s)\<rparr>" w v vs] that flushI_ok ok by simp
    moreover have "\<exists>s'. in_step s (Took v) s'" if "\<not> not_full (iq s)"
      using wakes [OF \<open>reader s = G_wait w\<close> \<open>w \<noteq> NOBLOCK\<close> \<open>items (iq s) = v # vs\<close> ok] inv that \<open>reader s = G_wait w\<close>
      by (simp add: in_inv_def not_full_def)
    ultimately show ?thesis using in_step.flush by blast
  qed
  then show ?thesis using inv by (auto simp: in_inv_def)
qed

end
