(* ===== verification/Watchdog.thy ===== *)
theory Watchdog
  imports Prelude
begin

text \<open>
  The watchdog: \<open>src/lib/stm32/iwdg.c\<close> starts the hardware's, which only the clock's thread feeds, and only while the main and the network
  threads have set their counters again (\<open>src/src/vtimer.c\<close>, \<open>src/src/main.c\<close>, \<open>src/src/net/tcpip.c\<close>). The theory shows that the chip is
  reset when one of the two stops, and only if one of the three is late.
\<close>

section \<open>The hardware\<close>

text \<open>
  The registers of the watchdog as its manual describes them: \<open>PR\<close> and \<open>RLR\<close> are writable after the first key, the
  counter is loaded by the others and counts down once it runs; at zero the chip is reset.
\<close>

record iwdg =
  wd_unlocked :: bool
  wd_pr :: u8
  wd_rlr :: u16
  wd_count :: nat
  wd_running :: bool
  wd_reset :: bool
  dbg_stop :: bool

definition IWDG_KEY_UNLOCK :: u16 where "IWDG_KEY_UNLOCK = 0x5555"
definition IWDG_KEY_CLEAR :: u16 where "IWDG_KEY_CLEAR = 0xAAAA"
definition IWDG_KEY_START :: u16 where "IWDG_KEY_START = 0xCCCC"

lemmas iwdg_keys = IWDG_KEY_UNLOCK_def IWDG_KEY_CLEAR_def IWDG_KEY_START_def

definition write_kr :: "u16 \<Rightarrow> iwdg \<Rightarrow> iwdg" where
  "write_kr k w =
     (if k = IWDG_KEY_UNLOCK then w\<lparr>wd_unlocked := True\<rparr>
      else if k = IWDG_KEY_CLEAR then w\<lparr>wd_unlocked := False, wd_count := unat (wd_rlr w)\<rparr>
      else if k = IWDG_KEY_START then w\<lparr>wd_unlocked := False, wd_running := True, wd_count := 0xFFF\<rparr>
      else w\<lparr>wd_unlocked := False\<rparr>)"

definition write_pr :: "u8 \<Rightarrow> iwdg \<Rightarrow> iwdg" where
  "write_pr v w = (if wd_unlocked w then w\<lparr>wd_pr := v\<rparr> else w)"

definition write_rlr :: "u16 \<Rightarrow> iwdg \<Rightarrow> iwdg" where
  "write_rlr v w = (if wd_unlocked w then w\<lparr>wd_rlr := v\<rparr> else w)"

definition wd_tick :: "iwdg \<Rightarrow> iwdg" where
  "wd_tick w =
     (if wd_running w
      then let w = w\<lparr>wd_count := wd_count w - 1\<rparr> in if wd_count w = 0 then w\<lparr>wd_reset := True\<rparr> else w
      else w)"

section \<open>The firmware\<close>

definition iwdg_start :: "u8 \<Rightarrow> u16 \<Rightarrow> iwdg \<Rightarrow> iwdg" where
  "iwdg_start prescaler reload w =
     (let w = w\<lparr>dbg_stop := True\<rparr>;
          w = write_kr IWDG_KEY_UNLOCK w;
          w = write_pr prescaler w;
          w = write_rlr reload w in
      write_kr IWDG_KEY_START w)"

definition iwdg_clear :: "iwdg \<Rightarrow> iwdg" where
  "iwdg_clear = write_kr IWDG_KEY_CLEAR"

record watch =
  wd :: iwdg
  w_main :: u8
  w_net :: u8

definition boot_watchdog :: "watch \<Rightarrow> watch" where
  "boot_watchdog s = s\<lparr>wd := iwdg_start 4 0xFFF (wd s), w_main := 5, w_net := 5\<rparr>"

definition feed_main :: "watch \<Rightarrow> watch" where "feed_main s = s\<lparr>w_main := 5\<rparr>"
definition feed_net :: "watch \<Rightarrow> watch" where "feed_net s = s\<lparr>w_net := 5\<rparr>"

text \<open>The part of the clock's thread that runs once a second.\<close>

definition watch_round :: "watch \<Rightarrow> watch" where
  "watch_round s =
     (if w_main s \<noteq> 0 \<and> w_net s \<noteq> 0
      then s\<lparr>wd := iwdg_clear (wd s), w_main := w_main s - 1, w_net := w_net s - 1\<rparr>
      else s)"

text \<open>What happens, and when: a tick is one count of the hardware.\<close>

datatype watch_event = Fed_main | Fed_net | Second | Tick

fun watch_do :: "watch_event \<Rightarrow> watch \<Rightarrow> watch" where
  "watch_do Fed_main = feed_main"
| "watch_do Fed_net = feed_net"
| "watch_do Second = watch_round"
| "watch_do Tick = (\<lambda>s. s\<lparr>wd := wd_tick (wd s)\<rparr>)"

definition watch_run :: "watch_event list \<Rightarrow> watch \<Rightarrow> watch" where
  "watch_run = fold watch_do"

text \<open>
  The pace that is enough: fewer than 4095 ticks between rounds of the clock's thread, and both threads at
  least once in five rounds. \<open>a\<close> and \<open>b\<close> count the rounds since they did, \<open>t\<close> the ticks since the last round.
\<close>

fun paced :: "nat \<Rightarrow> nat \<Rightarrow> nat \<Rightarrow> watch_event list \<Rightarrow> bool" where
  "paced a b t [] = True"
| "paced a b t (Fed_main # es) = paced 0 b t es"
| "paced a b t (Fed_net # es) = paced a 0 t es"
| "paced a b t (Second # es) = (a < 5 \<and> b < 5 \<and> paced (a + 1) (b + 1) 0 es)"
| "paced a b t (Tick # es) = (t + 1 < 4095 \<and> paced a b (t + 1) es)"

section \<open>It resets the chip exactly when a thread stops\<close>

definition watching :: "watch \<Rightarrow> bool" where
  "watching s \<longleftrightarrow> wd_running (wd s) \<and> wd_rlr (wd s) = 0xFFF"

lemma boot_watching:
  "\<not> wd_reset (wd s) \<Longrightarrow> watching (boot_watchdog s) \<and> \<not> wd_reset (wd (boot_watchdog s)) \<and> wd_count (wd (boot_watchdog s)) = 4095
     \<and> w_main (boot_watchdog s) = 5 \<and> w_net (boot_watchdog s) = 5"
  by (simp add: watching_def boot_watchdog_def iwdg_start_def Let_def write_kr_def write_pr_def write_rlr_def iwdg_keys)

lemma watching_kept: "watching s \<Longrightarrow> watching (watch_do e s)"
  by (cases e) (simp_all add: watching_def feed_main_def feed_net_def watch_round_def iwdg_clear_def write_kr_def iwdg_keys wd_tick_def Let_def)

lemma round_effect:
  "watching s \<Longrightarrow> w_main s \<noteq> 0 \<Longrightarrow> w_net s \<noteq> 0 \<Longrightarrow>
     w_main (watch_round s) = w_main s - 1 \<and> w_net (watch_round s) = w_net s - 1 \<and> wd_count (wd (watch_round s)) = 4095
     \<and> wd_reset (wd (watch_round s)) = wd_reset (wd s)"
  by (simp add: watching_def watch_round_def iwdg_clear_def write_kr_def iwdg_keys)

lemma paced_no_reset:
  "watching s \<Longrightarrow> \<not> wd_reset (wd s) \<Longrightarrow> unat (w_main s) + a = 5 \<Longrightarrow> unat (w_net s) + b = 5 \<Longrightarrow> wd_count (wd s) + t = 4095 \<Longrightarrow>
     paced a b t es \<Longrightarrow> \<not> wd_reset (wd (watch_run es s))"
proof (induction es arbitrary: s a b t)
  case (Cons e es)
  have w: "watching (watch_do e s)" using Cons(2) by (rule watching_kept)
  have r: "watch_run (e # es) s = watch_run es (watch_do e s)" by (simp add: watch_run_def)
  show ?case
  proof (cases e)
    case Fed_main
    then show ?thesis using Cons(1) [OF w, of 0 b t] Cons(3-) r by (simp add: feed_main_def)
  next
    case Fed_net
    then show ?thesis using Cons(1) [OF w, of a 0 t] Cons(3-) r by (simp add: feed_net_def)
  next
    case Second
    have ab: "a < 5" "b < 5" "paced (a + 1) (b + 1) 0 es" using Cons(7) Second by auto
    have nz: "w_main s \<noteq> 0" "w_net s \<noteq> 0" using ab Cons(4,5) by auto
    have e: "w_main (watch_round s) = w_main s - 1" "w_net (watch_round s) = w_net s - 1" "wd_count (wd (watch_round s)) = 4095"
      "wd_reset (wd (watch_round s)) = wd_reset (wd s)" using round_effect [OF Cons(2) nz] by blast+
    have u: "unat (w_main s - 1) + (a + 1) = 5" "unat (w_net s - 1) + (b + 1) = 5" using nz Cons(4,5) ab(1,2) by (simp_all add: unat_minus_one)
    show ?thesis using Cons(1) [OF w, of "a + 1" "b + 1" 0] Cons(3) e u ab(3) r Second by simp
  next
    case Tick
    have c: "wd_count (wd s) - 1 + (t + 1) = 4095" "wd_count (wd s) - 1 \<noteq> 0" "paced a b (t + 1) es" using Cons(6,7) Tick by auto
    show ?thesis using Cons(1) [OF w, of a b "t + 1"] Cons(2-5) c r Tick by (simp add: wd_tick_def Let_def watching_def)
  qed
qed (simp add: watch_run_def)

text \<open>Without being fed, a counter lets the hardware be cleared at most as often as it says.\<close>

lemma reset_stays: "wd_reset (wd s) \<Longrightarrow> wd_reset (wd (watch_run es s))"
proof (induction es arbitrary: s)
  case (Cons e es)
  have "wd_reset (wd (watch_do e s))"
    using Cons(2) by (cases e) (simp_all add: feed_main_def feed_net_def watch_round_def iwdg_clear_def write_kr_def iwdg_keys wd_tick_def Let_def)
  then show ?case using Cons(1) by (simp add: watch_run_def)
qed (simp add: watch_run_def)

definition starved :: "watch_event list \<Rightarrow> nat \<Rightarrow> watch \<Rightarrow> bool" where
  "starved es k s \<longleftrightarrow> Fed_main \<notin> set es \<and> unat (w_main s) \<le> k \<or> Fed_net \<notin> set es \<and> unat (w_net s) \<le> k"

lemma starved_resets:
  "watching s \<Longrightarrow> starved es k s \<Longrightarrow> wd_count (wd s) + 4095 * k \<le> count_list es Tick \<Longrightarrow> 0 < count_list es Tick \<Longrightarrow> wd_reset (wd (watch_run es s))"
proof (induction es arbitrary: s k)
  case (Cons e es)
  have w: "watching (watch_do e s)" using Cons(2) by (rule watching_kept)
  have r: "watch_run (e # es) s = watch_run es (watch_do e s)" by (simp add: watch_run_def)
  show ?case
  proof (cases e)
    case Fed_main
    then show ?thesis using Cons(1) [OF w, of k] Cons(3-) r by (auto simp: feed_main_def starved_def)
  next
    case Fed_net
    then show ?thesis using Cons(1) [OF w, of k] Cons(3-) r by (auto simp: feed_net_def starved_def)
  next
    case Second
    show ?thesis
    proof (cases "w_main s \<noteq> 0 \<and> w_net s \<noteq> 0")
      case True
      have e: "w_main (watch_round s) = w_main s - 1" "w_net (watch_round s) = w_net s - 1" "wd_count (wd (watch_round s)) = 4095"
        using round_effect [OF Cons(2)] True by blast+
      have pos: "unat (w_main s) \<noteq> 0" "unat (w_net s) \<noteq> 0" using True by (simp_all add: unat_eq_0)
      then have k: "0 < k" using Cons(3) by (auto simp: starved_def)
      have "starved es (k - 1) (watch_round s)" using Cons(3) Second True by (auto simp: starved_def e unat_minus_one)
      moreover have "wd_count (wd (watch_round s)) + 4095 * (k - 1) \<le> count_list es Tick" using Cons(4) Second k e(3) by (cases k) auto
      ultimately show ?thesis using Cons(1) [OF w, of "k - 1"] Cons(5) r Second by simp
    next
      case False
      then have n: "watch_round s = s" by (auto simp: watch_round_def)
      show ?thesis using Cons(1) [OF w, of k] Cons(3-) r Second by (auto simp: n starved_def)
    qed
  next
    case Tick
    have run: "wd_running (wd s)" using Cons(2) by (simp add: watching_def)
    show ?thesis
    proof (cases "wd_count (wd s) - 1 = 0")
      case True
      then have "wd_reset (wd (watch_do e s))" using run Tick by (simp add: wd_tick_def Let_def)
      then show ?thesis unfolding r by (rule reset_stays)
    next
      case False
      then have c: "wd_count (wd (watch_do e s)) = wd_count (wd s) - 1" using run Tick by (simp add: wd_tick_def Let_def)
      have st: "starved es k (watch_do e s)" using Cons(3) Tick by (auto simp: starved_def)
      have "wd_count (wd (watch_do e s)) + 4095 * k \<le> count_list es Tick" "0 < count_list es Tick" using Cons(4) Tick False c by auto
      then show ?thesis using Cons(1) [OF w st] r by simp
    qed
  qed
qed simp

text \<open>
  C33. From the start on: while the threads keep the pace, the chip is not reset; and if the main or the network thread
  stops, it is reset after at most six times 4095 counts of the hardware, even if the clock's thread goes on.
\<close>

theorem watchdog_sound:
  assumes "\<not> wd_reset (wd s)"
  shows "(paced 0 0 0 es \<longrightarrow> \<not> wd_reset (wd (watch_run es (boot_watchdog s))))
    \<and> ((Fed_main \<notin> set fs \<or> Fed_net \<notin> set fs) \<and> 6 * 4095 \<le> count_list fs Tick \<longrightarrow> wd_reset (wd (watch_run fs (boot_watchdog s))))"
proof -
  note b = boot_watching [OF assms]
  have "starved fs 5 (boot_watchdog s)" if "Fed_main \<notin> set fs \<or> Fed_net \<notin> set fs" using that b by (auto simp: starved_def)
  then show ?thesis using paced_no_reset [of "boot_watchdog s" 0 0 0 es] starved_resets [of "boot_watchdog s" fs 5] b by auto
qed

definition watch0 :: watch where
  "watch0 = \<lparr>wd = \<lparr>wd_unlocked = False, wd_pr = 0, wd_rlr = 0, wd_count = 0, wd_running = False, wd_reset = False, dbg_stop = False\<rparr>,
     w_main = 0, w_net = 0\<rparr>"

theorem watchdog_sound_witness:
  "\<not> wd_reset (wd (watch_run [Second, Tick, Fed_main, Fed_net, Second] (boot_watchdog watch0)))
   \<and> wd_reset (wd (watch_run (replicate 24570 Tick) (boot_watchdog watch0)))"
proof -
  have n: "\<not> wd_reset (wd watch0)" by (simp add: watch0_def)
  have c: "count_list (replicate n Tick) Tick = n" for n by (induction n) simp_all
  show ?thesis using watchdog_sound [OF n, of "[Second, Tick, Fed_main, Fed_net, Second]" "replicate 24570 Tick"] by (simp add: c)
qed

end
