(* ===== verification/Spec2Isabelle.thy ===== *)
theory Spec2Isabelle
  imports Vtimer Relay Gps_Parser Bootloader Init Ntp Eeprom EthMac Tcpapi Spi Mainloop Netif Snmp Ntpclient Bytequeue Watchdog
begin

text \<open>
  Verification of the Laureline GPS NTP server firmware.

  The firmware runs on an STM32F107. A GPS receiver delivers a pulse per second and, over a
  serial line, the time of day. The pulse is captured by a timer (\<open>src/src/ppscapture.c\<close>), a
  loop filter (\<open>pllmath.c\<close>) turns the phase errors into a frequency, and the virtual timer
  (\<open>vtimer.c\<close>) counts NTP time at that frequency. The parsers of \<open>src/src/gps/\<close> read the time of
  day out of the receiver's byte stream and hand it to the clock. The NTP server
  (\<open>src/src/net/ntpserver.c\<close>) answers requests from the clock; the relay (\<open>relay.c\<close>) passes the
  receiver's bytes on to a TCP client. The configuration is kept in an EEPROM on an I2C bus
  (\<open>src/src/eeprom.c\<close>, \<open>src/lib/stm32/i2c.c\<close>) and edited from a command line on a serial port
  (\<open>src/src/cmdline.c\<close>, \<open>src/lib/cmdline\<close>). The main thread (\<open>src/src/main.c\<close>) takes the received bytes to
  the command line and to the parsers; the network thread (\<open>src/src/net/tcpip.c\<close>) runs lwIP over the
  Ethernet driver (\<open>src/lib/stm32/eth_mac.c\<close>), and other threads call it through \<open>src/src/net/tcpapi.c\<close>. A separate boot loader (\<open>src/bootloader\<close>) installs
  firmware from Intel HEX files on an SD card.

  Conventions. C integers are words of their width; where the code converts, the definitions
  do. A computation that can fail has type \<open>'a res\<close>, with the faults of \<open>Prelude\<close>: \<open>Halt\<close> for a
  failed \<open>ASSERT\<close>, \<open>Oob\<close> for an access outside an array, \<open>Undef\<close> for undefined behaviour, \<open>Fuel\<close>
  for waiting longer than the inputs last. The static variables of a file are the fields of a
  record that its functions take and return. What the outside world does is an input: the
  values that registers and counters give when they are read, the bytes that arrive, the
  results of FreeRTOS, lwIP and FatFs. Floating-point operations are IEEE operations on \<open>fp\<close>
  (\<open>Cfloat\<close>), with correctly rounded results; \<open>pow\<close> is a parameter.

  Theories, by the part of the program they model:
  \<^item> \<open>Prelude\<close>, \<open>Common\<close>: results that may fail, machine integers, error codes, \<open>memcpy\<close>.
  \<^item> \<open>Epoch\<close> (\<open>epoch.c\<close>): calendar and time scales, against counting days one by one.
  \<^item> \<open>Ppscapture\<close> (\<open>ppscapture.c\<close>, \<open>status.c\<close>): the 64-bit counter built from a 16-bit timer and its
    interrupt handler; the captured time is exact, sleepers wake in time.
  \<^item> \<open>Cfloat\<close>, \<open>Pllmath\<close> (\<open>pllmath.c\<close>): the loop filter and its state machine; an invariant of every
    run, the number of pulses before lock, and that a step with real parameters returns.
  \<^item> \<open>Vtimer\<close> (\<open>vtimer.c\<close>): reading, stepping and steering the clock, one round of its thread;
    monotony, seamless updates, bounds of the rate.
  \<^item> \<open>Parse\<close>, \<open>Gps\<close>, \<open>Motorola\<close>, \<open>Ublox\<close>, \<open>Tsip\<close>, \<open>Nmea\<close>, \<open>Gps_Parser\<close> (\<open>lib/util/parse.c\<close>, \<open>gps/\<close>): each
    protocol as a byte-driven state machine over the shared packet buffer, and the dispatcher
    that locks on to one of them. Safety of every stream, and what a complete frame does.
  \<^item> \<open>Md32\<close> (\<open>lib/crypto\<close>): the digests of MD5 and SHA-1, for any way the message is cut.
  \<^item> \<open>Ntp\<close> (\<open>ntpserver.c\<close>, \<open>udp_reply.c\<close>): the whole frame that answers a request.
  \<^item> \<open>Relay\<close> (\<open>relay.c\<close>): the byte buffer between the receiver and a TCP client.
  \<^item> \<open>I2c\<close>, \<open>Eeprom\<close> (\<open>i2c.c\<close>, \<open>eeprom.c\<close>): the interrupt handlers against the event order that the
    controller's manual gives, and the configuration store against a model of the chip.
  \<^item> \<open>Crc7\<close>, \<open>Mmc\<close> (\<open>crc7.c\<close>, \<open>mmc.c\<close>, \<open>mmc_diskio.c\<close>): the SD card driver and the disk layer.
  \<^item> \<open>Ihex\<close>, \<open>Bootloader\<close> (\<open>ihex.c\<close>, \<open>flash.c\<close>, \<open>bootloader.c\<close>, \<open>main.c\<close>): decoding, the page buffer, the
    flash driver and the loading loop; a completed load is the old contents overlaid with the
    records of the file, and no file can touch the loader itself.
  \<^item> \<open>Init\<close> (\<open>init.c\<close>, \<open>board.c\<close>, \<open>info_table.c\<close>): clock and pin set-up; the PLL setting is the fastest
    admissible one.

  \<^item> \<open>EthMac\<close> (\<open>eth_mac.c\<close>, \<open>tcpip.c\<close>): both descriptor rings with a model of the controller, each a queue;
    link polling, start and stop.
  \<^item> \<open>Netif\<close> (\<open>tcpip.c\<close>): the check that runs once a second; each change is reported once.
  \<^item> \<open>Tcpapi\<close> (\<open>tcpapi.c\<close>, \<open>tcpip.c\<close>): calls of many threads into the network thread as interleaved steps,
    against a specification in which a call is one step; no message outlives its call.
  \<^item> \<open>Format\<close>, \<open>Settings\<close>, \<open>Cmdline\<close> (\<open>uptime.c\<close>, \<open>settings.c\<close>, \<open>core.c\<close>, \<open>cmdline.c\<close>): printing and parsing of every
    setting, the line editor and the commands; settings survive printing and typing.
  \<^item> \<open>Dma\<close>, \<open>Spi\<close>, \<open>Serial\<close> (\<open>dma.c\<close>, \<open>spi.c\<close>, \<open>serial.c\<close>): the channels and their handlers; an exchange over two
    channels is the exchange that \<open>Mmc\<close> assumes; a port's writer and its interrupt, interleaved.
  \<^item> \<open>Mainloop\<close> (\<open>main.c\<close>): the main thread with the interrupts of all ports, the command line and the parsers;
    every accepted byte reaches its consumer once and in order.
  \<^item> \<open>Logging\<close> (\<open>logging.c\<close>): the two forms of a message in one buffer, and which messages fit.
  \<^item> \<open>Snmp\<close> (\<open>snmp_app.c\<close>), \<open>Ntpclient\<close> (\<open>ntpclient.c\<close>): the objects of the agent; the rounds of the client.
  \<^item> \<open>Watchdog\<close> (\<open>iwdg.c\<close>, \<open>vtimer.c\<close>, \<open>main.c\<close>, \<open>tcpip.c\<close>): who feeds the watchdog, and when it resets the chip.
  \<^item> \<open>Bytequeue\<close> (\<open>lib/util/queue.c\<close>): a ring buffer between a thread and an interrupt, unused by the firmware.

  Interfaces are locales: the formats of floating-point numbers (\<open>fp_format\<close>, for binary64 and
  binary32), the sinks of the HEX decoder (\<open>ihex_sink\<close>, \<open>record_sink\<close>), the digests (\<open>md32\<close>), byte queues (\<open>byte_fifo\<close>) and
  others; each is interpreted on the definitions that model the code. Contracts of code that
  is not here are named predicates with a concrete instance: \<open>lwip_ok\<close> for packet buffers, \<open>netif_ok\<close> for the interface,
  \<open>hw_frame\<close> for the flash controller, \<open>settles\<close> for the clock registers.

  Bounds and fuel. Loops over data are recursions on it. Loops that wait for hardware take
  the list of what they will see and give \<open>Fuel\<close> when it ends. \<open>eeprom_do\<close> has fuel 5, as many
  rounds as its retry counter allows.

  Concurrency. A thread that an interrupt or another thread can overtake is a step relation whose steps are
  the sections that run undisturbed; the theorems are about all runs, by an invariant. What can always go on to
  its end is stated as the existence of a run to it.

  Not modelled: FreeRTOS, FatFs and lwIP, which are third-party or not in the repository; the start-up code, the fault
  handler and the register headers of \<open>ports/\<close>; the assembly of SHA-1; \<open>main\<close>, which calls functions that are
  modelled and starts the scheduler; how the interface, the sockets and the timers are registered with lwIP, and its statistics; the
  profiler, which is compiled out.
\<close>

end
